(* ===== verification/GoPrelude.thy ===== *)
theory GoPrelude
  imports Main "HOL-Library.Char_ord" "HOL-Library.Word"
begin

text \<open>
  Shared vocabulary of the development: Go strings and byte slices as lists of
  \<^typ>\<open>char\<close> (one \<^typ>\<open>char\<close> is one byte), Go's 64-bit \<open>int\<close>
  as \<^typ>\<open>int\<close> with the wrap-around written out, truncated division, results
  that carry an error, the counting loop \<open>for ; i < len(s); i++\<close> that skips a class
  of bytes, and the collections of facts the component theories share.
\<close>

named_theorems go_defs
  \<open>definitions of the modelled operations, unfolded together\<close>
named_theorems go_scan
  \<open>facts on scanning loops\<close>

section \<open>Types\<close>

type_synonym byte = char
type_synonym gostring = "char list"
type_synonym 'a err = "string + 'a"

abbreviation byte_val :: "byte \<Rightarrow> nat" where
  "byte_val c \<equiv> of_char c"

text \<open>A chain of early returns that gave \<open>r\<close>, as the branch that was taken.\<close>

lemma if_eq_disj: "((if c then a else b) = r) \<longleftrightarrow> (c \<and> a = r) \<or> (\<not> c \<and> b = r)"
  by simp

section \<open>Outcomes of a call\<close>

text \<open>
  A call returns a value, returns a non-nil error, or panics (an index or a slice out of
  range, a send on a closed channel).  Functions that cannot return an error but can
  panic return an option.
\<close>

datatype ('e, 'a) go = Return 'a | Error 'e | Panic

fun bind_go :: "('e, 'a) go \<Rightarrow> ('a \<Rightarrow> ('e, 'b) go) \<Rightarrow> ('e, 'b) go" where
  "bind_go (Return a) f = f a"
| "bind_go (Error e) f = Error e"
| "bind_go Panic f = Panic"

lemma bind_go_cong [fundef_cong]:
  assumes "m = m'" and "\<And>a. m' = Return a \<Longrightarrow> f a = f' a"
  shows "bind_go m f = bind_go m' f'"
  using assms by (cases m') auto

lemma bind_go_eq_Return [simp]:
  "bind_go m f = Return b \<longleftrightarrow> (\<exists>a. m = Return a \<and> f a = Return b)"
  by (cases m) auto

fun or_panic :: "'a option \<Rightarrow> ('e, 'a) go" where
  "or_panic None = Panic"
| "or_panic (Some a) = Return a"

lemma or_panic_eq_Return [simp]: "or_panic m = Return a \<longleftrightarrow> m = Some a"
  by (cases m) auto

section \<open>Machine integers\<close>

text \<open>Go's \<open>int\<close> has 64 bits on the supported platforms; every operation wraps.\<close>

definition wrap64 :: "int \<Rightarrow> int" where
  "wrap64 x = (x + 2 ^ 63) mod 2 ^ 64 - 2 ^ 63"

definition in_int64 :: "int \<Rightarrow> bool" where
  "in_int64 x \<longleftrightarrow> - (2 ^ 63) \<le> x \<and> x < 2 ^ 63"

lemma wrap64_id [simp]: "in_int64 x \<Longrightarrow> wrap64 x = x"
  by (simp add: wrap64_def in_int64_def)

lemma wrap64_in_int64 [simp, intro]: "in_int64 (wrap64 x)"
  by (simp add: wrap64_def in_int64_def)

lemma wrap64_add: "wrap64 (wrap64 a + b) = wrap64 (a + b)"
proof -
  have "((a + 2 ^ 63) mod 2 ^ 64 - 2 ^ 63 + b + 2 ^ 63) mod 2 ^ 64 = ((a + 2 ^ 63) mod 2 ^ 64 + b) mod (2 ^ 64 :: int)"
    by (simp add: algebra_simps)
  also have "\<dots> = (a + b + 2 ^ 63) mod 2 ^ 64" by (simp add: mod_simps algebra_simps)
  finally show ?thesis by (simp add: wrap64_def)
qed

lemma wrap64_add_right: "wrap64 (b + wrap64 a) = wrap64 (b + a)"
  using wrap64_add [of a b] by (simp add: add.commute)

lemma in_int64_between: "in_int64 a \<Longrightarrow> in_int64 b \<Longrightarrow> a \<le> x \<Longrightarrow> x \<le> b \<Longrightarrow> in_int64 x"
  by (simp add: in_int64_def)

text \<open>Go's \<open>/\<close> on integers truncates towards zero; a zero divisor panics and is
  guarded by every caller modelled here.\<close>

definition go_div :: "int \<Rightarrow> int \<Rightarrow> int" where
  "go_div a b = sgn a * sgn b * (\<bar>a\<bar> div \<bar>b\<bar>)"

definition go_mod :: "int \<Rightarrow> int \<Rightarrow> int" where
  "go_mod a b = a - b * go_div a b"

lemma go_div_nonneg [simp]: "0 \<le> a \<Longrightarrow> 0 < b \<Longrightarrow> go_div a b = a div b"
  by (cases "a = 0") (simp_all add: go_div_def)

lemma go_mod_nonneg [simp]: "0 \<le> a \<Longrightarrow> 0 < b \<Longrightarrow> go_mod a b = a mod b"
  by (simp add: go_mod_def minus_mult_div_eq_mod)

section \<open>The scanning loop\<close>

text \<open>
  \<open>for ; i < len(data); i++ { if !p(data[i]) { break } }\<close>: the index of the first byte
  at or after \<open>i\<close> that fails \<open>p\<close>, or the length.
\<close>

function skip_while :: "('a \<Rightarrow> bool) \<Rightarrow> 'a list \<Rightarrow> nat \<Rightarrow> nat" where
  "skip_while p xs i =
     (if i < length xs \<and> p (xs ! i) then skip_while p xs (Suc i) else i)"
  by pat_completeness auto
termination
  by (relation "measure (\<lambda>(p, xs, i). length xs - i)") auto

declare skip_while.simps [simp del]

lemma skip_while_takeWhile:
  "skip_while p xs i = i + length (takeWhile p (drop i xs))"
proof (induction p xs i rule: skip_while.induct)
  case (1 p xs i)
  show ?case
  proof (cases "i < length xs")
    case True
    then have "drop i xs = xs ! i # drop (Suc i) xs"
      by (rule Cons_nth_drop_Suc [symmetric])
    with 1 True show ?thesis
      by (subst skip_while.simps) simp
  qed (simp add: skip_while.simps)
qed

lemma skip_while_ge [go_scan, simp]: "i \<le> skip_while p xs i"
  by (simp add: skip_while_takeWhile)

lemma skip_while_geI [go_scan, simp, intro]: "i \<le> k \<Longrightarrow> i \<le> skip_while p xs k"
  by (meson le_trans skip_while_ge)

lemma skip_while_Suc_le: "Suc (skip_while p xs i) \<le> j \<Longrightarrow> i \<le> j"
  by (meson Suc_leD le_trans skip_while_ge)

lemma skip_while_leD: "skip_while p xs i \<le> j \<Longrightarrow> i \<le> j"
  by (meson le_trans skip_while_ge)

lemma skip_while_le [go_scan]: "i \<le> length xs \<Longrightarrow> skip_while p xs i \<le> length xs"
  using length_takeWhile_le [of p "drop i xs"] by (simp add: skip_while_takeWhile)

lemma skip_while_stop [go_scan]:
  "skip_while p xs i < length xs \<Longrightarrow> \<not> p (xs ! skip_while p xs i)"
proof -
  assume "skip_while p xs i < length xs"
  moreover from this have "i < length xs"
    by (meson le_less_trans skip_while_ge)
  ultimately show ?thesis
    using nth_length_takeWhile [of p "drop i xs"] by (simp add: skip_while_takeWhile)
qed

lemma skip_while_segment [go_scan]:
  "list_all p (take (skip_while p xs i - i) (drop i xs))"
proof -
  have "take (skip_while p xs i - i) (drop i xs) = takeWhile p (drop i xs)"
    unfolding skip_while_takeWhile by (metis add_diff_cancel_left' takeWhile_eq_take)
  then show ?thesis by (auto simp: list_all_iff dest: set_takeWhileD)
qed

text \<open>A run of bytes that satisfy \<open>p\<close>, followed by one that does not (or the end).\<close>

lemma skip_while_append [go_scan]:
  assumes "list_all p w" and "post = [] \<or> \<not> p (hd post)"
  shows "skip_while p (pre @ w @ post) (length pre) = length pre + length w"
proof -
  have "takeWhile p (w @ post) = w"
    using assms by (cases post) (auto simp: takeWhile_append2 list_all_iff)
  then show ?thesis by (simp add: skip_while_takeWhile)
qed

lemma skip_while_idem [go_scan]: "skip_while p xs (skip_while p xs i) = skip_while p xs i"
proof (cases "skip_while p xs i < length xs")
  case True
  from skip_while_stop [OF True] show ?thesis by (subst skip_while.simps) simp
next
  case False
  then show ?thesis by (subst skip_while.simps) simp
qed

text \<open>Induction over an index that a loop moves up to the length of a list.\<close>

lemma index_up_induct [case_names step]:
  assumes "\<And>i. (\<And>k. i < k \<Longrightarrow> i < n \<Longrightarrow> P k) \<Longrightarrow> P i"
  shows "P (i :: nat)"
proof (induction "n - i" arbitrary: i rule: less_induct)
  case less
  show ?case by (rule assms) (rule less, simp)
qed

section \<open>Counting\<close>

text \<open>How many elements satisfy a test, as an \<open>int\<close>, and what an update by index does to it.\<close>

definition num :: "('a \<Rightarrow> bool) \<Rightarrow> 'a list \<Rightarrow> int" where
  "num P xs = int (length (filter P xs))"

lemma num_append [simp]: "num P (xs @ ys) = num P xs + num P ys"
  by (simp add: num_def)

lemma num_Cons [simp]: "num P (x # xs) = of_bool (P x) + num P xs"
  by (simp add: num_def)

lemma num_Nil [simp]: "num P [] = 0"
  by (simp add: num_def)

lemma num_update: "i < length xs \<Longrightarrow> num P (xs[i := y]) = num P xs - of_bool (P (xs ! i)) + of_bool (P y)"
  by (induction xs arbitrary: i) (auto split: nat.split)

lemma num_pos: "x \<in> set xs \<Longrightarrow> P x \<Longrightarrow> 0 < num P xs"
  by (auto simp: num_def filter_empty_conv)

lemma num_zero: "num P xs = 0 \<longleftrightarrow> (\<forall>x \<in> set xs. \<not> P x)"
  by (simp add: num_def filter_empty_conv)

lemma num_nonneg [simp]: "0 \<le> num P xs"
  by (simp add: num_def)

section \<open>Trailing backslashes\<close>

text \<open>The number of backslashes that a string ends in; its parity tells whether the next character
  is escaped.\<close>

definition trailing :: "gostring \<Rightarrow> nat" where
  "trailing s = length (takeWhile (\<lambda>c. c = CHR 0x5C) (rev s))"

lemma trailing_Nil [simp]: "trailing [] = 0"
  by (simp add: trailing_def)

lemma trailing_snoc: "trailing (s @ [c]) = (if c = CHR 0x5C then Suc (trailing s) else 0)"
  by (simp add: trailing_def)

lemma trailing_plain: "c \<noteq> CHR 0x5C \<Longrightarrow> trailing (p @ c # s) = trailing s"
  unfolding trailing_def by (simp add: takeWhile_tail)

lemma takeWhile_all_append: "\<forall>x \<in> set xs. P x \<Longrightarrow> takeWhile P (xs @ ys) = xs @ takeWhile P ys"
  by (rule takeWhile_append2) auto

lemma trailing_pair: "even (trailing (CHR 0x5C # c # s)) \<longleftrightarrow> even (trailing s)"
proof (cases "\<forall>x \<in> set s. x = CHR 0x5C")
  case True
  then have h: "takeWhile (\<lambda>c. c = CHR 0x5C) (rev s @ xs) = rev s @ takeWhile (\<lambda>c. c = CHR 0x5C) xs" for xs
    by (intro takeWhile_all_append) simp
  have "trailing (CHR 0x5C # c # s) = length (rev s @ takeWhile (\<lambda>c. c = CHR 0x5C) [c, CHR 0x5C])"
    unfolding h [symmetric] by (simp add: trailing_def)
  moreover have "trailing s = length (rev s)" using h [of "[]"] unfolding trailing_def by (simp only: append_Nil2 takeWhile.simps)
  ultimately show ?thesis by (cases "c = CHR 0x5C") simp_all
next
  case False
  then obtain x where "x \<in> set (rev s)" "x \<noteq> CHR 0x5C" by auto
  then have "takeWhile (\<lambda>c. c = CHR 0x5C) (rev s @ xs) = takeWhile (\<lambda>c. c = CHR 0x5C) (rev s)" for xs
    by (rule takeWhile_append1)
  from this [of "[c, CHR 0x5C]"] show ?thesis by (simp add: trailing_def)
qed

lemma trailing_take_Suc: "m < length s \<Longrightarrow> trailing (take (Suc m) s) = (if s ! m = CHR 0x5C then Suc (trailing (take m s)) else 0)"
  by (simp add: take_Suc_conv_app_nth trailing_snoc)

end
