(* ===== verification/FjValid.thy ===== *)
theory FjValid
  imports GoPrelude
begin

text \<open>
  The JSON validator of \<open>pkg/fj\<close>: the \<open>expect*\<close> functions of
  \<open>utilities.go\<close> and \<open>IsValidJSON\<close> of \<open>fj.go\<close>. Every function takes the
  whole byte slice and an index and returns the new index and a flag, as the code
  does. The mutual recursion of \<open>expectValue\<close>, \<open>expectArray\<close> and
  \<open>expectObject\<close> is total: its termination proof rests on \<open>expect_dom_ge\<close>,
  that a successful call never moves the index back. \<open>FjGrammar\<close> compares the
  validator with the grammar of RFC 8259.
\<close>

section \<open>Character classes\<close>

definition is_ws :: "byte \<Rightarrow> bool" where
  "is_ws c \<longleftrightarrow> c = CHR '' '' \<or> c = CHR 0x09 \<or> c = CHR 0x0A \<or> c = CHR 0x0D"

definition is_digit :: "byte \<Rightarrow> bool" where
  "is_digit c \<longleftrightarrow> CHR ''0'' \<le> c \<and> c \<le> CHR ''9''"

definition is_hex :: "byte \<Rightarrow> bool" where
  "is_hex c \<longleftrightarrow> (CHR ''0'' \<le> c \<and> c \<le> CHR ''9'') \<or> (CHR ''a'' \<le> c \<and> c \<le> CHR ''f'')
     \<or> (CHR ''A'' \<le> c \<and> c \<le> CHR ''F'')"

definition is_simple_escape :: "byte \<Rightarrow> bool" where
  "is_simple_escape c \<longleftrightarrow> c \<in> {CHR 0x22, CHR 0x5C, CHR ''/'', CHR ''b'', CHR ''f'', CHR ''n'', CHR ''r'', CHR ''t''}"

section \<open>The validator\<close>

text \<open>\<open>if i, ok = f(data, i); !ok { return i, false }\<close>, then the rest of the body.\<close>

definition on_ok :: "nat \<times> bool \<Rightarrow> (nat \<Rightarrow> nat \<times> bool) \<Rightarrow> nat \<times> bool" where
  "on_ok r k = (if snd r then k (fst r) else (fst r, False))"

lemma on_ok_cong [fundef_cong]:
  "r = r' \<Longrightarrow> (\<And>i. r' = (i, True) \<Longrightarrow> k i = k' i) \<Longrightarrow> on_ok r k = on_ok r' k'"
  by (cases r') (auto simp: on_ok_def)

lemma on_ok_eq_True:
  "on_ok r k = (j, True) \<longleftrightarrow> (\<exists>i. r = (i, True) \<and> k i = (j, True))"
  by (cases r) (auto simp: on_ok_def)

lemma on_ok_simps [simp]: "on_ok (i, True) k = k i" "on_ok (i, False) k = (i, False)"
  by (simp_all add: on_ok_def)

subsection \<open>Literals\<close>

definition expectTrue :: "gostring \<Rightarrow> nat \<Rightarrow> nat \<times> bool" where
  "expectTrue data i =
     (if i + 3 \<le> length data \<and> data ! i = CHR ''r'' \<and> data ! (i + 1) = CHR ''u'' \<and>
         data ! (i + 2) = CHR ''e''
      then (i + 3, True) else (i, False))"

definition expectFalse :: "gostring \<Rightarrow> nat \<Rightarrow> nat \<times> bool" where
  "expectFalse data i =
     (if i + 4 \<le> length data \<and> data ! i = CHR ''a'' \<and> data ! (i + 1) = CHR ''l'' \<and>
         data ! (i + 2) = CHR ''s'' \<and> data ! (i + 3) = CHR ''e''
      then (i + 4, True) else (i, False))"

definition expectNull :: "gostring \<Rightarrow> nat \<Rightarrow> nat \<times> bool" where
  "expectNull data i =
     (if i + 3 \<le> length data \<and> data ! i = CHR ''u'' \<and> data ! (i + 1) = CHR ''l'' \<and>
         data ! (i + 2) = CHR ''l''
      then (i + 3, True) else (i, False))"

subsection \<open>Numbers\<close>

text \<open>The three stages of \<open>expectNumber\<close>, each entered with the index the code has there.\<close>

definition expectNumberExp :: "gostring \<Rightarrow> nat \<Rightarrow> nat \<times> bool" where
  "expectNumberExp data i =
     (if i = length data then (i, True)
      else if data ! i = CHR ''e'' \<or> data ! i = CHR ''E'' then
        (let i = i + 1 in
         if i = length data then (i, False)
         else
           (let i = (if data ! i = CHR ''+'' \<or> data ! i = CHR ''-'' then i + 1 else i) in
            if i = length data \<or> \<not> is_digit (data ! i) then (i, False)
            else (skip_while is_digit data (i + 1), True)))
      else (i, True))"

definition expectNumberFrac :: "gostring \<Rightarrow> nat \<Rightarrow> nat \<times> bool" where
  "expectNumberFrac data i =
     (if i = length data then (i, True)
      else if data ! i = CHR ''.'' then
        (let i = i + 1 in
         if i = length data \<or> \<not> is_digit (data ! i) then (i, False)
         else expectNumberExp data (skip_while is_digit data (i + 1)))
      else expectNumberExp data i)"

definition expectNumberInt :: "gostring \<Rightarrow> nat \<Rightarrow> nat \<times> bool" where
  "expectNumberInt data i =
     (if i = length data then (i, False)
      else if data ! i = CHR ''0'' then expectNumberFrac data (i + 1)
      else expectNumberFrac data (skip_while is_digit data i))"

definition expectNumber :: "gostring \<Rightarrow> nat \<Rightarrow> nat \<times> bool" where
  "expectNumber data i =
     (if i \<le> 0 \<or> i \<ge> length data then (i, False)
      else
        (let i = i - 1 in
         if data ! i = CHR ''-'' then
           (let i = i + 1 in
            if i = length data \<or> \<not> is_digit (data ! i) then (i, False)
            else expectNumberInt data i)
         else expectNumberInt data i))"

subsection \<open>Strings\<close>

text \<open>The inner loop over the four hex digits of an escape; \<open>n\<close> digits remain.\<close>

fun expectHex4 :: "gostring \<Rightarrow> nat \<Rightarrow> nat \<Rightarrow> nat \<times> bool" where
  "expectHex4 data i 0 = (i, True)"
| "expectHex4 data i (Suc n) =
     (let i = i + 1 in
      if i \<ge> length data then (i, False)
      else if \<not> is_hex (data ! i) then (i, False)
      else expectHex4 data i n)"

lemma expectHex4_ge: "expectHex4 data i n = (j, b) \<Longrightarrow> i \<le> j"
  by (induction data i n rule: expectHex4.induct) (auto simp: Let_def split: if_splits)

function expectString :: "gostring \<Rightarrow> nat \<Rightarrow> nat \<times> bool" where
  "expectString data i =
     (if i < length data then
        (if data ! i < CHR '' '' then (i, False)
         else if data ! i = CHR 0x5C then
           (if i + 1 = length data then (i + 1, False)
            else if is_simple_escape (data ! (i + 1)) then expectString data (i + 2)
            else if data ! (i + 1) = CHR ''u'' then
              on_ok (expectHex4 data (i + 1) 4) (\<lambda>j. expectString data (j + 1))
            else (i + 1, False))
         else if data ! i = CHR 0x22 then (i + 1, True)
         else expectString data (i + 1))
      else (i, False))"
  by pat_completeness auto
termination
  by (relation "measure (\<lambda>(data, i). length data - i)") (auto dest!: expectHex4_ge)

declare expectString.simps [simp del]

subsection \<open>Separators\<close>

definition expectCommaOrEnd :: "gostring \<Rightarrow> nat \<Rightarrow> byte \<Rightarrow> nat \<times> bool" where
  "expectCommaOrEnd data i end =
     (let i = skip_while is_ws data i in
      if i < length data \<and> (data ! i = CHR '','' \<or> data ! i = end) then (i, True)
      else (i, False))"

definition expectColon :: "gostring \<Rightarrow> nat \<Rightarrow> nat \<times> bool" where
  "expectColon data i =
     (let i = skip_while is_ws data i in
      if i < length data \<and> data ! i = CHR '':'' then (i + 1, True)
      else (i, False))"

subsection \<open>Values, arrays and objects\<close>

text \<open>
  \<open>arrayLoop\<close> is the inner loop of \<open>expectArray\<close> and \<open>objectKey\<close> the code
  from the label \<open>key\<close> of \<open>expectObject\<close> to the jump back to it.
\<close>

function expectValue :: "gostring \<Rightarrow> nat \<Rightarrow> nat \<times> bool"
  and expectArray :: "gostring \<Rightarrow> nat \<Rightarrow> nat \<times> bool"
  and arrayLoop :: "gostring \<Rightarrow> nat \<Rightarrow> nat \<times> bool"
  and expectObject :: "gostring \<Rightarrow> nat \<Rightarrow> nat \<times> bool"
  and objectKey :: "gostring \<Rightarrow> nat \<Rightarrow> nat \<times> bool" where
  "expectValue data i =
     (let i = skip_while is_ws data i in
      if i \<ge> length data then (i, False)
      else if data ! i = CHR ''{'' then expectObject data (i + 1)
      else if data ! i = CHR ''['' then expectArray data (i + 1)
      else if data ! i = CHR 0x22 then expectString data (i + 1)
      else if data ! i = CHR ''-'' \<or> is_digit (data ! i) then expectNumber data (i + 1)
      else if data ! i = CHR ''t'' then expectTrue data (i + 1)
      else if data ! i = CHR ''f'' then expectFalse data (i + 1)
      else if data ! i = CHR ''n'' then expectNull data (i + 1)
      else (i, False))"
| "expectArray data i =
     (let i = skip_while is_ws data i in
      if i \<ge> length data then (i, False)
      else if data ! i = CHR '']'' then (i + 1, True)
      else arrayLoop data i)"
| "arrayLoop data i =
     (if i < length data then
        on_ok (expectValue data i) (\<lambda>j.
        on_ok (expectCommaOrEnd data j (CHR '']'')) (\<lambda>k.
        if data ! k = CHR '']'' then (k + 1, True) else arrayLoop data (k + 1)))
      else (i + 1, False))"
| "expectObject data i =
     (let i = skip_while is_ws data i in
      if i \<ge> length data then (i, False)
      else if data ! i = CHR ''}'' then (i + 1, True)
      else if data ! i = CHR 0x22 then objectKey data i
      else (i, False))"
| "objectKey data i =
     on_ok (expectString data (i + 1)) (\<lambda>j.
     on_ok (expectColon data j) (\<lambda>k.
     on_ok (expectValue data k) (\<lambda>l.
     on_ok (expectCommaOrEnd data l (CHR ''}'')) (\<lambda>m.
     if data ! m = CHR ''}'' then (m + 1, True)
     else
       (let n = skip_while is_ws data (m + 1) in
        if n < length data \<and> data ! n = CHR 0x22 then objectKey data n
        else (n, False))))))"
  by pat_completeness auto

text \<open>Progress of the leaf functions, then of the recursion on its domain.\<close>

lemma expectCommaOrEnd_ok:
  "expectCommaOrEnd data i e = (j, True) \<Longrightarrow>
   j = skip_while is_ws data i \<and> i \<le> j \<and> j < length data \<and> (data ! j = CHR '','' \<or> data ! j = e)"
  by (auto simp: expectCommaOrEnd_def Let_def split: if_splits)

lemma expectColon_ok:
  "expectColon data i = (j, True) \<Longrightarrow>
   j = Suc (skip_while is_ws data i) \<and> i < j \<and> j \<le> length data \<and> data ! (j - 1) = CHR '':''"
  by (auto simp: expectColon_def Let_def le_imp_less_Suc split: if_splits)

lemma expectString_ge: "expectString data i = (j, True) \<Longrightarrow> i < j \<and> j \<le> length data"
proof (induction i rule: index_up_induct [where n = "length data"])
  case (step i)
  from step.prems show ?case
    by (subst (asm) expectString.simps)
       (fastforce simp: on_ok_eq_True split: if_splits dest: step.IH [rotated 2] expectHex4_ge)
qed

lemma expectNumberExp_ge: "expectNumberExp data i = (j, True) \<Longrightarrow> i \<le> j"
  by (auto simp: expectNumberExp_def Let_def split: if_splits
      dest!: skip_while_leD)

lemma expectNumberFrac_ge: "expectNumberFrac data i = (j, True) \<Longrightarrow> i \<le> j"
  by (auto simp: expectNumberFrac_def Let_def split: if_splits
      dest!: expectNumberExp_ge skip_while_leD)

lemma expectNumberInt_ge: "expectNumberInt data i = (j, True) \<Longrightarrow> i \<le> j"
  by (auto simp: expectNumberInt_def Let_def split: if_splits
      dest!: expectNumberFrac_ge skip_while_leD)

lemma expectNumber_ge: "expectNumber data (Suc i) = (j, True) \<Longrightarrow> i \<le> j"
  by (auto simp: expectNumber_def Let_def split: if_splits dest!: expectNumberInt_ge)

lemma expect_literals_ge:
  "expectTrue data i = (j, True) \<Longrightarrow> i \<le> j"
  "expectFalse data i = (j, True) \<Longrightarrow> i \<le> j"
  "expectNull data i = (j, True) \<Longrightarrow> i \<le> j"
  by (auto simp: expectTrue_def expectFalse_def expectNull_def split: if_splits)

lemmas expect_ge = expectCommaOrEnd_ok expectColon_ok expectString_ge expectNumber_ge
  expect_literals_ge skip_while_Suc_le skip_while_leD

lemma expect_dom_ge:
  "expectValue_expectArray_arrayLoop_expectObject_objectKey_dom (Inl (Inl (data, i))) \<Longrightarrow>
     expectValue data i = (j, True) \<Longrightarrow> i \<le> j"
  "expectValue_expectArray_arrayLoop_expectObject_objectKey_dom (Inl (Inr (data, i))) \<Longrightarrow>
     expectArray data i = (j, True) \<Longrightarrow> i \<le> j"
  "expectValue_expectArray_arrayLoop_expectObject_objectKey_dom (Inr (Inl (data, i))) \<Longrightarrow>
     arrayLoop data i = (j, True) \<Longrightarrow> i \<le> j"
  "expectValue_expectArray_arrayLoop_expectObject_objectKey_dom (Inr (Inr (Inl (data, i)))) \<Longrightarrow>
     expectObject data i = (j, True) \<Longrightarrow> i \<le> j"
  "expectValue_expectArray_arrayLoop_expectObject_objectKey_dom (Inr (Inr (Inr (data, i)))) \<Longrightarrow>
     objectKey data i = (j, True) \<Longrightarrow> i \<le> j"
  apply (induction data i and data i and data i and data i and data i arbitrary: j and j and j and j and j
    rule: expectValue_expectArray_arrayLoop_expectObject_objectKey.pinduct)
  subgoal premises p for data i j
  proof -
    obtain k where k: "skip_while is_ws data i = k" "i \<le> k" by simp
    show ?thesis
      using p(4) p(2) [OF k(1) [symmetric], of j] p(3) [OF k(1) [symmetric], of j] k(2)
      unfolding expectValue.psimps [OF p(1)] Let_def k(1)
      by (auto split: if_splits dest: expect_ge)
  qed
  subgoal premises p for data i j
    using p(3) p(2) [OF refl, of j]
    unfolding expectArray.psimps [OF p(1)] Let_def
    by (auto simp: le_SucI split: if_splits dest: skip_while_leD)
  subgoal premises p for data i j
  proof -
    from p(4) have i: "i < length data"
      unfolding arrayLoop.psimps [OF p(1)] by (simp split: if_splits)
    from p(4) i obtain k l where r: "expectValue data i = (k, True)"
      "expectCommaOrEnd data k (CHR '']'') = (l, True)"
      "(if data ! l = CHR '']'' then (l + 1, True) else arrayLoop data (l + 1)) = (j, True)"
      unfolding arrayLoop.psimps [OF p(1)] by (auto simp: on_ok_eq_True)
    have "i \<le> l" using p(2) [OF i r(1)] expectCommaOrEnd_ok [OF r(2)] by simp
    then show ?thesis
      using r(3) p(3) [OF i r(1,2), of j] by (auto split: if_splits)
  qed
  subgoal premises p for data i j
    using p(3) p(2) [OF refl, of j]
    unfolding expectObject.psimps [OF p(1)] Let_def
    by (auto simp: le_SucI split: if_splits dest: skip_while_leD)
  subgoal premises p for data i j
  proof -
    from p(4) obtain k l m n where r: "expectString data (i + 1) = (k, True)"
      "expectColon data k = (l, True)" "expectValue data l = (m, True)"
      "expectCommaOrEnd data m (CHR ''}'') = (n, True)"
      unfolding objectKey.psimps [OF p(1)] by (auto simp: on_ok_eq_True)
    have "i \<le> n"
      using expectString_ge [OF r(1)] expectColon_ok [OF r(2)] p(2) [OF r(1,2,3)]
        expectCommaOrEnd_ok [OF r(4)] by linarith
    then show ?thesis
      using p(4) p(3) [OF r(1-4) _ refl, of j] r
      unfolding objectKey.psimps [OF p(1)]
      by (auto simp: Let_def split: if_splits dest!: skip_while_leD)
  qed
  done

termination expectValue
  apply (relation "measure (\<lambda>x. case x of
      Inl (Inl (data, i)) \<Rightarrow> 3 * (length data - i)
    | Inl (Inr (data, i)) \<Rightarrow> 3 * (length data - i) + 2
    | Inr (Inl (data, i)) \<Rightarrow> 3 * (length data - i) + 1
    | Inr (Inr (Inl (data, i))) \<Rightarrow> 3 * (length data - i) + 2
    | Inr (Inr (Inr (data, i))) \<Rightarrow> 3 * (length data - i) + 1)")
  by (auto dest!: expect_dom_ge expectString_ge expectColon_ok expectCommaOrEnd_ok
      simp: skip_while_takeWhile)

declare expectValue.simps [simp del] expectArray.simps [simp del] arrayLoop.simps [simp del]
  expectObject.simps [simp del] objectKey.simps [simp del]

lemma expectValue_ok_less:
  assumes ok: "expectValue data i = (j, True)" and k: "k = skip_while is_ws data i"
  shows "k < length data"
proof (rule ccontr)
  assume "\<not> k < length data"
  then have n: "length data \<le> k" by simp
  note eq = ok [unfolded expectValue.simps [of data i] Let_def, folded k]
  show False using eq n by simp
qed

lemma expectArray_ok_less:
  assumes ok: "expectArray data i = (j, True)" and k: "k = skip_while is_ws data i"
  shows "k < length data"
proof (rule ccontr)
  assume "\<not> k < length data"
  then have n: "length data \<le> k" by simp
  note eq = ok [unfolded expectArray.simps [of data i] Let_def, folded k]
  show False using eq n by simp
qed

lemma expectObject_ok_less:
  assumes ok: "expectObject data i = (j, True)" and k: "k = skip_while is_ws data i"
  shows "k < length data"
proof (rule ccontr)
  assume "\<not> k < length data"
  then have n: "length data \<le> k" by simp
  note eq = ok [unfolded expectObject.simps [of data i] Let_def, folded k]
  show False using eq n by simp
qed

subsection \<open>Whole documents\<close>

definition expectJSON :: "gostring \<Rightarrow> nat \<Rightarrow> nat \<times> bool" where
  "expectJSON data i =
     (let i = skip_while is_ws data i in
      if i < length data then
        on_ok (expectValue data i) (\<lambda>i.
          let i = skip_while is_ws data i in
          if i < length data then (i, False) else (i, True))
      else (i, False))"

definition IsValidJSON :: "gostring \<Rightarrow> bool" where
  "IsValidJSON json = snd (expectJSON json 0)"

text \<open>\<open>UnsafeBytes\<close> reinterprets the string header; the bytes are the same.\<close>

definition UnsafeBytes :: "gostring \<Rightarrow> gostring" where
  "UnsafeBytes s = s"

definition IsValidJSONString :: "gostring \<Rightarrow> bool" where
  "IsValidJSONString json = snd (expectJSON (UnsafeBytes json) 0)"

end
