(* ===== verification/FjGrammar.thy ===== *)
theory FjGrammar
  imports FjValid
begin

text \<open>
  The grammar of RFC 8259, written independently of the code, and the proof that the
  validator of \<open>FjValid\<close> accepts exactly that language but for one family of
  inputs: a document whose value is a single digit with nothing behind it.
\<close>

section \<open>The grammar\<close>

definition json_ws :: "gostring \<Rightarrow> bool" where
  "json_ws w \<longleftrightarrow> list_all is_ws w"

definition digits1 :: "gostring \<Rightarrow> bool" where
  "digits1 ds \<longleftrightarrow> ds \<noteq> [] \<and> list_all is_digit ds"

definition json_int :: "gostring \<Rightarrow> bool" where
  "json_int ds \<longleftrightarrow> digits1 ds \<and> (hd ds = CHR ''0'' \<longrightarrow> length ds = 1)"

definition json_frac :: "gostring \<Rightarrow> bool" where
  "json_frac s \<longleftrightarrow> s = [] \<or> (\<exists>ds. s = CHR ''.'' # ds \<and> digits1 ds)"

definition json_exp :: "gostring \<Rightarrow> bool" where
  "json_exp s \<longleftrightarrow> s = [] \<or>
     (\<exists>e sg ds. s = e # sg @ ds \<and> (e = CHR ''e'' \<or> e = CHR ''E'') \<and>
        (sg = [] \<or> sg = ''+'' \<or> sg = ''-'') \<and> digits1 ds)"

definition json_number :: "gostring \<Rightarrow> bool" where
  "json_number s \<longleftrightarrow> (\<exists>m ip fp ep. s = m @ ip @ fp @ ep \<and> (m = [] \<or> m = ''-'') \<and>
     json_int ip \<and> json_frac fp \<and> json_exp ep)"

lemma json_expI:
  "e = CHR ''e'' \<or> e = CHR ''E'' \<Longrightarrow> sg = [] \<or> sg = ''+'' \<or> sg = ''-'' \<Longrightarrow> digits1 ds \<Longrightarrow>
   json_exp (e # sg @ ds)"
  unfolding json_exp_def by blast

lemma json_numberI:
  "m = [] \<or> m = ''-'' \<Longrightarrow> json_int ip \<Longrightarrow> json_frac fp \<Longrightarrow> json_exp ep \<Longrightarrow>
   json_number (m @ ip @ fp @ ep)"
  by (auto simp: json_number_def)

inductive json_chars :: "gostring \<Rightarrow> bool" where
  chars_nil: "json_chars []"
| chars_plain: "\<not> c < CHR '' '' \<Longrightarrow> c \<noteq> CHR 0x22 \<Longrightarrow> c \<noteq> CHR 0x5C \<Longrightarrow> json_chars s \<Longrightarrow>
     json_chars (c # s)"
| chars_simple: "is_simple_escape c \<Longrightarrow> json_chars s \<Longrightarrow> json_chars (CHR 0x5C # c # s)"
| chars_hex: "list_all is_hex [a, b, c, d] \<Longrightarrow> json_chars s \<Longrightarrow>
     json_chars (CHR 0x5C # CHR ''u'' # a # b # c # d # s)"

inductive json_value :: "gostring \<Rightarrow> bool"
  and json_elements :: "gostring \<Rightarrow> bool"
  and json_members :: "gostring \<Rightarrow> bool" where
  value_number: "json_number s \<Longrightarrow> json_value s"
| value_string: "json_chars s \<Longrightarrow> json_value (CHR 0x22 # s @ [CHR 0x22])"
| value_true: "json_value ''true''"
| value_false: "json_value ''false''"
| value_null: "json_value ''null''"
| value_array_empty: "json_ws w \<Longrightarrow> json_value (CHR ''['' # w @ '']'')"
| value_array: "json_elements es \<Longrightarrow> json_value (CHR ''['' # es @ '']'')"
| value_object_empty: "json_ws w \<Longrightarrow> json_value (CHR ''{'' # w @ ''}'')"
| value_object: "json_members ms \<Longrightarrow> json_value (CHR ''{'' # ms @ ''}'')"
| elements_one: "json_ws w1 \<Longrightarrow> json_value v \<Longrightarrow> json_ws w2 \<Longrightarrow> json_elements (w1 @ v @ w2)"
| elements_more: "json_ws w1 \<Longrightarrow> json_value v \<Longrightarrow> json_ws w2 \<Longrightarrow> json_elements es \<Longrightarrow>
     json_elements (w1 @ v @ w2 @ '','' @ es)"
| members_one: "json_ws w1 \<Longrightarrow> json_chars k \<Longrightarrow> json_ws w2 \<Longrightarrow> json_ws w3 \<Longrightarrow> json_value v \<Longrightarrow>
     json_ws w4 \<Longrightarrow>
     json_members (w1 @ CHR 0x22 # k @ CHR 0x22 # w2 @ CHR '':'' # w3 @ v @ w4)"
| members_more: "json_ws w1 \<Longrightarrow> json_chars k \<Longrightarrow> json_ws w2 \<Longrightarrow> json_ws w3 \<Longrightarrow> json_value v \<Longrightarrow>
     json_ws w4 \<Longrightarrow> json_members ms \<Longrightarrow>
     json_members (w1 @ CHR 0x22 # k @ CHR 0x22 # w2 @ CHR '':'' # w3 @ v @ w4 @ '','' @ ms)"

definition json_text :: "gostring \<Rightarrow> bool" where
  "json_text s \<longleftrightarrow> (\<exists>w1 v w2. s = w1 @ v @ w2 \<and> json_ws w1 \<and> json_value v \<and> json_ws w2)"

section \<open>Segments of the input\<close>

definition seg :: "'a list \<Rightarrow> nat \<Rightarrow> nat \<Rightarrow> 'a list \<Rightarrow> bool" where
  "seg xs i j s \<longleftrightarrow> j = i + length s \<and> j \<le> length xs \<and> drop i xs = s @ drop j xs"

lemma seg_append: "seg xs i j s \<Longrightarrow> seg xs j k t \<Longrightarrow> seg xs i k (s @ t)"
  by (simp add: seg_def)

lemma seg_nil: "i \<le> length xs \<Longrightarrow> seg xs i i []"
  by (simp add: seg_def)

lemma seg_one: "i < length xs \<Longrightarrow> xs ! i = c \<Longrightarrow> seg xs i (Suc i) [c]"
  by (auto simp: seg_def Cons_nth_drop_Suc)

lemma seg_Cons: "i < length xs \<Longrightarrow> xs ! i = c \<Longrightarrow> seg xs (Suc i) j s \<Longrightarrow> seg xs i j (c # s)"
  using seg_append [OF seg_one, of i xs c j s] by simp

lemma seg_snoc: "seg xs i j s \<Longrightarrow> j < length xs \<Longrightarrow> xs ! j = c \<Longrightarrow> seg xs i (Suc j) (s @ [c])"
  by (rule seg_append [OF _ seg_one])

lemma seg_skip:
  assumes "i \<le> length xs" "j = skip_while p xs i"
  shows "\<exists>w. seg xs i j w \<and> list_all p w"
proof -
  have "drop i xs = takeWhile p (drop i xs) @ drop (length (takeWhile p (drop i xs))) (drop i xs)"
    by (metis dropWhile_eq_drop takeWhile_dropWhile_id)
  then have "seg xs i j (takeWhile p (drop i xs))"
    using assms skip_while_le [OF assms(1), of p]
    by (simp add: seg_def skip_while_takeWhile add.commute)
  then show ?thesis by (auto simp: list_all_iff dest: set_takeWhileD)
qed

lemma drop_ConsD: "drop i xs = c # s \<Longrightarrow> i < length xs \<and> xs ! i = c \<and> drop (Suc i) xs = s"
  by (metis Cons_nth_drop_Suc drop_eq_Nil linorder_not_le list.discI list.inject)

lemma skip_while_drop:
  assumes "drop i xs = w @ post" "list_all p w" "post = [] \<or> \<not> p (hd post)"
  shows "skip_while p xs i = i + length w"
proof -
  have "takeWhile p (w @ post) = w"
    using assms(2,3) by (cases post) (auto simp: takeWhile_append2 list_all_iff)
  then show ?thesis by (simp add: skip_while_takeWhile assms(1))
qed

section \<open>Soundness of the leaves\<close>

lemma is_digit_not_ws: "is_digit c \<Longrightarrow> \<not> is_ws c"
  by (auto simp: is_digit_def is_ws_def)

lemma expectHex4_sound:
  "expectHex4 data i n = (j, True) \<Longrightarrow> i < length data \<Longrightarrow>
   \<exists>h. seg data (Suc i) (Suc j) h \<and> length h = n \<and> list_all is_hex h"
proof (induction data i n rule: expectHex4.induct)
  case (1 data i)
  then show ?case by (auto simp: seg_nil Suc_le_eq)
next
  case (2 data i n)
  then have *: "Suc i < length data" "is_hex (data ! Suc i)"
    "expectHex4 data (Suc i) n = (j, True)"
    by (auto split: if_splits)
  with "2.IH" obtain h where "seg data (Suc (Suc i)) (Suc j) h" "length h = n" "list_all is_hex h"
    by force
  with * show ?case
    by (intro exI [of _ "data ! Suc i # h"]) (simp add: seg_Cons)
qed

lemma length_4E:
  assumes "length h = 4"
  obtains a b c d where "h = [a, b, c, d]"
  using assms by (auto simp: numeral_eq_Suc length_Suc_conv)

lemma expectString_sound:
  "expectString data i = (j, True) \<Longrightarrow> \<exists>s. seg data i j (s @ [CHR 0x22]) \<and> json_chars s"
proof (induction i rule: index_up_induct [where n = "length data"])
  case (step i)
  from step.prems have i: "i < length data"
    by (subst (asm) expectString.simps) (simp split: if_splits)
  have sub: "\<exists>s. seg data i j (t @ s @ [CHR 0x22]) \<and> json_chars s"
    if "expectString data k = (j, True)" "seg data i k t" "t \<noteq> []" for k t
  proof -
    have "i < k" using that(2,3) by (simp add: seg_def)
    from step.IH [OF this i that(1)] that(2) show ?thesis
      using seg_append by blast
  qed
  consider (quote) "data ! i = CHR 0x22" "j = Suc i"
    | (plain) "\<not> data ! i < CHR '' ''" "data ! i \<noteq> CHR 0x5C" "data ! i \<noteq> CHR 0x22"
        "expectString data (Suc i) = (j, True)"
    | (simple) "data ! i = CHR 0x5C" "Suc i \<noteq> length data" "is_simple_escape (data ! Suc i)"
        "expectString data (Suc (Suc i)) = (j, True)"
    | (hex) k where "data ! i = CHR 0x5C" "Suc i \<noteq> length data" "data ! Suc i = CHR ''u''"
        "expectHex4 data (Suc i) 4 = (k, True)" "expectString data (Suc k) = (j, True)"
    using step.prems i
    by (subst (asm) expectString.simps) (auto simp: on_ok_eq_True split: if_splits)
  then show ?case
  proof cases
    case quote
    then show ?thesis
      using i by (intro exI [of _ "[]"]) (auto simp: seg_one chars_nil)
  next
    case plain
    from sub [OF plain(4) seg_one [OF i refl]] show ?thesis
      using plain(1-3) chars_plain by force
  next
    case simple
    then have "seg data i (Suc (Suc i)) [CHR 0x5C, data ! Suc i]"
      using i by (intro seg_Cons seg_one) auto
    from sub [OF simple(4) this] show ?thesis
      using simple(3) chars_simple by force
  next
    case hex
    obtain h where h: "seg data (Suc (Suc i)) (Suc k) h" "length h = 4" "list_all is_hex h"
      using expectHex4_sound [OF hex(4)] hex(2) i by auto
    have "seg data i (Suc k) (CHR 0x5C # CHR ''u'' # h)"
      using hex h(1) i by (intro seg_Cons) auto
    from sub [OF hex(5) this] h(2,3) show ?thesis
      by (elim length_4E) (use chars_hex in force)
  qed
qed

lemma digits1_skip:
  assumes "i < length data" "is_digit (data ! i)" "j = skip_while is_digit data (Suc i)"
  shows "\<exists>ds. seg data i j (data ! i # ds) \<and> list_all is_digit ds"
  using seg_skip [of "Suc i" data j is_digit] seg_Cons [OF assms(1) refl] assms by auto

lemma expectNumberExp_sound:
  assumes "expectNumberExp data i = (j, True)" "i \<le> length data"
  shows "\<exists>s. seg data i j s \<and> json_exp s"
proof (cases "i = length data \<or> \<not> (data ! i = CHR ''e'' \<or> data ! i = CHR ''E'')")
  case True
  then have "j = i" using assms by (auto simp: expectNumberExp_def split: if_splits)
  then show ?thesis using assms(2) by (intro exI [of _ "[]"]) (simp add: json_exp_def seg_nil)
next
  case False
  then have e: "i < length data" "data ! i = CHR ''e'' \<or> data ! i = CHR ''E''" "Suc i < length data"
    using assms by (auto simp: expectNumberExp_def Let_def le_neq_implies_less Suc_lessI split: if_splits)
  define k where "k = (if data ! Suc i = CHR ''+'' \<or> data ! Suc i = CHR ''-'' then Suc (Suc i) else Suc i)"
  have k: "k < length data" "is_digit (data ! k)" "j = skip_while is_digit data (Suc k)"
    using assms e by (auto simp: expectNumberExp_def Let_def k_def split: if_splits)
  obtain sg where sg: "seg data (Suc i) k sg" "sg = [] \<or> sg = ''+'' \<or> sg = ''-''"
  proof (cases "data ! Suc i = CHR ''+'' \<or> data ! Suc i = CHR ''-''")
    case True
    with e(3) that [of "[data ! Suc i]"] show thesis by (auto simp: k_def seg_one)
  next
    case False
    with e(3) that [of "[]"] show thesis by (simp add: k_def seg_nil)
  qed
  obtain ds where ds: "seg data k j (data ! k # ds)" "list_all is_digit ds"
    using digits1_skip [OF k] by blast
  have "seg data i j (data ! i # sg @ data ! k # ds)"
    using e(1) seg_append [OF sg(1) ds(1)] by (intro seg_Cons) auto
  moreover have "json_exp (data ! i # sg @ data ! k # ds)"
    using e(2) sg(2) ds(2) k(2) by (intro json_expI) (simp_all add: digits1_def)
  ultimately show ?thesis by blast
qed

lemma expectNumberFrac_sound:
  assumes "expectNumberFrac data i = (j, True)" "i \<le> length data"
  shows "\<exists>fp ep. seg data i j (fp @ ep) \<and> json_frac fp \<and> json_exp ep"
proof (cases "i = length data \<or> data ! i \<noteq> CHR ''.''")
  case True
  then have "expectNumberExp data i = (j, True)"
    using assms by (auto simp: expectNumberFrac_def expectNumberExp_def split: if_splits)
  from expectNumberExp_sound [OF this assms(2)] show ?thesis
    by (metis append_Nil json_frac_def)
next
  case False
  then have e: "i < length data" "data ! i = CHR ''.''" "Suc i < length data" "is_digit (data ! Suc i)"
    "expectNumberExp data (skip_while is_digit data (Suc (Suc i))) = (j, True)"
    using assms by (auto simp: expectNumberFrac_def Let_def Suc_lessI le_neq_implies_less split: if_splits)
  obtain ds where ds: "seg data (Suc i) (skip_while is_digit data (Suc (Suc i))) (data ! Suc i # ds)"
    "list_all is_digit ds"
    using digits1_skip [OF e(3,4) refl] by blast
  obtain ep where ep: "seg data (skip_while is_digit data (Suc (Suc i))) j ep" "json_exp ep"
    using expectNumberExp_sound [OF e(5)] e(3) skip_while_le by (metis Suc_leI)
  have "seg data i j ((CHR ''.'' # data ! Suc i # ds) @ ep)"
    by (rule seg_append [OF seg_Cons [OF e(1,2) ds(1)] ep(1)])
  moreover have "json_frac (CHR ''.'' # data ! Suc i # ds)"
    using ds(2) e(4) by (simp add: json_frac_def digits1_def)
  ultimately show ?thesis using ep(2) by blast
qed

lemma expectNumberInt_sound:
  assumes "expectNumberInt data i = (j, True)" "i < length data" "is_digit (data ! i)"
  shows "\<exists>ip fp ep. seg data i j (ip @ fp @ ep) \<and> json_int ip \<and> json_frac fp \<and> json_exp ep"
proof -
  obtain k ip where ip: "seg data i k ip" "json_int ip" "expectNumberFrac data k = (j, True)"
  proof (cases "data ! i = CHR ''0''")
    case True
    with assms that [of "Suc i" "''0''"] show ?thesis
      by (auto simp: expectNumberInt_def seg_one json_int_def digits1_def is_digit_def split: if_splits)
  next
    case False
    have "skip_while is_digit data i = skip_while is_digit data (Suc i)"
      using assms(2,3) by (subst skip_while.simps) simp
    with assms False obtain ds where
      "seg data i (skip_while is_digit data i) (data ! i # ds)" "list_all is_digit ds"
      using digits1_skip by metis
    with assms False that show ?thesis
      by (fastforce simp: expectNumberInt_def json_int_def digits1_def split: if_splits)
  qed
  have "k \<le> length data" using ip(1) by (simp add: seg_def)
  from expectNumberFrac_sound [OF ip(3) this] ip(1,2) show ?thesis
    using seg_append by blast
qed

lemma expectNumber_sound:
  assumes "expectNumber data (Suc i) = (j, True)" "i < length data"
    "data ! i = CHR ''-'' \<or> is_digit (data ! i)"
  shows "\<exists>s. seg data i j s \<and> json_number s"
proof (cases "data ! i = CHR ''-''")
  case True
  with assms have i: "Suc i < length data" "is_digit (data ! Suc i)"
    "expectNumberInt data (Suc i) = (j, True)"
    by (auto simp: expectNumber_def Let_def split: if_splits)
  from expectNumberInt_sound [OF i(3,1,2)] obtain ip fp ep where
    "seg data (Suc i) j (ip @ fp @ ep)" "json_int ip" "json_frac fp" "json_exp ep"
    by blast
  with True assms(2) show ?thesis
    using json_numberI [of "''-''" ip fp ep] by (auto intro: seg_Cons)
next
  case False
  with assms have "expectNumberInt data i = (j, True)" "is_digit (data ! i)"
    by (auto simp: expectNumber_def Let_def split: if_splits)
  from expectNumberInt_sound [OF this(1) assms(2) this(2)] show ?thesis
    unfolding json_number_def by (metis append_Nil)
qed

lemma expect_literals_sound:
  "expectTrue data i = (j, True) \<Longrightarrow> seg data i j ''rue''"
  "expectFalse data i = (j, True) \<Longrightarrow> seg data i j ''alse''"
  "expectNull data i = (j, True) \<Longrightarrow> seg data i j ''ull''"
  by (auto simp: expectTrue_def expectFalse_def expectNull_def numeral_eq_Suc split: if_splits
      intro!: seg_Cons seg_nil)

section \<open>Soundness of values\<close>

lemma json_elements_ws: "json_elements es \<Longrightarrow> json_ws w \<Longrightarrow> json_elements (w @ es)"
proof (induction rule: json_elements.cases)
  case (elements_one w1 v w2)
  then show ?case
    using json_value_json_elements_json_members.elements_one [of "w @ w1" v w2] by (simp add: json_ws_def)
next
  case (elements_more w1 v w2 es')
  then show ?case
    using json_value_json_elements_json_members.elements_more [of "w @ w1" v w2 es'] by (simp add: json_ws_def)
qed

lemma json_members_ws: "json_members ms \<Longrightarrow> json_ws w \<Longrightarrow> json_members (w @ ms)"
proof (induction rule: json_members.cases)
  case (members_one w1 k w2 w3 v w4)
  then show ?case
    using json_value_json_elements_json_members.members_one [of "w @ w1" k w2 w3 v w4] by (simp add: json_ws_def)
next
  case (members_more w1 k w2 w3 v w4 ms')
  then show ?case
    using json_value_json_elements_json_members.members_more [of "w @ w1" k w2 w3 v w4 ms'] by (simp add: json_ws_def)
qed

lemma skip_ws_sound:
  assumes "i \<le> length data"
  obtains w where "seg data i (skip_while is_ws data i) w" "json_ws w"
  using seg_skip [OF assms refl, of is_ws] by (auto simp: json_ws_def)

lemma expectCommaOrEnd_sound:
  assumes "expectCommaOrEnd data i e = (j, True)"
  obtains w where "seg data i j w" "json_ws w" "j < length data" "data ! j = CHR '','' \<or> data ! j = e"
proof -
  from expectCommaOrEnd_ok [OF assms] have "i \<le> length data" by simp
  from skip_ws_sound [OF this] expectCommaOrEnd_ok [OF assms] that show thesis by metis
qed

lemma expectColon_sound:
  assumes "expectColon data i = (j, True)"
  obtains w where "seg data i j (w @ '':'')" "json_ws w"
proof -
  note ok = expectColon_ok [OF assms]
  then have "i \<le> length data" by simp
  from skip_ws_sound [OF this] obtain w where w: "seg data i (skip_while is_ws data i) w" "json_ws w" .
  with ok that seg_snoc [OF w(1)] show thesis by auto
qed

lemma json_head_cases:
  obtains (obj) "c = CHR ''{''" | (arr) "c = CHR ''[''" | (str) "c = CHR 0x22"
    | (num) "c = CHR ''-'' \<or> is_digit c" | (tr) "c = CHR ''t''"
    | (fa) "c = CHR ''f''" | (nu) "c = CHR ''n''"
    | (other) "c \<noteq> CHR ''{''" "c \<noteq> CHR ''[''" "c \<noteq> CHR 0x22" "c \<noteq> CHR ''-''" "c \<noteq> CHR ''t''"
        "c \<noteq> CHR ''f''" "c \<noteq> CHR ''n''" "\<not> is_digit c"
  by argo

lemma expect_sound:
  "expectValue data i = (j, True) \<Longrightarrow> i \<le> length data \<Longrightarrow>
     \<exists>w v. seg data i j (w @ v) \<and> json_ws w \<and> json_value v"
  "expectArray data i = (j, True) \<Longrightarrow> i \<le> length data \<Longrightarrow>
     \<exists>s. seg data i j s \<and> json_value (CHR ''['' # s)"
  "arrayLoop data i = (j, True) \<Longrightarrow> i \<le> length data \<Longrightarrow>
     \<exists>es. seg data i j (es @ '']'') \<and> json_elements es"
  "expectObject data i = (j, True) \<Longrightarrow> i \<le> length data \<Longrightarrow>
     \<exists>s. seg data i j s \<and> json_value (CHR ''{'' # s)"
  "objectKey data i = (j, True) \<Longrightarrow> i < length data \<Longrightarrow> data ! i = CHR 0x22 \<Longrightarrow>
     \<exists>ms. seg data i j (ms @ ''}'') \<and> json_members ms"
proof (induction data i and data i and data i and data i and data i arbitrary: j and j and j and j and j
    rule: expectValue_expectArray_arrayLoop_expectObject_objectKey.induct)
  case (1 data i)
  define k where "k = skip_while is_ws data i"
  obtain w where w: "seg data i k w" "json_ws w"
    using skip_ws_sound [OF "1.prems"(2)] unfolding k_def .
  have step: "\<exists>v. seg data k j v \<and> json_value v"
    if "k < length data" "seg data (Suc k) j s" "json_value (data ! k # s)" for s
    using seg_Cons [OF that(1) refl that(2)] that(3) by blast
  have k: "k < length data"
    using expectValue_ok_less [OF "1.prems"(1) k_def] .
  note eq = "1.prems"(1) [unfolded expectValue.simps [of data i] k_def [symmetric] Let_def]
  have "\<exists>v. seg data k j v \<and> json_value v"
  proof (cases rule: json_head_cases [of "data ! k"])
    case obj
    with eq k have "expectObject data (k + 1) = (j, True)" by simp
    with "1.IH"(1) [OF k_def _ obj, of j] k obj step show ?thesis by fastforce
  next
    case arr
    with eq k have "expectArray data (k + 1) = (j, True)" by simp
    with "1.IH"(2) [OF k_def _ _ arr, of j] k arr step show ?thesis by fastforce
  next
    case str
    with eq k have "expectString data (Suc k) = (j, True)" by simp
    from expectString_sound [OF this] str step k show ?thesis
      using value_string by fastforce
  next
    case num
    then have "data ! k \<noteq> CHR ''{'' \<and> data ! k \<noteq> CHR ''['' \<and> data ! k \<noteq> CHR 0x22"
      by (auto simp: is_digit_def)
    with num eq k have "expectNumber data (Suc k) = (j, True)" by simp
    from expectNumber_sound [OF this k num] show ?thesis by (auto intro: value_number)
  next
    case tr
    with eq k have "expectTrue data (Suc k) = (j, True)" by (simp add: is_digit_def)
    with expect_literals_sound(1) step tr k show ?thesis using value_true by fastforce
  next
    case fa
    with eq k have "expectFalse data (Suc k) = (j, True)" by (simp add: is_digit_def)
    with expect_literals_sound(2) step fa k show ?thesis using value_false by fastforce
  next
    case nu
    with eq k have "expectNull data (Suc k) = (j, True)" by (simp add: is_digit_def)
    with expect_literals_sound(3) step nu k show ?thesis using value_null by fastforce
  next
    case other
    with eq k show ?thesis by simp
  qed
  with w show ?case by (blast intro: seg_append)
next
  case (2 data i)
  define k where "k = skip_while is_ws data i"
  obtain w where w: "seg data i k w" "json_ws w"
    using skip_ws_sound [OF "2.prems"(2)] unfolding k_def .
  have k: "k < length data"
    using expectArray_ok_less [OF "2.prems"(1) k_def] .
  show ?case
  proof (cases "data ! k = CHR '']''")
    case True
    with "2.prems"(1) k have "j = Suc k" by (simp add: expectArray.simps k_def [symmetric])
    with True k w show ?thesis
      using seg_snoc [OF w(1) k] value_array_empty by auto
  next
    case False
    with "2.prems"(1) k have "arrayLoop data k = (j, True)"
      by (simp add: expectArray.simps k_def [symmetric])
    from "2.IH" [OF k_def _ False this] k obtain es where
      "seg data k j (es @ '']'')" "json_elements es" by auto
    with w show ?thesis
      using value_array [OF json_elements_ws] seg_append [OF w(1)] by (metis append.assoc)
  qed
next
  case (3 data i)
  then have i: "i < length data" by (auto simp: arrayLoop.simps split: if_splits)
  with "3.prems"(1) obtain k l where r: "expectValue data i = (k, True)"
    "expectCommaOrEnd data k (CHR '']'') = (l, True)"
    "(if data ! l = CHR '']'' then (l + 1, True) else arrayLoop data (l + 1)) = (j, True)"
    by (auto simp: on_ok_eq_True arrayLoop.simps)
  obtain w v where v: "seg data i k (w @ v)" "json_ws w" "json_value v"
    using "3.IH"(1) [OF i r(1)] i by auto
  obtain w' where w': "seg data k l w'" "json_ws w'" "l < length data"
    "data ! l = CHR '','' \<or> data ! l = CHR '']''"
    using expectCommaOrEnd_sound [OF r(2)] .
  have vs: "seg data i (Suc l) (w @ v @ w' @ [data ! l])"
    using seg_append [OF v(1) seg_snoc [OF w'(1,3) refl]] by simp
  show ?case
  proof (cases "data ! l = CHR '']''")
    case True
    with r(3) vs have "seg data i j ((w @ v @ w') @ '']'')" by simp
    then show ?thesis using elements_one [OF v(2,3) w'(2)] by blast
  next
    case False
    with r(3) have "arrayLoop data (l + 1) = (j, True)" by simp
    from "3.IH"(2) [OF i r(1,2) False this] w'(3) obtain es where
      es: "seg data (Suc l) j (es @ '']'')" "json_elements es" by auto
    have "seg data i j ((w @ v @ w' @ '','' @ es) @ '']'')"
      using seg_append [OF vs es(1)] False w'(4) by simp
    then show ?thesis using elements_more [OF v(2,3) w'(2) es(2)] by blast
  qed
next
  case (4 data i)
  define k where "k = skip_while is_ws data i"
  obtain w where w: "seg data i k w" "json_ws w"
    using skip_ws_sound [OF "4.prems"(2)] unfolding k_def .
  have k: "k < length data"
    using expectObject_ok_less [OF "4.prems"(1) k_def] .
  show ?case
  proof (cases "data ! k = CHR ''}''")
    case True
    with "4.prems"(1) k have "j = Suc k" by (simp add: expectObject.simps k_def [symmetric])
    with True k w show ?thesis
      using seg_snoc [OF w(1) k] value_object_empty by auto
  next
    case False
    with "4.prems"(1) k have q: "data ! k = CHR 0x22" "objectKey data k = (j, True)"
      by (auto simp: expectObject.simps k_def [symmetric] split: if_splits)
    from "4.IH" [OF k_def _ False q(1) q(2)] k q(1) obtain ms where
      "seg data k j (ms @ ''}'')" "json_members ms" by auto
    with w show ?thesis
      using value_object [OF json_members_ws] seg_append [OF w(1)] by (metis append.assoc)
  qed
next
  case (5 data i)
  from "5.prems"(1) obtain k l m n where r: "expectString data (i + 1) = (k, True)"
    "expectColon data k = (l, True)" "expectValue data l = (m, True)"
    "expectCommaOrEnd data m (CHR ''}'') = (n, True)"
    by (auto simp: on_ok_eq_True objectKey.simps)
  obtain s where s: "seg data (Suc i) k (s @ [CHR 0x22])" "json_chars s"
    using expectString_sound [OF r(1)] by auto
  obtain w2 where w2: "seg data k l (w2 @ '':'')" "json_ws w2"
    using expectColon_sound [OF r(2)] .
  have "l \<le> length data" using w2(1) by (simp add: seg_def)
  from "5.IH"(1) [OF r(1,2,3) this] obtain w3 v where
    v: "seg data l m (w3 @ v)" "json_ws w3" "json_value v" by blast
  obtain w4 where w4: "seg data m n w4" "json_ws w4" "n < length data"
    "data ! n = CHR '','' \<or> data ! n = CHR ''}''"
    using expectCommaOrEnd_sound [OF r(4)] .
  have vs: "seg data i (Suc n) (CHR 0x22 # s @ CHR 0x22 # w2 @ CHR '':'' # w3 @ v @ w4 @ [data ! n])"
    using seg_append [OF seg_append [OF seg_append [OF seg_Cons [OF "5.prems"(2,3) s(1)] w2(1)] v(1)]
        seg_snoc [OF w4(1,3) refl]] by simp
  have one: "json_members (CHR 0x22 # s @ CHR 0x22 # w2 @ CHR '':'' # w3 @ v @ w4)"
    using members_one [of "[]" s w2 w3 v w4] s(2) w2(2) v(2,3) w4(2) by (simp add: json_ws_def)
  show ?case
  proof (cases "data ! n = CHR ''}''")
    case True
    with "5.prems"(1) r have "j = Suc n" by (simp add: objectKey.simps)
    with True vs have "seg data i j ((CHR 0x22 # s @ CHR 0x22 # w2 @ CHR '':'' # w3 @ v @ w4) @ ''}'')"
      by simp
    with one show ?thesis by blast
  next
    case False
    define p where "p = skip_while is_ws data (Suc n)"
    from "5.prems"(1) False r have p: "p < length data" "data ! p = CHR 0x22" "objectKey data p = (j, True)"
      by (auto simp: objectKey.simps p_def [symmetric] Let_def split: if_splits)
    from "5.IH"(2) [OF r False _ _ p(3)] p obtain ms where
      ms: "seg data p j (ms @ ''}'')" "json_members ms" by (auto simp: p_def)
    obtain w5 where w5: "seg data (Suc n) p w5" "json_ws w5"
      using skip_ws_sound [of "Suc n" data] w4(3) unfolding p_def by auto
    have "seg data i j ((CHR 0x22 # s @ CHR 0x22 # w2 @ CHR '':'' # w3 @ v @ w4 @ '','' @ w5 @ ms) @ ''}'')"
      using seg_append [OF vs seg_append [OF w5(1) ms(1)]] False w4(4) by simp
    moreover have "json_members (CHR 0x22 # s @ CHR 0x22 # w2 @ CHR '':'' # w3 @ v @ w4 @ '','' @ w5 @ ms)"
      using members_more [of "[]" s w2 w3 v w4 "w5 @ ms"] s(2) w2(2) v(2,3) w4(2)
        json_members_ws [OF ms(2) w5(2)] by (simp add: json_ws_def)
    ultimately show ?thesis by blast
  qed
qed

section \<open>Completeness of the leaves\<close>

lemma drop_appendD: "drop i xs = s @ t \<Longrightarrow> drop (i + length s) xs = t"
  by (metis add.commute append_eq_conv_conj drop_drop)

lemma drop_length: "drop i xs = c # s \<Longrightarrow> length xs = i + Suc (length s)"
  using drop_ConsD [of i xs c s] by (metis add_Suc_right add_diff_inverse_nat length_Cons length_drop not_less_iff_gr_or_eq)

lemma expectString_complete:
  "json_chars s \<Longrightarrow> drop i data = s @ CHR 0x22 # post \<Longrightarrow>
   expectString data i = (i + length s + 1, True)"
proof (induction arbitrary: i rule: json_chars.induct)
  case chars_nil
  then show ?case using drop_ConsD [of i data] by (subst expectString.simps) auto
next
  case (chars_plain c s)
  then show ?case using drop_ConsD [of i data c "s @ CHR 0x22 # post"]
    by (subst expectString.simps) auto
next
  case (chars_simple c s)
  from chars_simple.prems have "i < length data" "data ! i = CHR 0x5C" "Suc i < length data"
    "data ! Suc i = c" "drop (Suc (Suc i)) data = s @ CHR 0x22 # post"
    using drop_ConsD [of i data] drop_ConsD [of "Suc i" data] by auto
  with chars_simple show ?case by (subst expectString.simps) auto
next
  case (chars_hex a b c d s)
  note d0 = drop_ConsD [of i data] and d1 = drop_ConsD [of "Suc i" data]
    and d2 = drop_ConsD [of "Suc (Suc i)" data] and d3 = drop_ConsD [of "Suc (Suc (Suc i))" data]
    and d4 = drop_ConsD [of "Suc (Suc (Suc (Suc i)))" data]
    and d5 = drop_ConsD [of "Suc (Suc (Suc (Suc (Suc i))))" data]
  from chars_hex.prems have *: "i < length data" "data ! i = CHR 0x5C" "Suc i < length data"
    "data ! Suc i = CHR ''u''" "Suc (Suc i) < length data" "data ! Suc (Suc i) = a"
    "Suc (Suc (Suc i)) < length data" "data ! Suc (Suc (Suc i)) = b"
    "Suc (Suc (Suc (Suc i))) < length data" "data ! Suc (Suc (Suc (Suc i))) = c"
    "Suc (Suc (Suc (Suc (Suc i)))) < length data" "data ! Suc (Suc (Suc (Suc (Suc i)))) = d"
    "drop (Suc (Suc (Suc (Suc (Suc (Suc i)))))) data = s @ CHR 0x22 # post"
    using d0 d1 d2 d3 d4 d5 by auto
  have "expectHex4 data (Suc i) 4 = (Suc (Suc (Suc (Suc (Suc i)))), True)"
    using * chars_hex.hyps(1) by (simp add: numeral_eq_Suc Let_def)
  moreover have "\<not> is_simple_escape (CHR ''u'')" by (simp add: is_simple_escape_def)
  ultimately show ?case
    using * chars_hex.IH [OF *(13)] by (subst expectString.simps) simp
qed

definition number_cont :: "byte \<Rightarrow> bool" where
  "number_cont c \<longleftrightarrow> is_digit c \<or> c = CHR ''.'' \<or> c = CHR ''e'' \<or> c = CHR ''E''"

definition stops :: "gostring \<Rightarrow> bool" where
  "stops post \<longleftrightarrow> post = [] \<or> \<not> number_cont (hd post)"

lemma skip_digits_complete:
  assumes "drop i data = ds @ post" "list_all is_digit ds" "post = [] \<or> \<not> is_digit (hd post)"
  shows "skip_while is_digit data i = i + length ds"
  using assms by (rule skip_while_drop)

lemma expectNumberExp_complete:
  assumes "json_exp ep" "drop i data = ep @ post" "stops post" "i \<le> length data"
  shows "expectNumberExp data i = (i + length ep, True)"
proof (cases "ep = []")
  case True
  show ?thesis
  proof (cases post)
    case Nil
    with True assms have "i = length data" by simp
    with True show ?thesis by (simp add: expectNumberExp_def)
  next
    case (Cons c t)
    with True assms drop_ConsD [of i data c t] show ?thesis
      by (auto simp: expectNumberExp_def stops_def number_cont_def)
  qed
next
  case False
  then obtain e sg ds where ep: "ep = e # sg @ ds" "e = CHR ''e'' \<or> e = CHR ''E''"
    "sg = [] \<or> sg = ''+'' \<or> sg = ''-''" "digits1 ds"
    using assms(1) by (auto simp: json_exp_def)
  from ep(4) obtain d ds' where ds: "ds = d # ds'" "is_digit d" "list_all is_digit ds'"
    by (cases ds) (auto simp: digits1_def)
  have e: "i < length data" "data ! i = e" "drop (Suc i) data = sg @ d # ds' @ post"
    using assms(2) ep(1) ds(1) drop_ConsD [of i data e "sg @ d # ds' @ post"] by auto
  define k where "k = Suc i + length sg"
  have k: "drop k data = d # ds' @ post"
    using drop_appendD [OF e(3)] by (simp add: k_def)
  have kd: "k < length data" "data ! k = d" "drop (Suc k) data = ds' @ post"
    using drop_ConsD [OF k] by auto
  have skip: "skip_while is_digit data (Suc k) = Suc k + length ds'"
    using kd(3) ds(3) assms(3) by (intro skip_digits_complete) (auto simp: stops_def number_cont_def)
  have "d \<noteq> CHR ''+'' \<and> d \<noteq> CHR ''-''" using ds(2) by (auto simp: is_digit_def)
  then have sgn: "(if data ! Suc i = CHR ''+'' \<or> data ! Suc i = CHR ''-'' then Suc (Suc i) else Suc i) = k"
    using ep(3) e(3) drop_ConsD [of "Suc i" data] by (auto simp: k_def)
  have len: "i + length ep = Suc k + length ds'" "Suc i \<noteq> length data"
    using ep(1) ds(1) kd(1) by (simp_all add: k_def)
  have "expectNumberExp data i = (skip_while is_digit data (Suc k), True)"
    unfolding expectNumberExp_def Let_def Suc_eq_plus1 [symmetric] sgn
    using e(1,2) ep(2) kd(1,2) ds(2) len(2) by auto
  then show ?thesis using skip len(1) by simp
qed

lemma expectNumberFrac_complete:
  assumes "json_frac fp" "json_exp ep" "drop i data = fp @ ep @ post" "stops post" "i \<le> length data"
  shows "expectNumberFrac data i = (i + length fp + length ep, True)"
proof (cases "fp = []")
  case True
  then have "expectNumberExp data i = (i + length ep, True)"
    using expectNumberExp_complete assms by simp
  moreover have "i < length data \<Longrightarrow> data ! i \<noteq> CHR ''.''"
  proof -
    assume "i < length data"
    with True assms(3) obtain c t where c: "ep @ post = c # t" by (cases "ep @ post") auto
    with True assms(3) drop_ConsD [of i data c t] have "data ! i = c" by simp
    moreover have "c \<noteq> CHR ''.''"
      using c assms(2,4) by (cases ep) (auto simp: json_exp_def stops_def number_cont_def)
    ultimately show ?thesis by simp
  qed
  ultimately show ?thesis
    using True assms(5) by (cases "i = length data") (auto simp: expectNumberFrac_def expectNumberExp_def)
next
  case False
  with assms(1) obtain d ds where fp: "fp = CHR ''.'' # d # ds" "is_digit d" "list_all is_digit ds"
    by (auto simp: json_frac_def digits1_def neq_Nil_conv)
  have i: "i < length data" "data ! i = CHR ''.''" "drop (Suc i) data = d # ds @ ep @ post"
    using assms(3) fp(1) drop_ConsD [of i data] by auto
  have d: "Suc i < length data" "data ! Suc i = d" "drop (Suc (Suc i)) data = ds @ ep @ post"
    using drop_ConsD [OF i(3)] by auto
  have "skip_while is_digit data (Suc (Suc i)) = Suc (Suc i) + length ds"
    using d(3) fp(3) assms(2,4)
    by (intro skip_digits_complete) (auto simp: json_exp_def stops_def number_cont_def is_digit_def)
  moreover have "expectNumberExp data (Suc (Suc i) + length ds) = (Suc (Suc i) + length ds + length ep, True)"
    using assms(2,4) d drop_appendD [OF d(3)] 
    by (intro expectNumberExp_complete) (auto dest: arg_cong [of _ _ length])
  ultimately show ?thesis using i d fp by (simp add: expectNumberFrac_def)
qed

lemma expectNumberInt_complete:
  assumes "json_int ip" "json_frac fp" "json_exp ep" "drop i data = ip @ fp @ ep @ post" "stops post"
  shows "expectNumberInt data i = (i + length ip + length fp + length ep, True)"
proof -
  obtain d ds where ip: "ip = d # ds" "is_digit d" "list_all is_digit ds" "d = CHR ''0'' \<longrightarrow> ds = []"
    using assms(1) by (cases ip) (auto simp: json_int_def digits1_def)
  have i: "i < length data" "data ! i = d" "drop (Suc i) data = ds @ fp @ ep @ post"
    using assms(4) ip(1) drop_ConsD [of i data d "ds @ fp @ ep @ post"] by auto
  have frac: "expectNumberFrac data (i + length ip) = (i + length ip + length fp + length ep, True)"
    using assms drop_appendD [OF assms(4)] i(1) ip(1)
    by (intro expectNumberFrac_complete) (auto dest: arg_cong [of _ _ length])
  have "skip_while is_digit data i = i + length ip"
    using assms(4) ip assms(2,3,5)
    by (intro skip_digits_complete)
       (auto simp: json_frac_def json_exp_def stops_def number_cont_def is_digit_def)
  with frac i ip show ?thesis by (auto simp: expectNumberInt_def)
qed

lemma expectNumber_complete:
  assumes "json_number s" "drop i data = s @ post" "stops post" "Suc i < length data"
  shows "expectNumber data (Suc i) = (i + length s, True)"
proof -
  obtain m ip fp ep where s: "s = m @ ip @ fp @ ep" "m = [] \<or> m = ''-''" "json_int ip"
    "json_frac fp" "json_exp ep"
    using assms(1) by (auto simp: json_number_def)
  obtain d ds where ip: "ip = d # ds" "is_digit d"
    using s(3) by (cases ip) (auto simp: json_int_def digits1_def)
  have m: "drop (i + length m) data = ip @ fp @ ep @ post"
    using assms(2) s(1) by (intro drop_appendD) simp
  have int: "expectNumberInt data (i + length m) = (i + length s, True)"
    using expectNumberInt_complete [OF s(3-5) m assms(3)] s(1) by (simp add: add.assoc)
  have d: "data ! (i + length m) = d" "i + length m < length data"
    using m ip(1) drop_ConsD [of "i + length m" data] by auto
  show ?thesis
  proof (cases "m = []")
    case True
    with d ip(2) have "data ! i \<noteq> CHR ''-''" by (auto simp: is_digit_def)
    with True int assms(4) show ?thesis by (simp add: expectNumber_def)
  next
    case False
    with s(2) have m': "m = ''-''" by simp
    with assms(2) s(1) drop_ConsD [of i data] have "data ! i = CHR ''-''" by auto
    with m' int d ip(2) assms(4) show ?thesis by (simp add: expectNumber_def)
  qed
qed

section \<open>Completeness of values\<close>

text \<open>What has to follow a value: no byte that would lengthen a number, and at least one
  byte when the value is a single digit, which \<open>expectNumber\<close> asks for.\<close>

definition follows :: "gostring \<Rightarrow> gostring \<Rightarrow> bool" where
  "follows v post \<longleftrightarrow> stops post \<and> (post = [] \<longrightarrow> \<not> (\<exists>d. v = [d] \<and> is_digit d))"

lemma stops_ws_append:
  "json_ws w \<Longrightarrow> stops (c # post) \<Longrightarrow> stops (w @ c # post)"
  by (cases w) (auto simp: stops_def number_cont_def json_ws_def is_ws_def is_digit_def)

lemma follows_ws_append:
  "json_ws w \<Longrightarrow> c \<in> {CHR '','', CHR '']'', CHR ''}''} \<Longrightarrow> follows v (w @ c # post)"
  unfolding follows_def
  by (intro conjI stops_ws_append) (auto simp: stops_def number_cont_def is_digit_def)

lemma skip_ws_complete:
  assumes "drop i data = w @ c # post" "json_ws w" "\<not> is_ws c"
  shows "skip_while is_ws data i = i + length w"
  using skip_while_drop [of i data w "c # post" is_ws] assms by (simp add: json_ws_def)

lemma expectCommaOrEnd_complete:
  assumes "drop i data = w @ c # post" "json_ws w" "c = CHR '','' \<or> c = e" "\<not> is_ws e"
  shows "expectCommaOrEnd data i e = (i + length w, True)"
proof -
  have c: "\<not> is_ws c" using assms(3,4) by (auto simp: is_ws_def)
  from drop_ConsD [OF drop_appendD [OF assms(1)]] assms(3) skip_ws_complete [OF assms(1,2) c]
  show ?thesis by (auto simp: expectCommaOrEnd_def)
qed

lemma expectColon_complete:
  assumes "drop i data = w @ CHR '':'' # post" "json_ws w"
  shows "expectColon data i = (i + length w + 1, True)"
  using drop_ConsD [OF drop_appendD [OF assms(1)]] skip_ws_complete [OF assms]
  by (simp add: expectColon_def is_ws_def)

lemma json_value_head:
  "json_value v \<Longrightarrow> \<exists>c s. v = c # s \<and> (c \<in> {CHR ''{'', CHR ''['', CHR 0x22, CHR ''-'', CHR ''t'', CHR ''f'', CHR ''n''} \<or> is_digit c)"
proof (induction rule: json_value.cases)
  case (value_number s)
  then show ?case
    by (fastforce simp: json_number_def json_int_def digits1_def neq_Nil_conv)
qed auto

lemma json_head_not_ws:
  "c \<in> {CHR ''{'', CHR ''['', CHR 0x22, CHR ''-'', CHR ''t'', CHR ''f'', CHR ''n''} \<or> is_digit c \<Longrightarrow>
   \<not> is_ws c \<and> c \<noteq> CHR '']''"
  by (auto simp: is_ws_def is_digit_def)

text \<open>The jump of \<open>expectValue\<close> on the first byte of the value.\<close>

lemma expectValue_dispatch:
  assumes "drop i data = w @ c # post" "json_ws w" "\<not> is_ws c" "k = i + length w"
  shows "c = CHR ''{'' \<Longrightarrow> expectValue data i = expectObject data (Suc k)"
    "c = CHR ''['' \<Longrightarrow> expectValue data i = expectArray data (Suc k)"
    "c = CHR 0x22 \<Longrightarrow> expectValue data i = expectString data (Suc k)"
    "c = CHR ''-'' \<or> is_digit c \<Longrightarrow> expectValue data i = expectNumber data (Suc k)"
    "c = CHR ''t'' \<Longrightarrow> expectValue data i = expectTrue data (Suc k)"
    "c = CHR ''f'' \<Longrightarrow> expectValue data i = expectFalse data (Suc k)"
    "c = CHR ''n'' \<Longrightarrow> expectValue data i = expectNull data (Suc k)"
proof -
  have k: "skip_while is_ws data i = k" using skip_ws_complete [OF assms(1-3)] assms(4) by simp
  have c: "k < length data" "data ! k = c"
    using drop_ConsD [OF drop_appendD [OF assms(1)]] assms(4) by auto
  note eq = expectValue.simps [of data i, unfolded Let_def k]
  show "c = CHR ''{'' \<Longrightarrow> expectValue data i = expectObject data (Suc k)"
    using c by (simp add: eq)
  show "c = CHR ''['' \<Longrightarrow> expectValue data i = expectArray data (Suc k)"
    using c by (simp add: eq)
  show "c = CHR 0x22 \<Longrightarrow> expectValue data i = expectString data (Suc k)"
    using c by (simp add: eq)
  show "expectValue data i = expectNumber data (Suc k)" if n: "c = CHR ''-'' \<or> is_digit c"
  proof -
    have "c \<noteq> CHR ''{'' \<and> c \<noteq> CHR ''['' \<and> c \<noteq> CHR 0x22" using n by (auto simp: is_digit_def)
    with c n show ?thesis by (simp add: eq)
  qed
  show "c = CHR ''t'' \<Longrightarrow> expectValue data i = expectTrue data (Suc k)"
    using c by (simp add: eq is_digit_def)
  show "c = CHR ''f'' \<Longrightarrow> expectValue data i = expectFalse data (Suc k)"
    using c by (simp add: eq is_digit_def)
  show "c = CHR ''n'' \<Longrightarrow> expectValue data i = expectNull data (Suc k)"
    using c by (simp add: eq is_digit_def)
qed

lemma json_elements_split:
  "json_elements es \<Longrightarrow> \<exists>w c s. es = w @ c # s \<and> json_ws w \<and> \<not> is_ws c \<and> c \<noteq> CHR '']''"
  by (induction rule: json_elements.cases) (force dest!: json_value_head json_head_not_ws)+

lemma json_members_split:
  "json_members ms \<Longrightarrow> \<exists>w s. ms = w @ CHR 0x22 # s \<and> json_ws w"
  by (induction rule: json_members.cases) force+

lemma expectValue_skip: "expectValue data (skip_while is_ws data i) = expectValue data i"
  unfolding expectValue.simps [of data i] expectValue.simps [of data "skip_while is_ws data i"]
    skip_while_idem ..

lemma arrayLoop_skip:
  assumes "skip_while is_ws data i < length data"
  shows "arrayLoop data (skip_while is_ws data i) = arrayLoop data i"
proof -
  have "i < length data" using assms by (meson le_less_trans skip_while_ge)
  with assms show ?thesis
    unfolding arrayLoop.simps [of data i] arrayLoop.simps [of data "skip_while is_ws data i"]
      expectValue_skip by simp
qed

lemma literal_tail_complete:
  "drop i data = ''rue'' @ post \<Longrightarrow> expectTrue data i = (i + 3, True)"
  "drop i data = ''alse'' @ post \<Longrightarrow> expectFalse data i = (i + 4, True)"
  "drop i data = ''ull'' @ post \<Longrightarrow> expectNull data i = (i + 3, True)"
  using drop_ConsD [of i data] drop_ConsD [of "Suc i" data] drop_ConsD [of "Suc (Suc i)" data]
    drop_ConsD [of "Suc (Suc (Suc i))" data]
  by (auto simp: expectTrue_def expectFalse_def expectNull_def numeral_eq_Suc)

lemma json_number_single: "json_number [c] \<Longrightarrow> is_digit c"
  by (auto simp: json_number_def json_int_def digits1_def Cons_eq_append_conv)

lemma objectKey_complete:
  assumes d: "drop p data = CHR 0x22 # key @ CHR 0x22 # w2 @ CHR '':'' # w3 @ v @ w4 @ c # post"
    and key: "json_chars key" and ws: "json_ws w2" "json_ws w4" and c: "c = CHR '','' \<or> c = CHR ''}''"
    and val: "\<And>i. drop i data = w3 @ v @ w4 @ c # post \<Longrightarrow>
      expectValue data i = (i + length w3 + length v, True)"
    and m: "m = p + length key + length w2 + length w3 + length v + length w4 + 3"
  shows "objectKey data p =
      (if c = CHR ''}'' then (m + 1, True)
       else let n = skip_while is_ws data (m + 1) in
            if n < length data \<and> data ! n = CHR 0x22 then objectKey data n else (n, False))"
    and "drop (m + 1) data = post"
proof -
  have 1: "drop (Suc p) data = key @ CHR 0x22 # w2 @ CHR '':'' # w3 @ v @ w4 @ c # post"
    using drop_ConsD [OF d] by simp
  have 2: "drop (Suc p + length key + 1) data = w2 @ CHR '':'' # w3 @ v @ w4 @ c # post"
    using drop_ConsD [OF drop_appendD [OF 1]] by simp
  have 3: "drop (Suc p + length key + 1 + length w2 + 1) data = w3 @ v @ w4 @ c # post"
    using drop_ConsD [OF drop_appendD [OF 2]] by simp
  have 4: "drop (Suc p + length key + 1 + length w2 + 1 + length w3 + length v) data = w4 @ c # post"
    using drop_appendD [OF drop_appendD [OF 3]] by simp
  have 5: "drop m data = c # post"
    using drop_appendD [OF 4] by (simp add: m algebra_simps numeral_eq_Suc)
  have e1: "expectString data (p + 1) = (Suc p + length key + 1, True)"
    using expectString_complete [OF key 1] by simp
  have e2: "expectColon data (Suc p + length key + 1) = (Suc p + length key + 1 + length w2 + 1, True)"
    using expectColon_complete [OF 2 ws(1)] by simp
  have e3: "expectValue data (Suc p + length key + 1 + length w2 + 1) =
      (Suc p + length key + 1 + length w2 + 1 + length w3 + length v, True)"
    by (rule val [OF 3])
  have e4: "expectCommaOrEnd data (Suc p + length key + 1 + length w2 + 1 + length w3 + length v) (CHR ''}'') = (m, True)"
    using expectCommaOrEnd_complete [OF 4 ws(2) c] by (simp add: m is_ws_def)
  show "objectKey data p =
      (if c = CHR ''}'' then (m + 1, True)
       else let n = skip_while is_ws data (m + 1) in
            if n < length data \<and> data ! n = CHR 0x22 then objectKey data n else (n, False))"
    unfolding objectKey.simps [of data p] e1 on_ok_simps e2 e3 e4
    using drop_ConsD [OF 5] by simp
  show "drop (m + 1) data = post" using drop_ConsD [OF 5] by simp
qed

lemma expect_complete:
  "json_value v \<Longrightarrow> (\<And>i w post. drop i data = w @ v @ post \<Longrightarrow> json_ws w \<Longrightarrow> follows v post \<Longrightarrow>
     expectValue data i = (i + length w + length v, True))"
  "json_elements es \<Longrightarrow> (\<And>i post. drop i data = es @ CHR '']'' # post \<Longrightarrow>
     arrayLoop data i = (i + length es + 1, True))"
  "json_members ms \<Longrightarrow> (\<And>i post. drop i data = ms @ CHR ''}'' # post \<Longrightarrow>
     objectKey data (skip_while is_ws data i) = (i + length ms + 1, True))"
proof (induction rule: json_value_json_elements_json_members.inducts)
  case (value_number s)
  then obtain c t where c: "s = c # t" "c = CHR ''-'' \<or> is_digit c"
    by (fastforce simp: json_number_def json_int_def digits1_def neq_Nil_conv)
  define k where "k = i + length w"
  have k: "drop k data = s @ post" using drop_appendD [OF value_number.prems(1)] by (simp add: k_def)
  have "t \<noteq> [] \<or> post \<noteq> []"
    using value_number.prems(3) json_number_single [of c] value_number.hyps c(1) by (auto simp: follows_def)
  then have "Suc k < length data"
    using drop_length [of k data c "t @ post"] k c(1) by (cases t; cases post) auto
  moreover have "\<not> is_ws c" using c(2) json_head_not_ws [of c] by blast
  ultimately show ?case
    using expectValue_dispatch(4) [of i data w c "t @ post" k] c value_number k_def
      expectNumber_complete [OF value_number.hyps k]
    by (simp add: follows_def)
next
  case (value_string s)
  then have d: "drop i data = w @ CHR 0x22 # s @ CHR 0x22 # post" by simp
  with expectString_complete [OF value_string.hyps, of "Suc (i + length w)" data post]
    drop_ConsD [OF drop_appendD [OF d]] expectValue_dispatch(3) [OF d value_string.prems(2) _ refl]
  show ?case by (simp add: is_ws_def)
next
  case value_true
  then have d: "drop i data = w @ CHR ''t'' # ''rue'' @ post" by simp
  with literal_tail_complete(1) [of "Suc (i + length w)" data post]
    drop_ConsD [OF drop_appendD [OF d]] expectValue_dispatch(5) [OF d value_true.prems(2) _ refl]
  show ?case by (simp add: is_ws_def)
next
  case value_false
  then have d: "drop i data = w @ CHR ''f'' # ''alse'' @ post" by simp
  with literal_tail_complete(2) [of "Suc (i + length w)" data post]
    drop_ConsD [OF drop_appendD [OF d]] expectValue_dispatch(6) [OF d value_false.prems(2) _ refl]
  show ?case by (simp add: is_ws_def)
next
  case value_null
  then have d: "drop i data = w @ CHR ''n'' # ''ull'' @ post" by simp
  with literal_tail_complete(3) [of "Suc (i + length w)" data post]
    drop_ConsD [OF drop_appendD [OF d]] expectValue_dispatch(7) [OF d value_null.prems(2) _ refl]
  show ?case by (simp add: is_ws_def)
next
  case (value_array_empty u)
  then have d: "drop i data = w @ CHR ''['' # u @ CHR '']'' # post" by simp
  define k where "k = Suc (i + length w)"
  have k: "drop k data = u @ CHR '']'' # post"
    using drop_ConsD [OF drop_appendD [OF d]] by (simp add: k_def)
  have e: "skip_while is_ws data k = k + length u"
    using skip_ws_complete [OF k value_array_empty.hyps] by (simp add: is_ws_def)
  have "expectArray data k = (k + length u + 1, True)"
    unfolding expectArray.simps [of data k] Let_def e
    using drop_ConsD [OF drop_appendD [OF k]] by simp
  then show ?case
    using expectValue_dispatch(2) [OF d value_array_empty.prems(2) _ refl] by (simp add: k_def is_ws_def)
next
  case (value_array es)
  then have d: "drop i data = w @ CHR ''['' # es @ CHR '']'' # post" by simp
  define k where "k = Suc (i + length w)"
  have k: "drop k data = es @ CHR '']'' # post"
    using drop_ConsD [OF drop_appendD [OF d]] by (simp add: k_def)
  obtain u c s where u: "es = u @ c # s" "json_ws u" "\<not> is_ws c" "c \<noteq> CHR '']''"
    using json_elements_split [OF value_array.hyps] by blast
  have d': "drop k data = u @ c # s @ CHR '']'' # post" using k u(1) by simp
  have e: "skip_while is_ws data k = k + length u"
    by (rule skip_ws_complete [OF d' u(2,3)])
  have l: "k + length u < length data" "data ! (k + length u) = c"
    using drop_ConsD [OF drop_appendD [OF d']] by auto
  have "expectArray data k = arrayLoop data (skip_while is_ws data k)"
    unfolding expectArray.simps [of data k] Let_def e using l u(4) by simp
  also have "\<dots> = (k + length es + 1, True)"
    using arrayLoop_skip [of data k] l e value_array.IH [OF k] by simp
  finally show ?case
    using expectValue_dispatch(2) [OF d value_array.prems(2) _ refl] by (simp add: k_def is_ws_def)
next
  case (value_object_empty u)
  then have d: "drop i data = w @ CHR ''{'' # u @ CHR ''}'' # post" by simp
  define k where "k = Suc (i + length w)"
  have k: "drop k data = u @ CHR ''}'' # post"
    using drop_ConsD [OF drop_appendD [OF d]] by (simp add: k_def)
  have e: "skip_while is_ws data k = k + length u"
    using skip_ws_complete [OF k value_object_empty.hyps] by (simp add: is_ws_def)
  have "expectObject data k = (k + length u + 1, True)"
    unfolding expectObject.simps [of data k] Let_def e
    using drop_ConsD [OF drop_appendD [OF k]] by simp
  then show ?case
    using expectValue_dispatch(1) [OF d value_object_empty.prems(2) _ refl] by (simp add: k_def is_ws_def)
next
  case (value_object ms)
  then have d: "drop i data = w @ CHR ''{'' # ms @ CHR ''}'' # post" by simp
  define k where "k = Suc (i + length w)"
  have k: "drop k data = ms @ CHR ''}'' # post"
    using drop_ConsD [OF drop_appendD [OF d]] by (simp add: k_def)
  obtain u s where u: "ms = u @ CHR 0x22 # s" "json_ws u"
    using json_members_split [OF value_object.hyps] by blast
  have d': "drop k data = u @ CHR 0x22 # s @ CHR ''}'' # post" using k u(1) by simp
  have e: "skip_while is_ws data k = k + length u"
    using skip_ws_complete [OF d' u(2)] by (simp add: is_ws_def)
  have "expectObject data k = objectKey data (skip_while is_ws data k)"
    unfolding expectObject.simps [of data k] Let_def e
    using drop_ConsD [OF drop_appendD [OF d']] by simp
  moreover have "\<not> is_ws (CHR ''{'')" by (simp add: is_ws_def)
  ultimately show ?case
    using value_object.IH [OF k] expectValue_dispatch(1) [OF d value_object.prems(2) _ refl] by (simp add: k_def)
next
  case (elements_one w1 v w2)
  then have d: "drop i data = w1 @ v @ w2 @ CHR '']'' # post" by simp
  define k where "k = i + length w1 + length v"
  have val: "expectValue data i = (k, True)"
    using elements_one.IH [OF d elements_one.hyps(1) follows_ws_append] elements_one.hyps by (simp add: k_def)
  have k: "drop k data = w2 @ CHR '']'' # post"
    using drop_appendD [OF drop_appendD [OF d]] by (simp add: k_def)
  have "expectCommaOrEnd data k (CHR '']'') = (k + length w2, True)"
    using expectCommaOrEnd_complete [OF k] elements_one.hyps by (simp add: is_ws_def)
  moreover have "i < length data"
    using drop_ConsD [OF drop_appendD [OF k]] by (simp add: k_def)
  ultimately show ?case
    using val drop_ConsD [OF drop_appendD [OF k]]
    unfolding arrayLoop.simps [of data i] by (simp add: k_def)
next
  case (elements_more w1 v w2 es)
  then have d: "drop i data = w1 @ v @ w2 @ CHR '','' # es @ CHR '']'' # post" by simp
  define k where "k = i + length w1 + length v"
  have val: "expectValue data i = (k, True)"
    using elements_more.IH(1) [OF d elements_more.hyps(1) follows_ws_append] elements_more.hyps by (simp add: k_def)
  have k: "drop k data = w2 @ CHR '','' # es @ CHR '']'' # post"
    using drop_appendD [OF drop_appendD [OF d]] by (simp add: k_def)
  have "expectCommaOrEnd data k (CHR '']'') = (k + length w2, True)"
    using expectCommaOrEnd_complete [OF k] elements_more.hyps by (simp add: is_ws_def)
  moreover have "i < length data"
    using drop_ConsD [OF drop_appendD [OF k]] by (simp add: k_def)
  ultimately show ?case
    using val drop_ConsD [OF drop_appendD [OF k]] elements_more.IH(2) [of "Suc (k + length w2)" post]
    unfolding arrayLoop.simps [of data i] by (simp add: k_def)
next
  case (members_one w1 key w2 w3 v w4)
  then have d: "drop i data = w1 @ CHR 0x22 # key @ CHR 0x22 # w2 @ CHR '':'' # w3 @ v @ w4 @ CHR ''}'' # post"
    by simp
  have e: "skip_while is_ws data i = i + length w1"
    using skip_ws_complete [OF d members_one.hyps(1)] by (simp add: is_ws_def)
  have val: "expectValue data j = (j + length w3 + length v, True)"
    if "drop j data = w3 @ v @ w4 @ CHR ''}'' # post" for j
    using members_one.IH [OF that members_one.hyps(4) follows_ws_append] members_one.hyps by simp
  show ?case
    using objectKey_complete(1) [OF drop_appendD [OF d] members_one.hyps(2,3,6) _ val refl] e
    by (simp add: algebra_simps)
next
  case (members_more w1 key w2 w3 v w4 ms)
  then have d: "drop i data = w1 @ CHR 0x22 # key @ CHR 0x22 # w2 @ CHR '':'' # w3 @ v @ w4 @ CHR '','' # ms @ CHR ''}'' # post"
    by simp
  have e: "skip_while is_ws data i = i + length w1"
    using skip_ws_complete [OF d members_more.hyps(1)] by (simp add: is_ws_def)
  have val: "expectValue data j = (j + length w3 + length v, True)"
    if "drop j data = w3 @ v @ w4 @ CHR '','' # ms @ CHR ''}'' # post" for j
    using members_more.IH(1) [OF that members_more.hyps(4) follows_ws_append] members_more.hyps by simp
  define m where "m = (i + length w1) + length key + length w2 + length w3 + length v + length w4 + 3"
  note ok = objectKey_complete [OF drop_appendD [OF d] members_more.hyps(2,3,6) _ val m_def]
  have m: "drop (m + 1) data = ms @ CHR ''}'' # post" by (rule ok(2)) simp_all
  obtain u s where u: "ms = u @ CHR 0x22 # s" "json_ws u"
    using json_members_split [OF members_more.hyps(7)] by blast
  have m': "drop (m + 1) data = u @ CHR 0x22 # s @ CHR ''}'' # post" using m u(1) by simp
  have n: "skip_while is_ws data (m + 1) = m + 1 + length u"
    using skip_ws_complete [OF m' u(2)] by (simp add: is_ws_def)
  have "objectKey data (i + length w1) = objectKey data (skip_while is_ws data (m + 1))"
    using ok(1) drop_ConsD [OF drop_appendD [OF m']] n by (simp add: Let_def)
  with members_more.IH(2) [OF m] e show ?case by (simp add: m_def algebra_simps)
qed

section \<open>The language of the validator\<close>

lemma expectJSON_sound:
  assumes "snd (expectJSON s 0)"
  shows "json_text s"
proof -
  obtain j where j: "expectJSON s 0 = (j, True)" using assms by (cases "expectJSON s 0") auto
  define k where "k = skip_while is_ws s 0"
  have r: "k < length s"
    using j by (auto simp: expectJSON_def k_def [symmetric] Let_def split: if_splits)
  with j obtain l where l: "expectValue s k = (l, True)" "\<not> skip_while is_ws s l < length s"
    by (auto simp: expectJSON_def k_def [symmetric] Let_def on_ok_eq_True split: if_splits)
  obtain w1 where w1: "seg s 0 k w1" "json_ws w1"
    using skip_ws_sound [of 0 s] unfolding k_def by auto
  from expect_sound(1) [OF l(1)] r obtain w v where
    v: "seg s k l (w @ v)" "json_ws w" "json_value v" by auto
  have "l \<le> length s" using v(1) by (simp add: seg_def)
  from skip_ws_sound [OF this] obtain w2 where w2: "seg s l (skip_while is_ws s l) w2" "json_ws w2" .
  have "seg s 0 (length s) ((w1 @ w) @ v @ w2)"
    using seg_append [OF seg_append [OF w1(1) v(1)] w2(1)] l(2) w2(1) by (simp add: seg_def)
  then have "s = (w1 @ w) @ v @ w2" by (simp add: seg_def)
  moreover have "json_ws (w1 @ w)" using w1(2) v(2) by (simp add: json_ws_def)
  ultimately show ?thesis using v(3) w2(2) unfolding json_text_def by blast
qed

lemma expectJSON_complete:
  assumes s: "s = w1 @ v @ w2" and ws: "json_ws w1" "json_ws w2" and v: "json_value v"
    and nd: "\<not> (w2 = [] \<and> (\<exists>d. v = [d] \<and> is_digit d))"
  shows "snd (expectJSON s 0)"
proof -
  obtain c t where c: "v = c # t" "\<not> is_ws c"
    using json_value_head [OF v] json_head_not_ws by blast
  have d: "drop 0 s = w1 @ c # t @ w2" using s c(1) by simp
  have k: "skip_while is_ws s 0 = length w1"
    using skip_ws_complete [OF d ws(1) c(2)] by simp
  have st: "stops w2"
    using ws(2) by (cases w2) (auto simp: stops_def json_ws_def is_ws_def number_cont_def is_digit_def)
  have "follows v w2"
    using nd st by (auto simp: follows_def)
  moreover have dv: "drop (length w1) s = [] @ v @ w2" using s by simp
  ultimately have val: "expectValue s (length w1) = (length w1 + length v, True)"
    using expect_complete(1) [OF v dv] by (simp add: json_ws_def)
  have "skip_while is_ws s (length w1 + length v) = length s"
    using skip_while_append [of is_ws w2 "[]" "w1 @ v"] ws(2) s by (simp add: json_ws_def)
  with k val s c(1) show ?thesis by (simp add: expectJSON_def)
qed

lemma expectJSON_digit:
  assumes "json_ws w" "is_digit d"
  shows "\<not> snd (expectJSON (w @ [d]) 0)"
proof -
  have nd: "\<not> is_ws d" using assms(2) by (rule is_digit_not_ws)
  have dr: "drop 0 (w @ [d]) = w @ d # []" by simp
  have dr': "drop (length w) (w @ [d]) = [] @ d # []" by simp
  have k: "skip_while is_ws (w @ [d]) 0 = length w"
    using skip_ws_complete [OF dr assms(1) nd] by simp
  have "expectValue (w @ [d]) (length w) = expectNumber (w @ [d]) (Suc (length w))"
    using expectValue_dispatch(4) [OF dr' _ nd refl] assms(2) by (simp add: json_ws_def)
  also have "\<dots> = (Suc (length w), False)" by (simp add: expectNumber_def)
  finally show ?thesis using k by (simp add: expectJSON_def)
qed

section \<open>Properties\<close>

lemma validator_grammar:
  "IsValidJSON s \<longleftrightarrow> json_text s \<and> \<not> (\<exists>w d. s = w @ [d] \<and> json_ws w \<and> is_digit d)"
proof (intro iffI conjI)
  assume v: "IsValidJSON s"
  then show "json_text s" by (intro expectJSON_sound) (simp add: IsValidJSON_def)
  show "\<not> (\<exists>w d. s = w @ [d] \<and> json_ws w \<and> is_digit d)"
    using v expectJSON_digit by (auto simp: IsValidJSON_def)
next
  assume a: "json_text s \<and> \<not> (\<exists>w d. s = w @ [d] \<and> json_ws w \<and> is_digit d)"
  then obtain w1 v w2 where s: "s = w1 @ v @ w2" "json_ws w1" "json_value v" "json_ws w2"
    by (auto simp: json_text_def)
  with a have "\<not> (w2 = [] \<and> (\<exists>d. v = [d] \<and> is_digit d))" by auto
  with s show "IsValidJSON s" unfolding IsValidJSON_def by (intro expectJSON_complete)
qed

text \<open>C1: \<open>IsValidJSON\<close> accepts a byte string exactly when it is a JSON text of RFC 8259
  (white space, one value, white space), except that it rejects every text that ends in a
  value of one single digit: \<open>expectNumber\<close> refuses when the digit is the last byte.\<close>

theorem IsValidJSON_iff:
  "IsValidJSON s \<longleftrightarrow> json_text s \<and> \<not> (\<exists>w d. s = w @ [d] \<and> json_ws w \<and> is_digit d)"
  by (rule validator_grammar)

text \<open>the one-digit document \<open>7\<close> is a JSON text, and the validator rejects it, while
  it accepts the same digit with a trailing blank and the two-digit document.\<close>

theorem IsValidJSON_single_digit:
  "json_text ''7'' \<and> \<not> IsValidJSON ''7'' \<and> IsValidJSON ''7 '' \<and> IsValidJSON ''77''"
proof (intro conjI)
  have "json_value ''7''"
    using json_numberI [of "[]" "''7''" "[]" "[]"]
    by (intro value_number) (simp add: json_int_def digits1_def is_digit_def json_frac_def json_exp_def)
  then show "json_text ''7''"
    unfolding json_text_def json_ws_def by (metis append.right_neutral append_Nil list.pred_inject(1))
  show "\<not> IsValidJSON ''7''" by code_simp
  show "IsValidJSON ''7 ''" by code_simp
  show "IsValidJSON ''77''" by code_simp
qed

text \<open>for documents whose value is an object or an array, the validator and the grammar
  agree without exception.\<close>

theorem IsValidJSON_container:
  assumes "json_ws w" "c = CHR ''{'' \<or> c = CHR ''[''"
  shows "IsValidJSON (w @ c # s) \<longleftrightarrow> json_text (w @ c # s)"
proof -
  have "\<not> (w @ c # s = w' @ [d] \<and> json_ws w' \<and> is_digit d)" for w' d
  proof
    assume *: "w @ c # s = w' @ [d] \<and> json_ws w' \<and> is_digit d"
    then have "c \<in> set (w' @ [d])" by (metis in_set_conv_decomp)
    moreover have "\<not> is_ws c \<and> \<not> is_digit c"
      using assms(2) by (auto simp: is_ws_def is_digit_def)
    ultimately show False using * by (auto simp: json_ws_def list_all_iff)
  qed
  then show ?thesis unfolding validator_grammar by blast
qed

theorem IsValidJSON_container_witness:
  "IsValidJSON ('' '' @ CHR ''['' # ''1,2]'') \<and> json_text ('' '' @ CHR ''['' # ''1,2]'')"
proof -
  have "IsValidJSON ('' '' @ CHR ''['' # ''1,2]'')" by code_simp
  moreover from this have "json_text ('' '' @ CHR ''['' # ''1,2]'')"
    using IsValidJSON_container [of "'' ''" "CHR ''[''" "''1,2]''"] by (simp add: json_ws_def is_ws_def)
  ultimately show ?thesis by blast
qed

end
