(* ===== verification/Netx.thy ===== *)
theory Netx
  imports GoPrelude "HOL-Library.Multiset"
begin

text \<open>
  The package \<open>pkg/netx\<close>: IP network arithmetic.  An address is its slice of bytes
  (4 or 16 of them, most significant first), \<open>big.Int\<close> is \<^typ>\<open>int\<close>, and a function that
  indexes a slice out of range panics.  The operations on masks that the package takes
  from Go's \<open>net\<close> (\<open>CIDRMask\<close>, \<open>IPMask.Size\<close>, \<open>IP.To4\<close>, \<open>IPNet.Contains\<close>) come first.
\<close>

unbundle bit_operations_syntax

section \<open>Data\<close>

type_synonym ip = "8 word list"
type_synonym mask = "8 word list"

record IPNet =
  netIP :: ip
  netMask :: mask

record Subnet =
  ipNet :: IPNet
  networkAddress :: ip
  broadcastAddress :: ip
  firstHost :: ip
  lastHost :: ip
  totalHosts :: int
  prefixLen :: int

datatype netx_error =
    NilNetwork
  | PrefixOutOfRange int int
  | PrefixNotGreater int int
  | PrefixExceeds int int
  | TooFewParts int
  | NotPowerOfTwo int
  | EmptyRequirements
  | BadRequirement nat int
  | NoValidPrefix int
  | InsufficientSpace nat int
  | InvalidCIDR gostring

section \<open>Masks, as Go's \<open>net\<close> defines them\<close>

definition leading_ones :: "8 word \<Rightarrow> nat" where
  "leading_ones v = length (takeWhile (bit v) [7, 6, 5, 4, 3, 2, 1, 0])"

fun simpleMaskLength :: "mask \<Rightarrow> nat option" where
  "simpleMaskLength [] = Some 0"
| "simpleMaskLength (v # vs) =
    (if v = 255 then map_option (\<lambda>n. 8 + n) (simpleMaskLength vs)
     else if push_bit (leading_ones v) v \<noteq> 0 then None
     else if list_all (\<lambda>w. w = 0) vs then Some (leading_ones v) else None)"

definition mask_Size :: "mask \<Rightarrow> int \<times> int" where
  "mask_Size m = (case simpleMaskLength m of
      None \<Rightarrow> (0, 0)
    | Some n \<Rightarrow> (int n, 8 * int (length m)))"

fun mask_bytes :: "nat \<Rightarrow> nat \<Rightarrow> mask" where
  "mask_bytes 0 n = []"
| "mask_bytes (Suc l) n =
    (if 8 \<le> n then 255 # mask_bytes l (n - 8)
     else NOT (drop_bit n 255) # mask_bytes l 0)"

definition CIDRMask :: "int \<Rightarrow> int \<Rightarrow> mask" where
  "CIDRMask ones bits =
    (if bits \<noteq> 32 \<and> bits \<noteq> 128 then []
     else if ones < 0 \<or> bits < ones then []
     else mask_bytes (nat (bits div 8)) (nat ones))"

definition To4 :: "ip \<Rightarrow> ip option" where
  "To4 a =
    (if length a = 4 then Some a
     else if length a = 16 \<and> list_all (\<lambda>b. b = 0) (take 10 a) \<and> a ! 10 = 255 \<and> a ! 11 = 255
     then Some (drop 12 a) else None)"

definition networkNumberAndMask :: "IPNet \<Rightarrow> (ip \<times> mask) option" where
  "networkNumberAndMask n =
    (let m = netMask n in
     case (case To4 (netIP n) of Some a \<Rightarrow> Some a
           | None \<Rightarrow> if length (netIP n) = 16 then Some (netIP n) else None) of
       None \<Rightarrow> None
     | Some a \<Rightarrow>
        if length m = 4 then (if length a = 4 then Some (a, m) else None)
        else if length m = 16 then Some (a, if length a = 4 then drop 12 m else m)
        else None)"

definition IPNet_Contains :: "IPNet \<Rightarrow> ip \<Rightarrow> bool" where
  "IPNet_Contains n a =
    (let x = (case To4 a of Some b \<Rightarrow> b | None \<Rightarrow> a) in
     case networkNumberAndMask n of
       None \<Rightarrow> x = []
     | Some (nn, m) \<Rightarrow>
        length x = length nn \<and> (\<forall>i \<in> {0..<length x}. nn ! i AND m ! i = x ! i AND m ! i))"

section \<open>Address arithmetic (\<open>utilities.go\<close>)\<close>

definition cloneIP :: "ip \<Rightarrow> ip" where
  "cloneIP a = a"

text \<open>\<open>new(big.Int).SetBytes(ip)\<close>\<close>

definition ipToInt :: "ip \<Rightarrow> int" where
  "ipToInt a = foldl (\<lambda>v b. v * 256 + uint b) 0 a"

text \<open>\<open>n.Bytes()\<close>: the absolute value, without leading zero bytes.\<close>

fun big_bytes :: "nat \<Rightarrow> ip" where
  "big_bytes n = (if n = 0 then [] else big_bytes (n div 256) @ [of_nat (n mod 256)])"

declare big_bytes.simps [simp del]

definition intToIP :: "int \<Rightarrow> nat \<Rightarrow> ip option" where
  "intToIP n l =
    (let raw = big_bytes (nat \<bar>n\<bar>) in
     if l < length raw then None
     else Some (replicate (l - length raw) 0 @ raw))"

definition ipAddOffset :: "ip \<Rightarrow> int \<Rightarrow> ip option" where
  "ipAddOffset a off =
    (let raw = big_bytes (nat \<bar>ipToInt a + off\<bar>) in
     if length a < length raw then None
     else Some (replicate (length a - length raw) 0 @ raw))"

definition computeBroadcast :: "ip \<Rightarrow> mask \<Rightarrow> ip option" where
  "computeBroadcast network m =
    (if length m < length network then None
     else Some (map (\<lambda>(b, k). b OR NOT k) (zip network m)))"

definition computeHostRange :: "ip \<Rightarrow> ip \<Rightarrow> int \<Rightarrow> int \<Rightarrow> (ip \<times> ip) option" where
  "computeHostRange network broadcast p bits =
    (if p = bits then Some (cloneIP network, cloneIP network)
     else if p = bits - 1 then Some (cloneIP network, cloneIP broadcast)
     else case ipAddOffset network 1 of
       None \<Rightarrow> None
     | Some f \<Rightarrow> (case ipAddOffset broadcast (- 1) of
         None \<Rightarrow> None
       | Some l \<Rightarrow> Some (f, l)))"

text \<open>
  \<open>Lsh(1, uint(k))\<close> with a negative \<open>k\<close> asks for a number of about \<open>2^64\<close> bits, for
  which \<open>make\<close> panics.
\<close>

definition computeTotalHosts :: "int \<Rightarrow> int \<Rightarrow> int option" where
  "computeTotalHosts p bits =
    (let hostBits = wrap64 (bits - p) in
     if hostBits = 0 then Some 1
     else if hostBits = 1 then Some 2
     else if hostBits < 0 then None
     else Some (2 ^ nat hostBits - 2))"

section \<open>Construction of a subnet (\<open>default.go\<close>, \<open>parse.go\<close>)\<close>

definition buildSubnet :: "IPNet \<Rightarrow> Subnet option" where
  "buildSubnet n =
    (let (p, bits) = mask_Size (netMask n);
         network = cloneIP (netIP n)
     in case computeBroadcast network (netMask n) of
       None \<Rightarrow> None
     | Some broadcast \<Rightarrow> (case computeHostRange network broadcast p bits of
         None \<Rightarrow> None
       | Some (f, l) \<Rightarrow> (case computeTotalHosts p bits of
           None \<Rightarrow> None
         | Some tot \<Rightarrow> Some
            \<lparr> ipNet = n, networkAddress = network, broadcastAddress = broadcast,
              firstHost = f, lastHost = l, totalHosts = tot, prefixLen = p \<rparr>)))"

text \<open>The parser of Go's \<open>net\<close> is the argument \<open>parse\<close>: the network of a CIDR string, or
  \<^term>\<open>None\<close> for its error.\<close>

definition ParseCIDR :: "(gostring \<Rightarrow> IPNet option) \<Rightarrow> gostring \<Rightarrow> (netx_error, Subnet) go" where
  "ParseCIDR parse cidr = (case parse cidr of
      None \<Rightarrow> Error (InvalidCIDR cidr)
    | Some n \<Rightarrow> or_panic (buildSubnet n))"

definition MustParseCIDR :: "(gostring \<Rightarrow> IPNet option) \<Rightarrow> gostring \<Rightarrow> Subnet option" where
  "MustParseCIDR parse cidr = (case ParseCIDR parse cidr of
      Return s \<Rightarrow> Some s
    | Error e \<Rightarrow> None
    | Panic \<Rightarrow> None)"

text \<open>\<open>str\<close> is \<open>(*net.IPNet).String\<close>.\<close>

definition SubnetsToStrings :: "(IPNet \<Rightarrow> gostring) \<Rightarrow> IPNet option list \<Rightarrow> gostring list" where
  "SubnetsToStrings str nets = map (\<lambda>n. case n of None \<Rightarrow> [] | Some x \<Rightarrow> str x) nets"

definition AllocatedSubnetsToStrings :: "(IPNet \<Rightarrow> gostring) \<Rightarrow> Subnet list \<Rightarrow> gostring list" where
  "AllocatedSubnetsToStrings str subnets = map (\<lambda>s. str (ipNet s)) subnets"

section \<open>Queries (\<open>entry.go\<close>)\<close>

text \<open>A nil pointer or a nil slice is \<^term>\<open>None\<close>.\<close>

definition Contains :: "IPNet option \<Rightarrow> ip option \<Rightarrow> bool" where
  "Contains network a =
    (case (network, a) of (Some n, Some x) \<Rightarrow> IPNet_Contains n x | _ \<Rightarrow> False)"

definition Overlaps :: "IPNet option \<Rightarrow> IPNet option \<Rightarrow> bool" where
  "Overlaps netA netB =
    (case (netA, netB) of
       (Some a, Some b) \<Rightarrow> IPNet_Contains a (netIP b) \<or> IPNet_Contains b (netIP a)
     | _ \<Rightarrow> False)"

definition NetworkSize :: "IPNet option \<Rightarrow> int" where
  "NetworkSize n = (case n of None \<Rightarrow> 0
    | Some x \<Rightarrow> (let (p, bits) = mask_Size (netMask x) in 2 ^ nat (bits - p)))"

definition HostCount :: "int \<Rightarrow> int \<Rightarrow> int option" where
  "HostCount p bits = computeTotalHosts p bits"

function prefix_loop :: "int \<Rightarrow> int \<Rightarrow> int \<Rightarrow> int option" where
  "prefix_loop required bits p =
    (if p < 0 then Some (- 1)
     else case computeTotalHosts p bits of
       None \<Rightarrow> None
     | Some t \<Rightarrow> if required \<le> t then Some p else prefix_loop required bits (p - 1))"
  by pat_completeness auto
termination by (relation "measure (\<lambda>(_, _, p). nat (p + 1))") auto

declare prefix_loop.simps [simp del]

definition PrefixForHosts :: "int \<Rightarrow> int \<Rightarrow> int option" where
  "PrefixForHosts hosts bits = prefix_loop hosts bits bits"

definition NextSubnet :: "IPNet option \<Rightarrow> int \<Rightarrow> (netx_error, IPNet) go" where
  "NextSubnet net newPrefix = (case net of
      None \<Rightarrow> Error NilNetwork
    | Some n \<Rightarrow>
       (let bits = snd (mask_Size (netMask n)) in
        if newPrefix < 0 \<or> bits < newPrefix then Error (PrefixOutOfRange newPrefix bits)
        else bind_go (or_panic (computeBroadcast (netIP n) (netMask n))) (\<lambda>broadcast.
             bind_go (or_panic (ipAddOffset broadcast 1)) (\<lambda>nextIP.
               let newMask = CIDRMask newPrefix bits in
               if length newMask < length nextIP then Panic
               else Return \<lparr> netIP = map (\<lambda>(b, k). b AND k) (zip nextIP newMask),
                             netMask = newMask \<rparr>))))"

section \<open>Fixed-length splitting (\<open>flsm.go\<close>)\<close>

text \<open>The loop with counter \<open>count - k\<close> and the address \<open>current\<close>.\<close>

fun split_loop :: "mask \<Rightarrow> nat \<Rightarrow> int \<Rightarrow> nat \<Rightarrow> int \<Rightarrow> (netx_error, IPNet list) go" where
  "split_loop m l sz 0 current = Return []"
| "split_loop m l sz (Suc k) current =
    bind_go (or_panic (intToIP current l)) (\<lambda>a.
    bind_go (split_loop m l sz k (current + sz)) (\<lambda>rest.
      Return (\<lparr> netIP = a, netMask = m \<rparr> # rest)))"

definition Split :: "IPNet option \<Rightarrow> int \<Rightarrow> (netx_error, IPNet list) go" where
  "Split network newPrefix = (case network of
      None \<Rightarrow> Error NilNetwork
    | Some n \<Rightarrow>
       (let (basePrefix, bits) = mask_Size (netMask n) in
        if newPrefix \<le> basePrefix then Error (PrefixNotGreater newPrefix basePrefix)
        else if bits < newPrefix then Error (PrefixExceeds newPrefix bits)
        else
          let extraBits = newPrefix - basePrefix;
              count = 2 ^ nat extraBits;
              subnetSize = 2 ^ nat (bits - newPrefix);
              newMask = CIDRMask newPrefix bits
          in split_loop newMask (length (netIP n)) subnetSize count (ipToInt (netIP n))))"

text \<open>\<open>for v > 1 { v >>= 1; bitsNeeded++ }\<close>\<close>

function shift_count :: "int \<Rightarrow> int \<Rightarrow> int" where
  "shift_count v needed = (if 1 < v then shift_count (drop_bit 1 v) (needed + 1) else needed)"
  by pat_completeness auto
termination
  by (relation "measure (\<lambda>(v, _). nat v)") (auto simp: drop_bit_eq_div)

declare shift_count.simps [simp del]

definition SplitIntoN :: "IPNet option \<Rightarrow> int \<Rightarrow> (netx_error, IPNet list) go" where
  "SplitIntoN network n = (case network of
      None \<Rightarrow> Error NilNetwork
    | Some x \<Rightarrow>
        if n < 2 then Error (TooFewParts n)
        else if n AND (n - 1) \<noteq> 0 then Error (NotPowerOfTwo n)
        else
          (let basePrefix = fst (mask_Size (netMask x))
           in Split (Some x) (basePrefix + shift_count n 0)))"

section \<open>Variable-length allocation (\<open>vlsm.go\<close>)\<close>

fun first_bad :: "nat \<Rightarrow> int list \<Rightarrow> (nat \<times> int) option" where
  "first_bad i [] = None"
| "first_bad i (h # hs) = (if h < 1 then Some (i, h) else first_bad (Suc i) hs)"

fun divide_loop ::
    "int \<Rightarrow> nat \<Rightarrow> int \<Rightarrow> nat \<Rightarrow> int list \<Rightarrow> int \<Rightarrow> (netx_error, Subnet list) go" where
  "divide_loop bits l baseEnd i [] current = Return []"
| "divide_loop bits l baseEnd i (hosts # rest) current =
    bind_go (or_panic (PrefixForHosts hosts bits)) (\<lambda>p.
      if p < 0 then Error (NoValidPrefix hosts)
      else
        let subnetSize = 2 ^ nat (bits - p);
            rem = current mod subnetSize;
            start = (if rem \<noteq> 0 then current + (subnetSize - rem) else current);
            subnetEnd = start + subnetSize - 1
        in if baseEnd < subnetEnd then Error (InsufficientSpace i hosts)
           else
             bind_go (or_panic (intToIP start l)) (\<lambda>a.
             bind_go (or_panic (buildSubnet \<lparr> netIP = a, netMask = CIDRMask p bits \<rparr>)) (\<lambda>s.
             bind_go (divide_loop bits l baseEnd (Suc i) rest (start + subnetSize)) (\<lambda>ss.
               Return (s # ss)))))"

definition DivideByHosts :: "IPNet option \<Rightarrow> int list \<Rightarrow> (netx_error, Subnet list) go" where
  "DivideByHosts base hostRequirements = (case base of
      None \<Rightarrow> Error NilNetwork
    | Some n \<Rightarrow>
        if hostRequirements = [] then Error EmptyRequirements
        else
          (let bits = snd (mask_Size (netMask n)) in
           case first_bad 0 hostRequirements of
             Some (i, h) \<Rightarrow> Error (BadRequirement i h)
           | None \<Rightarrow>
               (let sorted = rev (sort hostRequirements) in
                bind_go (or_panic (computeBroadcast (netIP n) (netMask n))) (\<lambda>b.
                  divide_loop bits (length (netIP n)) (ipToInt b) 0 sorted (ipToInt (netIP n))))))"

section \<open>Addresses as numbers\<close>

lemma ipToInt_foldl: "foldl (\<lambda>v b. v * 256 + uint b) a (bs :: ip) = a * 256 ^ length bs + ipToInt bs"
proof (induction bs arbitrary: a)
  case (Cons b bs)
  show ?case
    using Cons [of "a * 256 + uint b"] Cons [of "uint b"]
    by (simp add: ipToInt_def algebra_simps)
qed (simp add: ipToInt_def)

lemma ipToInt_Nil [simp]: "ipToInt [] = 0"
  by (simp add: ipToInt_def)

lemma ipToInt_Cons [simp]: "ipToInt (b # bs) = uint b * 256 ^ length bs + ipToInt bs"
  using ipToInt_foldl [of "uint b" bs] by (simp add: ipToInt_def)

lemma ipToInt_append [simp]: "ipToInt (as @ bs) = ipToInt as * 256 ^ length bs + ipToInt bs"
  using ipToInt_foldl [of "ipToInt as" bs] by (simp add: ipToInt_def)

lemma ipToInt_replicate [simp]: "ipToInt (replicate k 0) = 0"
  by (induction k) auto

lemma uint8_less: "uint (b :: 8 word) < 256"
  using uint_lt2p [of b] by simp

lemma ipToInt_nonneg [simp]: "0 \<le> ipToInt a"
  by (induction a) auto

lemma ipToInt_less: "ipToInt a < 256 ^ length a"
proof (induction a)
  case (Cons b a)
  have "uint b * 256 ^ length a + ipToInt a < (uint b + 1) * 256 ^ length a"
    using Cons by (simp add: algebra_simps)
  also have "\<dots> \<le> 256 * 256 ^ length a"
    using uint8_less [of b] by (intro mult_right_mono) auto
  finally show ?case by simp
qed simp

lemma ipToInt_inject: "length a = length b \<Longrightarrow> ipToInt a = ipToInt b \<Longrightarrow> a = b"
proof (induction a b rule: list_induct2)
  case (Cons x xs y ys)
  have "ipToInt (x # xs) div 256 ^ length xs = uint x" "ipToInt (x # xs) mod 256 ^ length xs = ipToInt xs"
    using ipToInt_less [of xs] by simp_all
  moreover have "ipToInt (y # ys) div 256 ^ length ys = uint y" "ipToInt (y # ys) mod 256 ^ length ys = ipToInt ys"
    using ipToInt_less [of ys] by simp_all
  ultimately show ?case using Cons by (metis word_uint_eqI)
qed simp

lemma big_bytes_val: "ipToInt (big_bytes n) = int n"
proof (induction n rule: big_bytes.induct)
  case (1 n)
  show ?case
  proof (cases "n = 0")
    case False
    have "uint (of_nat (n mod 256) :: 8 word) = int n mod 256"
      by (simp add: unsigned_of_nat take_bit_eq_mod zmod_int)
    then show ?thesis using 1 False
      by (subst big_bytes.simps) (simp add: zdiv_int)
  qed (simp add: big_bytes.simps)
qed

lemma big_bytes_length: "n < 256 ^ l \<longleftrightarrow> length (big_bytes n) \<le> l"
proof (induction n arbitrary: l rule: big_bytes.induct)
  case (1 n)
  show ?case
  proof (cases "n = 0")
    case False
    then show ?thesis
    proof (cases l)
      case (Suc k)
      then have "n < 256 ^ l \<longleftrightarrow> n div 256 < 256 ^ k"
        by (simp add: div_less_iff_less_mult mult.commute)
      then show ?thesis using 1 [OF False, of k] False Suc
        by (subst big_bytes.simps) simp
    qed (simp add: big_bytes.simps)
  qed (simp add: big_bytes.simps)
qed

lemma big_bytes_length_int: "0 \<le> x \<Longrightarrow> length (big_bytes (nat x)) \<le> l \<longleftrightarrow> x < 256 ^ l"
  by (metis big_bytes_length nat_less_iff of_nat_numeral of_nat_power)

lemma intToIP_eq:
  assumes "0 \<le> x"
  shows "intToIP x l = Some a \<longleftrightarrow> length a = l \<and> ipToInt a = x"
proof
  assume "intToIP x l = Some a"
  with assms show "length a = l \<and> ipToInt a = x"
    by (auto simp: intToIP_def Let_def big_bytes_val split: if_splits)
next
  assume a: "length a = l \<and> ipToInt a = x"
  then have "x < 256 ^ l" using ipToInt_less [of a] by simp
  with assms have le: "length (big_bytes (nat x)) \<le> l" by (simp add: big_bytes_length_int)
  then have "replicate (l - length (big_bytes (nat x))) 0 @ big_bytes (nat x) = a"
    using a assms by (intro ipToInt_inject) (auto simp: big_bytes_val)
  with le assms show "intToIP x l = Some a" by (simp add: intToIP_def Let_def)
qed

lemma intToIP_ex:
  assumes "0 \<le> x" and "x < 256 ^ l"
  obtains a where "intToIP x l = Some a" "length a = l" "ipToInt a = x"
proof -
  have "intToIP x l \<noteq> None"
    using assms by (simp add: intToIP_def Let_def big_bytes_length_int not_less)
  then obtain a where "intToIP x l = Some a" by blast
  with intToIP_eq [OF assms(1)] that show thesis by blast
qed

lemma ipAddOffset_intToIP: "ipAddOffset a off = intToIP (ipToInt a + off) (length a)"
  by (simp add: ipAddOffset_def intToIP_def)

section \<open>Masks\<close>

lemma less8_cases: "(n :: nat) < 8 \<Longrightarrow> n \<in> {0, 1, 2, 3, 4, 5, 6, 7}"
  by auto

lemma length_mask_bytes [simp]: "length (mask_bytes l n) = l"
  by (induction l n rule: mask_bytes.induct) auto

lemma mask_bytes_0 [simp]: "mask_bytes l 0 = replicate l 0"
  by (induction l) auto

lemma simpleMaskLength_zero [simp]: "simpleMaskLength (replicate l 0) = Some 0"
  by (cases l) (auto simp: leading_ones_def list_all_iff)

lemma leading_ones_mask:
  assumes "n < 8"
  shows "NOT (drop_bit n (255 :: 8 word)) \<noteq> 255 \<and> leading_ones (NOT (drop_bit n 255)) = n
    \<and> push_bit n (NOT (drop_bit n (255 :: 8 word))) = 0"
  using less8_cases [OF assms]
  by (elim insertE) (simp_all add: leading_ones_def)

lemma simpleMaskLength_mask_bytes: "n \<le> 8 * l \<Longrightarrow> simpleMaskLength (mask_bytes l n) = Some n"
proof (induction l n rule: mask_bytes.induct)
  case (2 l n)
  show ?case
  proof (cases "8 \<le> n")
    case False
    then show ?thesis using leading_ones_mask [of n] by (simp add: list_all_iff)
  qed (use 2 in auto)
qed simp

text \<open>A canonical mask applied to an address clears (\<open>AND\<close>) or sets (\<open>OR NOT\<close>) its host part.\<close>

lemma int_and_not_mask: "(x :: int) AND NOT (mask k) = x - x mod 2 ^ k"
proof -
  have "NOT x AND take_bit k x = 0" "x AND NOT (take_bit k x) = x AND NOT (mask k)"
    by (auto simp: bit_eq_iff bit_simps)
  then show ?thesis by (simp add: disjunctive_diff_eq_and_not [symmetric] take_bit_eq_mod)
qed

lemma int_or_mask: "(x :: int) OR mask k = x - x mod 2 ^ k + 2 ^ k - 1"
proof -
  have "(x AND NOT (mask k)) AND mask k = 0" "(x AND NOT (mask k)) OR mask k = x OR mask k"
    by (auto simp: bit_eq_iff bit_simps)
  then have "x OR mask k = (x AND NOT (mask k)) + mask k"
    by (simp add: disjunctive_add_eq_or)
  then show ?thesis by (simp only: int_and_not_mask) (simp add: mask_eq_exp_minus_1)
qed

lemma byte_255: "(255 :: 8 word) = - 1"
  by simp

lemma uint_byte_m1 [simp]: "uint (- 1 :: 8 word) = 255"
  by (simp add: unsigned_minus_1_eq_mask mask_eq_exp_minus_1)

lemma drop_bit_255:
  assumes "n < 8"
  shows "drop_bit n (255 :: 8 word) = mask (8 - n)"
  using less8_cases [OF assms] by (elim insertE) (simp_all add: mask_eq_exp_minus_1)

lemma uint_and_mask_byte:
  assumes "n < 8"
  shows "uint (b AND NOT (drop_bit n (255 :: 8 word))) = uint b - uint b mod 2 ^ (8 - n)"
proof -
  have "uint (b AND NOT (mask (8 - n))) = uint b AND NOT (mask (8 - n))"
    by (auto simp: bit_eq_iff bit_simps dest: bit_imp_le_length)
  then show ?thesis by (simp only: drop_bit_255 [OF assms] int_and_not_mask)
qed

lemma uint_or_mask_byte:
  assumes "n < 8"
  shows "uint (b OR drop_bit n (255 :: 8 word)) = uint b - uint b mod 2 ^ (8 - n) + 2 ^ (8 - n) - 1"
proof -
  have "uint (b OR mask (8 - n)) = uint b OR mask (8 - n)"
    by (auto simp: bit_eq_iff bit_simps dest: bit_imp_le_length)
  then show ?thesis by (simp only: drop_bit_255 [OF assms] int_or_mask)
qed

lemma mod_low_part:
  fixes a v :: int
  assumes "k \<le> 8 * l"
  shows "(a * 256 ^ l + v) mod 2 ^ k = v mod 2 ^ k"
proof -
  have "(256 :: int) ^ l = 2 ^ k * 2 ^ (8 * l - k)"
    using assms by (simp add: power_mult flip: power_add)
  then have "(a * 256 ^ l + v) mod 2 ^ k = (v + 2 ^ k * (2 ^ (8 * l - k) * a)) mod 2 ^ k"
    by (simp add: algebra_simps)
  then show ?thesis by simp
qed

lemma mod_high_part:
  fixes a v :: int
  assumes "0 \<le> v" "v < 256 ^ l"
  shows "(a * 256 ^ l + v) mod 2 ^ (j + 8 * l) = (a mod 2 ^ j) * 256 ^ l + v"
proof -
  have e: "(2 :: int) ^ (j + 8 * l) = 2 ^ j * 256 ^ l"
    by (simp add: power_add power_mult)
  have "(a * 256 ^ l + v) mod (256 ^ l * 2 ^ j) = 256 ^ l * ((a * 256 ^ l + v) div 256 ^ l mod 2 ^ j)
      + (a * 256 ^ l + v) mod 256 ^ l"
    by (rule zmod_zmult2_eq) simp
  then show ?thesis using assms unfolding e by (simp add: mult.commute)
qed

lemma mask_and_val:
  assumes "length a = l" and "n \<le> 8 * l"
  shows "ipToInt (map (\<lambda>(b, k). b AND k) (zip a (mask_bytes l n)))
    = ipToInt a - ipToInt a mod 2 ^ (8 * l - n)"
  using assms
proof (induction l n arbitrary: a rule: mask_bytes.induct)
  case (2 l n)
  then obtain b c where a: "a = b # c" "length c = l" by (cases a) auto
  show ?case
  proof (cases "8 \<le> n")
    case True
    then have "8 * Suc l - n = 8 * l - (n - 8)" by simp
    moreover have "(b AND 255) = b" by (simp add: byte_255)
    ultimately show ?thesis
      using 2 True a by (simp add: mod_low_part)
  next
    case False
    have z: "ipToInt (map (\<lambda>(b, k). b AND k) (zip c (replicate l 0))) = 0"
      using a(2) by (induction c arbitrary: l) (auto simp: zip_replicate2 comp_def)
    define j where "j = 8 - n"
    have e: "8 * Suc l - n = j + 8 * l" using False by (simp add: j_def)
    have m: "(uint b * 256 ^ l + ipToInt c) mod 2 ^ (j + 8 * l) = (uint b mod 2 ^ j) * 256 ^ l + ipToInt c"
      using ipToInt_less [of c] a(2) by (intro mod_high_part) auto
    have "uint (b AND NOT (drop_bit n 255)) = uint b - uint b mod 2 ^ j"
      using uint_and_mask_byte [of n b] False by (simp add: j_def)
    then show ?thesis
      unfolding e a(1) using False a(2) z by (simp add: m left_diff_distrib)
  qed
qed simp

lemma replicate_ff_val: "ipToInt (map (\<lambda>(b, k). b OR NOT k) (zip c (replicate (length c) 0))) = 256 ^ length c - 1"
  by (induction c) auto

lemma mask_or_val:
  assumes "length a = l" and "n \<le> 8 * l"
  shows "ipToInt (map (\<lambda>(b, k). b OR NOT k) (zip a (mask_bytes l n)))
    = ipToInt a - ipToInt a mod 2 ^ (8 * l - n) + 2 ^ (8 * l - n) - 1"
  using assms
proof (induction l n arbitrary: a rule: mask_bytes.induct)
  case (2 l n)
  then obtain b c where a: "a = b # c" "length c = l" by (cases a) auto
  show ?case
  proof (cases "8 \<le> n")
    case True
    then have "8 * Suc l - n = 8 * l - (n - 8)" by simp
    moreover have "(b OR NOT 255) = b" by (simp add: byte_255)
    ultimately show ?thesis
      using 2 True a by (simp add: mod_low_part)
  next
    case False
    define j where "j = 8 - n"
    have e: "8 * Suc l - n = j + 8 * l" using False by (simp add: j_def)
    have p: "(2 :: int) ^ (j + 8 * l) = 2 ^ j * 256 ^ l" by (simp add: power_add power_mult)
    have m: "(uint b * 256 ^ l + ipToInt c) mod 2 ^ (j + 8 * l) = (uint b mod 2 ^ j) * 256 ^ l + ipToInt c"
      using ipToInt_less [of c] a(2) by (intro mod_high_part) auto
    have "uint (b OR drop_bit n 255) = uint b - uint b mod 2 ^ j + 2 ^ j - 1"
      using uint_or_mask_byte [of n b] False by (simp add: j_def)
    then show ?thesis
      unfolding e a(1) using False a(2) replicate_ff_val [of c]
      by (simp add: m, simp only: p, simp add: algebra_simps)
  qed
qed simp

section \<open>Networks as blocks of addresses\<close>

text \<open>The numeric first address, the size and the set of addresses of a network.\<close>

definition net_lo :: "IPNet \<Rightarrow> int" where
  "net_lo n = ipToInt (netIP n)"

definition net_size :: "IPNet \<Rightarrow> int" where
  "net_size n = (let (p, bits) = mask_Size (netMask n) in 2 ^ nat (bits - p))"

definition block :: "IPNet \<Rightarrow> int set" where
  "block n = {net_lo n ..< net_lo n + net_size n}"

text \<open>What \<open>net.ParseCIDR\<close> returns: a canonical mask and an address without host bits.\<close>

definition wf_net :: "IPNet \<Rightarrow> bool" where
  "wf_net n \<longleftrightarrow> (let (p, bits) = mask_Size (netMask n) in
      bits \<in> {32, 128} \<and> bits = 8 * int (length (netIP n)) \<and>
      0 \<le> p \<and> p \<le> bits \<and> netMask n = CIDRMask p bits \<and>
      net_lo n mod 2 ^ nat (bits - p) = 0)"

abbreviation net_prefix :: "IPNet \<Rightarrow> int" where
  "net_prefix n \<equiv> fst (mask_Size (netMask n))"

abbreviation net_bits :: "IPNet \<Rightarrow> int" where
  "net_bits n \<equiv> snd (mask_Size (netMask n))"

lemma CIDRMask_eq:
  "bits \<in> {32, 128} \<Longrightarrow> 0 \<le> p \<Longrightarrow> p \<le> bits \<Longrightarrow>
    CIDRMask p bits = mask_bytes (nat (bits div 8)) (nat p)"
  by (auto simp: CIDRMask_def)

lemma mask_Size_CIDRMask [simp]:
  assumes "bits \<in> {32, 128}" "0 \<le> p" "p \<le> bits"
  shows "mask_Size (CIDRMask p bits) = (p, bits)"
proof -
  have "nat p \<le> 8 * nat (bits div 8)" using assms by auto
  then have "simpleMaskLength (mask_bytes (nat (bits div 8)) (nat p)) = Some (nat p)"
    by (rule simpleMaskLength_mask_bytes)
  with assms show ?thesis by (auto simp: mask_Size_def CIDRMask_eq)
qed

lemma length_CIDRMask [simp]:
  "bits \<in> {32, 128} \<Longrightarrow> 0 \<le> p \<Longrightarrow> p \<le> bits \<Longrightarrow> length (CIDRMask p bits) = nat (bits div 8)"
  by (simp add: CIDRMask_eq)

lemma wf_netD:
  assumes "wf_net n"
  shows "net_bits n \<in> {32, 128}" "length (netIP n) = nat (net_bits n div 8)"
    "net_bits n = 8 * int (length (netIP n))"
    "0 \<le> net_prefix n" "net_prefix n \<le> net_bits n"
    "netMask n = CIDRMask (net_prefix n) (net_bits n)"
    "net_lo n mod 2 ^ nat (net_bits n - net_prefix n) = 0"
    "net_size n = 2 ^ nat (net_bits n - net_prefix n)"
  using assms by (auto simp: wf_net_def net_size_def split_beta Let_def)

lemma wf_netI:
  assumes "bits \<in> {32, 128}" "length a = nat (bits div 8)" "0 \<le> p" "p \<le> bits"
    and "ipToInt a mod 2 ^ nat (bits - p) = 0"
  shows "wf_net \<lparr> netIP = a, netMask = CIDRMask p bits \<rparr>"
  using assms by (auto simp: wf_net_def net_lo_def)

lemma pow_bits: "bits \<in> {32, 128} \<Longrightarrow> (256 :: int) ^ nat (bits div 8) = 2 ^ nat bits"
  by auto

lemma wf_net_top:
  assumes "wf_net n"
  shows "net_lo n + net_size n \<le> 2 ^ nat (net_bits n)"
proof -
  note n = wf_netD [OF assms]
  have lt: "net_lo n < 2 ^ nat (net_bits n)"
    using ipToInt_less [of "netIP n"] pow_bits [OF n(1)] n(2) by (simp add: net_lo_def)
  from n(7) obtain q where q: "net_lo n = net_size n * q" unfolding n(8) by (metis dvdE mod_eq_0_iff_dvd)
  have e: "(2 :: int) ^ nat (net_bits n) = net_size n * 2 ^ nat (net_prefix n)"
    unfolding n(8) using n(4,5) by (simp flip: power_add nat_add_distrib)
  have s: "0 < net_size n" by (simp add: n(8))
  from lt q e have "q < 2 ^ nat (net_prefix n)" using s by simp
  then have "net_size n * (q + 1) \<le> net_size n * 2 ^ nat (net_prefix n)"
    using s by (intro mult_left_mono) auto
  with q e show ?thesis by (simp add: algebra_simps)
qed

lemma computeBroadcast_wf:
  assumes "wf_net n"
  obtains b where "computeBroadcast (netIP n) (netMask n) = Some b"
    "length b = length (netIP n)" "ipToInt b = net_lo n + net_size n - 1"
proof -
  note n = wf_netD [OF assms]
  let ?l = "length (netIP n)"
  define k where "k = nat (net_prefix n)"
  have m: "netMask n = mask_bytes ?l k"
    unfolding k_def n(2) using n(6) CIDRMask_eq [OF n(1,4,5)] by (rule trans)
  have k: "k \<le> 8 * ?l" unfolding k_def n(2) using n(1,4,5) by auto
  have e: "8 * ?l - k = nat (net_bits n - net_prefix n)" unfolding k_def n(2) using n(1,4,5) by auto
  show thesis
  proof (rule that)
    show "computeBroadcast (netIP n) (netMask n) =
        Some (map (\<lambda>(b, k). b OR NOT k) (zip (netIP n) (mask_bytes ?l k)))"
      by (simp add: computeBroadcast_def m)
    show "ipToInt (map (\<lambda>(b, k). b OR NOT k) (zip (netIP n) (mask_bytes ?l k))) = net_lo n + net_size n - 1"
      using mask_or_val [OF refl k] n(7,8) by (simp add: e net_lo_def)
  qed simp
qed

end
