(* ===== verification/NetxAlloc.thy ===== *)
theory NetxAlloc
  imports Netx
begin

text \<open>
  Correctness of \<open>pkg/netx\<close>: \<open>Split\<close> and \<open>SplitIntoN\<close> partition a block,
  \<open>PrefixForHosts\<close> is optimal, \<open>DivideByHosts\<close> allocates disjoint blocks and succeeds
  exactly when they fit, \<open>Overlaps\<close> is intersection, and \<open>NextSubnet\<close> is the
  block after the argument, or a panic at the end of the address space.
\<close>

unbundle bit_operations_syntax

section \<open>Splitting\<close>

lemma split_loop_correct:
  fixes S :: int
  assumes S: "0 < S" and m: "\<And>a. length a = l \<Longrightarrow> ipToInt a mod S = 0 \<Longrightarrow> P \<lparr> netIP = a, netMask = m \<rparr>"
    and "0 \<le> cur" "cur + int k * S \<le> 256 ^ l" "cur mod S = 0"
  shows "\<exists>ns. split_loop m l S k cur = Return ns \<and> length ns = k \<and>
    (\<forall>i < k. P (ns ! i) \<and> netMask (ns ! i) = m \<and> length (netIP (ns ! i)) = l \<and>
       net_lo (ns ! i) = cur + int i * S)"
  using assms(3-5)
proof (induction k arbitrary: cur)
  case (Suc k)
  have s: "cur + S + int k * S \<le> 256 ^ l" using Suc.prems(2) by (simp add: algebra_simps)
  moreover have "0 \<le> int k * S" using S by simp
  ultimately have "cur < 256 ^ l" using S by linarith
  then obtain a where a: "intToIP cur l = Some a" "length a = l" "ipToInt a = cur"
    by (rule intToIP_ex [OF Suc.prems(1)])
  have "0 \<le> cur + S" "(cur + S) mod S = 0" using Suc.prems S by simp_all
  from Suc.IH [OF this(1) s this(2)] obtain ns where ns: "split_loop m l S k (cur + S) = Return ns"
    "length ns = k" "\<And>i. i < k \<Longrightarrow> P (ns ! i) \<and> netMask (ns ! i) = m \<and>
       length (netIP (ns ! i)) = l \<and> net_lo (ns ! i) = (cur + S) + int i * S"
    by blast
  let ?n = "\<lparr> netIP = a, netMask = m \<rparr>"
  have w: "P ?n" using a(2,3) Suc.prems(3) by (intro m) simp_all
  have all: "P ((?n # ns) ! i) \<and> netMask ((?n # ns) ! i) = m \<and>
       length (netIP ((?n # ns) ! i)) = l \<and> net_lo ((?n # ns) ! i) = cur + int i * S"
    if "i < Suc k" for i
  proof (cases i)
    case 0
    then show ?thesis using w a by (simp add: net_lo_def)
  next
    case (Suc j)
    then show ?thesis using ns(3) [of j] that by (simp add: algebra_simps)
  qed
  have "split_loop m l S (Suc k) cur = Return (?n # ns)" "length (?n # ns) = Suc k"
    using a(1) ns(1,2) by simp_all
  with all show ?case by (intro exI [of _ "?n # ns"]) simp
qed simp

lemma UN_consecutive_blocks:
  fixes lo S :: int
  assumes "0 < S"
  shows "(\<Union>i < k. {lo + int i * S ..< lo + int i * S + S}) = {lo ..< lo + int k * S}"
proof (induction k)
  case (Suc k)
  have "(\<Union>i < Suc k. {lo + int i * S ..< lo + int i * S + S})
      = {lo + int k * S ..< lo + int k * S + S} \<union> {lo ..< lo + int k * S}"
    by (simp add: lessThan_Suc Suc)
  also have "\<dots> = {lo ..< lo + int (Suc k) * S}"
  proof -
    define x where "x = int k * S"
    have "0 \<le> x" "int (Suc k) * S = x + S" using assms by (simp_all add: x_def algebra_simps)
    then show ?thesis using assms by (auto simp flip: x_def)
  qed
  finally show ?case .
qed simp

lemma consecutive_blocks_disjoint:
  fixes lo S :: int
  assumes "0 < S" "i < j"
  shows "{lo + int i * S ..< lo + int i * S + S} \<inter> {lo + int j * S ..< lo + int j * S + S} = {}"
proof -
  have "int i * S + S \<le> int j * S"
    using mult_right_mono [of "int i + 1" "int j" S] assms by (simp add: algebra_simps)
  then show ?thesis by auto
qed

lemma Split_result:
  assumes "wf_net n" "net_prefix n < q" "q \<le> net_bits n"
  obtains ns where "Split (Some n) q = Return ns" "length ns = 2 ^ nat (q - net_prefix n)"
    "\<And>i. i < length ns \<Longrightarrow> wf_net (ns ! i) \<and> netMask (ns ! i) = CIDRMask q (net_bits n) \<and>
       length (netIP (ns ! i)) = length (netIP n) \<and>
       net_lo (ns ! i) = net_lo n + int i * 2 ^ nat (net_bits n - q)"
    "net_size n = 2 ^ nat (q - net_prefix n) * 2 ^ nat (net_bits n - q)"
proof -
  note n = wf_netD [OF assms(1)]
  let ?b = "net_bits n" and ?k = "2 ^ nat (q - net_prefix n) :: nat"
  have e: "net_size n = int ?k * 2 ^ nat (?b - q)"
    unfolding n(8) using assms(2,3) by (simp flip: power_add nat_add_distrib)
  have m: "net_lo n mod 2 ^ nat (?b - q) = 0"
  proof -
    have "(2 :: int) ^ nat (?b - q) dvd 2 ^ nat (?b - net_prefix n)"
      using assms(2,3) by (intro le_imp_power_dvd) auto
    with n(7) show ?thesis by (metis dvd_trans mod_eq_0_iff_dvd)
  qed
  define S where "S = (2 :: int) ^ nat (?b - q)"
  have S: "0 < S" by (simp add: S_def)
  have q: "0 \<le> q" using n(4) assms(2) by simp
  have P: "wf_net \<lparr> netIP = a, netMask = CIDRMask q ?b \<rparr>"
    if "length a = length (netIP n)" "ipToInt a mod S = 0" for a
    using that n(1,2) q assms(3) by (intro wf_netI) (simp_all add: S_def)
  have top: "net_lo n + int ?k * S \<le> 256 ^ length (netIP n)"
    unfolding S_def e [symmetric] n(2) pow_bits [OF n(1)] by (rule wf_net_top [OF assms(1)])
  have nn: "0 \<le> net_lo n" by (simp add: net_lo_def)
  from split_loop_correct [of S "length (netIP n)" wf_net, OF S P nn top m [folded S_def]]
  obtain ns where ns: "split_loop (CIDRMask q ?b) (length (netIP n)) S ?k (net_lo n) = Return ns"
    "length ns = ?k" "\<And>i. i < ?k \<Longrightarrow> wf_net (ns ! i) \<and> netMask (ns ! i) = CIDRMask q ?b \<and>
       length (netIP (ns ! i)) = length (netIP n) \<and> net_lo (ns ! i) = net_lo n + int i * S"
    by blast
  have r: "Split (Some n) q = Return ns"
    using ns(1) assms(2,3) by (simp add: Split_def Let_def split_beta net_lo_def S_def)
  have "net_size n = 2 ^ nat (q - net_prefix n) * 2 ^ nat (?b - q)"
    unfolding e by simp
  with r ns(2) ns(3) [folded ns(2), unfolded S_def] show thesis by (rule that)
qed

text \<open>C16: for a network \<open>n\<close> of the form \<open>net.ParseCIDR\<close> returns and a longer prefix within the
  address family, \<open>Split\<close> succeeds; its subnets are well formed, have the requested prefix,
  are in address order, cover exactly the addresses of \<open>n\<close>, and no two of them
  share an address.\<close>

theorem Split_partitions:
  assumes "wf_net n" and "net_prefix n < q" and "q \<le> net_bits n"
  shows "\<exists>ns. Split (Some n) q = Return ns \<and>
    length ns = 2 ^ nat (q - net_prefix n) \<and>
    (\<forall>x \<in> set ns. wf_net x \<and> mask_Size (netMask x) = (q, net_bits n)) \<and>
    sorted_wrt (\<lambda>x y. net_lo x + net_size x \<le> net_lo y) ns \<and>
    (\<Union>x \<in> set ns. block x) = block n"
proof -
  note n = wf_netD [OF assms(1)]
  let ?S = "2 ^ nat (net_bits n - q) :: int"
  from Split_result [OF assms] obtain ns where ns: "Split (Some n) q = Return ns"
    "length ns = 2 ^ nat (q - net_prefix n)"
    "\<And>i. i < length ns \<Longrightarrow> wf_net (ns ! i) \<and> netMask (ns ! i) = CIDRMask q (net_bits n) \<and>
       length (netIP (ns ! i)) = length (netIP n) \<and> net_lo (ns ! i) = net_lo n + int i * ?S"
    "net_size n = 2 ^ nat (q - net_prefix n) * ?S"
    by blast
  have q: "0 \<le> q" using n(4) assms(2) by simp
  have size: "net_size (ns ! i) = ?S" if "i < length ns" for i
    using ns(3) [OF that] n(1) q assms(3) by (simp add: net_size_def)
  have blk: "block (ns ! i) = {net_lo n + int i * ?S ..< net_lo n + int i * ?S + ?S}" if "i < length ns" for i
    using ns(3) [OF that] size [OF that] by (simp add: block_def)
  have "(\<Union>x \<in> set ns. block x) = (\<Union>i < length ns. block (ns ! i))"
    by (auto simp: set_conv_nth)
  also have "\<dots> = (\<Union>i < length ns. {net_lo n + int i * ?S ..< net_lo n + int i * ?S + ?S})"
    using blk by simp
  also have "\<dots> = block n"
    unfolding UN_consecutive_blocks [OF zero_less_power [OF zero_less_numeral]]
    by (simp add: block_def ns(2,4))
  finally have union: "(\<Union>x \<in> set ns. block x) = block n" .
  have sorted: "sorted_wrt (\<lambda>x y. net_lo x + net_size x \<le> net_lo y) ns"
  proof (unfold sorted_wrt_iff_nth_less, intro allI impI)
    fix i j assume ij: "i < j" "j < length ns"
    then have "(int i + 1) * ?S \<le> int j * ?S" by (intro mult_right_mono) auto
    with ij show "net_lo (ns ! i) + net_size (ns ! i) \<le> net_lo (ns ! j)"
      using ns(3) [of i] ns(3) [of j] size [of i] by (simp add: algebra_simps)
  qed
  have "\<forall>x \<in> set ns. wf_net x \<and> mask_Size (netMask x) = (q, net_bits n)"
    using ns(3) n(1) q assms(3) by (auto simp: set_conv_nth)
  with ns(1,2) sorted union show ?thesis by blast
qed


section \<open>Host counts\<close>

lemma computeTotalHosts_eq:
  assumes "0 \<le> p" "p \<le> bits" "bits < 2 ^ 63"
  shows "computeTotalHosts p bits =
    Some (if bits - p = 0 then 1 else if bits - p = 1 then 2 else 2 ^ nat (bits - p) - 2)"
proof -
  have "in_int64 (bits - p)" using assms by (simp add: in_int64_def)
  then show ?thesis using assms by (simp add: computeTotalHosts_def)
qed

text \<open>The capacity of a block, as a function of its number of host bits.\<close>

definition capacity :: "int \<Rightarrow> int" where
  "capacity h = (if h = 0 then 1 else if h = 1 then 2 else 2 ^ nat h - 2)"

lemma computeTotalHosts_capacity:
  "0 \<le> p \<Longrightarrow> p \<le> bits \<Longrightarrow> bits < 2 ^ 63 \<Longrightarrow> computeTotalHosts p bits = Some (capacity (bits - p))"
  by (simp add: computeTotalHosts_eq capacity_def)

lemma prefix_loop_correct:
  assumes "bits < 2 ^ 63" "p \<le> bits" "- 1 \<le> p"
  shows "\<exists>r. prefix_loop required bits p = Some r \<and> - 1 \<le> r \<and> r \<le> p \<and>
    (0 \<le> r \<longrightarrow> required \<le> capacity (bits - r)) \<and>
    (\<forall>q. r < q \<and> 0 \<le> q \<and> q \<le> p \<longrightarrow> capacity (bits - q) < required)"
  using assms
proof (induction required bits p rule: prefix_loop.induct)
  case (1 required bits p)
  show ?case
  proof (cases "p < 0")
    case True
    then show ?thesis using 1 by (subst prefix_loop.simps) auto
  next
    case False
    then have c: "computeTotalHosts p bits = Some (capacity (bits - p))"
      using 1(2,3) by (intro computeTotalHosts_capacity) simp_all
    show ?thesis
    proof (cases "required \<le> capacity (bits - p)")
      case True
      then show ?thesis using False c by (subst prefix_loop.simps) auto
    next
      case no: False
      with 1(1) [OF False c no] 1(2,3) False obtain r where
        r: "prefix_loop required bits (p - 1) = Some r" "- 1 \<le> r" "r \<le> p - 1"
        "0 \<le> r \<longrightarrow> required \<le> capacity (bits - r)"
        "\<And>q. r < q \<and> 0 \<le> q \<and> q \<le> p - 1 \<Longrightarrow> capacity (bits - q) < required"
        by auto
      have "capacity (bits - q) < required" if "r < q \<and> 0 \<le> q \<and> q \<le> p" for q
        using r(5) [of q] that no by (cases "q = p") auto
      with r(1-4) False c no show ?thesis by (subst prefix_loop.simps) auto
    qed
  qed
qed

text \<open>C38: for an address family of \<open>bits\<close> bits, \<open>PrefixForHosts\<close> returns the most specific
  prefix whose usable host count reaches the request, and \<open>-1\<close> exactly when even the prefix
  \<open>0\<close> is too small.\<close>

theorem PrefixForHosts_optimal:
  assumes "bits \<in> {32, 128}"
  shows "\<exists>p. PrefixForHosts hosts bits = Some p \<and> - 1 \<le> p \<and> p \<le> bits \<and>
    (0 \<le> p \<longrightarrow> (\<exists>t. HostCount p bits = Some t \<and> hosts \<le> t)) \<and>
    (\<forall>q. p < q \<and> 0 \<le> q \<and> q \<le> bits \<longrightarrow> (\<exists>t. HostCount q bits = Some t \<and> t < hosts)) \<and>
    (p = - 1 \<longleftrightarrow> 2 ^ nat bits - 2 < hosts)"
proof -
  have b: "bits < 2 ^ 63" "- 1 \<le> bits" "0 \<le> bits" using assms by auto
  obtain p where p: "prefix_loop hosts bits bits = Some p" "- 1 \<le> p" "p \<le> bits"
    "0 \<le> p \<longrightarrow> hosts \<le> capacity (bits - p)"
    "\<And>q. p < q \<and> 0 \<le> q \<and> q \<le> bits \<Longrightarrow> capacity (bits - q) < hosts"
    using prefix_loop_correct [OF b(1) order_refl b(2), of hosts] by blast
  have hc: "HostCount q bits = Some (capacity (bits - q))" if "0 \<le> q" "q \<le> bits" for q
    using that b(1) by (simp add: HostCount_def computeTotalHosts_capacity)
  have c0: "capacity bits = 2 ^ nat bits - 2" using assms by (auto simp: capacity_def)
  have mono: "capacity (bits - q) \<le> capacity bits" if "0 \<le> q" "q \<le> bits" for q
  proof -
    have "(2 :: int) ^ nat (bits - q) \<le> 2 ^ nat bits" using that by (intro power_increasing) auto
    moreover have "capacity bits = 2 ^ nat bits - 2" "4 \<le> (2 :: int) ^ nat bits" using assms by (auto simp: capacity_def)
    ultimately show ?thesis by (auto simp: capacity_def)
  qed
  have "p = - 1 \<longleftrightarrow> 2 ^ nat bits - 2 < hosts"
  proof
    assume "p = - 1"
    with p(5) [of 0] b(3) c0 show "2 ^ nat bits - 2 < hosts" by simp
  next
    assume h: "2 ^ nat bits - 2 < hosts"
    show "p = - 1"
    proof (rule ccontr)
      assume "p \<noteq> - 1"
      with p(2) have "0 \<le> p" by simp
      with p(3,4) mono [of p] c0 h show False by simp
    qed
  qed
  with p hc show ?thesis unfolding PrefixForHosts_def by fastforce
qed

section \<open>A fully computed subnet\<close>

lemma bits_less: "bits \<in> {32, 128} \<Longrightarrow> bits < (2 :: int) ^ 63"
  by auto

lemma buildSubnet_wf:
  assumes "wf_net n"
  obtains s where "buildSubnet n = Some s" "ipNet s = n" "networkAddress s = netIP n"
    "ipToInt (broadcastAddress s) = net_lo n + net_size n - 1"
    "totalHosts s = capacity (net_bits n - net_prefix n)" "prefixLen s = net_prefix n"
    "net_lo n \<le> ipToInt (firstHost s)" "ipToInt (lastHost s) < net_lo n + net_size n"
    "ipToInt (lastHost s) - ipToInt (firstHost s) + 1 = totalHosts s"
proof -
  note n = wf_netD [OF assms]
  define h where "h = net_bits n - net_prefix n"
  obtain b where b: "computeBroadcast (netIP n) (netMask n) = Some b"
    "length b = length (netIP n)" "ipToInt b = net_lo n + net_size n - 1"
    by (rule computeBroadcast_wf [OF assms])
  have t: "computeTotalHosts (net_prefix n) (net_bits n) = Some (capacity h)"
    unfolding h_def using n(4,5) bits_less [OF n(1)] by (rule computeTotalHosts_capacity)
  have lo: "ipToInt (netIP n) = net_lo n" by (simp add: net_lo_def)
  have size: "net_size n = 2 ^ nat h" by (simp add: n(8) h_def)
  have "\<exists>f l. computeHostRange (netIP n) b (net_prefix n) (net_bits n) = Some (f, l) \<and>
      net_lo n \<le> ipToInt f \<and> ipToInt l < net_lo n + net_size n \<and>
      ipToInt l - ipToInt f + 1 = capacity h"
  proof -
    consider "h = 0" | "h = 1" | "1 < h" using n(5) h_def by linarith
    then show ?thesis
    proof cases
      case 1
      then show ?thesis using size lo
        by (simp add: computeHostRange_def h_def cloneIP_def capacity_def)
    next
      case 2
      then show ?thesis using size lo b(3)
        by (simp add: computeHostRange_def h_def cloneIP_def capacity_def)
    next
      case 3
      then have "(2 :: int) ^ 2 \<le> 2 ^ nat h" by (intro power_increasing) auto
      then have four: "4 \<le> net_size n" by (simp add: size)
      have top: "net_lo n + net_size n \<le> 256 ^ length (netIP n)"
        unfolding n(2) pow_bits [OF n(1)] by (rule wf_net_top [OF assms])
      have nn: "0 \<le> net_lo n" by (simp add: net_lo_def)
      obtain f where f: "intToIP (net_lo n + 1) (length (netIP n)) = Some f" "ipToInt f = net_lo n + 1"
        by (rule intToIP_ex [of "net_lo n + 1" "length (netIP n)"]) (use nn four top in linarith)+
      obtain l where l: "intToIP (net_lo n + net_size n - 2) (length (netIP n)) = Some l"
          "ipToInt l = net_lo n + net_size n - 2"
        by (rule intToIP_ex [of "net_lo n + net_size n - 2" "length (netIP n)"]) (use nn four top in linarith)+
      have "computeHostRange (netIP n) b (net_prefix n) (net_bits n) = Some (f, l)"
        using 3 f(1) l(1) b(2,3) lo by (simp add: computeHostRange_def h_def ipAddOffset_intToIP)
      then show ?thesis using f(2) l(2) four 3 by (simp add: capacity_def size)
    qed
  qed
  then obtain f l where fl: "computeHostRange (netIP n) b (net_prefix n) (net_bits n) = Some (f, l)"
      "net_lo n \<le> ipToInt f" "ipToInt l < net_lo n + net_size n" "ipToInt l - ipToInt f + 1 = capacity h"
    by blast
  have "buildSubnet n = Some \<lparr> ipNet = n, networkAddress = netIP n, broadcastAddress = b,
      firstHost = f, lastHost = l, totalHosts = capacity h, prefixLen = net_prefix n \<rparr>"
    using b(1) fl(1) t by (simp add: buildSubnet_def split_beta Let_def cloneIP_def)
  then show thesis by (rule that) (use b(3) fl h_def in simp_all)
qed

section \<open>Variable-length allocation\<close>

definition block_need :: "int \<Rightarrow> int \<Rightarrow> int" where
  "block_need bits hosts = 2 ^ nat (bits - the (PrefixForHosts hosts bits))"

lemma PrefixForHosts_props:
  assumes "bits \<in> {32, 128}"
  obtains p where "PrefixForHosts hosts bits = Some p" "- 1 \<le> p" "p \<le> bits"
    "block_need bits hosts = 2 ^ nat (bits - p)"
    "0 \<le> p \<Longrightarrow> hosts \<le> capacity (bits - p)"
    "\<And>q. p < q \<and> 0 \<le> q \<and> q \<le> bits \<Longrightarrow> capacity (bits - q) < hosts"
proof -
  have b: "- 1 \<le> bits" using assms by auto
  obtain p where p: "prefix_loop hosts bits bits = Some p" "- 1 \<le> p" "p \<le> bits"
    "0 \<le> p \<longrightarrow> hosts \<le> capacity (bits - p)"
    "\<And>q. p < q \<and> 0 \<le> q \<and> q \<le> bits \<Longrightarrow> capacity (bits - q) < hosts"
    using prefix_loop_correct [OF bits_less [OF assms] order_refl b, of hosts] by blast
  show thesis
    by (rule that [of p]) (use p in \<open>simp_all add: PrefixForHosts_def block_need_def\<close>)
qed

lemma block_need_mono_dvd:
  assumes "bits \<in> {32, 128}" "h' \<le> h"
  shows "block_need bits h' dvd block_need bits h"
proof -
  obtain p where "PrefixForHosts h bits = Some p"
      and p: "- 1 \<le> p" "p \<le> bits" "block_need bits h = 2 ^ nat (bits - p)" "0 \<le> p \<Longrightarrow> h \<le> capacity (bits - p)"
    by (rule PrefixForHosts_props [OF assms(1), of h]) (rule that)
  obtain p' where "PrefixForHosts h' bits = Some p'"
      and p': "- 1 \<le> p'" "p' \<le> bits" "block_need bits h' = 2 ^ nat (bits - p')"
      "\<And>q. p' < q \<and> 0 \<le> q \<and> q \<le> bits \<Longrightarrow> capacity (bits - q) < h'"
    by (rule PrefixForHosts_props [OF assms(1), of h']) (rule that)
  have "p \<le> p'"
  proof (rule ccontr)
    assume "\<not> p \<le> p'"
    then have lt: "p' < p \<and> 0 \<le> p \<and> p \<le> bits" using p(2) p'(1) by linarith
    from p'(4) [OF lt] p(4) lt assms(2) show False by linarith
  qed
  then show ?thesis unfolding p(3) p'(3) by (intro le_imp_power_dvd) simp
qed

lemma block_need_pos: "0 < block_need bits h"
  by (simp add: block_need_def)

text \<open>The subnet \<open>s\<close> serves the request \<open>h\<close> at the address \<open>a\<close>.\<close>

definition serves :: "int \<Rightarrow> Subnet \<Rightarrow> int \<Rightarrow> int \<Rightarrow> bool" where
  "serves bits s h a \<longleftrightarrow> wf_net (ipNet s) \<and> net_bits (ipNet s) = bits \<and> h \<le> totalHosts s \<and>
     buildSubnet (ipNet s) = Some s \<and>
     net_lo (ipNet s) = a \<and> net_size (ipNet s) = block_need bits h"

fun allocation :: "int \<Rightarrow> Subnet list \<Rightarrow> int list \<Rightarrow> int \<Rightarrow> bool" where
  "allocation bits [] [] a = True"
| "allocation bits (s # ss) (h # hs) a =
    (serves bits s h a \<and> allocation bits ss hs (a + block_need bits h))"
| "allocation bits _ _ a = False"

lemma divide_step:
  assumes b: "bits \<in> {32, 128}" and p: "PrefixForHosts h bits = Some p" "0 \<le> p"
    and cur: "0 \<le> cur" "cur + block_need bits h \<le> 2 ^ nat bits" "cur mod block_need bits h = 0"
  obtains a s where "intToIP cur (nat (bits div 8)) = Some a"
    "buildSubnet \<lparr> netIP = a, netMask = CIDRMask p bits \<rparr> = Some s" "serves bits s h cur"
proof -
  from PrefixForHosts_props [OF b, of h] p(1) have pp: "p \<le> bits" "block_need bits h = 2 ^ nat (bits - p)"
      "h \<le> capacity (bits - p)"
    using p(2) by (metis option.inject)+
  have lt: "cur < 256 ^ nat (bits div 8)"
    unfolding pow_bits [OF b] using cur(2) block_need_pos [of bits h] by linarith
  obtain a where a: "intToIP cur (nat (bits div 8)) = Some a"
      "length a = nat (bits div 8)" "ipToInt a = cur"
    by (rule intToIP_ex [OF cur(1) lt])
  let ?n = "\<lparr> netIP = a, netMask = CIDRMask p bits \<rparr>"
  have w: "wf_net ?n" using cur(3) by (intro wf_netI [OF b a(2) p(2) pp(1)]) (simp add: pp a)
  have ms: "mask_Size (CIDRMask p bits) = (p, bits)" using b p(2) pp(1) by (rule mask_Size_CIDRMask)
  obtain s where s: "buildSubnet ?n = Some s" "ipNet s = ?n" "totalHosts s = capacity (net_bits ?n - net_prefix ?n)"
    by (rule buildSubnet_wf [OF w]) (rule that)
  have "serves bits s h cur"
    unfolding serves_def s(2) using w s(1,3) pp(2,3) a(3) by (simp add: ms net_lo_def net_size_def)
  with a(1) s(1) show thesis by (rule that)
qed

lemma divide_loop_correct:
  assumes b: "bits \<in> {32, 128}" and E: "E \<le> 2 ^ nat bits"
    and "0 \<le> cur" "sorted_wrt (\<ge>) hs"
    and "\<And>h. h \<in> set hs \<Longrightarrow> cur + block_need bits h \<le> E \<Longrightarrow> cur mod block_need bits h = 0"
  shows "if cur + (\<Sum>h \<leftarrow> hs. block_need bits h) \<le> E \<or> hs = []
    then \<exists>ss. divide_loop bits (nat (bits div 8)) (E - 1) i hs cur = Return ss \<and> allocation bits ss hs cur
    else \<exists>e. divide_loop bits (nat (bits div 8)) (E - 1) i hs cur = Error e"
  using assms(3-5)
proof (induction hs arbitrary: cur i)
  case (Cons h hs)
  let ?S = "block_need bits h"
  obtain p where p: "PrefixForHosts h bits = Some p" "- 1 \<le> p" "p \<le> bits" "?S = 2 ^ nat (bits - p)"
    by (rule PrefixForHosts_props [OF b, of h]) (rule that)
  have S: "0 < ?S" by (rule block_need_pos)
  have nn: "0 \<le> (\<Sum>h \<leftarrow> hs. block_need bits h)"
    by (intro sum_list_nonneg) (auto simp: less_imp_le block_need_pos)
  show ?case
  proof (cases "cur + ?S \<le> E")
    case False
    have "\<exists>e. divide_loop bits (nat (bits div 8)) (E - 1) i (h # hs) cur = Error e"
    proof (cases "p < 0")
      case False
      define start where "start = (if cur mod ?S \<noteq> 0 then cur + (?S - cur mod ?S) else cur)"
      have "cur mod ?S \<le> ?S" using pos_mod_bound [OF S, of cur] by (rule less_imp_le)
      then have "cur \<le> start" by (simp add: start_def)
      then have "E - 1 < start + ?S - 1" using \<open>\<not> cur + ?S \<le> E\<close> by linarith
      then show ?thesis using False p(1)
        by (simp add: Let_def p(4) [symmetric] start_def [symmetric])
    qed (use p(1) in simp)
    then show ?thesis using False nn by auto
  next
    case True
    have al: "cur mod ?S = 0" using Cons.prems(3) [of h] True by simp
    have p0: "0 \<le> p"
    proof (rule ccontr)
      assume "\<not> 0 \<le> p"
      then have "p = - 1" using p(2) by simp
      with p(4) b have "(2 :: int) ^ nat bits < ?S" by (auto simp: nat_add_distrib)
      with True E Cons.prems(1) show False by linarith
    qed
    from divide_step [OF b p(1) p0 Cons.prems(1) _ al] True E obtain a s where
      s: "intToIP cur (nat (bits div 8)) = Some a"
        "buildSubnet \<lparr> netIP = a, netMask = CIDRMask p bits \<rparr> = Some s" "serves bits s h cur"
      by (metis order_trans)
    have eq: "divide_loop bits (nat (bits div 8)) (E - 1) i (h # hs) cur =
        bind_go (divide_loop bits (nat (bits div 8)) (E - 1) (Suc i) hs (cur + ?S)) (\<lambda>ss. Return (s # ss))"
      using p(1) p0 al s(1,2) True by (simp add: Let_def p(4) [symmetric])
    have prem: "(cur + ?S) mod block_need bits h' = 0"
      if "h' \<in> set hs" "cur + ?S + block_need bits h' \<le> E" for h'
    proof -
      have "block_need bits h' dvd ?S" using that(1) Cons.prems(2) by (intro block_need_mono_dvd [OF b]) auto
      moreover have "cur mod block_need bits h' = 0" using Cons.prems(3) [of h'] that S by simp
      ultimately show ?thesis by (simp add: mod_0_imp_dvd dvd_imp_mod_0)
    qed
    have c: "0 \<le> cur + ?S" "sorted_wrt (\<ge>) hs" using Cons.prems S by simp_all
    note IH = Cons.IH [OF c prem, where i = "Suc i"]
    show ?thesis
    proof (cases "cur + ?S + (\<Sum>h \<leftarrow> hs. block_need bits h) \<le> E \<or> hs = []")
      case fits: True
      with IH obtain ss where
        "divide_loop bits (nat (bits div 8)) (E - 1) (Suc i) hs (cur + ?S) = Return ss"
        "allocation bits ss hs (cur + ?S)" by (simp only: if_True) blast
      then have "divide_loop bits (nat (bits div 8)) (E - 1) i (h # hs) cur = Return (s # ss)"
        "allocation bits (s # ss) (h # hs) cur"
        using s(3) by (simp_all only: eq bind_go.simps allocation.simps simp_thms)
      then show ?thesis using fits True by (auto simp add: add.assoc simp del: divide_loop.simps)
    next
      case False
      with IH obtain e where
        "divide_loop bits (nat (bits div 8)) (E - 1) (Suc i) hs (cur + ?S) = Error e"
        by (simp only: if_False) blast
      then have "divide_loop bits (nat (bits div 8)) (E - 1) i (h # hs) cur = Error e"
        by (simp only: eq bind_go.simps)
      then show ?thesis using False by (simp add: add.assoc del: divide_loop.simps)
    qed
  qed
qed simp

lemma first_bad_None: "first_bad i hs = None \<longleftrightarrow> (\<forall>h \<in> set hs. 1 \<le> h)"
  by (induction i hs rule: first_bad.induct) auto

lemma sort_desc: "sorted_wrt (\<ge>) (rev (sort (hs :: int list)))"
  by (simp add: sorted_wrt_rev)

lemma sum_list_rev_sort: "(\<Sum>h \<leftarrow> rev (sort hs). f h) = (\<Sum>h \<leftarrow> (hs :: int list). f h :: int)"
proof -
  have "mset (rev (sort hs)) = mset hs" by simp
  then show ?thesis by (metis mset_map sum_mset_sum_list)
qed

lemma DivideByHosts_allocation:
  assumes "wf_net n" and "hs \<noteq> []" and "\<forall>h \<in> set hs. 1 \<le> h"
  shows "if (\<Sum>h \<leftarrow> hs. block_need (net_bits n) h) \<le> net_size n
    then \<exists>ss. DivideByHosts (Some n) hs = Return ss \<and>
      allocation (net_bits n) ss (rev (sort hs)) (net_lo n)
    else \<exists>e. DivideByHosts (Some n) hs = Error e"
proof -
  note n = wf_netD [OF assms(1)]
  let ?b = "net_bits n" and ?hs = "rev (sort hs)" and ?E = "net_lo n + net_size n"
  obtain b where b: "computeBroadcast (netIP n) (netMask n) = Some b" "ipToInt b = ?E - 1"
    by (rule computeBroadcast_wf [OF assms(1)]) (rule that)
  have eq: "DivideByHosts (Some n) hs = divide_loop ?b (nat (?b div 8)) (?E - 1) 0 ?hs (net_lo n)"
    using assms(2,3) b n(2) first_bad_None [of 0 hs] by (simp add: DivideByHosts_def Let_def net_lo_def)
  have al: "net_lo n mod block_need ?b h = 0" if "h \<in> set ?hs" "net_lo n + block_need ?b h \<le> ?E" for h
  proof -
    have "block_need ?b h \<le> net_size n" using that(2) by simp
    then have "block_need ?b h dvd net_size n"
      unfolding block_need_def n(8) by (intro le_imp_power_dvd) simp
    with n(7,8) show ?thesis by (metis dvd_trans mod_0_imp_dvd dvd_imp_mod_0)
  qed
  have nn: "0 \<le> net_lo n" by (simp add: net_lo_def)
  have ne: "?hs \<noteq> []" using assms(2) by (metis rev_is_Nil_conv set_empty set_sort)
  let ?D = "divide_loop ?b (nat (?b div 8)) (?E - 1) 0 ?hs (net_lo n)"
  have "if net_lo n + (\<Sum>h \<leftarrow> ?hs. block_need ?b h) \<le> ?E \<or> ?hs = []
      then \<exists>ss. ?D = Return ss \<and> allocation ?b ss ?hs (net_lo n) else \<exists>e. ?D = Error e"
    by (rule divide_loop_correct [OF n(1) wf_net_top [OF assms(1)] nn sort_desc]) (rule al)
  then show ?thesis unfolding eq sum_list_rev_sort using ne by (simp only: add_le_cancel_left simp_thms)
qed

text \<open>C15: \<open>DivideByHosts\<close> on a well-formed base network and a non-empty list of positive
  requirements succeeds exactly when the power-of-two blocks of the requirements fit in the base
  block, whatever their order; then the subnets serve the requirements in descending
  order, back to back from the base address (each a well-formed, fully computed network of
  the family with enough usable hosts, on a block of its own), and otherwise it returns
  an error.\<close>

theorem DivideByHosts_correct:
  assumes "wf_net n" and "hs \<noteq> []" and "\<forall>h \<in> set hs. 1 \<le> h"
  shows "if (\<Sum>h \<leftarrow> hs. block_need (net_bits n) h) \<le> net_size n
    then \<exists>ss. DivideByHosts (Some n) hs = Return ss \<and>
      allocation (net_bits n) ss (rev (sort hs)) (net_lo n)
    else \<exists>e. DivideByHosts (Some n) hs = Error e"
  using assms by (rule DivideByHosts_allocation)

lemma allocation_blocks:
  assumes "allocation bits ss hs a"
  shows "length ss = length hs \<and>
    (\<forall>s \<in> set ss. a \<le> net_lo (ipNet s) \<and>
       net_lo (ipNet s) + net_size (ipNet s) \<le> a + (\<Sum>h \<leftarrow> hs. block_need bits h)) \<and>
    sorted_wrt (\<lambda>s t. net_lo (ipNet s) + net_size (ipNet s) \<le> net_lo (ipNet t)) ss \<and>
    list_all2 (\<lambda>s h. h \<le> totalHosts s) ss hs"
  using assms
proof (induction bits ss hs a rule: allocation.induct)
  case (2 bits s ss h hs a)
  have s: "net_lo (ipNet s) = a" "net_size (ipNet s) = block_need bits h" "h \<le> totalHosts s"
    using 2(2) by (simp_all add: serves_def)
  have "0 \<le> (\<Sum>h \<leftarrow> hs. block_need bits h)"
    by (intro sum_list_nonneg) (auto simp: less_imp_le block_need_pos)
  then show ?case
    using 2 s block_need_pos [of bits h] by auto
qed simp_all

text \<open>when \<open>DivideByHosts\<close> succeeds, it returns one subnet per requirement, in the
  descending order of the requirements, each with at least the required number of usable hosts;
  every subnet lies in the base network and no two of them share an address.\<close>

theorem DivideByHosts_disjoint:
  assumes "wf_net n" and "DivideByHosts (Some n) hs = Return ss"
  shows "list_all2 (\<lambda>s h. h \<le> totalHosts s) ss (rev (sort hs)) \<and>
    (\<forall>s \<in> set ss. block (ipNet s) \<subseteq> block n) \<and>
    sorted_wrt (\<lambda>s t. block (ipNet s) \<inter> block (ipNet t) = {}) ss"
proof -
  have ne: "hs \<noteq> []" using assms(2) by (auto simp: DivideByHosts_def)
  have pos: "\<forall>h \<in> set hs. 1 \<le> h"
    using assms(2) ne unfolding first_bad_None [of 0, symmetric]
    by (auto simp: DivideByHosts_def Let_def split: option.splits)
  note c = DivideByHosts_allocation [OF assms(1) ne pos]
  then have al: "allocation (net_bits n) ss (rev (sort hs)) (net_lo n)"
    and fits: "(\<Sum>h \<leftarrow> rev (sort hs). block_need (net_bits n) h) \<le> net_size n"
    using assms(2) unfolding sum_list_rev_sort by (auto split: if_splits)
  note b = allocation_blocks [OF al]
  have "sorted_wrt (\<lambda>s t. block (ipNet s) \<inter> block (ipNet t) = {}) ss"
    by (rule sorted_wrt_mono_rel [OF _ conjunct1 [OF conjunct2 [OF conjunct2 [OF b]]]])
       (auto simp: block_def)
  moreover have "\<forall>s \<in> set ss. block (ipNet s) \<subseteq> block n"
    using b fits by (fastforce simp: block_def)
  ultimately show ?thesis using b by blast
qed

section \<open>Membership and overlap\<close>

text \<open>An address that the \<open>net\<close> package does not rewrite to another length.\<close>

definition plain_ip :: "ip \<Rightarrow> bool" where
  "plain_ip a \<longleftrightarrow> length a = 4 \<or> (length a = 16 \<and> To4 a = None)"

lemma plain_To4: "plain_ip a \<Longrightarrow> (case To4 a of Some b \<Rightarrow> b | None \<Rightarrow> a) = a"
  by (auto simp: plain_ip_def To4_def)

lemma networkNumberAndMask_plain:
  "plain_ip (netIP n) \<Longrightarrow> length (netMask n) = length (netIP n) \<Longrightarrow>
    networkNumberAndMask n = Some (netIP n, netMask n)"
  by (auto simp: networkNumberAndMask_def plain_ip_def To4_def Let_def split: option.splits if_splits)

lemma and_pointwise:
  assumes "length a = length m" and "length b = length m"
  shows "(\<forall>i \<in> {0..<length a}. b ! i AND m ! i = a ! i AND m ! i) \<longleftrightarrow>
    map (\<lambda>(b, k). b AND k) (zip b m) = map (\<lambda>(b, k). b AND k) (zip a m)"
  unfolding list_eq_iff_nth_eq using assms by (simp add: Ball_def)

lemma round_down_eq_iff:
  fixes lo x S :: int
  assumes "0 < S" "lo mod S = 0"
  shows "lo = x - x mod S \<longleftrightarrow> lo \<le> x \<and> x < lo + S"
proof
  assume "lo = x - x mod S"
  then show "lo \<le> x \<and> x < lo + S"
    using pos_mod_bound [OF assms(1), of x] pos_mod_sign [OF assms(1), of x] by linarith
next
  assume a: "lo \<le> x \<and> x < lo + S"
  have "x mod S = (x - lo) mod S" using assms(2) by (metis diff_zero mod_diff_right_eq)
  also have "\<dots> = x - lo" using a by (intro mod_pos_pos_trivial) auto
  finally show "lo = x - x mod S" by simp
qed

lemma IPNet_Contains_block:
  assumes "wf_net n" "plain_ip (netIP n)" "plain_ip a"
  shows "IPNet_Contains n a \<longleftrightarrow> length a = length (netIP n) \<and> ipToInt a \<in> block n"
proof (cases "length a = length (netIP n)")
  case True
  note n = wf_netD [OF assms(1)]
  let ?l = "length (netIP n)"
  define k where "k = nat (net_prefix n)"
  have m: "netMask n = mask_bytes ?l k"
    unfolding k_def n(2) using n(6) CIDRMask_eq [OF n(1,4,5)] by (rule trans)
  have k: "k \<le> 8 * ?l" unfolding k_def n(2) using n(1,4,5) by auto
  have e: "8 * ?l - k = nat (net_bits n - net_prefix n)" unfolding k_def n(2) using n(1,4,5) by auto
  have lm: "length (netMask n) = ?l" by (simp add: m)
  let ?and = "\<lambda>b. map (\<lambda>(b, k). b AND k) (zip b (mask_bytes ?l k))"
  have "IPNet_Contains n a \<longleftrightarrow> ?and (netIP n) = ?and a"
    using and_pointwise [of a "mask_bytes ?l k" "netIP n"] True
    by (simp add: IPNet_Contains_def plain_To4 [OF assms(3)] networkNumberAndMask_plain [OF assms(2) lm] m Let_def)
  also have "\<dots> \<longleftrightarrow> ipToInt (?and (netIP n)) = ipToInt (?and a)"
    using ipToInt_inject [of "?and (netIP n)" "?and a"] True by auto
  also have "\<dots> \<longleftrightarrow> net_lo n = ipToInt a - ipToInt a mod net_size n"
    using mask_and_val [OF refl k] mask_and_val [OF True k] n(7)
    by (simp only: e n(8) net_lo_def [symmetric]) simp
  also have "\<dots> \<longleftrightarrow> ipToInt a \<in> block n"
    unfolding block_def atLeastLessThan_iff
    by (rule round_down_eq_iff) (use n(7,8) in simp_all)
  finally show ?thesis using True by simp
next
  case False
  have "length (netMask n) = length (netIP n)"
    using wf_netD [OF assms(1)] by (metis length_CIDRMask)
  from networkNumberAndMask_plain [OF assms(2) this] False plain_To4 [OF assms(3)] show ?thesis
    by (simp add: IPNet_Contains_def Let_def)
qed

text \<open>C33: for two well-formed networks (IPv4, or IPv6 outside the IPv4-mapped range),
  \<open>Overlaps\<close> holds exactly when they are of one family and share an address.\<close>

theorem Overlaps_iff_intersect:
  assumes "wf_net a" "wf_net b" "plain_ip (netIP a)" "plain_ip (netIP b)"
  shows "Overlaps (Some a) (Some b) \<longleftrightarrow> net_bits a = net_bits b \<and> block a \<inter> block b \<noteq> {}"
proof -
  note a = wf_netD [OF assms(1)] and b = wf_netD [OF assms(2)]
  have len: "length (netIP a) = length (netIP b) \<longleftrightarrow> net_bits a = net_bits b"
    using a(3) b(3) by auto
  have pos: "0 < net_size a" "0 < net_size b" by (simp_all add: a(8) b(8))
  have "block a \<inter> block b \<noteq> {} \<longleftrightarrow> net_lo b \<in> block a \<or> net_lo a \<in> block b"
  proof
    assume "block a \<inter> block b \<noteq> {}"
    then obtain x where "x \<in> block a" "x \<in> block b" by blast
    then show "net_lo b \<in> block a \<or> net_lo a \<in> block b" by (auto simp: block_def)
  qed (use pos in \<open>auto simp: block_def\<close>)
  then show ?thesis
    using IPNet_Contains_block [OF assms(1,3,4)] IPNet_Contains_block [OF assms(2,4,3)] len
    by (auto simp: Overlaps_def net_lo_def)
qed

section \<open>The next subnet\<close>

text \<open>the subnet that \<open>NextSubnet\<close> computes for a prefix of the family is the block of
  that prefix around the first address after \<open>n\<close>; when \<open>n\<close> ends the address space there is no
  such address and the copy in \<open>ipAddOffset\<close> panics.\<close>

theorem NextSubnet_result:
  assumes "wf_net n" and "0 \<le> q" and "q \<le> net_bits n"
  defines "next_lo \<equiv> net_lo n + net_size n"
  shows "if next_lo < 2 ^ nat (net_bits n)
    then \<exists>m. NextSubnet (Some n) q = Return m \<and> wf_net m \<and>
      mask_Size (netMask m) = (q, net_bits n) \<and> next_lo \<in> block m \<and>
      (net_prefix n \<le> q \<longrightarrow> net_lo m = next_lo)
    else NextSubnet (Some n) q = Panic"
proof -
  note n = wf_netD [OF assms(1)]
  let ?b = "net_bits n" and ?l = "length (netIP n)"
  define S where "S = (2 :: int) ^ nat (?b - q)"
  have S: "0 < S" by (simp add: S_def)
  obtain b where b: "computeBroadcast (netIP n) (netMask n) = Some b" "length b = ?l" "ipToInt b = net_lo n + net_size n - 1"
    by (rule computeBroadcast_wf [OF assms(1)]) (rule that)
  then have b3: "ipToInt b = next_lo - 1" by (simp add: next_lo_def)
  have nn: "0 \<le> next_lo" by (simp add: next_lo_def net_lo_def n(8))
  have pw: "(256 :: int) ^ ?l = 2 ^ nat ?b" unfolding n(2) by (rule pow_bits [OF n(1)])
  have rng: "\<not> (q < 0 \<or> ?b < q)" using assms(2,3) by simp
  have off: "ipAddOffset b 1 = intToIP next_lo ?l" by (simp add: ipAddOffset_intToIP b(2) b3)
  show ?thesis
  proof (cases "next_lo < 2 ^ nat ?b")
    case False
    then have "intToIP next_lo ?l = None"
      using nn by (simp add: intToIP_def Let_def big_bytes_length_int pw flip: not_le)
    then show ?thesis using False rng b(1) by (simp add: NextSubnet_def off)
  next
    case True
    then have "next_lo < 256 ^ ?l" by (simp only: pw)
    from intToIP_ex [OF nn this] obtain a where a: "intToIP next_lo ?l = Some a" "length a = ?l" "ipToInt a = next_lo"
      by blast
    define k where "k = nat q"
    have k: "k \<le> 8 * ?l" unfolding k_def n(2) using n(1) assms(2,3) by auto
    have m: "CIDRMask q ?b = mask_bytes ?l k"
      unfolding k_def n(2) by (rule CIDRMask_eq [OF n(1) assms(2,3)])
    have e: "8 * ?l - k = nat (?b - q)" unfolding k_def n(2) using n(1) assms(2,3) by auto
    let ?ip = "map (\<lambda>(b, k). b AND k) (zip a (mask_bytes ?l k))"
    let ?m = "\<lparr> netIP = ?ip, netMask = CIDRMask q ?b \<rparr>"
    have v: "ipToInt ?ip = next_lo - next_lo mod S"
      using mask_and_val [OF a(2) k] by (simp add: e S_def a(3))
    have w: "wf_net ?m"
    proof (rule wf_netI [OF n(1) _ assms(2,3)])
      show "length ?ip = nat (?b div 8)" by (simp add: a(2) n(2))
      show "ipToInt ?ip mod 2 ^ nat (?b - q) = 0" by (simp only: v S_def [symmetric]) simp
    qed
    have ret: "NextSubnet (Some n) q = Return ?m"
      using rng b(1) a(1,2) by (simp add: NextSubnet_def off m Let_def)
    have ms: "mask_Size (CIDRMask q ?b) = (q, ?b)" using n(1) assms(2,3) by (rule mask_Size_CIDRMask)
    have blk: "next_lo \<in> block ?m"
      using pos_mod_bound [OF S, of next_lo] pos_mod_sign [OF S, of next_lo]
      by (simp add: block_def net_lo_def net_size_def ms v flip: S_def)
    have al: "net_lo ?m = next_lo" if "net_prefix n \<le> q"
    proof -
      have "S dvd net_size n" unfolding S_def n(8) using that by (intro le_imp_power_dvd) simp
      moreover from n(7,8) have "net_size n dvd net_lo n" by auto
      ultimately have "next_lo mod S = 0" unfolding next_lo_def by auto
      then show ?thesis by (simp add: net_lo_def v)
    qed
    show ?thesis using True ret w ms blk al by auto
  qed
qed

section \<open>Splitting into a number of parts\<close>

lemma and_pred_even: "(2 * m) AND (2 * m - 1) = 2 * (m AND (m - 1))" for m :: int
proof -
  have "(2 * m - 1) div 2 = m - 1" by simp
  then show ?thesis by (simp add: and_rec [of "2 * m" "2 * m - 1"])
qed

lemma and_pred_zero_iff:
  assumes "0 < x"
  shows "(x :: int) AND (x - 1) = 0 \<longleftrightarrow> (\<exists>k. x = 2 ^ k)"
  using assms
proof (induction "nat x" arbitrary: x rule: less_induct)
  case less
  show ?case
  proof (cases "even x")
    case True
    then obtain m where m: "x = 2 * m" by blast
    have "m AND (m - 1) = 0 \<longleftrightarrow> (\<exists>k. m = 2 ^ k)"
      using less m by (intro less.hyps) auto
    moreover have "(\<exists>k. m = 2 ^ k) \<longleftrightarrow> (\<exists>k. x = 2 ^ k)"
    proof
      assume "\<exists>k. x = 2 ^ k"
      then obtain k where k: "x = 2 ^ k" by blast
      with True have "k \<noteq> 0" by (cases k) auto
      with k m show "\<exists>k. m = 2 ^ k" by (cases k) auto
    qed (auto simp: m intro: exI [of _ "Suc _"])
    ultimately show ?thesis unfolding m and_pred_even by simp
  next
    case False
    then obtain m where m: "x = 2 * m + 1" by (elim oddE)
    then have "x AND (x - 1) = 2 * m"
      by (simp add: and_rec [of "2 * m + 1" "2 * m"])
    moreover have "(\<exists>k. x = 2 ^ k) \<longleftrightarrow> x = 1"
    proof
      assume "\<exists>k. x = 2 ^ k"
      then obtain k where "x = 2 ^ k" by blast
      with False show "x = 1" by (cases k) auto
    qed (auto intro: exI [of _ 0])
    ultimately show ?thesis using m by auto
  qed
qed

lemma shift_count_power: "shift_count (2 ^ k) c = c + int k"
proof (induction k arbitrary: c)
  case (Suc k)
  have "1 < (2 :: int) ^ Suc k" by (rule one_less_power) auto
  then have "shift_count (2 ^ Suc k) c = shift_count (2 ^ k) (c + 1)"
    by (subst shift_count.simps) (simp add: drop_bit_eq_div)
  with Suc show ?case by simp
qed (simp add: shift_count.simps)

text \<open>\<open>SplitIntoN\<close> on a well-formed network returns exactly \<open>N\<close> subnets (the partition
  that \<open>Split\<close> gives) when \<open>N \<ge> 2\<close> is a power of two \<open>2 ^ k\<close> and the family has \<open>k\<close> more
  prefix bits, and an error for every other \<open>N\<close>.\<close>

theorem SplitIntoN_correct:
  assumes "wf_net n"
  shows "if \<exists>k. 1 \<le> k \<and> N = 2 ^ k \<and> net_prefix n + int k \<le> net_bits n
    then \<exists>ns q. SplitIntoN (Some n) N = Return ns \<and> int (length ns) = N \<and> Split (Some n) q = Return ns
    else \<exists>e. SplitIntoN (Some n) N = Error e"
proof (cases "\<exists>k. 1 \<le> k \<and> N = 2 ^ k")
  case True
  then obtain k where k: "1 \<le> k" "N = 2 ^ k" by blast
  have uniq: "k' = k" if "N = 2 ^ k'" for k' using that k(2) by simp
  have two: "\<not> N < 2" using k power_increasing [of 1 k "2 :: int"] by simp
  then have pos: "0 < N" by simp
  have "N AND (N - 1) = 0" using and_pred_zero_iff [OF pos] k(2) by blast
  then have eq: "SplitIntoN (Some n) N = Split (Some n) (net_prefix n + int k)"
    using two by (simp add: SplitIntoN_def Let_def k(2) shift_count_power)
  show ?thesis
  proof (cases "net_prefix n + int k \<le> net_bits n")
    case fits: True
    have "net_prefix n < net_prefix n + int k" using k(1) by simp
    from Split_result [OF assms this fits] obtain ns where
      "Split (Some n) (net_prefix n + int k) = Return ns" "length ns = 2 ^ nat (net_prefix n + int k - net_prefix n)"
      by blast
    then have "\<exists>ns q. SplitIntoN (Some n) N = Return ns \<and> int (length ns) = N \<and> Split (Some n) q = Return ns"
      using k(2) eq by auto
    then show ?thesis using fits k by auto
  next
    case False
    then have "\<exists>e. SplitIntoN (Some n) N = Error e"
      using k(1) by (simp add: eq Split_def split_beta Let_def)
    moreover have "\<not> (\<exists>k. 1 \<le> k \<and> N = 2 ^ k \<and> net_prefix n + int k \<le> net_bits n)"
      using False uniq by blast
    ultimately show ?thesis by (simp only: if_False)
  qed
next
  case False
  have "\<exists>e. SplitIntoN (Some n) N = Error e"
  proof (cases "N < 2")
    case no: False
    then have pos: "0 < N" by simp
    have "\<not> (\<exists>k. N = 2 ^ k)"
    proof
      assume "\<exists>k. N = 2 ^ k"
      then obtain k where "N = 2 ^ k" by blast
      with False no show False by (cases k) auto
    qed
    then have "N AND (N - 1) \<noteq> 0" using and_pred_zero_iff [OF pos] by blast
    then show ?thesis using no by (simp add: SplitIntoN_def)
  qed (simp add: SplitIntoN_def)
  moreover have "\<not> (\<exists>k. 1 \<le> k \<and> N = 2 ^ k \<and> net_prefix n + int k \<le> net_bits n)"
    using False by blast
  ultimately show ?thesis by (simp only: if_False)
qed

section \<open>Computed attributes\<close>

text \<open>\<open>buildSubnet\<close> (behind \<open>ParseCIDR\<close>) never panics on a well-formed network; the
  broadcast address ends the block, both host addresses lie in the block, and
  \<open>totalHosts\<close> counts the addresses from the first host to the last.\<close>

theorem buildSubnet_attributes:
  assumes "wf_net n"
  shows "\<exists>s. buildSubnet n = Some s \<and> ipNet s = n \<and> networkAddress s = netIP n \<and>
    prefixLen s = net_prefix n \<and> ipToInt (broadcastAddress s) + 1 = net_lo n + net_size n \<and>
    {ipToInt (firstHost s) .. ipToInt (lastHost s)} \<subseteq> block n \<and>
    int (card {ipToInt (firstHost s) .. ipToInt (lastHost s)}) = totalHosts s \<and>
    (if net_bits n - net_prefix n \<le> 1 then totalHosts s = net_size n else totalHosts s = net_size n - 2)"
proof -
  note n = wf_netD [OF assms]
  obtain s where s: "buildSubnet n = Some s" "ipNet s = n" "networkAddress s = netIP n"
    "ipToInt (broadcastAddress s) = net_lo n + net_size n - 1"
    "totalHosts s = capacity (net_bits n - net_prefix n)" "prefixLen s = net_prefix n"
    "net_lo n \<le> ipToInt (firstHost s)" "ipToInt (lastHost s) < net_lo n + net_size n"
    "ipToInt (lastHost s) - ipToInt (firstHost s) + 1 = totalHosts s"
    by (rule buildSubnet_wf [OF assms])
  define h where "h = net_bits n - net_prefix n"
  have h0: "0 \<le> h" and size: "net_size n = 2 ^ nat h" using n(5,8) by (simp_all add: h_def)
  consider "h = 0" | "h = 1" | "1 < h" using h0 by linarith
  then have t: "if h \<le> 1 then totalHosts s = net_size n else totalHosts s = net_size n - 2"
    by cases (simp_all add: s(5) size capacity_def flip: h_def)
  have "0 \<le> totalHosts s"
  proof (cases "h \<le> 1")
    case False
    then have "(2 :: int) ^ 1 \<le> 2 ^ nat h" by (intro power_increasing) auto
    with t False show ?thesis by (simp add: size)
  qed (use t in \<open>simp add: size\<close>)
  with s(9) have "int (card {ipToInt (firstHost s) .. ipToInt (lastHost s)}) = totalHosts s"
    by simp
  with s(1-4,6-8) t show ?thesis by (intro exI [of _ s]) (auto simp: block_def h_def)
qed

section \<open>Concrete networks\<close>

definition net_10_0_0_0_24 :: IPNet where
  "net_10_0_0_0_24 = \<lparr> netIP = [10, 0, 0, 0], netMask = [255, 255, 255, 0] \<rparr>"

definition net_last_26 :: IPNet where
  "net_last_26 = \<lparr> netIP = [255, 255, 255, 192], netMask = [255, 255, 255, 192] \<rparr>"

lemma net_10_facts:
  "mask_Size (netMask net_10_0_0_0_24) = (24, 32)" "wf_net net_10_0_0_0_24"
  "plain_ip (netIP net_10_0_0_0_24)"
  by code_simp+

lemma net_last_facts:
  "mask_Size (netMask net_last_26) = (26, 32)" "wf_net net_last_26"
  "plain_ip (netIP net_last_26)"
  by code_simp+

theorem Split_partitions_witness:
  "\<exists>ns. Split (Some net_10_0_0_0_24) 26 = Return ns \<and> length ns = 4"
  using Split_partitions [of net_10_0_0_0_24 26] by (auto simp: net_10_facts)

theorem SplitIntoN_correct_witness:
  "\<exists>ns. SplitIntoN (Some net_10_0_0_0_24) 4 = Return ns \<and> int (length ns) = 4"
proof -
  have "\<exists>k. 1 \<le> k \<and> (4 :: int) = 2 ^ k \<and> net_prefix net_10_0_0_0_24 + int k \<le> net_bits net_10_0_0_0_24"
    by (rule exI [of _ 2]) (simp add: net_10_facts)
  with SplitIntoN_correct [OF net_10_facts(2), of 4] show ?thesis by auto
qed

theorem PrefixForHosts_optimal_witness:
  "\<exists>p. PrefixForHosts 100 32 = Some p \<and> p \<le> (32 :: int)"
  using PrefixForHosts_optimal [of 32 100] by auto

theorem DivideByHosts_correct_witness:
  "(\<exists>ss. DivideByHosts (Some net_10_0_0_0_24) [10, 100, 50] = Return ss) \<and>
   (\<exists>e. DivideByHosts (Some net_10_0_0_0_24) [200, 100] = Error e)"
proof -
  have fits: "(\<Sum>h \<leftarrow> [10, 100, 50]. block_need 32 h) = 208" "(\<Sum>h \<leftarrow> [200, 100]. block_need 32 h) = 384"
    "net_size net_10_0_0_0_24 = 256"
    by code_simp+
  show ?thesis
    using DivideByHosts_correct [OF net_10_facts(2), of "[10, 100, 50]"]
      DivideByHosts_correct [OF net_10_facts(2), of "[200, 100]"] fits
    by (auto simp: net_10_facts)
qed

theorem DivideByHosts_disjoint_witness:
  "\<exists>ss. DivideByHosts (Some net_10_0_0_0_24) [100] = Return ss \<and>
    list_all2 (\<lambda>s h. h \<le> totalHosts s) ss (rev (sort [100]))"
proof -
  have "block_need 32 100 = 128" "net_size net_10_0_0_0_24 = 256"
    by code_simp+
  then obtain ss where "DivideByHosts (Some net_10_0_0_0_24) [100] = Return ss"
    using DivideByHosts_allocation [OF net_10_facts(2), of "[100]"] by (auto simp: net_10_facts)
  with DivideByHosts_disjoint [OF net_10_facts(2) this] show ?thesis by blast
qed

theorem Overlaps_iff_intersect_witness:
  "\<not> Overlaps (Some net_10_0_0_0_24) (Some net_last_26)"
  using Overlaps_iff_intersect [OF net_10_facts(2) net_last_facts(2) net_10_facts(3) net_last_facts(3)]
  by (simp add: block_def net_lo_def net_size_def net_10_facts net_last_facts)
     (simp add: net_10_0_0_0_24_def net_last_26_def)

theorem NextSubnet_result_witness:
  "(\<exists>m. NextSubnet (Some net_10_0_0_0_24) 26 = Return m \<and> wf_net m) \<and>
   NextSubnet (Some net_last_26) 26 = Panic"
proof -
  have lo: "net_lo net_10_0_0_0_24 + net_size net_10_0_0_0_24 < 2 ^ nat 32"
    "\<not> net_lo net_last_26 + net_size net_last_26 < 2 ^ nat 32"
    by code_simp+
  show ?thesis
    using NextSubnet_result [OF net_10_facts(2), of 26] NextSubnet_result [OF net_last_facts(2), of 26] lo
    by (simp add: net_10_facts net_last_facts) blast
qed

theorem buildSubnet_attributes_witness:
  "\<exists>s. buildSubnet net_10_0_0_0_24 = Some s \<and> totalHosts s = 254"
proof -
  have "net_size net_10_0_0_0_24 = 256" by code_simp
  with buildSubnet_attributes [OF net_10_facts(2)] show ?thesis by (auto simp: net_10_facts)
qed

end
