(* ===== verification/GoValues.thy ===== *)
theory GoValues
  imports Complex_Main GoPrelude "HOL-Library.AList"
begin

text \<open>
  Values that the API layer passes around: Go's \<open>any\<close> restricted to the dynamic types the
  code switches on, maps from strings as association lists (a nil map is \<^term>\<open>None\<close>),
  the maps the \<open>Respond\<close> methods build, blank strings (\<open>strutil.IsEmpty\<close>), decimal
  formatting, and \<open>http.StatusText\<close>.
\<close>

section \<open>Dynamic values\<close>

text \<open>The element types of the slices \<open>NormBody\<close> tells apart; \<open>KOther\<close> is any other.\<close>

datatype elem_kind =
    KAny | KStringMap | KString
  | KInt | KInt8 | KInt16 | KInt32 | KInt64
  | KUint | KUint8 | KUint16 | KUint32 | KUint64
  | KFloat32 | KFloat64 | KOther

datatype goval =
    GNil
  | GBool bool
  | GInt int
  | GStr gostring
  | GSlice elem_kind "goval list"
  | GMap "(gostring \<times> goval) list"
  | GPtr bool
  | GStruct bool

text \<open>\<open>GPtr b\<close> is a pointer, nil when \<open>b\<close>; \<open>GStruct b\<close> a struct, its zero value when \<open>b\<close>.\<close>

fun IsEmptyValue :: "goval \<Rightarrow> bool" where
  "IsEmptyValue GNil = True"
| "IsEmptyValue (GBool b) = (\<not> b)"
| "IsEmptyValue (GInt i) = (i = 0)"
| "IsEmptyValue (GStr s) = (length s = 0)"
| "IsEmptyValue (GSlice _ vs) = (length vs = 0)"
| "IsEmptyValue (GMap m) = (length m = 0)"
| "IsEmptyValue (GPtr nil) = nil"
| "IsEmptyValue (GStruct zero) = zero"

type_synonym fields = "(gostring \<times> goval) list option"

definition fields_len :: "fields \<Rightarrow> nat" where
  "fields_len m = (case m of None \<Rightarrow> 0 | Some kvs \<Rightarrow> length kvs)"

definition fields_get :: "fields \<Rightarrow> gostring \<Rightarrow> goval option" where
  "fields_get m k = (case m of None \<Rightarrow> None | Some kvs \<Rightarrow> map_of kvs k)"

text \<open>A value in a map that a \<open>Respond\<close> method builds.\<close>

datatype respval =
    RInt int
  | RStr gostring
  | RBool bool
  | RFloat rat
  | RTime int
  | RVal goval
  | RFields fields
  | RObj "gostring \<Rightarrow> respval option"

type_synonym response = "gostring \<Rightarrow> respval option"

definition put_if :: "bool \<Rightarrow> gostring \<Rightarrow> respval \<Rightarrow> response \<Rightarrow> response" where
  "put_if c k v m = (if c then m(k \<mapsto> v) else m)"

lemma put_if_apply: "put_if c k v m x = (if c \<and> x = k then Some v else m x)"
  by (simp add: put_if_def)

section \<open>Blank strings\<close>

text \<open>
  \<open>strings.TrimSpace\<close> removes the Unicode white space characters; \<open>drop_space\<close> removes one
  of them (in UTF-8) from the front.
\<close>

definition byte_is :: "nat list \<Rightarrow> byte \<Rightarrow> bool" where
  "byte_is ns b \<longleftrightarrow> byte_val b \<in> set ns"

fun drop_space :: "gostring \<Rightarrow> gostring option" where
  "drop_space [] = None"
| "drop_space (a # s) =
    (if byte_is [9, 10, 11, 12, 13, 32] a then Some s
     else case s of
       [] \<Rightarrow> None
     | b # s' \<Rightarrow>
        if byte_val a = 194 \<and> byte_is [133, 160] b then Some s'
        else (case s' of
          [] \<Rightarrow> None
        | c # s'' \<Rightarrow>
           if byte_val a = 225 \<and> byte_val b = 154 \<and> byte_val c = 128 then Some s''
           else if byte_val a = 226 \<and> byte_val b = 128 \<and>
              (128 \<le> byte_val c \<and> byte_val c \<le> 138 \<or> byte_is [168, 169, 175] c) then Some s''
           else if byte_val a = 226 \<and> byte_val b = 129 \<and> byte_val c = 159 then Some s''
           else if byte_val a = 227 \<and> byte_val b = 128 \<and> byte_val c = 128 then Some s''
           else None))"

lemma drop_space_length: "drop_space s = Some t \<Longrightarrow> length t < length s"
  by (cases s) (auto split: if_splits list.splits)

function TrimLeftSpace :: "gostring \<Rightarrow> gostring" where
  "TrimLeftSpace s = (case drop_space s of None \<Rightarrow> s | Some t \<Rightarrow> TrimLeftSpace t)"
  by pat_completeness auto
termination
  by (relation "measure length") (auto dest: drop_space_length)

declare TrimLeftSpace.simps [simp del]

text \<open>A string trims to the empty string exactly when trimming its left end leaves nothing.\<close>

definition IsEmpty :: "gostring \<Rightarrow> bool" where
  "IsEmpty s \<longleftrightarrow> length (TrimLeftSpace s) = 0"

definition IsNotEmpty :: "gostring \<Rightarrow> bool" where
  "IsNotEmpty s \<longleftrightarrow> \<not> IsEmpty s"

lemma IsEmpty_Nil [simp]: "IsEmpty []"
  by (simp add: IsEmpty_def TrimLeftSpace.simps)

section \<open>Decimal numbers\<close>

fun digits :: "nat \<Rightarrow> gostring" where
  "digits n = (if n < 10 then [char_of (48 + n)] else digits (n div 10) @ [char_of (48 + n mod 10)])"

declare digits.simps [simp del]

definition itoa :: "int \<Rightarrow> gostring" where
  "itoa i = (if i < 0 then CHR ''-'' # digits (nat (- i)) else digits (nat i))"

section \<open>HTTP status texts\<close>

definition http_status_texts :: "(int \<times> gostring) list" where
  "http_status_texts =
   [(100, ''Continue''), (101, ''Switching Protocols''), (102, ''Processing''), (103, ''Early Hints''),
    (200, ''OK''), (201, ''Created''), (202, ''Accepted''), (203, ''Non-Authoritative Information''),
    (204, ''No Content''), (205, ''Reset Content''), (206, ''Partial Content''), (207, ''Multi-Status''),
    (208, ''Already Reported''), (226, ''IM Used''),
    (300, ''Multiple Choices''), (301, ''Moved Permanently''), (302, ''Found''), (303, ''See Other''),
    (304, ''Not Modified''), (305, ''Use Proxy''), (307, ''Temporary Redirect''), (308, ''Permanent Redirect''),
    (400, ''Bad Request''), (401, ''Unauthorized''), (402, ''Payment Required''), (403, ''Forbidden''),
    (404, ''Not Found''), (405, ''Method Not Allowed''), (406, ''Not Acceptable''),
    (407, ''Proxy Authentication Required''), (408, ''Request Timeout''), (409, ''Conflict''), (410, ''Gone''),
    (411, ''Length Required''), (412, ''Precondition Failed''), (413, ''Request Entity Too Large''),
    (414, ''Request URI Too Long''), (415, ''Unsupported Media Type''), (416, ''Requested Range Not Satisfiable''),
    (417, ''Expectation Failed''), (418, ''I'' @ [CHR 0x27] @ ''m a teapot''), (421, ''Misdirected Request''), (422, ''Unprocessable Entity''),
    (423, ''Locked''), (424, ''Failed Dependency''), (425, ''Too Early''), (426, ''Upgrade Required''),
    (428, ''Precondition Required''), (429, ''Too Many Requests''), (431, ''Request Header Fields Too Large''),
    (451, ''Unavailable For Legal Reasons''),
    (500, ''Internal Server Error''), (501, ''Not Implemented''), (502, ''Bad Gateway''),
    (503, ''Service Unavailable''), (504, ''Gateway Timeout''), (505, ''HTTP Version Not Supported''),
    (506, ''Variant Also Negotiates''), (507, ''Insufficient Storage''), (508, ''Loop Detected''),
    (510, ''Not Extended''), (511, ''Network Authentication Required'')]"

definition http_StatusText :: "int \<Rightarrow> gostring" where
  "http_StatusText c = (case map_of http_status_texts c of None \<Rightarrow> [] | Some t \<Rightarrow> t)"

text \<open>\<open>fmt.Sprintf("%d (%s)", code, http.StatusText(code))\<close>\<close>

definition status_line :: "int \<Rightarrow> gostring" where
  "status_line c = itoa c @ '' ('' @ http_StatusText c @ '')''"

end
