(* ===== verification/ErrorChain.thy ===== *)
theory ErrorChain
  imports GoPrelude
begin

text \<open>
  The error values of \<open>error.go\<close>.  An error is a pointer to one of three structs of the
  package or a foreign error; a pointer is the address in the first argument of the constructor.
  A nil error is \<^term>\<open>None\<close>.  Captured call stacks take no part in the functions modelled
  here and are left out.
\<close>

section \<open>Data\<close>

type_synonym addr = nat

datatype goerr =
    underlying addr gostring
  | underlyingStack addr goerr
  | underlyingMessage addr goerr gostring
  | foreign addr gostring

fun err_addr :: "goerr \<Rightarrow> addr" where
  "err_addr (underlying a _) = a"
| "err_addr (underlyingStack a _) = a"
| "err_addr (underlyingMessage a _ _) = a"
| "err_addr (foreign a _) = a"

text \<open>The method \<open>Error\<close>; the embedded error of \<open>underlyingStack\<close> provides it there.\<close>

fun Error_text :: "goerr \<Rightarrow> gostring" where
  "Error_text (underlying _ m) = m"
| "Error_text (underlyingStack _ e) = Error_text e"
| "Error_text (underlyingMessage _ e m) = m @ '': '' @ Error_text e"
| "Error_text (foreign _ m) = m"

text \<open>The methods \<open>Cause\<close> and \<open>Unwrap\<close>, for the types that have them.\<close>

fun causer :: "goerr \<Rightarrow> goerr option" where
  "causer (underlyingStack _ e) = Some e"
| "causer (underlyingMessage _ e _) = Some e"
| "causer _ = None"

lemma causer_size: "causer e = Some c \<Longrightarrow> size c < size e"
  by (cases e) auto

section \<open>Constructors\<close>

text \<open>The addresses that a call allocates are its arguments.\<close>

definition NewError :: "addr \<Rightarrow> gostring \<Rightarrow> goerr option" where
  "NewError a msg = Some (underlying a msg)"

definition NewErrorAck :: "addr \<Rightarrow> goerr option \<Rightarrow> goerr option" where
  "NewErrorAck a err = (case err of None \<Rightarrow> None | Some e \<Rightarrow> Some (underlyingStack a e))"

definition NewErrorAckf :: "addr \<Rightarrow> addr \<Rightarrow> goerr option \<Rightarrow> gostring \<Rightarrow> goerr option" where
  "NewErrorAckf a a' err msg = (case err of
      None \<Rightarrow> None
    | Some e \<Rightarrow> Some (underlyingStack a' (underlyingMessage a e msg)))"

definition AppendError :: "addr \<Rightarrow> goerr option \<Rightarrow> gostring \<Rightarrow> goerr option" where
  "AppendError a err msg = (case err of
      None \<Rightarrow> None
    | Some e \<Rightarrow> Some (underlyingMessage a e msg))"

definition AppendErrorAck :: "addr \<Rightarrow> addr \<Rightarrow> goerr option \<Rightarrow> gostring \<Rightarrow> goerr option" where
  "AppendErrorAck a a' err msg = (case err of
      None \<Rightarrow> None
    | Some e \<Rightarrow> Some (underlyingStack a' (underlyingMessage a e msg)))"

section \<open>Traversals\<close>

function cause_of :: "goerr \<Rightarrow> goerr" where
  "cause_of e = (case causer e of None \<Rightarrow> e | Some c \<Rightarrow> cause_of c)"
  by pat_completeness auto
termination by (relation "measure size") (auto dest: causer_size)

declare cause_of.simps [simp del]

definition Cause :: "goerr option \<Rightarrow> goerr option" where
  "Cause err = map_option cause_of err"

text \<open>\<open>rootCause\<close> follows \<open>Unwrap\<close>, which agrees with \<open>Cause\<close> on the package's types.\<close>

function rootCause :: "goerr \<Rightarrow> goerr" where
  "rootCause e = (case causer e of None \<Rightarrow> e | Some next \<Rightarrow> rootCause next)"
  by pat_completeness auto
termination by (relation "measure size") (auto dest: causer_size)

declare rootCause.simps [simp del]

text \<open>Interface comparison \<open>err == target\<close> compares the pointers.\<close>

definition same_err :: "goerr option \<Rightarrow> goerr option \<Rightarrow> bool" where
  "same_err x y = (case (x, y) of
      (None, None) \<Rightarrow> True
    | (Some e, Some f) \<Rightarrow> err_addr e = err_addr f
    | _ \<Rightarrow> False)"

function Is_loop :: "goerr \<Rightarrow> goerr option \<Rightarrow> bool" where
  "Is_loop e target = (case causer e of
      None \<Rightarrow> False
    | Some c \<Rightarrow> if same_err (Some c) target then True else Is_loop c target)"
  by pat_completeness auto
termination by (relation "measure (\<lambda>(e, _). size e)") (auto dest: causer_size)

declare Is_loop.simps [simp del]

definition Is :: "goerr option \<Rightarrow> goerr option \<Rightarrow> bool" where
  "Is err target =
    (if same_err err target then True
     else case err of None \<Rightarrow> False | Some e \<Rightarrow> Is_loop e target)"

function owned_loop :: "goerr \<Rightarrow> bool" where
  "owned_loop e = (case e of
      foreign _ _ \<Rightarrow> (case causer e of None \<Rightarrow> False | Some c \<Rightarrow> owned_loop c)
    | _ \<Rightarrow> True)"
  by pat_completeness auto
termination by (relation "measure size") (auto dest: causer_size)

declare owned_loop.simps [simp del]

definition IsOwned :: "goerr option \<Rightarrow> bool" where
  "IsOwned err = (case err of None \<Rightarrow> False | Some e \<Rightarrow> owned_loop e)"

section \<open>Facts\<close>

fun chain :: "goerr \<Rightarrow> goerr list" where
  "chain (underlyingStack a e) = underlyingStack a e # chain e"
| "chain (underlyingMessage a e m) = underlyingMessage a e m # chain e"
| "chain e = [e]"

lemma cause_of_simps [simp]:
  "cause_of (underlying a m) = underlying a m"
  "cause_of (foreign a m) = foreign a m"
  "cause_of (underlyingStack a e) = cause_of e"
  "cause_of (underlyingMessage a e m) = cause_of e"
  by (subst cause_of.simps, simp)+

lemma cause_of_last: "cause_of e = last (chain e)"
proof (induction e)
  case (underlyingStack a e)
  then show ?case by (cases e) auto
next
  case (underlyingMessage a e m)
  then show ?case by (cases e) auto
qed auto

lemma causer_cause_of [simp]: "causer (cause_of e) = None"
  by (induction e) auto

lemma rootCause_eq: "rootCause e = cause_of e"
  by (induction e) (subst rootCause.simps, simp)+

lemma Is_loop_iff: "Is_loop e (Some t) \<longleftrightarrow> err_addr t \<in> err_addr ` set (tl (chain e))"
proof (induction e)
  case (underlyingStack a e)
  then show ?case by (subst Is_loop.simps) (cases e; auto simp: same_err_def)
next
  case (underlyingMessage a e m)
  then show ?case by (subst Is_loop.simps) (cases e; auto simp: same_err_def)
qed (subst Is_loop.simps, simp)+

lemma cause_of_idem [simp]: "cause_of (cause_of e) = cause_of e"
  by (induction e) auto

lemma chain_Cons: "chain e = e # tl (chain e)"
  by (cases e) auto

lemma Is_iff: "Is (Some e) (Some t) \<longleftrightarrow> err_addr t \<in> err_addr ` set (chain e)"
  by (subst chain_Cons) (auto simp: Is_def Is_loop_iff same_err_def)

text \<open>\<open>Cause\<close> returns the innermost error of the chain, whatever the number of layers, and
  it is the error that \<open>rootCause\<close> finds; applying it again changes nothing.\<close>

theorem Cause_innermost:
  "Cause (Some e) = Some (last (chain e)) \<and> rootCause e = last (chain e) \<and>
   Cause (Cause (Some e)) = Cause (Some e)"
  by (simp add: Cause_def rootCause_eq flip: cause_of_last)

text \<open>appending a message keeps nil nil, keeps the cause and prefixes the text; \<open>Is\<close>
  finds in the result exactly what it found before and the two new layers.\<close>

theorem AppendErrorAck_layers:
  "AppendErrorAck a a' None msg = None \<and>
   Cause (AppendErrorAck a a' (Some e) msg) = Cause (Some e) \<and>
   map_option Error_text (AppendErrorAck a a' (Some e) msg) = Some (msg @ '': '' @ Error_text e) \<and>
   (Is (AppendErrorAck a a' (Some e) msg) (Some t) \<longleftrightarrow>
      Is (Some e) (Some t) \<or> err_addr t = a \<or> err_addr t = a')"
  by (auto simp: AppendErrorAck_def Cause_def Is_iff)

end
