(* ===== verification/Pages.thy ===== *)
theory Pages
  imports GoValues
begin

text \<open>
  The small components of a response: \<open>pagination\<close> (\<open>page.go\<close>), \<open>cursor\<close> (\<open>cursor.go\<close>) and
  \<open>header\<close> (\<open>header.go\<close>).  The methods that tolerate a nil receiver take an option; the
  others take the struct.  A pagination's numbers are 64-bit: the sum in the page
  count wraps.
\<close>

section \<open>Pagination\<close>

record pagination =
  page :: int
  perPage :: int
  totalItems :: int
  totalPages :: int
  isLast :: bool

definition Pages :: pagination where
  "Pages = \<lparr> page = 0, perPage = 0, totalItems = 0, totalPages = 0, isLast = False \<rparr>"

text \<open>\<open>(p.totalItems + p.perPage - 1) / p.perPage\<close>\<close>

definition page_count :: "pagination \<Rightarrow> int" where
  "page_count p = go_div (wrap64 (wrap64 (totalItems p + perPage p) - 1)) (perPage p)"

definition calculate :: "pagination \<Rightarrow> pagination" where
  "calculate p0 =
    (let p1 = (if page p0 \<le> 0 then p0 \<lparr> page := 1 \<rparr> else p0);
         p2 = (if 0 < totalItems p1 \<and> 0 < perPage p1
               then p1 \<lparr> totalPages := page_count p1 \<rparr> else p1)
     in if totalItems p2 = 0 then p2 \<lparr> totalPages := 0, isLast := True \<rparr>
        else if 0 < totalPages p2 then p2 \<lparr> isLast := (totalPages p2 \<le> page p2) \<rparr>
        else p2)"

definition WithPage :: "int \<Rightarrow> pagination \<Rightarrow> pagination" where
  "WithPage v p = calculate (p \<lparr> page := (if v < 1 then 1 else v) \<rparr>)"

definition WithPerPage :: "int \<Rightarrow> pagination \<Rightarrow> pagination" where
  "WithPerPage v p = calculate (p \<lparr> perPage := (if v < 1 then 10 else v) \<rparr>)"

definition WithTotalPages :: "int \<Rightarrow> pagination \<Rightarrow> pagination" where
  "WithTotalPages v p = p \<lparr> totalPages := (if v < 0 then 0 else v) \<rparr>"

definition WithTotalItems :: "int \<Rightarrow> pagination \<Rightarrow> pagination" where
  "WithTotalItems v p = calculate (p \<lparr> totalItems := (if v < 0 then 0 else v) \<rparr>)"

definition WithIsLast :: "bool \<Rightarrow> pagination \<Rightarrow> pagination" where
  "WithIsLast v p = p \<lparr> isLast := v \<rparr>"

definition FromPages :: "int \<Rightarrow> int \<Rightarrow> pagination" where
  "FromPages items per = WithTotalItems items (WithPerPage per Pages)"

definition Page_of :: "pagination option \<Rightarrow> int" where
  "Page_of q = (case q of None \<Rightarrow> 0 | Some p \<Rightarrow> page p)"

definition PerPage_of :: "pagination option \<Rightarrow> int" where
  "PerPage_of q = (case q of None \<Rightarrow> 0 | Some p \<Rightarrow> perPage p)"

definition TotalPages_of :: "pagination option \<Rightarrow> int" where
  "TotalPages_of q = (case q of None \<Rightarrow> 0 | Some p \<Rightarrow> totalPages p)"

definition TotalItems_of :: "pagination option \<Rightarrow> int" where
  "TotalItems_of q = (case q of None \<Rightarrow> 0 | Some p \<Rightarrow> totalItems p)"

definition IsLast_of :: "pagination option \<Rightarrow> bool" where
  "IsLast_of q = (case q of None \<Rightarrow> True | Some p \<Rightarrow> isLast p)"

definition Norm_page :: "pagination \<Rightarrow> pagination" where
  "Norm_page p0 =
    (let p1 = (if 0 < perPage p0 then p0 \<lparr> totalPages := page_count p0 \<rparr>
               else p0 \<lparr> totalPages := 0 \<rparr>)
     in if totalItems p1 = 0 then p1 \<lparr> totalPages := 0, page := 1, isLast := True \<rparr>
        else
          let p2 = (if totalPages p1 < page p1 \<and> 0 < totalPages p1
                    then p1 \<lparr> page := totalPages p1 \<rparr> else p1)
          in p2 \<lparr> isLast := (totalPages p2 \<le> page p2) \<rparr>)"

definition Respond_page :: "pagination option \<Rightarrow> response" where
  "Respond_page q = (case q of
      None \<Rightarrow> Map.empty
    | Some p \<Rightarrow> [''page'' \<mapsto> RInt (page p), ''per_page'' \<mapsto> RInt (perPage p),
        ''total_pages'' \<mapsto> RInt (totalPages p), ''total_items'' \<mapsto> RInt (totalItems p),
        ''is_last'' \<mapsto> RBool (isLast p)])"

definition Equal_page :: "pagination option \<Rightarrow> pagination option \<Rightarrow> bool" where
  "Equal_page q r = (case (q, r) of
      (None, None) \<Rightarrow> True
    | (Some p, Some s) \<Rightarrow> page p = page s \<and> perPage p = perPage s \<and>
        totalPages p = totalPages s \<and> totalItems p = totalItems s \<and> isLast p = isLast s
    | _ \<Rightarrow> False)"

definition Clone_page :: "pagination option \<Rightarrow> pagination option" where
  "Clone_page q = (case q of None \<Rightarrow> None
    | Some p \<Rightarrow> Some \<lparr> page = page p, perPage = perPage p, totalItems = totalItems p,
        totalPages = totalPages p, isLast = isLast p \<rparr>)"

section \<open>Cursor\<close>

record cursor =
  nextTok :: gostring
  previousTok :: gostring
  hasNext :: bool
  hasPrevious :: bool
  limit :: int

definition Cursors :: cursor where
  "Cursors = \<lparr> nextTok = [], previousTok = [], hasNext = False, hasPrevious = False, limit = 0 \<rparr>"

definition WithNext :: "gostring \<Rightarrow> cursor \<Rightarrow> cursor" where
  "WithNext v c = c \<lparr> nextTok := v \<rparr>"

definition WithPrevious :: "gostring \<Rightarrow> cursor \<Rightarrow> cursor" where
  "WithPrevious v c = c \<lparr> previousTok := v \<rparr>"

definition WithHasNext :: "bool \<Rightarrow> cursor \<Rightarrow> cursor" where
  "WithHasNext v c = c \<lparr> hasNext := v \<rparr>"

definition WithHasPrevious :: "bool \<Rightarrow> cursor \<Rightarrow> cursor" where
  "WithHasPrevious v c = c \<lparr> hasPrevious := v \<rparr>"

definition WithLimit :: "int \<Rightarrow> cursor \<Rightarrow> cursor" where
  "WithLimit v c = c \<lparr> limit := v \<rparr>"

definition Accepted :: "cursor option \<Rightarrow> bool" where
  "Accepted q = (case q of None \<Rightarrow> False | Some c \<Rightarrow> hasNext c)"

definition Rejected :: "cursor option \<Rightarrow> bool" where
  "Rejected q = (case q of None \<Rightarrow> False | Some c \<Rightarrow> hasPrevious c)"

definition RejectedOrAccepted :: "cursor option \<Rightarrow> bool" where
  "RejectedOrAccepted q = (case q of None \<Rightarrow> False | Some c \<Rightarrow> hasNext c \<or> hasPrevious c)"

text \<open>A nil cursor responds with a nil map.\<close>

definition Respond_cursor :: "cursor option \<Rightarrow> response" where
  "Respond_cursor q = (case q of
      None \<Rightarrow> Map.empty
    | Some c \<Rightarrow> [''next'' \<mapsto> RStr (nextTok c), ''previous'' \<mapsto> RStr (previousTok c),
        ''has_next'' \<mapsto> RBool (hasNext c), ''has_previous'' \<mapsto> RBool (hasPrevious c),
        ''limit'' \<mapsto> RInt (limit c)])"

definition Equal_cursor :: "cursor option \<Rightarrow> cursor option \<Rightarrow> bool" where
  "Equal_cursor q r = (case (q, r) of
      (None, None) \<Rightarrow> True
    | (Some c, Some d) \<Rightarrow>
        if nextTok c \<noteq> nextTok d then False
        else if previousTok c \<noteq> previousTok d then False
        else if hasNext c \<noteq> hasNext d then False
        else if hasPrevious c \<noteq> hasPrevious d then False
        else if limit c \<noteq> limit d then False
        else True
    | _ \<Rightarrow> False)"

definition Clone_cursor :: "cursor option \<Rightarrow> cursor option" where
  "Clone_cursor q = (case q of None \<Rightarrow> None
    | Some c \<Rightarrow> Some \<lparr> nextTok = nextTok c, previousTok = previousTok c, hasNext = hasNext c,
        hasPrevious = hasPrevious c, limit = limit c \<rparr>)"

section \<open>Header\<close>

record header =
  hdrCode :: int
  hdrText :: gostring
  hdrType :: gostring
  hdrDescription :: gostring

definition Header :: header where
  "Header = \<lparr> hdrCode = 0, hdrText = [], hdrType = [], hdrDescription = [] \<rparr>"

definition WithCode :: "int \<Rightarrow> header \<Rightarrow> header" where
  "WithCode v h = h \<lparr> hdrCode := (if v < 100 \<or> 599 < v then 500 else v) \<rparr>"

definition WithText :: "gostring \<Rightarrow> header \<Rightarrow> header" where
  "WithText v h = h \<lparr> hdrText := v \<rparr>"

definition WithType :: "gostring \<Rightarrow> header \<Rightarrow> header" where
  "WithType v h = h \<lparr> hdrType := v \<rparr>"

definition WithDescription :: "gostring \<Rightarrow> header \<Rightarrow> header" where
  "WithDescription v h = h \<lparr> hdrDescription := v \<rparr>"

definition IsCodePresent :: "header option \<Rightarrow> bool" where
  "IsCodePresent q = (case q of None \<Rightarrow> False | Some h \<Rightarrow> 0 < hdrCode h)"

definition IsTextPresent :: "header option \<Rightarrow> bool" where
  "IsTextPresent q = (case q of None \<Rightarrow> False | Some h \<Rightarrow> IsNotEmpty (hdrText h))"

definition IsTypePresent :: "header option \<Rightarrow> bool" where
  "IsTypePresent q = (case q of None \<Rightarrow> False | Some h \<Rightarrow> IsNotEmpty (hdrType h))"

definition IsDescriptionPresent :: "header option \<Rightarrow> bool" where
  "IsDescriptionPresent q = (case q of None \<Rightarrow> False | Some h \<Rightarrow> IsNotEmpty (hdrDescription h))"

definition Code_of :: "header option \<Rightarrow> int" where
  "Code_of q = (case q of None \<Rightarrow> 0 | Some h \<Rightarrow> hdrCode h)"

definition Type_of :: "header option \<Rightarrow> gostring" where
  "Type_of q = (case q of None \<Rightarrow> [] | Some h \<Rightarrow> hdrType h)"

definition Respond_header :: "header option \<Rightarrow> response" where
  "Respond_header q = (case q of
      None \<Rightarrow> Map.empty
    | Some h \<Rightarrow>
        put_if (IsDescriptionPresent q) ''description'' (RStr (hdrDescription h))
        (put_if (IsTypePresent q) ''type'' (RStr (hdrType h))
        (put_if (IsTextPresent q) ''text'' (RStr (hdrText h))
        (put_if (IsCodePresent q) ''code'' (RInt (hdrCode h)) Map.empty))))"

definition StatusText_header :: "header option \<Rightarrow> gostring" where
  "StatusText_header q =
    (if \<not> IsCodePresent q then [] else status_line (Code_of q))"

text \<open>\<open>eqfold\<close> is \<open>strings.EqualFold\<close>.\<close>

definition Equal_header ::
    "(gostring \<Rightarrow> gostring \<Rightarrow> bool) \<Rightarrow> header option \<Rightarrow> header option \<Rightarrow> bool" where
  "Equal_header eqfold q r = (case (q, r) of
      (None, None) \<Rightarrow> True
    | (Some h, Some k) \<Rightarrow> hdrCode h = hdrCode k \<and> eqfold (hdrText k) (hdrText h)
    | _ \<Rightarrow> False)"

definition Clone_header :: "header option \<Rightarrow> header option" where
  "Clone_header q = (case q of None \<Rightarrow> None
    | Some h \<Rightarrow> Some \<lparr> hdrCode = hdrCode h, hdrText = hdrText h, hdrType = hdrType h, hdrDescription = hdrDescription h \<rparr>)"

text \<open>The predefined headers (\<open>constant.go\<close>) the normalisation uses.\<close>

definition predefined :: "int \<Rightarrow> gostring \<Rightarrow> gostring \<Rightarrow> header" where
  "predefined c t ty = WithType ty (WithText t (WithCode c Header))"

definition Continue :: header where
  "Continue = predefined 100 ''Continue'' ''Informational''"
definition Processing :: header where
  "Processing = predefined 102 ''Processing'' ''Informational''"
definition OK :: header where
  "OK = predefined 200 ''OK'' ''Successful''"
definition MultipleChoices :: header where
  "MultipleChoices = predefined 300 ''Multiple Choices'' ''Redirection''"
definition BadRequest :: header where
  "BadRequest = predefined 400 ''Bad Request'' ''Client Error''"
definition InternalServerError :: header where
  "InternalServerError = predefined 500 ''Internal Server Error'' ''Server Error''"

section \<open>The pagination arithmetic\<close>

text \<open>Sums of the fields that do not wrap.\<close>

definition page_safe :: "pagination \<Rightarrow> bool" where
  "page_safe p \<longleftrightarrow> 0 \<le> totalItems p \<and> 1 \<le> perPage p \<and> totalItems p \<le> 2 ^ 63 - perPage p"

text \<open>What every builder and \<open>Norm\<close> promise of the derived fields.\<close>

definition page_consistent :: "pagination \<Rightarrow> bool" where
  "page_consistent p \<longleftrightarrow> 1 \<le> page p \<and>
     totalPages p = (totalItems p + perPage p - 1) div perPage p \<and>
     (isLast p \<longleftrightarrow> totalPages p \<le> page p)"

lemma wrap64_plus_minus: "wrap64 (wrap64 (a + b) - 1) = wrap64 (a + b - 1)"
proof -
  have "(wrap64 (a + b) - 1 + 2 ^ 63) mod 2 ^ 64 = ((a + b + 2 ^ 63) mod 2 ^ 64 - 1) mod 2 ^ 64"
    by (simp add: wrap64_def)
  also have "\<dots> = (a + b - 1 + 2 ^ 63) mod 2 ^ 64"
    by (simp add: mod_diff_left_eq algebra_simps)
  finally show ?thesis unfolding wrap64_def [of "wrap64 (a + b) - 1"] wrap64_def [of "a + b - 1"] by simp
qed

lemma page_count_safe:
  assumes "page_safe p"
  shows "page_count p = (totalItems p + perPage p - 1) div perPage p"
proof -
  have "in_int64 (totalItems p + perPage p - 1)"
    using assms by (auto simp: page_safe_def in_int64_def)
  with assms show ?thesis unfolding page_count_def wrap64_plus_minus by (simp add: page_safe_def)
qed

lemma ceil_div_zero: "0 < d \<Longrightarrow> ((d :: int) - 1) div d = 0"
  by simp

lemma ceil_div_bounds:
  fixes n d :: int
  assumes "0 < d"
  shows "n \<le> ((n + d - 1) div d) * d" "((n + d - 1) div d) * d < n + d"
  using pos_mod_bound [OF assms, of "n + d - 1"] pos_mod_sign [OF assms, of "n + d - 1"]
    div_mult_mod_eq [of "n + d - 1" d] by linarith+

lemma ceil_div_pos: "0 < d \<Longrightarrow> 0 < n \<Longrightarrow> 0 < ((n :: int) + d - 1) div d"
  by (simp add: pos_imp_zdiv_pos_iff)

text \<open>while the sum of the item count and the page size stays in an \<open>int\<close>, \<open>Norm\<close> sets the page
  count to the number of pages that hold all items (the last one not empty), clamps the page
  number to it, sets the last-page flag accordingly, keeps the counts, and is idempotent.\<close>

theorem Norm_page_correct:
  assumes "page_safe p"
  shows "let q = Norm_page p in
    totalItems q = totalItems p \<and> perPage q = perPage p \<and>
    totalItems q \<le> totalPages q * perPage q \<and>
    totalPages q * perPage q < totalItems q + perPage q \<and>
    (0 < totalItems q \<longrightarrow> page q = min (page p) (totalPages q)) \<and>
    (totalItems q = 0 \<longrightarrow> page q = 1) \<and>
    (isLast q \<longleftrightarrow> totalPages q \<le> page q) \<and> Norm_page q = q"
proof -
  define n d where "n = totalItems p" and "d = perPage p"
  have d: "0 < d" and n: "0 \<le> n" and safe: "n \<le> 2 ^ 63 - d"
    using assms by (auto simp: page_safe_def n_def d_def)
  let ?t = "(n + d - 1) div d"
  have cnt: "page_count r = ?t" if "totalItems r = n" "perPage r = d" for r
    using page_count_safe [of r] that d n safe by (simp add: page_safe_def)
  show ?thesis
  proof (cases "n = 0")
    case True
    have "Norm_page p = p \<lparr> totalPages := 0, page := 1, isLast := True \<rparr>"
      using True d by (simp add: Norm_page_def n_def d_def)
    then show ?thesis using True d cnt by (simp add: Norm_page_def n_def d_def)
  next
    case False
    then have t: "0 < ?t" using n d by (intro ceil_div_pos) auto
    let ?q = "p \<lparr> totalPages := ?t, page := min (page p) ?t, isLast := (?t \<le> min (page p) ?t) \<rparr>"
    have norm: "Norm_page p = ?q"
      using False d t cnt [of p] by (auto simp: Norm_page_def Let_def min_def simp flip: n_def d_def)
    have idem: "Norm_page ?q = ?q"
      using False d t cnt [of ?q] by (simp add: Norm_page_def Let_def min_def flip: n_def d_def)
    show ?thesis
      unfolding norm Let_def idem
      using False ceil_div_bounds [OF d, of n] by (simp flip: n_def d_def)
  qed
qed

lemma calculate_consistent:
  assumes "page_safe p"
  shows "page_consistent (calculate p)"
proof -
  let ?t = "(totalItems p + perPage p - 1) div perPage p"
  have d: "0 < perPage p" using assms by (simp add: page_safe_def)
  show ?thesis
  proof (cases "totalItems p = 0")
    case True
    with d show ?thesis by (simp add: calculate_def Let_def page_consistent_def)
  next
    case False
    with assms have n: "0 < totalItems p" by (simp add: page_safe_def)
    have t: "0 < ?t" by (rule ceil_div_pos [OF d n])
    have c: "page_count (p \<lparr> page := 1 \<rparr>) = ?t" "page_count p = ?t"
      using page_count_safe [OF assms] page_count_safe [of "p \<lparr> page := 1 \<rparr>"] assms
      by (simp_all add: page_safe_def)
    show ?thesis
      using n d t c by (auto simp: calculate_def Let_def page_consistent_def)
  qed
qed

text \<open>\<open>FromPages\<close>, and setting the page of its result, give a consistent pagination (page
  count, last-page flag, page number at least 1) for every item count and page size whose
  sum minus one is an \<open>int\<close>.\<close>

theorem FromPages_consistent:
  assumes "0 \<le> n" and "n \<le> 2 ^ 63 - (if per < 1 then 10 else per)"
  shows "page_consistent (FromPages n per) \<and> page_consistent (WithPage v (FromPages n per)) \<and>
    totalItems (FromPages n per) = n \<and> perPage (FromPages n per) = (if per < 1 then 10 else per)"
proof -
  let ?d = "if per < 1 then 10 else per"
  have keep: "totalItems (calculate r) = totalItems r \<and> perPage (calculate r) = perPage r" for r
    by (simp add: calculate_def Let_def)
  let ?p = "(WithPerPage per Pages)\<lparr> totalItems := (if n < 0 then 0 else n) \<rparr>"
  have p: "totalItems ?p = n" "perPage ?p = ?d"
    using assms(1) by (simp_all add: WithPerPage_def keep Pages_def)
  have f: "FromPages n per = calculate ?p" by (simp add: FromPages_def WithTotalItems_def)
  have safe: "page_safe ?p" unfolding page_safe_def p using assms by simp
  have w: "page_safe ((FromPages n per)\<lparr> page := u \<rparr>)" for u
    using safe by (simp add: f page_safe_def keep)
  show ?thesis
    using calculate_consistent [OF safe] calculate_consistent [OF w] p keep [of ?p]
    by (simp add: f WithPage_def)
qed

text \<open>beyond that range the sum wraps: the normalised pagination of a positive item count
  reports no pages at all (a count that is zero or negative) and claims to be the last page.\<close>

theorem Norm_page_overflow:
  assumes "0 < totalItems p" "in_int64 (totalItems p)" "0 < perPage p" "in_int64 (perPage p)"
    and "2 ^ 63 < totalItems p + perPage p" and "1 \<le> page p"
  shows "totalPages (Norm_page p) \<le> 0 \<and> isLast (Norm_page p)"
proof -
  let ?m = "totalItems p + perPage p - 1"
  have "wrap64 ?m = ?m - 2 ^ 64"
  proof -
    have "(?m + 2 ^ 63) mod 2 ^ 64 = (?m + 2 ^ 63 - 2 ^ 64) mod 2 ^ 64"
      using minus_mod_self2 [of "?m + 2 ^ 63" "2 ^ 64"] by (rule sym)
    also have "\<dots> = ?m + 2 ^ 63 - 2 ^ 64"
      using assms by (intro mod_pos_pos_trivial) (auto simp: in_int64_def)
    finally show ?thesis by (simp add: wrap64_def)
  qed
  moreover have "?m - 2 ^ 64 < 0" using assms by (simp add: in_int64_def)
  ultimately have "page_count p \<le> 0"
    using assms(3) unfolding page_count_def wrap64_plus_minus
    by (simp add: go_div_def sgn_if pos_imp_zdiv_nonneg_iff)
  with assms show ?thesis by (auto simp: Norm_page_def Let_def)
qed

text \<open>Instances.\<close>

definition page_3_of_25 :: pagination where
  "page_3_of_25 = \<lparr> page = 7, perPage = 10, totalItems = 25, totalPages = 0, isLast = False \<rparr>"

definition page_max :: pagination where
  "page_max = \<lparr> page = 1, perPage = 10, totalItems = 9223372036854775807, totalPages = 0, isLast = False \<rparr>"

theorem Norm_page_correct_witness:
  "page (Norm_page page_3_of_25) = 3 \<and> totalPages (Norm_page page_3_of_25) = 3"
proof -
  have "page_safe page_3_of_25" "totalItems page_3_of_25 = 25" "perPage page_3_of_25 = 10" "page page_3_of_25 = 7"
    by (simp_all add: page_safe_def page_3_of_25_def)
  with Norm_page_correct [of page_3_of_25]
  have "25 \<le> totalPages (Norm_page page_3_of_25) * 10" "totalPages (Norm_page page_3_of_25) * 10 < 35"
    "page (Norm_page page_3_of_25) = min 7 (totalPages (Norm_page page_3_of_25))"
    by (auto simp: Let_def)
  then show ?thesis by linarith
qed

theorem FromPages_consistent_witness: "page_consistent (FromPages 25 10)"
  using FromPages_consistent [of 25 10] by simp

theorem Norm_page_overflow_witness: "totalPages (Norm_page page_max) \<le> 0"
  using Norm_page_overflow [of page_max] by (simp add: page_max_def in_int64_def)

end
