(* ===== verification/MetaInfo.thy ===== *)
theory MetaInfo
  imports GoValues ErrorChain
begin

text \<open>
  The descriptive parts of a response: \<open>meta\<close> (\<open>meta.go\<close>), \<open>reason\<close> (\<open>reason.go\<close>) and
  \<open>issue\<close> (\<open>issue.go\<close>).  Random identifiers, random numbers and the clock are arguments of
  the operations that draw them; a time is a number with \<open>0\<close> for the zero
  \<open>time.Time\<close>, a \<open>float64\<close> is a rational.
\<close>

section \<open>Meta\<close>

record meta =
  apiVersion :: gostring
  requestID :: gostring
  localeName :: gostring
  requestedTime :: int
  customFields :: fields
  deltaValue :: rat
  deltaCnt :: int

definition Meta :: meta where
  "Meta = \<lparr> apiVersion = [], requestID = [], localeName = [], requestedTime = 0,
     customFields = Some [], deltaValue = 0, deltaCnt = 0 \<rparr>"

definition WithApiVersion :: "gostring \<Rightarrow> meta \<Rightarrow> meta" where
  "WithApiVersion v m = m \<lparr> apiVersion := v \<rparr>"

definition WithRequestID :: "gostring \<Rightarrow> meta \<Rightarrow> meta" where
  "WithRequestID v m = m \<lparr> requestID := v \<rparr>"

definition WithLocale :: "gostring \<Rightarrow> meta \<Rightarrow> meta" where
  "WithLocale v m = m \<lparr> localeName := v \<rparr>"

definition WithRequestedTime :: "int \<Rightarrow> meta \<Rightarrow> meta" where
  "WithRequestedTime v m = m \<lparr> requestedTime := v \<rparr>"

definition WithCustomFields :: "fields \<Rightarrow> meta \<Rightarrow> meta" where
  "WithCustomFields v m = m \<lparr> customFields := v \<rparr>"

definition IsApiVersionPresent :: "meta option \<Rightarrow> bool" where
  "IsApiVersionPresent q = (case q of None \<Rightarrow> False | Some m \<Rightarrow> IsNotEmpty (apiVersion m))"

definition IsRequestIDPresent :: "meta option \<Rightarrow> bool" where
  "IsRequestIDPresent q = (case q of None \<Rightarrow> False | Some m \<Rightarrow> IsNotEmpty (requestID m))"

definition IsLocalePresent :: "meta option \<Rightarrow> bool" where
  "IsLocalePresent q = (case q of None \<Rightarrow> False | Some m \<Rightarrow> IsNotEmpty (localeName m))"

definition IsRequestedTimePresent :: "meta option \<Rightarrow> bool" where
  "IsRequestedTimePresent q = (case q of None \<Rightarrow> False | Some m \<Rightarrow> requestedTime m \<noteq> 0)"

definition IsCustomPresent :: "meta option \<Rightarrow> bool" where
  "IsCustomPresent q = (case q of None \<Rightarrow> False | Some m \<Rightarrow> 0 < fields_len (customFields m))"

definition IsDeltaValuePresent :: "meta option \<Rightarrow> bool" where
  "IsDeltaValuePresent q = (case q of None \<Rightarrow> False | Some m \<Rightarrow> 0 < deltaValue m)"

definition IsDeltaCntPresent :: "meta option \<Rightarrow> bool" where
  "IsDeltaCntPresent q = (case q of None \<Rightarrow> False | Some m \<Rightarrow> 0 < deltaCnt m)"

definition IsCustomKeyPresent :: "meta option \<Rightarrow> gostring \<Rightarrow> bool" where
  "IsCustomKeyPresent q k = (IsCustomPresent q \<and>
     (case q of None \<Rightarrow> False | Some m \<Rightarrow> fields_get (customFields m) k \<noteq> None))"

definition WithCustomFieldKV :: "gostring \<Rightarrow> goval \<Rightarrow> meta \<Rightarrow> meta" where
  "WithCustomFieldKV k v m =
    (let kvs = (if IsCustomPresent (Some m) then the (customFields m) else [])
     in m \<lparr> customFields := Some (AList.update k v kvs) \<rparr>)"

definition WithDeltaValue :: "rat \<Rightarrow> meta \<Rightarrow> meta" where
  "WithDeltaValue v m = m \<lparr> deltaValue := v \<rparr>"

definition WithDeltaCnt :: "int \<Rightarrow> meta \<Rightarrow> meta" where
  "WithDeltaCnt v m = m \<lparr> deltaCnt := v \<rparr>"

definition IncreaseDeltaCnt :: "meta \<Rightarrow> meta" where
  "IncreaseDeltaCnt m = m \<lparr> deltaCnt := wrap64 (deltaCnt m + 1) \<rparr>"

definition DecreaseDeltaCnt :: "meta \<Rightarrow> meta" where
  "DecreaseDeltaCnt m = m \<lparr> deltaCnt := wrap64 (deltaCnt m - 1) \<rparr>"

definition forceRequestID :: "gostring \<Rightarrow> meta \<Rightarrow> meta" where
  "forceRequestID xid m = WithRequestID xid m"

definition autoRequestID :: "gostring \<Rightarrow> meta \<Rightarrow> meta" where
  "autoRequestID xid m = (if \<not> IsRequestIDPresent (Some m) then forceRequestID xid m else m)"

definition RandRequestID :: "gostring \<Rightarrow> meta \<Rightarrow> meta" where
  "RandRequestID xid m = forceRequestID xid m"

definition RandDeltaValue :: "rat \<Rightarrow> meta \<Rightarrow> meta" where
  "RandDeltaValue r m = WithDeltaValue r m"

definition defaultMetaValues :: "int \<Rightarrow> gostring \<Rightarrow> meta" where
  "defaultMetaValues now xid =
    autoRequestID xid
     (WithDeltaValue 0
       (WithRequestedTime now
         (WithApiVersion ''v0.0.1'' (WithLocale ''en_US'' Meta))))"

definition Respond_meta :: "meta option \<Rightarrow> response" where
  "Respond_meta q = (case q of
      None \<Rightarrow> Map.empty
    | Some m \<Rightarrow>
        put_if (IsDeltaValuePresent q) ''delta_value'' (RFloat (deltaValue m))
        (put_if (IsDeltaCntPresent q) ''delta_cnt'' (RInt (deltaCnt m))
        (put_if (IsCustomPresent q) ''custom_fields'' (RFields (customFields m))
        (put_if (IsRequestedTimePresent q) ''requested_time'' (RTime (requestedTime m))
        (put_if (IsLocalePresent q) ''locale'' (RStr (localeName m))
        (put_if (IsRequestIDPresent q) ''request_id'' (RStr (requestID m))
        (put_if (IsApiVersionPresent q) ''api_version'' (RStr (apiVersion m)) Map.empty)))))))"

definition Clone_meta :: "meta option \<Rightarrow> meta option" where
  "Clone_meta q = (case q of None \<Rightarrow> None
    | Some m \<Rightarrow> Some \<lparr> apiVersion = apiVersion m, requestID = requestID m, localeName = localeName m,
        requestedTime = requestedTime m,
        customFields = (case customFields m of None \<Rightarrow> None | Some kvs \<Rightarrow> Some kvs),
        deltaValue = deltaValue m, deltaCnt = deltaCnt m \<rparr>)"

section \<open>Reason\<close>

text \<open>The table \<open>ReasonCodes\<close> (code to category) is the argument \<open>codes\<close>.\<close>

record reason =
  reasonCode :: gostring
  category :: gostring

definition ReasonCategoryOf :: "(gostring \<Rightarrow> gostring option) \<Rightarrow> gostring \<Rightarrow> gostring \<times> bool" where
  "ReasonCategoryOf codes c = (case codes c of None \<Rightarrow> ([], False) | Some r \<Rightarrow> (r, True))"

definition IsReasonKnown :: "(gostring \<Rightarrow> gostring option) \<Rightarrow> gostring \<Rightarrow> bool" where
  "IsReasonKnown codes c = (codes c \<noteq> None)"

definition NewReason :: reason where
  "NewReason = \<lparr> reasonCode = [], category = [] \<rparr>"

definition Reason_Code :: "reason option \<Rightarrow> gostring" where
  "Reason_Code q = (case q of None \<Rightarrow> [] | Some r \<Rightarrow> reasonCode r)"

definition Reason_Category :: "reason option \<Rightarrow> gostring" where
  "Reason_Category q = (case q of None \<Rightarrow> [] | Some r \<Rightarrow> category r)"

definition Reason_WithCode :: "(gostring \<Rightarrow> gostring option) \<Rightarrow> gostring \<Rightarrow> reason \<Rightarrow> reason" where
  "Reason_WithCode codes c r =
    (let (cat, ok) = ReasonCategoryOf codes c;
         r1 = (if ok then r \<lparr> category := cat \<rparr> else r)
     in r1 \<lparr> reasonCode := c \<rparr>)"

definition Reason_WithCategory :: "gostring \<Rightarrow> reason \<Rightarrow> reason" where
  "Reason_WithCategory c r = r \<lparr> category := c \<rparr>"

definition Respond_reason :: "reason \<Rightarrow> response" where
  "Respond_reason r = [''code'' \<mapsto> RStr (reasonCode r), ''category'' \<mapsto> RStr (category r)]"

definition Equal_reason :: "reason option \<Rightarrow> reason option \<Rightarrow> bool" where
  "Equal_reason q s = (case (q, s) of
      (None, None) \<Rightarrow> True
    | (Some r, Some t) \<Rightarrow>
        if (IsNotEmpty (Reason_Code q) \<and> IsNotEmpty (Reason_Code s)) \<and> reasonCode r \<noteq> reasonCode t then False
        else if (IsNotEmpty (Reason_Category q) \<and> IsNotEmpty (Reason_Category s)) \<and> category r \<noteq> category t
        then False
        else True
    | _ \<Rightarrow> False)"

definition Clone_reason :: "reason option \<Rightarrow> reason option" where
  "Clone_reason q = (case q of None \<Rightarrow> None
    | Some r \<Rightarrow> Some \<lparr> reasonCode = reasonCode r, category = category r \<rparr>)"

section \<open>Issue\<close>

record issue =
  issueID :: gostring
  fingerprint :: gostring
  issueMessage :: gostring

text \<open>The random identifier and the fingerprint of the error's origin are arguments.\<close>

definition NewIssue :: "gostring \<Rightarrow> gostring \<Rightarrow> goerr option \<Rightarrow> issue option" where
  "NewIssue iid fp err = (case err of
      None \<Rightarrow> None
    | Some e \<Rightarrow> Some \<lparr> issueID = iid, fingerprint = fp, issueMessage = Error_text (rootCause e) \<rparr>)"

definition Respond_issue :: "issue \<Rightarrow> response" where
  "Respond_issue i =
    put_if (IsNotEmpty (issueMessage i)) ''message'' (RStr (issueMessage i))
    (put_if (IsNotEmpty (fingerprint i)) ''fingerprint'' (RStr (fingerprint i))
    (put_if (IsNotEmpty (issueID i)) ''id'' (RStr (issueID i)) Map.empty))"

definition Equal_issue :: "issue option \<Rightarrow> issue option \<Rightarrow> bool" where
  "Equal_issue q r = (case (q, r) of
      (None, None) \<Rightarrow> True
    | (Some i, Some j) \<Rightarrow>
        if issueID i \<noteq> issueID j then False
        else if fingerprint i \<noteq> fingerprint j then False
        else if issueMessage i \<noteq> issueMessage j then False
        else True
    | _ \<Rightarrow> False)"

definition Clone_issue :: "issue option \<Rightarrow> issue option" where
  "Clone_issue q = (case q of None \<Rightarrow> None
    | Some i \<Rightarrow> Some \<lparr> issueID = issueID i, fingerprint = fingerprint i, issueMessage = issueMessage i \<rparr>)"

section \<open>Equality of reasons is not an equivalence\<close>

lemma Equal_reason_refl: "Equal_reason q q"
  by (cases q) (simp_all add: Equal_reason_def)

lemma Equal_reason_sym: "Equal_reason q s \<longleftrightarrow> Equal_reason s q"
  by (cases q; cases s) (auto simp: Equal_reason_def Reason_Code_def Reason_Category_def)

text \<open>\<open>reason.Equal\<close> compares a field only when both sides set it, so it is reflexive and
  symmetric but not transitive: the empty reason equals two reasons that differ.\<close>

theorem Equal_reason_not_transitive:
  "Equal_reason q q \<and> (Equal_reason q s \<longleftrightarrow> Equal_reason s q) \<and>
   (\<exists>a b. Equal_reason (Some a) (Some NewReason) \<and> Equal_reason (Some NewReason) (Some b) \<and>
      \<not> Equal_reason (Some a) (Some b))"
proof -
  have "Equal_reason (Some \<lparr> reasonCode = ''A'', category = [] \<rparr>) (Some NewReason)"
    "Equal_reason (Some NewReason) (Some \<lparr> reasonCode = ''B'', category = [] \<rparr>)"
    "\<not> Equal_reason (Some \<lparr> reasonCode = ''A'', category = [] \<rparr>) (Some \<lparr> reasonCode = ''B'', category = [] \<rparr>)"
    by code_simp+
  with Equal_reason_refl Equal_reason_sym show ?thesis by blast
qed

end
