(* ===== verification/Wrapper.thy ===== *)
theory Wrapper
  imports Pages MetaInfo
begin

text \<open>
  The response wrapper of \<open>replify.go\<close> with its builders, status predicates, cache and
  \<open>Respond\<close>, and the normalisation of \<open>norm.go\<close>.  A wrapper here is a non-nil receiver
  (\<open>Available()\<close> holds); the structs it points to are values, and the links, the signature
  and the HTTP request are handles whose contents other files keep.
\<close>

section \<open>State\<close>

type_synonym handle = nat

record wrapper =
  cachedWrap :: "response option"
  cacheHash :: gostring
  wStatus :: int
  wTotal :: int
  wMessage :: gostring
  wData :: goval
  wPath :: gostring
  wHeader :: "header option"
  wMeta :: "meta option"
  wPaging :: "pagination option"
  wCursor :: "cursor option"
  wIssue :: "issue option"
  wSignature :: "handle option"
  wReason :: "reason option"
  wDebug :: fields
  wErrors :: "goerr option"
  wSkipBody :: bool
  wFilepath :: gostring
  wFilename :: gostring
  wSpan :: bool
  wLinks :: "handle option"
  wRequest :: "handle option"
  wBodyBase64 :: bool

text \<open>
  What a call reads from outside: the clock, the random draws and the next free address,
  the fingerprint of an error's origin, \<open>Respond\<close> of the handles, the conversion of the
  body (\<open>safeCastValueSupervised\<close>), and \<open>hashy.Hash256\<close> (\<^term>\<open>None\<close> for its error).
\<close>

type_synonym hashed =
  "int \<times> gostring \<times> goval \<times> response \<times> response \<times> response \<times> fields \<times> int \<times> gostring"

record env =
  env_now :: int
  env_xid :: gostring
  env_rand :: rat
  env_issue_id :: gostring
  env_addr :: addr
  env_fingerprint :: "goerr \<Rightarrow> gostring"
  env_links :: "handle \<Rightarrow> response"
  env_signature :: "handle \<Rightarrow> response"
  env_cast :: "goval \<Rightarrow> goval"
  env_hash :: "hashed \<Rightarrow> gostring option"

definition zero_wrapper :: wrapper where
  "zero_wrapper = \<lparr> cachedWrap = None, cacheHash = [], wStatus = 0, wTotal = 0, wMessage = [],
     wData = GNil, wPath = [], wHeader = None, wMeta = None, wPaging = None, wCursor = None,
     wIssue = None, wSignature = None, wReason = None, wDebug = None, wErrors = None,
     wSkipBody = False, wFilepath = [], wFilename = [], wSpan = False, wLinks = None,
     wRequest = None, wBodyBase64 = False \<rparr>"

definition New :: "env \<Rightarrow> wrapper" where
  "New e = zero_wrapper \<lparr> wMeta := Some (defaultMetaValues (env_now e) (env_xid e)),
     wHeader := Some Processing \<rparr>"

definition Reset :: "env \<Rightarrow> wrapper" where
  "Reset e = zero_wrapper \<lparr> wMeta := Some (defaultMetaValues (env_now e) (env_xid e)) \<rparr>"

section \<open>Presence and status predicates\<close>

definition IsHeaderPresent :: "wrapper \<Rightarrow> bool" where
  "IsHeaderPresent w = (wHeader w \<noteq> None)"
definition IsMetaPresent :: "wrapper \<Rightarrow> bool" where
  "IsMetaPresent w = (wMeta w \<noteq> None)"
definition IsPagingPresent :: "wrapper \<Rightarrow> bool" where
  "IsPagingPresent w = (wPaging w \<noteq> None)"
definition IsCursorPresent :: "wrapper \<Rightarrow> bool" where
  "IsCursorPresent w = (wCursor w \<noteq> None)"
definition IsIssuePresent :: "wrapper \<Rightarrow> bool" where
  "IsIssuePresent w = (wIssue w \<noteq> None)"
definition IsLinksPresent :: "wrapper \<Rightarrow> bool" where
  "IsLinksPresent w = (wLinks w \<noteq> None)"
definition IsSignaturePresent :: "wrapper \<Rightarrow> bool" where
  "IsSignaturePresent w = (wSignature w \<noteq> None)"
definition IsReasonPresent :: "wrapper \<Rightarrow> bool" where
  "IsReasonPresent w = (wReason w \<noteq> None)"
definition IsHTTPRequestPresent :: "wrapper \<Rightarrow> bool" where
  "IsHTTPRequestPresent w = (wRequest w \<noteq> None)"
definition IsErrorPresent :: "wrapper \<Rightarrow> bool" where
  "IsErrorPresent w = (wErrors w \<noteq> None)"
definition IsTotalPresent :: "wrapper \<Rightarrow> bool" where
  "IsTotalPresent w = (0 \<le> wTotal w)"
definition IsStatusCodePresent :: "wrapper \<Rightarrow> bool" where
  "IsStatusCodePresent w = (0 < wStatus w)"
definition IsDebuggingPresent :: "wrapper \<Rightarrow> bool" where
  "IsDebuggingPresent w = (wDebug w \<noteq> None \<and> 0 < fields_len (wDebug w))"
definition IsDebuggingKeyPresent :: "gostring \<Rightarrow> wrapper \<Rightarrow> bool" where
  "IsDebuggingKeyPresent k w = (IsDebuggingPresent w \<and> fields_get (wDebug w) k \<noteq> None)"
definition IsBodyPresent :: "wrapper \<Rightarrow> bool" where
  "IsBodyPresent w = (\<not> IsEmptyValue (wData w))"

definition IsSuccess :: "wrapper \<Rightarrow> bool" where
  "IsSuccess w = (200 \<le> wStatus w \<and> wStatus w \<le> 299)"
definition IsInformational :: "wrapper \<Rightarrow> bool" where
  "IsInformational w = (100 \<le> wStatus w \<and> wStatus w \<le> 199)"
definition IsRedirection :: "wrapper \<Rightarrow> bool" where
  "IsRedirection w = (300 \<le> wStatus w \<and> wStatus w \<le> 399)"
definition IsClientError :: "wrapper \<Rightarrow> bool" where
  "IsClientError w = (400 \<le> wStatus w \<and> wStatus w \<le> 499)"
definition IsServerError :: "wrapper \<Rightarrow> bool" where
  "IsServerError w = (500 \<le> wStatus w \<and> wStatus w \<le> 599)"
definition IsError :: "wrapper \<Rightarrow> bool" where
  "IsError w = (IsErrorPresent w \<or> IsClientError w \<or> IsServerError w)"
definition IsLastPage :: "wrapper \<Rightarrow> bool" where
  "IsLastPage w = (IsPagingPresent w \<and> IsLast_of (wPaging w))"
definition IsBodySkipped :: "wrapper \<Rightarrow> bool" where
  "IsBodySkipped w = wSkipBody w"

text \<open>\<open>StatusCode\<close> fills the field from the header before it returns it.\<close>

definition StatusCode :: "wrapper \<Rightarrow> int \<times> wrapper" where
  "StatusCode w =
    (let w1 = (if IsHeaderPresent w \<and> wStatus w \<le> 0 then w \<lparr> wStatus := Code_of (wHeader w) \<rparr> else w)
     in (wStatus w1, w1))"

definition DeltaValue :: "wrapper \<Rightarrow> rat" where
  "DeltaValue w = (case wMeta w of None \<Rightarrow> 0 | Some m \<Rightarrow> deltaValue m)"

definition DeltaCnt :: "wrapper \<Rightarrow> int" where
  "DeltaCnt w = (case wMeta w of None \<Rightarrow> 0 | Some m \<Rightarrow> deltaCnt m)"

section \<open>Builders\<close>

definition resetCache :: "wrapper \<Rightarrow> wrapper" where
  "resetCache w = w \<lparr> cachedWrap := None, cacheHash := [] \<rparr>"

definition WithStatusCode :: "int \<Rightarrow> wrapper \<Rightarrow> wrapper" where
  "WithStatusCode c w =
    (let c' = (if c < 100 \<or> 599 < c then 500 else c)
     in w \<lparr> wStatus := c', wHeader := Some (WithText (http_StatusText c') (WithCode c' Header)) \<rparr>)"

definition WithTotal :: "int \<Rightarrow> wrapper \<Rightarrow> wrapper" where
  "WithTotal v w = w \<lparr> wTotal := v \<rparr>"
definition WithMessage :: "gostring \<Rightarrow> wrapper \<Rightarrow> wrapper" where
  "WithMessage v w = w \<lparr> wMessage := v \<rparr>"
definition WithBody :: "goval \<Rightarrow> wrapper \<Rightarrow> wrapper" where
  "WithBody v w = w \<lparr> wData := v \<rparr>"
definition WithPath :: "gostring \<Rightarrow> wrapper \<Rightarrow> wrapper" where
  "WithPath v w = w \<lparr> wPath := v \<rparr>"
definition WithHeader :: "header option \<Rightarrow> wrapper \<Rightarrow> wrapper" where
  "WithHeader v w = (case v of None \<Rightarrow> w
    | Some h \<Rightarrow> w \<lparr> wHeader := Some h, wStatus := Code_of (Some h) \<rparr>)"
definition WithMeta :: "meta option \<Rightarrow> wrapper \<Rightarrow> wrapper" where
  "WithMeta v w = w \<lparr> wMeta := v \<rparr>"
definition WithPagination :: "pagination option \<Rightarrow> wrapper \<Rightarrow> wrapper" where
  "WithPagination v w = w \<lparr> wPaging := v \<rparr>"
definition WithCursor :: "cursor option \<Rightarrow> wrapper \<Rightarrow> wrapper" where
  "WithCursor v w = w \<lparr> wCursor := v \<rparr>"
definition WithDebugging :: "fields \<Rightarrow> wrapper \<Rightarrow> wrapper" where
  "WithDebugging v w = w \<lparr> wDebug := v \<rparr>"
definition WithSkipBody :: "bool \<Rightarrow> wrapper \<Rightarrow> wrapper" where
  "WithSkipBody v w = w \<lparr> wSkipBody := v \<rparr>"
definition EnableSkipBody :: "wrapper \<Rightarrow> wrapper" where
  "EnableSkipBody w = WithSkipBody True w"
definition DisableSkipBody :: "wrapper \<Rightarrow> wrapper" where
  "DisableSkipBody w = WithSkipBody False w"
definition WithSpan :: "bool \<Rightarrow> wrapper \<Rightarrow> wrapper" where
  "WithSpan v w = w \<lparr> wSpan := v \<rparr>"
definition WithIssue :: "issue option \<Rightarrow> wrapper \<Rightarrow> wrapper" where
  "WithIssue v w = (case v of None \<Rightarrow> w | Some i \<Rightarrow> w \<lparr> wIssue := Some i \<rparr>)"
definition WithLinks :: "handle option \<Rightarrow> wrapper \<Rightarrow> wrapper" where
  "WithLinks v w = (case v of None \<Rightarrow> w | Some l \<Rightarrow> resetCache (w \<lparr> wLinks := Some l \<rparr>))"
definition WithSignature :: "handle option \<Rightarrow> wrapper \<Rightarrow> wrapper" where
  "WithSignature v w = (case v of None \<Rightarrow> w | Some s \<Rightarrow> w \<lparr> wSignature := Some s \<rparr>)"
definition WithReason :: "reason option \<Rightarrow> wrapper \<Rightarrow> wrapper" where
  "WithReason v w = (case v of None \<Rightarrow> w | Some r \<Rightarrow> resetCache (w \<lparr> wReason := Some r \<rparr>))"
definition ReleaseIssue :: "wrapper \<Rightarrow> wrapper" where
  "ReleaseIssue w = resetCache (w \<lparr> wIssue := None \<rparr>)"
definition ReleaseCursor :: "wrapper \<Rightarrow> wrapper" where
  "ReleaseCursor w = resetCache (w \<lparr> wCursor := None \<rparr>)"
definition ReleaseDebug :: "wrapper \<Rightarrow> wrapper" where
  "ReleaseDebug w = resetCache (w \<lparr> wDebug := None \<rparr>)"
definition ReleaseLinks :: "wrapper \<Rightarrow> wrapper" where
  "ReleaseLinks w = resetCache (w \<lparr> wLinks := None \<rparr>)"
definition ReleaseSignature :: "wrapper \<Rightarrow> wrapper" where
  "ReleaseSignature w = resetCache (w \<lparr> wSignature := None \<rparr>)"
definition ReleaseReason :: "wrapper \<Rightarrow> wrapper" where
  "ReleaseReason w = resetCache (w \<lparr> wReason := None \<rparr>)"

definition WithDebuggingKV :: "gostring \<Rightarrow> goval \<Rightarrow> wrapper \<Rightarrow> wrapper" where
  "WithDebuggingKV k v w =
    (let kvs = (if \<not> IsDebuggingPresent w then [] else the (wDebug w))
     in w \<lparr> wDebug := Some (AList.update k v kvs) \<rparr>)"

definition ReleaseInjectStackTrace :: "wrapper \<Rightarrow> wrapper" where
  "ReleaseInjectStackTrace w =
    (if IsDebuggingPresent w
     then w \<lparr> wDebug := map_option (AList.delete ''error_stack_trace'') (wDebug w) \<rparr> else w)"

text \<open>Errors; the addresses of the allocated structs are arguments.\<close>

definition WithError :: "addr \<Rightarrow> gostring \<Rightarrow> wrapper \<Rightarrow> wrapper" where
  "WithError a m w = w \<lparr> wErrors := NewError a m \<rparr>"
definition WithErrorAck :: "addr \<Rightarrow> goerr option \<Rightarrow> wrapper \<Rightarrow> wrapper" where
  "WithErrorAck a err w = w \<lparr> wErrors := NewErrorAck a err \<rparr>"
definition W_AppendErrorAck :: "addr \<Rightarrow> addr \<Rightarrow> goerr option \<Rightarrow> gostring \<Rightarrow> wrapper \<Rightarrow> wrapper" where
  "W_AppendErrorAck a a' err m w = w \<lparr> wErrors := AppendErrorAck a a' err m \<rparr>"
definition W_AppendError :: "addr \<Rightarrow> goerr option \<Rightarrow> gostring \<Rightarrow> wrapper \<Rightarrow> wrapper" where
  "W_AppendError a err m w = w \<lparr> wErrors := AppendError a err m \<rparr>"

text \<open>The addresses \<open>2 i\<close> and \<open>2 i + 1\<close> after \<open>a\<close> are those of the i-th error appended.\<close>

fun AppendErrors :: "addr \<Rightarrow> goerr option list \<Rightarrow> wrapper \<Rightarrow> wrapper" where
  "AppendErrors a [] w = w"
| "AppendErrors a (None # errs) w = AppendErrors a errs w"
| "AppendErrors a (Some err # errs) w =
    (if wErrors w = None then AppendErrors a errs (w \<lparr> wErrors := Some err \<rparr>)
     else AppendErrors (a + 2) errs
            (w \<lparr> wErrors := AppendErrorAck a (a + 1) (wErrors w) (Error_text err) \<rparr>))"

definition BindCause :: "addr \<Rightarrow> wrapper \<Rightarrow> wrapper" where
  "BindCause a w =
    (if IsNotEmpty (wMessage w)
     then (if wErrors w = None then w \<lparr> wErrors := NewError a (wMessage w) \<rparr>
           else w \<lparr> wErrors := AppendErrorAck a (a + 1) (wErrors w) (wMessage w) \<rparr>)
     else w)"

text \<open>Builders that create the component they change.\<close>

definition on_meta :: "(meta \<Rightarrow> meta) \<Rightarrow> wrapper \<Rightarrow> wrapper" where
  "on_meta f w =
    (let w1 = (if \<not> IsMetaPresent w then w \<lparr> wMeta := Some Meta \<rparr> else w)
     in w1 \<lparr> wMeta := map_option f (wMeta w1) \<rparr>)"

definition on_paging :: "(pagination \<Rightarrow> pagination) \<Rightarrow> wrapper \<Rightarrow> wrapper" where
  "on_paging f w =
    (let w1 = (if \<not> IsPagingPresent w then w \<lparr> wPaging := Some Pages \<rparr> else w)
     in w1 \<lparr> wPaging := map_option f (wPaging w1) \<rparr>)"

definition on_cursor :: "(cursor \<Rightarrow> cursor) \<Rightarrow> wrapper \<Rightarrow> wrapper" where
  "on_cursor f w =
    (let w1 = (if \<not> IsCursorPresent w then w \<lparr> wCursor := Some Cursors \<rparr> else w)
     in w1 \<lparr> wCursor := map_option f (wCursor w1) \<rparr>)"

definition on_reason :: "(reason \<Rightarrow> reason) \<Rightarrow> wrapper \<Rightarrow> wrapper" where
  "on_reason f w =
    (let w1 = (if \<not> IsReasonPresent w then w \<lparr> wReason := Some NewReason \<rparr> else w)
     in w1 \<lparr> wReason := map_option f (wReason w1) \<rparr>)"

definition W_WithApiVersion :: "gostring \<Rightarrow> wrapper \<Rightarrow> wrapper" where
  "W_WithApiVersion v w = on_meta (WithApiVersion v) w"
definition W_WithRequestID :: "gostring \<Rightarrow> wrapper \<Rightarrow> wrapper" where
  "W_WithRequestID v w = on_meta (WithRequestID v) w"
definition W_RandRequestID :: "env \<Rightarrow> wrapper \<Rightarrow> wrapper" where
  "W_RandRequestID e w = on_meta (RandRequestID (env_xid e)) w"
definition W_RandDeltaValue :: "env \<Rightarrow> wrapper \<Rightarrow> wrapper" where
  "W_RandDeltaValue e w = on_meta (\<lambda>m. IncreaseDeltaCnt (RandDeltaValue (env_rand e) m)) w"
definition W_IncreaseDeltaCnt :: "wrapper \<Rightarrow> wrapper" where
  "W_IncreaseDeltaCnt w = on_meta IncreaseDeltaCnt w"
definition W_DecreaseDeltaCnt :: "wrapper \<Rightarrow> wrapper" where
  "W_DecreaseDeltaCnt w = on_meta DecreaseDeltaCnt w"
definition W_WithLocale :: "gostring \<Rightarrow> wrapper \<Rightarrow> wrapper" where
  "W_WithLocale v w = on_meta (WithLocale v) w"
definition W_WithRequestedTime :: "int \<Rightarrow> wrapper \<Rightarrow> wrapper" where
  "W_WithRequestedTime v w = on_meta (WithRequestedTime v) w"
definition W_WithCustomFields :: "fields \<Rightarrow> wrapper \<Rightarrow> wrapper" where
  "W_WithCustomFields v w = on_meta (WithCustomFields v) w"
definition W_WithCustomFieldKV :: "gostring \<Rightarrow> goval \<Rightarrow> wrapper \<Rightarrow> wrapper" where
  "W_WithCustomFieldKV k v w = on_meta (WithCustomFieldKV k v) w"
definition W_WithPage :: "int \<Rightarrow> wrapper \<Rightarrow> wrapper" where
  "W_WithPage v w = on_paging (WithPage v) w"
definition W_WithPerPage :: "int \<Rightarrow> wrapper \<Rightarrow> wrapper" where
  "W_WithPerPage v w = on_paging (WithPerPage v) w"
definition W_WithTotalPages :: "int \<Rightarrow> wrapper \<Rightarrow> wrapper" where
  "W_WithTotalPages v w = on_paging (WithTotalPages v) w"
definition W_WithTotalItems :: "int \<Rightarrow> wrapper \<Rightarrow> wrapper" where
  "W_WithTotalItems v w = on_paging (WithTotalItems v) w"
definition W_WithIsLast :: "bool \<Rightarrow> wrapper \<Rightarrow> wrapper" where
  "W_WithIsLast v w = on_paging (WithIsLast v) w"
definition W_WithCursorNext :: "gostring \<Rightarrow> wrapper \<Rightarrow> wrapper" where
  "W_WithCursorNext v w = on_cursor (WithNext v) w"
definition W_WithCursorPrev :: "gostring \<Rightarrow> wrapper \<Rightarrow> wrapper" where
  "W_WithCursorPrev v w = on_cursor (WithPrevious v) w"
definition W_WithCursorHasNext :: "bool \<Rightarrow> wrapper \<Rightarrow> wrapper" where
  "W_WithCursorHasNext v w = on_cursor (WithHasNext v) w"
definition W_WithCursorHasPrev :: "bool \<Rightarrow> wrapper \<Rightarrow> wrapper" where
  "W_WithCursorHasPrev v w = on_cursor (WithHasPrevious v) w"
definition W_WithCursorLimit :: "int \<Rightarrow> wrapper \<Rightarrow> wrapper" where
  "W_WithCursorLimit v w = on_cursor (WithLimit v) w"
definition W_WithReasonCode :: "(gostring \<Rightarrow> gostring option) \<Rightarrow> gostring \<Rightarrow> wrapper \<Rightarrow> wrapper" where
  "W_WithReasonCode codes v w = on_reason (Reason_WithCode codes v) w"
definition W_WithReasonCategory :: "gostring \<Rightarrow> wrapper \<Rightarrow> wrapper" where
  "W_WithReasonCategory v w = on_reason (Reason_WithCategory v) w"

definition Clone_wrapper :: "wrapper \<Rightarrow> wrapper" where
  "Clone_wrapper w = zero_wrapper \<lparr>
     wStatus := wStatus w, wTotal := wTotal w, wMessage := wMessage w, wData := wData w,
     wPath := wPath w, wErrors := wErrors w, wSkipBody := wSkipBody w, wFilepath := wFilepath w,
     wFilename := wFilename w, wSpan := wSpan w, wBodyBase64 := wBodyBase64 w, wRequest := wRequest w,
     wHeader := Clone_header (wHeader w), wMeta := Clone_meta (wMeta w), wPaging := Clone_page (wPaging w),
     wDebug := (case wDebug w of None \<Rightarrow> None | Some kvs \<Rightarrow> Some kvs),
     wIssue := Clone_issue (wIssue w), wCursor := Clone_cursor (wCursor w),
     wLinks := wLinks w, wSignature := wSignature w, wReason := Clone_reason (wReason w) \<rparr>"

section \<open>Normalisation (\<open>norm.go\<close>)\<close>

definition changed :: "env \<Rightarrow> bool \<Rightarrow> wrapper \<Rightarrow> wrapper" where
  "changed e hasChanges w = (if hasChanges then W_RandDeltaValue e w else w)"

definition NormPaging :: "env \<Rightarrow> wrapper \<Rightarrow> wrapper" where
  "NormPaging e w =
    (if IsPagingPresent w
     then W_RandDeltaValue e (w \<lparr> wPaging := map_option Norm_page (wPaging w) \<rparr>) else w)"

definition NormHSC :: "env \<Rightarrow> wrapper \<Rightarrow> wrapper" where
  "NormHSC e w =
    (if \<not> IsStatusCodePresent w \<and> IsHeaderPresent w
     then changed e True (w \<lparr> wStatus := Code_of (wHeader w) \<rparr>)
     else if \<not> IsHeaderPresent w \<and> IsStatusCodePresent w
     then changed e True
            (w \<lparr> wHeader := Some (WithText (http_StatusText (wStatus w)) (WithCode (wStatus w) Header)) \<rparr>)
     else if IsStatusCodePresent w \<and> IsHeaderPresent w
     then (if wStatus w = Code_of (wHeader w) then changed e False w
           else changed e True (w \<lparr> wStatus := Code_of (wHeader w) \<rparr>))
     else changed e False w)"

definition NormMeta :: "env \<Rightarrow> wrapper \<Rightarrow> wrapper" where
  "NormMeta e w =
    (let c0 = (\<not> IsMetaPresent w);
         m0 = (case wMeta w of None \<Rightarrow> Meta | Some m \<Rightarrow> m);
         c1 = (\<not> IsLocalePresent (Some m0));
         m1 = (if c1 then m0 \<lparr> localeName := ''en_US'' \<rparr> else m0);
         c2 = (\<not> IsApiVersionPresent (Some m1));
         m2 = (if c2 then m1 \<lparr> apiVersion := ''v0.0.1'' \<rparr> else m1);
         c3 = (\<not> IsRequestIDPresent (Some m2));
         m3 = (if c3 then RandRequestID (env_xid e) m2 else m2);
         c4 = (\<not> IsRequestedTimePresent (Some m3));
         m4 = (if c4 then m3 \<lparr> requestedTime := env_now e \<rparr> else m3)
     in changed e (c0 \<or> c1 \<or> c2 \<or> c3 \<or> c4) (w \<lparr> wMeta := Some m4 \<rparr>))"

text \<open>The length of the body when it is a slice of one of the listed element types.\<close>

definition listed_slice :: "goval \<Rightarrow> nat option" where
  "listed_slice v = (case v of
      GSlice k vs \<Rightarrow> if k = KOther then None else Some (length vs)
    | _ \<Rightarrow> None)"

definition NormBody :: "env \<Rightarrow> wrapper \<Rightarrow> wrapper" where
  "NormBody e w0 =
    (let (w1, c1) = (case listed_slice (wData w0) of
            Some n \<Rightarrow> if wTotal w0 = 0 \<and> 0 < n then (w0 \<lparr> wTotal := int n \<rparr>, True) else (w0, False)
          | None \<Rightarrow> (w0, False));
         (w2, c2) = (if IsPagingPresent w1 \<and> 0 < TotalItems_of (wPaging w1) \<and> wTotal w1 = 0
            then (w1 \<lparr> wTotal := TotalItems_of (wPaging w1) \<rparr>, True) else (w1, c1));
         (w3, c3) = (if IsPagingPresent w2 \<and> TotalItems_of (wPaging w2) = 0 \<and> 0 < wTotal w2
            then (w2 \<lparr> wPaging := map_option (WithTotalItems (wTotal w2)) (wPaging w2) \<rparr>, True)
            else (w2, c2))
     in changed e c3 w3)"

definition NormMessage :: "env \<Rightarrow> wrapper \<Rightarrow> wrapper" where
  "NormMessage e w =
    (if IsEmpty (wMessage w) \<and> IsStatusCodePresent w
     then (if IsInformational w then changed e True (w \<lparr> wMessage := Type_of (Some Continue) \<rparr>)
           else if IsSuccess w then changed e True (w \<lparr> wMessage := Type_of (Some OK) \<rparr>)
           else if IsRedirection w then changed e True (w \<lparr> wMessage := Type_of (Some MultipleChoices) \<rparr>)
           else if IsClientError w then changed e True (w \<lparr> wMessage := Type_of (Some BadRequest) \<rparr>)
           else if IsServerError w then changed e True (w \<lparr> wMessage := Type_of (Some InternalServerError) \<rparr>)
           else changed e False w)
     else changed e False w)"

definition NormDebug :: "env \<Rightarrow> wrapper \<Rightarrow> wrapper" where
  "NormDebug e w = (case wDebug w of
      None \<Rightarrow> w
    | Some kvs \<Rightarrow> changed e (\<exists>kv \<in> set kvs. snd kv = GNil)
        (w \<lparr> wDebug := Some (filter (\<lambda>kv. snd kv \<noteq> GNil) kvs) \<rparr>))"

definition NormAll :: "env \<Rightarrow> wrapper \<Rightarrow> wrapper" where
  "NormAll e w =
    NormDebug e (NormMessage e (NormPaging e (NormBody e (NormMeta e (NormHSC e w)))))"

section \<open>Building the response\<close>

definition autoAdjust :: "env \<Rightarrow> wrapper \<Rightarrow> wrapper" where
  "autoAdjust e w0 =
    (let w1 = (if (IsClientError w0 \<or> IsServerError w0) \<and> \<not> IsErrorPresent w0
               then (if IsNotEmpty (wMessage w0)
                     then w0 \<lparr> wErrors := NewError (env_addr e) (wMessage w0) \<rparr>
                     else w0 \<lparr> wErrors := NewError (env_addr e)
                       (''HTTP '' @ itoa (fst (StatusCode w0)) @ '' error with no message'') \<rparr>)
               else w0);
         w2 = (if IsErrorPresent w1 \<and> IsSuccess w1
               then WithHeader (Some InternalServerError)
                 (WithDebuggingKV ''status_code_override''
                   (GStr (''status code indicates '' @ status_line (fst (StatusCode w1)) @
                      '' but error is present; auto-corrected to '' @
                      StatusText_header (Some InternalServerError))) w1)
               else w1)
     in if IsError w2 \<and> \<not> IsIssuePresent w2
        then WithIssue (NewIssue (env_issue_id e)
               (case wErrors w2 of None \<Rightarrow> [] | Some er \<Rightarrow> env_fingerprint e er) (wErrors w2)) w2
        else w2)"

definition build :: "env \<Rightarrow> wrapper \<Rightarrow> response" where
  "build e w =
    (let put = \<lambda>c k v m. put_if c k v m;
         m1 = put (IsStatusCodePresent w) ''status_code'' (RInt (wStatus w)) Map.empty;
         m2 = put (IsNotEmpty (wPath w)) ''path'' (RStr (wPath w)) m1;
         m3 = put (IsNotEmpty (wMessage w)) ''message'' (RStr (wMessage w)) m2;
         m4 = put (IsBodyPresent w \<and> \<not> wSkipBody w) ''data'' (RVal (env_cast e (wData w))) m3;
         m5 = put (IsTotalPresent w) ''total'' (RInt (wTotal w)) m4;
         m6 = put (IsPagingPresent w) ''pagination'' (RObj (Respond_page (wPaging w))) m5;
         m7 = put (IsMetaPresent w) ''meta'' (RObj (Respond_meta (wMeta w))) m6;
         m8 = put (IsHeaderPresent w) ''header'' (RObj (Respond_header (wHeader w))) m7;
         m9 = put (IsDebuggingPresent w) ''debug'' (RFields (wDebug w)) m8;
         m10 = put (IsCursorPresent w) ''cursor'' (RObj (Respond_cursor (wCursor w))) m9;
         m11 = put (IsIssuePresent w) ''issue'' (RObj (Respond_issue (the (wIssue w)))) m10;
         m12 = put (IsLinksPresent w) ''_links'' (RObj (env_links e (the (wLinks w)))) m11;
         m13 = put (IsSignaturePresent w) ''signature'' (RObj (env_signature e (the (wSignature w)))) m12;
         m14 = put (IsReasonPresent w) ''reason'' (RObj (Respond_reason (the (wReason w)))) m13
     in m14)"

definition hashed_of :: "wrapper \<Rightarrow> hashed" where
  "hashed_of w = (wStatus w, wMessage w, wData w, Respond_header (wHeader w), Respond_meta (wMeta w),
     Respond_page (wPaging w), wDebug w, wTotal w, wPath w)"

text \<open>The status code is taken by a call of \<open>StatusCode\<close>, which may set the field.\<close>

definition hash256Complex :: "env \<Rightarrow> wrapper \<Rightarrow> gostring \<times> wrapper" where
  "hash256Complex e w =
    (let w1 = snd (StatusCode w)
     in (case env_hash e (hashed_of w1) of None \<Rightarrow> [] | Some h \<Rightarrow> h, w1))"

text \<open>One call that runs alone; the two tests of the cache are then the same test.\<close>

definition Respond :: "env \<Rightarrow> wrapper \<Rightarrow> response \<times> wrapper" where
  "Respond e w =
    (let (hash, w1) = hash256Complex e (autoAdjust e w)
     in case cachedWrap w1 of
          Some cached \<Rightarrow>
            if cacheHash w1 = hash then (cached, w1)
            else (let r = build e w1 in (r, w1 \<lparr> cachedWrap := Some r, cacheHash := hash \<rparr>))
        | None \<Rightarrow> (let r = build e w1 in (r, w1 \<lparr> cachedWrap := Some r, cacheHash := hash \<rparr>)))"

definition RespondIgnoring :: "env \<Rightarrow> gostring list \<Rightarrow> wrapper \<Rightarrow> response \<times> wrapper" where
  "RespondIgnoring e fs w =
    (let (r, w1) = Respond e w
     in (foldl (\<lambda>m f. if IsEmpty f then m else m(f := None)) r fs, w1))"

end
