(* ===== verification/WrapperProps.thy ===== *)
theory WrapperProps
  imports Wrapper
begin

text \<open>
  What the wrapper promises: \<open>NormAll\<close> brings header and status code, meta, totals,
  message and debug map into agreement and is idempotent up to the change counters;
  \<open>autoAdjust\<close> is idempotent; the cache of \<open>Respond\<close> is sound for the fields its hash
  covers and stale for those it does not.
\<close>

lemmas presence_defs [go_defs] =
  IsHeaderPresent_def IsMetaPresent_def IsPagingPresent_def IsCursorPresent_def IsIssuePresent_def
  IsErrorPresent_def IsTotalPresent_def IsStatusCodePresent_def IsDebuggingPresent_def IsLinksPresent_def
  IsSignaturePresent_def IsReasonPresent_def

lemmas status_defs [go_defs] =
  IsSuccess_def IsInformational_def IsRedirection_def IsClientError_def IsServerError_def IsError_def

section \<open>Status codes\<close>

text \<open>The status code of a wrapper built through the API: unset, or a three-digit code, and
  the header carries a code in the same range.\<close>

definition code_ok :: "int \<Rightarrow> bool" where
  "code_ok c \<longleftrightarrow> c = 0 \<or> (100 \<le> c \<and> c \<le> 599)"

definition status_ok :: "wrapper \<Rightarrow> bool" where
  "status_ok w \<longleftrightarrow> code_ok (wStatus w) \<and> code_ok (Code_of (wHeader w))"

lemma code_ok_WithCode [simp]: "code_ok (hdrCode (WithCode c h))"
  by (simp add: code_ok_def WithCode_def)

lemma WithText_code [simp]: "hdrCode (WithText t h) = hdrCode h"
  by (simp add: WithText_def)

lemma status_ok_builders:
  "status_ok (New e)" "status_ok (Reset e)" "status_ok (WithStatusCode c w)"
  "status_ok w \<Longrightarrow> (case v of None \<Rightarrow> True | Some h \<Rightarrow> code_ok (hdrCode h)) \<Longrightarrow> status_ok (WithHeader v w)"
  "status_ok w \<Longrightarrow> status_ok (snd (StatusCode w))"
  by (auto simp: status_ok_def New_def Reset_def zero_wrapper_def Processing_def predefined_def WithType_def
      WithStatusCode_def WithHeader_def StatusCode_def Code_of_def Let_def code_ok_def WithCode_def
      split: option.splits)

section \<open>Changes of the counters\<close>

text \<open>The wrapper without the two counters of \<open>RandDeltaValue\<close>.\<close>

definition forget_delta :: "wrapper \<Rightarrow> wrapper" where
  "forget_delta w = w \<lparr> wMeta := map_option (\<lambda>m. m \<lparr> deltaValue := 0, deltaCnt := 0 \<rparr>) (wMeta w) \<rparr>"

lemma W_RandDeltaValue_fields [simp]:
  "wStatus (W_RandDeltaValue e w) = wStatus w" "wTotal (W_RandDeltaValue e w) = wTotal w"
  "wMessage (W_RandDeltaValue e w) = wMessage w" "wData (W_RandDeltaValue e w) = wData w"
  "wHeader (W_RandDeltaValue e w) = wHeader w" "wPaging (W_RandDeltaValue e w) = wPaging w"
  "wDebug (W_RandDeltaValue e w) = wDebug w" "wErrors (W_RandDeltaValue e w) = wErrors w"
  by (simp_all add: W_RandDeltaValue_def on_meta_def Let_def)

definition meta_complete :: "meta option \<Rightarrow> bool" where
  "meta_complete q \<longleftrightarrow> q \<noteq> None \<and> IsLocalePresent q \<and> IsApiVersionPresent q \<and> IsRequestIDPresent q \<and>
     IsRequestedTimePresent q"

lemma meta_complete_delta [simp]:
  "meta_complete (Some (m \<lparr> deltaValue := a, deltaCnt := b \<rparr>)) = meta_complete (Some m)"
  by (simp add: meta_complete_def IsLocalePresent_def IsApiVersionPresent_def IsRequestIDPresent_def
      IsRequestedTimePresent_def)

lemma forget_delta_Rand:
  assumes "wMeta w = Some m"
  shows "forget_delta (W_RandDeltaValue e w) = forget_delta w"
  using assms
  by (simp add: forget_delta_def W_RandDeltaValue_def on_meta_def IsMetaPresent_def Let_def
      IncreaseDeltaCnt_def RandDeltaValue_def WithDeltaValue_def)

lemma meta_complete_Rand: "meta_complete (wMeta w) \<Longrightarrow> meta_complete (wMeta (W_RandDeltaValue e w))"
  by (cases "wMeta w")
     (simp_all add: W_RandDeltaValue_def on_meta_def IsMetaPresent_def Let_def IncreaseDeltaCnt_def
       RandDeltaValue_def WithDeltaValue_def meta_complete_def IsLocalePresent_def IsApiVersionPresent_def
       IsRequestIDPresent_def IsRequestedTimePresent_def)

lemma changed_fields [simp]:
  "wStatus (changed e c w) = wStatus w" "wTotal (changed e c w) = wTotal w"
  "wMessage (changed e c w) = wMessage w" "wData (changed e c w) = wData w"
  "wHeader (changed e c w) = wHeader w" "wPaging (changed e c w) = wPaging w"
  "wDebug (changed e c w) = wDebug w"
  by (simp_all add: changed_def)

lemma meta_complete_changed [intro]: "meta_complete (wMeta w) \<Longrightarrow> meta_complete (wMeta (changed e c w))"
  by (simp add: changed_def meta_complete_Rand)

section \<open>Normal forms\<close>

definition hsc_ok :: "wrapper \<Rightarrow> bool" where
  "hsc_ok w \<longleftrightarrow> (case wHeader w of None \<Rightarrow> wStatus w \<le> 0 | Some h \<Rightarrow> wStatus w = hdrCode h)"

definition body_ok :: "wrapper \<Rightarrow> bool" where
  "body_ok w \<longleftrightarrow>
     (\<forall>n. listed_slice (wData w) = Some n \<and> 0 < n \<longrightarrow> wTotal w \<noteq> 0) \<and>
     (\<forall>p. wPaging w = Some p \<longrightarrow> (0 < totalItems p \<longrightarrow> wTotal w \<noteq> 0) \<and> (totalItems p = 0 \<longrightarrow> wTotal w \<le> 0))"

definition paging_ok :: "wrapper \<Rightarrow> bool" where
  "paging_ok w \<longleftrightarrow> (case wPaging w of None \<Rightarrow> True | Some p \<Rightarrow> Norm_page p = p)"

definition message_ok :: "wrapper \<Rightarrow> bool" where
  "message_ok w \<longleftrightarrow> (100 \<le> wStatus w \<and> wStatus w \<le> 599 \<longrightarrow> IsNotEmpty (wMessage w))"

definition debug_ok :: "wrapper \<Rightarrow> bool" where
  "debug_ok w \<longleftrightarrow> (case wDebug w of None \<Rightarrow> True | Some kvs \<Rightarrow> \<forall>kv \<in> set kvs. snd kv \<noteq> GNil)"

definition normal :: "wrapper \<Rightarrow> bool" where
  "normal w \<longleftrightarrow> hsc_ok w \<and> meta_complete (wMeta w) \<and> body_ok w \<and> paging_ok w \<and> message_ok w \<and> debug_ok w"

lemma Norm_page_idem [simp]: "Norm_page (Norm_page p) = Norm_page p"
  by (auto simp: Norm_page_def Let_def page_count_def)

lemma Norm_page_items [simp]: "totalItems (Norm_page p) = totalItems p"
  by (auto simp: Norm_page_def Let_def)

lemma NormHSC_hsc: "status_ok w \<Longrightarrow> hsc_ok (NormHSC e w)"
proof (cases "wHeader w")
  case None
  assume "status_ok w"
  then have "0 < wStatus w \<Longrightarrow> 100 \<le> wStatus w \<and> wStatus w \<le> 599"
    by (auto simp: status_ok_def code_ok_def)
  with None show ?thesis
    by (cases "0 < wStatus w")
       (simp_all add: NormHSC_def hsc_ok_def IsStatusCodePresent_def IsHeaderPresent_def WithCode_def)
next
  case (Some h)
  then show ?thesis
    by (cases "0 < wStatus w")
       (simp_all add: NormHSC_def hsc_ok_def IsStatusCodePresent_def IsHeaderPresent_def Code_of_def)
qed

lemma hsc_ok_cong: "wHeader w' = wHeader w \<Longrightarrow> wStatus w' = wStatus w \<Longrightarrow> hsc_ok w' = hsc_ok w"
  by (simp add: hsc_ok_def split: option.split)

lemma Types_nonempty:
  "IsNotEmpty (Type_of (Some Continue))" "IsNotEmpty (Type_of (Some OK))"
  "IsNotEmpty (Type_of (Some MultipleChoices))" "IsNotEmpty (Type_of (Some BadRequest))"
  "IsNotEmpty (Type_of (Some InternalServerError))"
  by code_simp+

lemma NormMeta_complete:
  assumes "IsNotEmpty (env_xid e)" "env_now e \<noteq> 0"
  shows "meta_complete (wMeta (NormMeta e w))"
proof -
  have lit: "IsNotEmpty ''en_US''" "IsNotEmpty ''v0.0.1''" by code_simp+
  show ?thesis
    unfolding NormMeta_def Let_def
    by (rule meta_complete_changed)
       (use assms lit in \<open>simp add: meta_complete_def IsLocalePresent_def IsApiVersionPresent_def
          IsRequestIDPresent_def IsRequestedTimePresent_def RandRequestID_def forceRequestID_def WithRequestID_def\<close>)
qed

lemma NormMeta_fields [simp]:
  "wStatus (NormMeta e w) = wStatus w" "wHeader (NormMeta e w) = wHeader w"
  by (simp_all add: NormMeta_def Let_def)

lemma NormBody_fields [simp]:
  "wStatus (NormBody e w) = wStatus w" "wHeader (NormBody e w) = wHeader w"
  "wData (NormBody e w) = wData w" "wDebug (NormBody e w) = wDebug w"
  by (auto simp: NormBody_def Let_def split: option.splits prod.splits if_splits)

lemma NormBody_meta: "meta_complete (wMeta w) \<Longrightarrow> meta_complete (wMeta (NormBody e w))"
  by (auto simp: NormBody_def Let_def split: option.splits prod.splits if_splits intro!: meta_complete_changed)

lemma calculate_items [simp]: "totalItems (calculate p) = totalItems p"
  by (simp add: calculate_def Let_def)

lemma NormBody_body: "body_ok (NormBody e w)"
  by (auto simp: NormBody_def Let_def body_ok_def IsPagingPresent_def TotalItems_of_def WithTotalItems_def
      split: option.splits prod.splits if_splits)

lemma NormPaging_fields [simp]:
  "wStatus (NormPaging e w) = wStatus w" "wHeader (NormPaging e w) = wHeader w"
  "wData (NormPaging e w) = wData w" "wTotal (NormPaging e w) = wTotal w" "wDebug (NormPaging e w) = wDebug w"
  by (simp_all add: NormPaging_def)

lemma NormPaging_meta: "meta_complete (wMeta w) \<Longrightarrow> meta_complete (wMeta (NormPaging e w))"
  by (simp add: NormPaging_def meta_complete_Rand)

lemma NormPaging_paging: "paging_ok (NormPaging e w)"
  by (auto simp: NormPaging_def paging_ok_def IsPagingPresent_def split: option.splits)

lemma NormPaging_body: "body_ok w \<Longrightarrow> body_ok (NormPaging e w)"
  by (auto simp: NormPaging_def body_ok_def IsPagingPresent_def)

lemma NormMessage_fields [simp]:
  "wStatus (NormMessage e w) = wStatus w" "wHeader (NormMessage e w) = wHeader w"
  "wData (NormMessage e w) = wData w" "wTotal (NormMessage e w) = wTotal w"
  "wPaging (NormMessage e w) = wPaging w" "wDebug (NormMessage e w) = wDebug w"
  by (simp_all add: NormMessage_def)

lemma NormMessage_meta: "meta_complete (wMeta w) \<Longrightarrow> meta_complete (wMeta (NormMessage e w))"
  by (auto simp: NormMessage_def intro!: meta_complete_changed)

lemma NormMessage_message: "message_ok (NormMessage e w)"
  using Types_nonempty
  by (auto simp: NormMessage_def message_ok_def IsNotEmpty_def status_defs IsStatusCodePresent_def)

lemma NormDebug_fields [simp]:
  "wStatus (NormDebug e w) = wStatus w" "wHeader (NormDebug e w) = wHeader w"
  "wData (NormDebug e w) = wData w" "wTotal (NormDebug e w) = wTotal w"
  "wPaging (NormDebug e w) = wPaging w" "wMessage (NormDebug e w) = wMessage w"
  by (simp_all add: NormDebug_def split: option.splits)

lemma NormDebug_meta: "meta_complete (wMeta w) \<Longrightarrow> meta_complete (wMeta (NormDebug e w))"
  by (auto simp: NormDebug_def split: option.splits intro!: meta_complete_changed)

lemma NormDebug_debug: "debug_ok (NormDebug e w)"
  by (auto simp: NormDebug_def debug_ok_def split: option.splits)

lemma ok_congs:
  "wData w' = wData w \<Longrightarrow> wTotal w' = wTotal w \<Longrightarrow> wPaging w' = wPaging w \<Longrightarrow> body_ok w' = body_ok w"
  "wPaging w' = wPaging w \<Longrightarrow> paging_ok w' = paging_ok w"
  "wStatus w' = wStatus w \<Longrightarrow> wMessage w' = wMessage w \<Longrightarrow> message_ok w' = message_ok w"
  by (simp_all add: body_ok_def paging_ok_def message_ok_def)

lemma NormAll_normal:
  assumes "status_ok w" "IsNotEmpty (env_xid e)" "env_now e \<noteq> 0"
  shows "normal (NormAll e w)"
proof -
  define w1 where "w1 = NormMeta e (NormHSC e w)"
  define w2 where "w2 = NormBody e w1"
  define w3 where "w3 = NormPaging e w2"
  define w4 where "w4 = NormMessage e w3"
  have all: "NormAll e w = NormDebug e w4"
    by (simp add: NormAll_def w1_def w2_def w3_def w4_def)
  have m: "meta_complete (wMeta (NormDebug e w4))"
    unfolding w4_def w3_def w2_def w1_def using assms(2,3)
    by (intro NormDebug_meta NormMessage_meta NormPaging_meta NormBody_meta NormMeta_complete)
  have h: "hsc_ok (NormDebug e w4)"
    using NormHSC_hsc [OF assms(1), of e]
    by (subst hsc_ok_cong [of _ "NormHSC e w"]) (simp_all add: w4_def w3_def w2_def w1_def)
  have b: "body_ok (NormDebug e w4)"
    using NormPaging_body [OF NormBody_body, of e e w1]
    by (subst ok_congs(1) [of _ w3]) (simp_all add: w4_def w3_def w2_def)
  have p: "paging_ok (NormDebug e w4)"
    using NormPaging_paging [of e w2] by (subst ok_congs(2) [of _ w3]) (simp_all add: w4_def w3_def)
  have s: "message_ok (NormDebug e w4)"
    using NormMessage_message [of e w3] by (subst ok_congs(3) [of _ w4]) (simp_all add: w4_def)
  show ?thesis
    unfolding normal_def all using m h b p s NormDebug_debug by blast
qed

lemma changed_same: "wMeta w = Some m \<Longrightarrow> forget_delta (changed e c w) = forget_delta w"
  by (simp add: changed_def forget_delta_Rand)

text \<open>On a normal wrapper every step only touches the counters, and keeps it normal.\<close>

lemma normal_forget: "forget_delta w' = forget_delta w \<Longrightarrow> normal w' = normal w"
proof -
  assume "forget_delta w' = forget_delta w"
  then have f: "wStatus w' = wStatus w" "wHeader w' = wHeader w" "wData w' = wData w" "wTotal w' = wTotal w"
      "wPaging w' = wPaging w" "wMessage w' = wMessage w" "wDebug w' = wDebug w"
    and m: "map_option (\<lambda>m. m \<lparr> deltaValue := 0, deltaCnt := 0 \<rparr>) (wMeta w')
      = map_option (\<lambda>m. m \<lparr> deltaValue := 0, deltaCnt := 0 \<rparr>) (wMeta w)"
    unfolding forget_delta_def by (cases w; cases w'; simp)+
  have "meta_complete q = meta_complete (map_option (\<lambda>m. m \<lparr> deltaValue := 0, deltaCnt := 0 \<rparr>) q)" for q
    by (cases q) (simp_all add: meta_complete_def [of None])
  with m have "meta_complete (wMeta w') = meta_complete (wMeta w)" by metis
  with f show ?thesis
    by (simp add: normal_def hsc_ok_def body_ok_def paging_ok_def message_ok_def debug_ok_def
        split: option.split)
qed

lemma wrapper_update_id [simp]:
  "w \<lparr> wPaging := wPaging w \<rparr> = w" "w \<lparr> wDebug := wDebug w \<rparr> = w" "w \<lparr> wMeta := wMeta w \<rparr> = w"
  by simp_all

lemma normal_NormHSC:
  assumes "hsc_ok w" and "wMeta w = Some m"
  shows "forget_delta (NormHSC e w) = forget_delta w"
proof -
  have id: "w \<lparr> wStatus := hdrCode h \<rparr> = w" if "wHeader w = Some h" for h
    using assms(1) that by (cases w) (simp add: hsc_ok_def)
  have "NormHSC e w = changed e False w \<or> NormHSC e w = changed e True w"
  proof (cases "wHeader w")
    case None
    then show ?thesis using assms(1) by (simp add: NormHSC_def hsc_ok_def presence_defs)
  next
    case (Some h)
    then show ?thesis using assms(1)
      by (simp add: id [OF Some] NormHSC_def hsc_ok_def presence_defs Code_of_def)
  qed
  then show ?thesis using changed_same [OF assms(2)] by metis
qed

lemma normal_NormMeta:
  assumes "meta_complete (wMeta w)"
  shows "NormMeta e w = w"
proof -
  obtain m where m: "wMeta w = Some m" using assms by (auto simp: meta_complete_def)
  have p: "IsLocalePresent (Some m)" "IsApiVersionPresent (Some m)" "IsRequestIDPresent (Some m)"
      "IsRequestedTimePresent (Some m)"
    using assms m by (simp_all add: meta_complete_def)
  have "NormMeta e w = w \<lparr> wMeta := Some m \<rparr>"
    by (simp add: NormMeta_def Let_def IsMetaPresent_def m p changed_def)
  also have "\<dots> = w" using m by (cases w) simp
  finally show ?thesis .
qed

lemma normal_NormBody:
  assumes "body_ok w"
  shows "NormBody e w = w"
proof -
  have a: "\<not> (wTotal w = 0 \<and> 0 < n)" if "listed_slice (wData w) = Some n" for n
    using assms that by (auto simp: body_ok_def)
  have b: "\<not> (IsPagingPresent w \<and> 0 < TotalItems_of (wPaging w) \<and> wTotal w = 0)"
    using assms by (auto simp: body_ok_def IsPagingPresent_def TotalItems_of_def)
  have c: "\<not> (IsPagingPresent w \<and> TotalItems_of (wPaging w) = 0 \<and> 0 < wTotal w)"
    using assms by (auto simp: body_ok_def IsPagingPresent_def TotalItems_of_def)
  show ?thesis
    by (cases "listed_slice (wData w)")
       (simp_all only: NormBody_def option.simps a b c if_False Let_def prod.case changed_def)
qed

lemma normal_NormPaging:
  assumes "paging_ok w" and "wMeta w = Some m"
  shows "forget_delta (NormPaging e w) = forget_delta w"
proof -
  have "map_option Norm_page (wPaging w) = wPaging w"
    using assms(1) by (auto simp: paging_ok_def split: option.splits)
  then have "NormPaging e w = (if IsPagingPresent w then W_RandDeltaValue e w else w)"
    by (simp add: NormPaging_def)
  then show ?thesis using forget_delta_Rand [OF assms(2)] by simp
qed

lemma normal_NormMessage: "message_ok w \<Longrightarrow> NormMessage e w = w"
  by (auto simp: NormMessage_def message_ok_def IsNotEmpty_def status_defs changed_def)

lemma normal_NormDebug:
  assumes "debug_ok w"
  shows "NormDebug e w = w"
proof (cases "wDebug w")
  case (Some kvs)
  with assms have "filter (\<lambda>kv. snd kv \<noteq> GNil) kvs = kvs" "\<not> (\<exists>kv \<in> set kvs. snd kv = GNil)"
    by (auto simp: debug_ok_def)
  moreover have "w \<lparr> wDebug := Some kvs \<rparr> = w" using Some by (cases w) simp
  ultimately show ?thesis using Some by (simp add: NormDebug_def changed_def)
qed (simp add: NormDebug_def)

lemma normal_steps:
  assumes "normal w"
  shows "forget_delta (NormHSC e w) = forget_delta w" "forget_delta (NormMeta e w) = forget_delta w"
    "forget_delta (NormBody e w) = forget_delta w" "forget_delta (NormPaging e w) = forget_delta w"
    "forget_delta (NormMessage e w) = forget_delta w" "forget_delta (NormDebug e w) = forget_delta w"
proof -
  note n = assms [unfolded normal_def]
  obtain m where "wMeta w = Some m" using n by (auto simp: meta_complete_def)
  with n show "forget_delta (NormHSC e w) = forget_delta w" "forget_delta (NormPaging e w) = forget_delta w"
    by (simp_all only: normal_NormHSC normal_NormPaging)
qed (use assms in \<open>simp_all only: normal_def normal_NormMeta normal_NormBody normal_NormMessage normal_NormDebug\<close>)

lemma NormAll_same:
  assumes "normal w"
  shows "forget_delta (NormAll e w) = forget_delta w"
proof -
  have step: "normal v' \<and> forget_delta v' = forget_delta w"
    if "normal v \<and> forget_delta v = forget_delta w" "forget_delta v' = forget_delta v" for v v'
    using that normal_forget [of v' v] by simp
  have n0: "normal w \<and> forget_delta w = forget_delta w" using assms by simp
  note n1 = step [OF n0 normal_steps(1) [OF conjunct1 [OF n0], of e]]
  note n2 = step [OF n1 normal_steps(2) [OF conjunct1 [OF n1], of e]]
  note n3 = step [OF n2 normal_steps(3) [OF conjunct1 [OF n2], of e]]
  note n4 = step [OF n3 normal_steps(4) [OF conjunct1 [OF n3], of e]]
  note n5 = step [OF n4 normal_steps(5) [OF conjunct1 [OF n4], of e]]
  note n6 = step [OF n5 normal_steps(6) [OF conjunct1 [OF n5], of e]]
  show ?thesis unfolding NormAll_def by (rule conjunct2 [OF n6])
qed

text \<open>C30: for a wrapper whose status code and header code are 0 or API codes, with a non-blank random identifier
  and a clock that is not at the epoch, \<open>NormAll\<close> ends with the status code equal to the
  header's code, a complete meta block, totals in agreement with body and pagination, a
  normalised pagination, a message for every three-digit status, and no nil debug
  entries; a second \<open>NormAll\<close> changes nothing but the delta counters.\<close>

theorem NormAll_normalises:
  assumes "status_ok w" and "IsNotEmpty (env_xid e)" and "env_now e \<noteq> 0"
  shows "normal (NormAll e w) \<and> forget_delta (NormAll e' (NormAll e w)) = forget_delta (NormAll e w)"
  using NormAll_normal [OF assms] NormAll_same [OF NormAll_normal [OF assms]] by blast


section \<open>Automatic adjustment\<close>

lemma WithHeader_fields [simp]:
  "wErrors (WithHeader v w) = wErrors w" "wIssue (WithHeader v w) = wIssue w"
  by (simp_all add: WithHeader_def split: option.splits)

lemma WithHeader_status [simp]: "wStatus (WithHeader (Some h) w) = hdrCode h"
  by (simp add: WithHeader_def Code_of_def)

lemma WithDebuggingKV_fields [simp]:
  "wErrors (WithDebuggingKV k v w) = wErrors w" "wIssue (WithDebuggingKV k v w) = wIssue w"
  "wStatus (WithDebuggingKV k v w) = wStatus w"
  by (simp_all add: WithDebuggingKV_def Let_def)

lemma InternalServerError_code [simp]: "hdrCode InternalServerError = 500"
  by (simp add: InternalServerError_def predefined_def WithType_def WithCode_def)

definition adjusted :: "wrapper \<Rightarrow> bool" where
  "adjusted w \<longleftrightarrow> \<not> (IsErrorPresent w \<and> IsSuccess w) \<and> (IsError w \<longrightarrow> IsErrorPresent w \<and> IsIssuePresent w)"

lemma WithIssue_fields [simp]:
  "wErrors (WithIssue v w) = wErrors w" "wStatus (WithIssue v w) = wStatus w"
  by (simp_all add: WithIssue_def split: option.splits)

lemma autoAdjust_adjusted: "adjusted (autoAdjust e w)"
proof -
  define w1 where "w1 = (if (IsClientError w \<or> IsServerError w) \<and> \<not> IsErrorPresent w
      then (if IsNotEmpty (wMessage w)
            then w \<lparr> wErrors := NewError (env_addr e) (wMessage w) \<rparr>
            else w \<lparr> wErrors := NewError (env_addr e)
              (''HTTP '' @ itoa (fst (StatusCode w)) @ '' error with no message'') \<rparr>)
      else w)"
  define w2 where "w2 = (if IsErrorPresent w1 \<and> IsSuccess w1
      then WithHeader (Some InternalServerError)
        (WithDebuggingKV ''status_code_override''
          (GStr (''status code indicates '' @ status_line (fst (StatusCode w1)) @
             '' but error is present; auto-corrected to '' @
             StatusText_header (Some InternalServerError))) w1)
      else w1)"
  have eq: "autoAdjust e w = (if IsError w2 \<and> \<not> IsIssuePresent w2
      then WithIssue (NewIssue (env_issue_id e)
             (case wErrors w2 of None \<Rightarrow> [] | Some er \<Rightarrow> env_fingerprint e er) (wErrors w2)) w2
      else w2)"
    by (simp only: autoAdjust_def Let_def w1_def w2_def)
  have s1: "wStatus w1 = wStatus w" by (simp add: w1_def)
  have e1: "IsClientError w1 \<or> IsServerError w1 \<Longrightarrow> wErrors w1 \<noteq> None"
    by (auto simp: w1_def IsErrorPresent_def NewError_def IsClientError_def IsServerError_def)
  have ns: "\<not> (wErrors w2 \<noteq> None \<and> IsSuccess w2)"
    by (simp add: w2_def IsErrorPresent_def IsSuccess_def)
  have e2: "IsError w2 \<Longrightarrow> wErrors w2 \<noteq> None"
    using e1 by (auto simp: w2_def IsErrorPresent_def IsError_def split: if_splits)
  show ?thesis
  proof (cases "IsError w2 \<and> \<not> IsIssuePresent w2")
    case True
    then obtain er where er: "wErrors w2 = Some er" using e2 by blast
    let ?w = "WithIssue (NewIssue (env_issue_id e) (env_fingerprint e er) (Some er)) w2"
    have a: "autoAdjust e w = ?w" using True by (simp add: eq er)
    have "wErrors ?w = Some er" "wStatus ?w = wStatus w2" "wIssue ?w \<noteq> None"
      by (simp_all add: er WithIssue_def NewIssue_def)
    with ns er show ?thesis
      unfolding a adjusted_def by (simp add: IsErrorPresent_def IsIssuePresent_def IsSuccess_def)
  next
    case False
    then have a: "autoAdjust e w = w2" unfolding eq by (rule if_not_P)
    show ?thesis unfolding a adjusted_def using False ns e2 by (auto simp: IsErrorPresent_def)
  qed
qed

lemma adjusted_id:
  assumes "adjusted w"
  shows "autoAdjust e w = w"
proof -
  have "(IsClientError w \<or> IsServerError w) \<and> \<not> IsErrorPresent w \<longleftrightarrow> False"
    using assms by (auto simp: adjusted_def IsError_def)
  moreover have "IsErrorPresent w \<and> IsSuccess w \<longleftrightarrow> False" "IsError w \<and> \<not> IsIssuePresent w \<longleftrightarrow> False"
    using assms by (auto simp: adjusted_def)
  ultimately show ?thesis by (simp only: autoAdjust_def Let_def if_False)
qed

text \<open>C31: after \<open>autoAdjust\<close> no error goes with a success status: an error under a success status has made it
  500.  Every error status, with a message or without, comes with both an error value and an issue, and
  adjusting again (with fresh identifiers) changes nothing.\<close>

theorem autoAdjust_consistent:
  "\<not> (IsErrorPresent (autoAdjust e w) \<and> IsSuccess (autoAdjust e w)) \<and>
   (IsError (autoAdjust e w) \<longleftrightarrow> IsErrorPresent (autoAdjust e w) \<and> IsIssuePresent (autoAdjust e w)
      \<and> wErrors (autoAdjust e w) \<noteq> None) \<and>
   autoAdjust e' (autoAdjust e w) = autoAdjust e w"
  using autoAdjust_adjusted [of e w] adjusted_id [OF autoAdjust_adjusted, of e' e w]
  by (auto simp: adjusted_def IsError_def IsErrorPresent_def)

section \<open>The response cache\<close>

abbreviation digest :: "env \<Rightarrow> hashed \<Rightarrow> gostring" where
  "digest e t \<equiv> (case env_hash e t of None \<Rightarrow> [] | Some h \<Rightarrow> h)"

text \<open>The wrapper whose fields \<open>Respond\<close> reads, and the parts of the response outside the hash.\<close>

definition settle :: "env \<Rightarrow> wrapper \<Rightarrow> wrapper" where
  "settle e w = snd (StatusCode (autoAdjust e w))"

definition unhashed :: "wrapper \<Rightarrow> bool \<times> cursor option \<times> issue option \<times> handle option \<times> handle option
    \<times> reason option \<times> bool \<times> bool" where
  "unhashed w = (wSkipBody w, wCursor w, wIssue w, wLinks w, wSignature w, wReason w,
     IsHeaderPresent w, IsMetaPresent w)"

lemma Respond_page_present: "Respond_page p = Respond_page q \<Longrightarrow> (p = None) = (q = None)"
proof -
  assume "Respond_page p = Respond_page q"
  then have "Respond_page p ''page'' = Respond_page q ''page''" by simp
  then show ?thesis by (cases p; cases q) (simp_all add: Respond_page_def)
qed

lemma build_determined:
  assumes "hashed_of w = hashed_of w'" and "unhashed w = unhashed w'"
  shows "build e w = build e w'"
proof -
  have h: "wStatus w = wStatus w'" "wMessage w = wMessage w'" "wData w = wData w'"
    "Respond_header (wHeader w) = Respond_header (wHeader w')" "Respond_meta (wMeta w) = Respond_meta (wMeta w')"
    "Respond_page (wPaging w) = Respond_page (wPaging w')" "wDebug w = wDebug w'" "wTotal w = wTotal w'"
    "wPath w = wPath w'"
    using assms(1) by (simp_all add: hashed_of_def)
  have u: "wSkipBody w = wSkipBody w'" "wCursor w = wCursor w'" "wIssue w = wIssue w'" "wLinks w = wLinks w'"
    "wSignature w = wSignature w'" "wReason w = wReason w'" "IsHeaderPresent w = IsHeaderPresent w'"
    "IsMetaPresent w = IsMetaPresent w'"
    using assms(2) by (simp_all add: unhashed_def)
  have p: "IsPagingPresent w = IsPagingPresent w'"
    using Respond_page_present [OF h(6)] by (simp add: IsPagingPresent_def)
  have q: "IsStatusCodePresent w = IsStatusCodePresent w'" "IsBodyPresent w = IsBodyPresent w'"
    "IsTotalPresent w = IsTotalPresent w'" "IsDebuggingPresent w = IsDebuggingPresent w'"
    "IsCursorPresent w = IsCursorPresent w'" "IsIssuePresent w = IsIssuePresent w'"
    "IsLinksPresent w = IsLinksPresent w'" "IsSignaturePresent w = IsSignaturePresent w'"
    "IsReasonPresent w = IsReasonPresent w'"
    by (simp_all only: presence_defs IsBodyPresent_def h u)
  show ?thesis by (simp only: build_def h u p q)
qed

text \<open>The cache holds what \<open>build\<close> gave for a snapshot \<open>s\<close> of the wrapper.\<close>

definition cached_from :: "env \<Rightarrow> wrapper \<Rightarrow> wrapper \<Rightarrow> bool" where
  "cached_from e s w \<longleftrightarrow> cachedWrap w = None \<or>
     (cachedWrap w = Some (build e s) \<and> cacheHash w = digest e (hashed_of s))"

lemma Respond_unfold:
  "Respond e w =
    (if cachedWrap (settle e w) \<noteq> None \<and> cacheHash (settle e w) = digest e (hashed_of (settle e w))
     then (the (cachedWrap (settle e w)), settle e w)
     else (build e (settle e w),
       (settle e w) \<lparr> cachedWrap := Some (build e (settle e w)), cacheHash := digest e (hashed_of (settle e w)) \<rparr>))"
  by (auto simp: Respond_def hash256Complex_def settle_def Let_def split: option.splits)

lemma adjust_parts_cache [simp]:
  "cachedWrap (WithIssue v w) = cachedWrap w" "cacheHash (WithIssue v w) = cacheHash w"
  "cachedWrap (WithHeader h w) = cachedWrap w" "cacheHash (WithHeader h w) = cacheHash w"
  "cachedWrap (WithDebuggingKV k x w) = cachedWrap w" "cacheHash (WithDebuggingKV k x w) = cacheHash w"
  by (simp_all add: WithIssue_def WithHeader_def WithDebuggingKV_def Let_def split: option.splits)

lemma autoAdjust_cache [simp]:
  "cachedWrap (autoAdjust e w) = cachedWrap w" "cacheHash (autoAdjust e w) = cacheHash w"
  by (simp_all add: autoAdjust_def Let_def)

lemma autoAdjust_status: "0 < wStatus w \<Longrightarrow> 0 < wStatus (autoAdjust e w)"
  by (simp add: autoAdjust_def Let_def)

lemma settle_cache [simp]:
  "cachedWrap (settle e w) = cachedWrap w" "cacheHash (settle e w) = cacheHash w"
  by (simp_all add: settle_def StatusCode_def Let_def)

lemma settle_positive: "0 < wStatus w \<Longrightarrow> settle e w = autoAdjust e w"
  using autoAdjust_status [of w e] by (simp add: settle_def StatusCode_def Let_def)

text \<open>C32: \<open>Respond\<close> returns the response of the current (adjusted) state whenever the cache is empty, or
  was filled from a snapshot that agrees with it on the fields outside the hash and does
  not collide with it under the hash.\<close>

theorem Respond_fresh:
  assumes "cached_from e s w" and "cachedWrap w \<noteq> None \<longrightarrow> unhashed s = unhashed (settle e w)"
    and "digest e (hashed_of s) = digest e (hashed_of (settle e w)) \<longrightarrow> hashed_of s = hashed_of (settle e w)"
  shows "fst (Respond e w) = build e (settle e w) \<and> cached_from e (settle e w) (snd (Respond e w))"
proof (cases "cachedWrap w \<noteq> None \<and> cacheHash w = digest e (hashed_of (settle e w))")
  case True
  with assms(1) have c: "cachedWrap w = Some (build e s)" "cacheHash w = digest e (hashed_of s)"
    by (auto simp: cached_from_def)
  with True assms(3) have h: "hashed_of s = hashed_of (settle e w)" by simp
  have "build e s = build e (settle e w)"
    using h assms(2) True by (intro build_determined) auto
  with True c h show ?thesis by (simp add: Respond_unfold cached_from_def)
next
  case False
  then show ?thesis by (auto simp: Respond_unfold cached_from_def)
qed

text \<open>The builders of the fields outside the hash that do not reset the cache.\<close>

datatype unhashed_op =
    OpCursor "cursor option"
  | OpSignature handle
  | OpSkipBody bool
  | OpCursorNext gostring
  | OpReasonCategory gostring

fun apply_unhashed :: "unhashed_op \<Rightarrow> wrapper \<Rightarrow> wrapper" where
  "apply_unhashed (OpCursor v) w = WithCursor v w"
| "apply_unhashed (OpSignature s) w = WithSignature (Some s) w"
| "apply_unhashed (OpSkipBody b) w = WithSkipBody b w"
| "apply_unhashed (OpCursorNext v) w = W_WithCursorNext v w"
| "apply_unhashed (OpReasonCategory v) w = W_WithReasonCategory v w"

lemma apply_unhashed_keeps:
  "cachedWrap (apply_unhashed op w) = cachedWrap w" "cacheHash (apply_unhashed op w) = cacheHash w"
  "hashed_of (apply_unhashed op w) = hashed_of w"
  "adjusted (apply_unhashed op w) = adjusted w" "wHeader (apply_unhashed op w) = wHeader w"
  "wStatus (apply_unhashed op w) = wStatus w"
  by (cases op; simp add: hashed_of_def adjusted_def status_defs presence_defs WithCursor_def WithSignature_def
      WithSkipBody_def W_WithCursorNext_def on_cursor_def W_WithReasonCategory_def on_reason_def Let_def)+

lemma settle_stable:
  assumes "adjusted w" "\<not> (IsHeaderPresent w \<and> wStatus w \<le> 0)"
  shows "settle e w = w"
  by (simp only: settle_def adjusted_id [OF assms(1)] StatusCode_def assms(2) if_False Let_def snd_conv)

lemma adjusted_cong:
  "wErrors w' = wErrors w \<Longrightarrow> wStatus w' = wStatus w \<Longrightarrow> wIssue w' = wIssue w \<Longrightarrow> adjusted w' = adjusted w"
  by (simp add: adjusted_def status_defs presence_defs)

text \<open>once \<open>Respond\<close> has filled the cache on a wrapper with a status code, setting the cursor,
  the signature, the reason category or the skip-body flag does not change what the next
  \<open>Respond\<close> returns, whatever the new value.\<close>

theorem Respond_stale:
  assumes "0 < wStatus w"
  shows "fst (Respond e (apply_unhashed op (snd (Respond e w)))) = fst (Respond e w)"
proof -
  define w1 where "w1 = snd (Respond e w)"
  have w1: "wErrors w1 = wErrors (settle e w)" "wStatus w1 = wStatus (settle e w)" "wIssue w1 = wIssue (settle e w)"
    "hashed_of w1 = hashed_of (settle e w)"
    by (auto simp: w1_def Respond_unfold hashed_of_def)
  have c: "cachedWrap w1 = Some (fst (Respond e w))" "cacheHash w1 = digest e (hashed_of (settle e w))"
    by (auto simp: w1_def Respond_unfold)
  have pos: "0 < wStatus (settle e w)" and "adjusted (settle e w)"
    using autoAdjust_status [OF assms] autoAdjust_adjusted [of e w] by (simp_all add: settle_positive [OF assms])
  then have a: "adjusted (apply_unhashed op w1)"
    using adjusted_cong [OF w1(1-3)] by (simp add: apply_unhashed_keeps)
  have "settle e (apply_unhashed op w1) = apply_unhashed op w1"
    using a pos w1(2) by (intro settle_stable) (simp_all add: apply_unhashed_keeps)
  then show ?thesis
    unfolding w1_def [symmetric] by (simp add: Respond_unfold apply_unhashed_keeps c w1(4))
qed

text \<open>a clone has every field of the original except the cache, which starts empty; so it
  builds the same response.\<close>

theorem Clone_wrapper_equal:
  "Clone_wrapper w = resetCache w \<and> build e (Clone_wrapper w) = build e w"
proof -
  have "Clone_wrapper w = resetCache w"
    by (cases w) (auto simp: Clone_wrapper_def resetCache_def zero_wrapper_def Clone_header_def Clone_meta_def
        Clone_page_def Clone_issue_def Clone_cursor_def Clone_reason_def split: option.splits)
  moreover have "build e (resetCache w) = build e w"
    by (rule build_determined) (simp_all add: hashed_of_def unhashed_def resetCache_def presence_defs)
  ultimately show ?thesis by simp
qed

section \<open>Instances\<close>

text \<open>An environment whose hash is the total.\<close>

definition env0 :: env where
  "env0 = \<lparr> env_now = 5, env_xid = ''id'', env_rand = 1 / 2, env_issue_id = ''ISS'', env_addr = 1,
     env_fingerprint = (\<lambda>_. ''IFP''), env_links = (\<lambda>_. Map.empty), env_signature = (\<lambda>_. Map.empty),
     env_cast = (\<lambda>v. v), env_hash = (\<lambda>(_, _, _, _, _, _, _, total, _). Some (itoa total)) \<rparr>"

lemma env0_facts: "IsNotEmpty (env_xid env0)" "env_now env0 \<noteq> 0"
  by code_simp (simp add: env0_def)

theorem NormAll_normalises_witness: "normal (NormAll env0 (New env0))"
  using NormAll_normalises [OF status_ok_builders(1) env0_facts] by blast

theorem Respond_stale_witness:
  "fst (Respond env0 (WithCursor (Some Cursors) (snd (Respond env0 (WithStatusCode 200 (New env0))))))
     = fst (Respond env0 (WithStatusCode 200 (New env0)))"
  using Respond_stale [of "WithStatusCode 200 (New env0)" env0 "OpCursor (Some Cursors)"]
  by (simp add: WithStatusCode_def)

theorem Respond_fresh_witness:
  "fst (Respond env0 (WithTotal 7 (snd (Respond env0 (WithStatusCode 200 (New env0))))))
     = build env0 (settle env0 (WithTotal 7 (snd (Respond env0 (WithStatusCode 200 (New env0))))))"
proof -
  define w where "w = WithStatusCode 200 (New env0)"
  define v where "v = WithTotal 7 (snd (Respond env0 w))"
  have pos: "0 < wStatus w" by (simp add: w_def WithStatusCode_def)
  have ad: "adjusted w"
    by (simp add: w_def adjusted_def status_defs presence_defs WithStatusCode_def New_def zero_wrapper_def)
  have sw: "settle env0 w = w" using pos by (intro settle_stable [OF ad]) simp
  have empty: "cachedWrap w = None" by (simp add: w_def WithStatusCode_def New_def zero_wrapper_def)
  have r: "snd (Respond env0 w) = w \<lparr> cachedWrap := Some (build env0 w), cacheHash := digest env0 (hashed_of w) \<rparr>"
    by (simp add: Respond_unfold sw empty)
  have sv: "settle env0 v = v"
  proof (rule settle_stable)
    show "adjusted v" using ad by (simp add: v_def r WithTotal_def adjusted_def status_defs presence_defs)
  qed (use pos in \<open>simp add: v_def r WithTotal_def\<close>)
  have i: "itoa 0 = ''0''" "itoa 7 = ''7''" by code_simp+
  have d: "digest env0 (hashed_of w) = ''0''" "digest env0 (hashed_of v) = ''7''"
    by (simp_all add: env0_def hashed_of_def v_def r WithTotal_def w_def WithStatusCode_def New_def zero_wrapper_def i)
  have "cached_from env0 w v" by (simp add: cached_from_def v_def r WithTotal_def)
  moreover have "unhashed w = unhashed (settle env0 v)"
    unfolding sv by (simp add: unhashed_def v_def r WithTotal_def presence_defs)
  ultimately have "fst (Respond env0 v) = build env0 (settle env0 v)"
    using Respond_fresh [of env0 w v] d sv by simp
  then show ?thesis by (simp only: v_def w_def)
qed

end
