(* ===== verification/Limiter.thy ===== *)
theory Limiter
  imports GoPrelude
begin

text \<open>
  The counting semaphore of \<open>pkg/workergroup/limiter.go\<close>, whose capacity can change while
  permits are held.  Every method runs under the mutex, so each is one atomic step;
  \<open>acquire\<close> blocks while it cannot proceed, which is the value \<^term>\<open>None\<close> here.  The contract
  that the group relies on is the locale \<open>semaphore\<close>, discharged on the model.
\<close>

section \<open>The code\<close>

record limiter =
  limit :: int
  inUse :: int

definition newLimiter :: "int \<Rightarrow> limiter" where
  "newLimiter n = \<lparr> limit = n, inUse = 0 \<rparr>"

definition zero_limiter :: limiter where
  "zero_limiter = \<lparr> limit = 0, inUse = 0 \<rparr>"

definition blocked :: "limiter \<Rightarrow> bool" where
  "blocked l \<longleftrightarrow> 0 \<le> limit l \<and> limit l \<le> inUse l"

definition acquire :: "limiter \<Rightarrow> limiter option" where
  "acquire l = (if blocked l then None else Some (l \<lparr> inUse := inUse l + 1 \<rparr>))"

definition tryAcquire :: "limiter \<Rightarrow> bool \<times> limiter" where
  "tryAcquire l = (if 0 \<le> limit l \<and> limit l \<le> inUse l then (False, l)
     else (True, l \<lparr> inUse := inUse l + 1 \<rparr>))"

definition release :: "limiter \<Rightarrow> limiter" where
  "release l = l \<lparr> inUse := inUse l - 1 \<rparr>"

definition setLimit :: "int \<Rightarrow> limiter \<Rightarrow> limiter" where
  "setLimit n l = l \<lparr> limit := n \<rparr>"

definition adjust :: "int \<Rightarrow> limiter \<Rightarrow> int \<times> limiter" where
  "adjust d l =
    (let l1 = (if limit l < 0 then l \<lparr> limit := 0 \<rparr> else l);
         l2 = l1 \<lparr> limit := wrap64 (limit l1 + d) \<rparr>;
         l3 = (if limit l2 < 0 then l2 \<lparr> limit := 0 \<rparr> else l2)
     in (limit l3, l3))"

definition cap :: "limiter \<Rightarrow> int" where
  "cap l = limit l"

definition used :: "limiter \<Rightarrow> int" where
  "used l = inUse l"

section \<open>The contract\<close>

text \<open>
  A semaphore: acquiring takes one permit, fails only when the capacity is used up,
  releasing gives one back, and changing the capacity leaves the permits alone.  A negative
  capacity is no bound.
\<close>

locale semaphore =
  fixes acq :: "'s \<Rightarrow> 's option"
    and rel :: "'s \<Rightarrow> 's"
    and held :: "'s \<Rightarrow> int"
    and capacity :: "'s \<Rightarrow> int"
  assumes acq_None: "acq s = None \<longleftrightarrow> 0 \<le> capacity s \<and> capacity s \<le> held s"
    and acq_Some: "acq s = Some t \<Longrightarrow> held t = held s + 1 \<and> capacity t = capacity s"
    and rel_held: "held (rel s) = held s - 1"
    and rel_capacity: "capacity (rel s) = capacity s"
begin

text \<open>A history of acquisitions (\<^term>\<open>True\<close>) and releases that never blocks.\<close>

inductive history :: "'s \<Rightarrow> bool list \<Rightarrow> 's \<Rightarrow> bool" where
  history_Nil: "history s [] s"
| history_acq: "history s es t \<Longrightarrow> acq t = Some u \<Longrightarrow> history s (es @ [True]) u"
| history_rel: "history s es t \<Longrightarrow> history s (es @ [False]) (rel t)"

lemma history_capacity: "history s es t \<Longrightarrow> capacity t = capacity s"
  by (induction rule: history.induct) (auto dest: acq_Some simp: rel_capacity)

lemma history_held:
  "history s es t \<Longrightarrow>
    held t = held s + int (length (filter id es)) - int (length (filter Not es))"
  by (induction rule: history.induct) (auto dest: acq_Some simp: rel_held)

lemma acq_below: "acq s = Some t \<Longrightarrow> 0 \<le> capacity s \<Longrightarrow> held t \<le> capacity t"
  using acq_None [of s] acq_Some [of s t] by auto

lemma history_bounded:
  assumes "history s es t" and "0 \<le> capacity s" and "held s \<le> capacity s"
  shows "held t \<le> capacity t"
  using assms
proof (induction rule: history.induct)
  case (history_acq s es t u)
  then show ?case using acq_below history_capacity by metis
next
  case (history_rel s es t)
  then show ?case by (simp add: rel_held rel_capacity)
qed

text \<open>A release unblocks an acquirer when the capacity is positive and not exceeded.\<close>

lemma rel_unblocks: "held s \<le> capacity s \<Longrightarrow> acq (rel s) \<noteq> None"
  by (simp add: acq_None rel_held rel_capacity)

end

interpretation lim: semaphore acquire release inUse limit
  by unfold_locales (auto simp: acquire_def blocked_def release_def split: if_splits)

section \<open>Properties\<close>

lemma tryAcquire_acquire:
  "tryAcquire l = (case acquire l of None \<Rightarrow> (False, l) | Some l' \<Rightarrow> (True, l'))"
  by (simp add: tryAcquire_def acquire_def blocked_def)

lemma adjust_nonneg: "0 \<le> fst (adjust d l) \<and> fst (adjust d l) = limit (snd (adjust d l)) \<and>
    inUse (snd (adjust d l)) = inUse l"
  by (simp add: adjust_def Let_def)

text \<open>the permits in use never exceed a non-negative limit through any sequence of
  successful \<open>acquire\<close>s and \<open>release\<close>s, and count exactly the acquisitions that were not
  released.\<close>

theorem limiter_bound:
  assumes "lim.history (newLimiter n) es l" and "0 \<le> n"
  shows "inUse l \<le> n \<and> limit l = n \<and>
    inUse l = int (length (filter id es)) - int (length (filter Not es))"
  using lim.history_bounded [OF assms(1)] lim.history_capacity [OF assms(1)] lim.history_held [OF assms(1)]
    assms(2) by (simp add: newLimiter_def)

text \<open>the zero value of a limiter admits nobody, and a limiter with a negative capacity
  everybody.\<close>

theorem zero_limiter_blocks:
  "acquire zero_limiter = None \<and> \<not> fst (tryAcquire zero_limiter) \<and>
   (limit l < 0 \<longrightarrow> acquire l \<noteq> None)"
  by (simp add: acquire_def tryAcquire_def blocked_def zero_limiter_def)

theorem zero_limiter_blocks_witness: "acquire (newLimiter (- 1)) \<noteq> None"
  using zero_limiter_blocks [of "newLimiter (- 1)"] by (simp add: newLimiter_def)

theorem limiter_bound_witness: "inUse \<lparr> limit = 2, inUse = 1 \<rparr> \<le> 2"
proof -
  have "lim.history (newLimiter 2) ([] @ [True]) \<lparr> limit = 2, inUse = 1 \<rparr>"
    by (rule lim.history_acq [OF lim.history_Nil]) (simp add: acquire_def blocked_def newLimiter_def)
  from limiter_bound [OF this] show ?thesis by simp
qed

end
