(* ===== verification/WorkerGroup.thy ===== *)
theory WorkerGroup
  imports Limiter "HOL-Library.Multiset"
begin

text \<open>
  \<open>Group\<close> of \<open>pkg/workergroup/group.go\<close>: the error policies and the interleaved life of the
  goroutines that \<open>Go\<close> and \<open>TryGo\<close> start.  The methods on the shared state are functions;
  a step relation interleaves the atomic actions of the tasks (acquire, \<open>wg.Add\<close>,
  return of the task function, \<open>Fail\<close>, \<open>release\<close>, \<open>wg.Done\<close>) with changes of the
  limit and with \<open>Fail\<close> called from a running task.
\<close>

section \<open>State and methods\<close>

datatype ErrorMode = FirstError | CollectErrors

text \<open>
  \<open>cause\<close> is the cancellation of the derived context: \<^term>\<open>None\<close> while it is live,
  otherwise the argument of the first call of \<open>cancel\<close>; \<open>errOnce\<close> tells whether the
  \<open>sync.Once\<close> has run.
\<close>

record 'e group =
  lim :: limiter
  hasCancel :: bool
  mode :: ErrorMode
  onPanic :: bool
  errOnce :: bool
  err :: "'e option"
  errs :: "'e list"
  cause :: "'e option option"
  wg :: int

datatype opt = WithLimit int | WithErrorMode ErrorMode | WithPanicRecovery

fun apply_opt :: "opt \<Rightarrow> 'e group \<Rightarrow> 'e group" where
  "apply_opt (WithLimit n) g = g \<lparr> lim := setLimit n (lim g) \<rparr>"
| "apply_opt (WithErrorMode m) g = g \<lparr> mode := m \<rparr>"
| "apply_opt WithPanicRecovery g = g \<lparr> onPanic := True \<rparr>"

definition zero_group :: "'e group" where
  "zero_group = \<lparr> lim = newLimiter (- 1), hasCancel = False, mode = FirstError, onPanic = False,
     errOnce = False, err = None, errs = [], cause = None, wg = 0 \<rparr>"

definition New :: "opt list \<Rightarrow> 'e group" where
  "New opts = foldl (\<lambda>g x. apply_opt x g) zero_group opts"

definition NewWithContext :: "opt list \<Rightarrow> 'e group" where
  "NewWithContext opts = foldl (\<lambda>g x. apply_opt x g) (zero_group \<lparr> hasCancel := True \<rparr>) opts"

text \<open>The cancel function of a context keeps the cause of its first call.\<close>

definition cancel :: "'e option \<Rightarrow> 'e group \<Rightarrow> 'e group" where
  "cancel c g = (if cause g = None then g \<lparr> cause := Some c \<rparr> else g)"

definition Fail :: "'e option \<Rightarrow> 'e group \<Rightarrow> 'e group" where
  "Fail e g = (case e of
      None \<Rightarrow> g
    | Some x \<Rightarrow> (case mode g of
        CollectErrors \<Rightarrow>
          (let g1 = g \<lparr> errs := errs g @ [x] \<rparr>
           in if errOnce g1 then g1 else g1 \<lparr> errOnce := True, err := Some x \<rparr>)
      | FirstError \<Rightarrow>
          if errOnce g then g
          else (let g1 = g \<lparr> errOnce := True, err := Some x \<rparr>
                in if hasCancel g1 then cancel (Some x) g1 else g1)))"

text \<open>\<open>join\<close> is \<open>errors.Join\<close> on a non-empty list.\<close>

definition combinedErr :: "('e list \<Rightarrow> 'e) \<Rightarrow> 'e group \<Rightarrow> 'e option" where
  "combinedErr join g =
    (if mode g = CollectErrors then (if length (errs g) = 0 then None else Some (join (errs g)))
     else err g)"

text \<open>What \<open>Wait\<close> does and returns once the counter is zero.\<close>

definition Wait :: "('e list \<Rightarrow> 'e) \<Rightarrow> 'e group \<Rightarrow> 'e option \<times> 'e group" where
  "Wait join g =
    (let e = combinedErr join g in (e, if hasCancel g then cancel e g else g))"

definition Err :: "('e list \<Rightarrow> 'e) \<Rightarrow> 'e group \<Rightarrow> 'e option" where
  "Err join g = combinedErr join g"

definition Errors :: "'e group \<Rightarrow> 'e list" where
  "Errors g = (if mode g = CollectErrors then errs g
     else (case err g of None \<Rightarrow> [] | Some e \<Rightarrow> [e]))"

definition SetLimit :: "int \<Rightarrow> 'e group \<Rightarrow> 'e group" where
  "SetLimit n g = g \<lparr> lim := setLimit n (lim g) \<rparr>"

definition Scale :: "int \<Rightarrow> 'e group \<Rightarrow> int \<times> 'e group" where
  "Scale d g = (let (n, l) = adjust d (lim g) in (n, g \<lparr> lim := l \<rparr>))"

definition Limit :: "'e group \<Rightarrow> int" where
  "Limit g = cap (lim g)"

definition Running :: "'e group \<Rightarrow> int" where
  "Running g = used (lim g)"

text \<open>The result of the task function: a value, or a panic; \<open>wrap\<close> is the error made of it.\<close>

datatype ('e, 'p) outcome = Returns "'e option" | Panics 'p

definition runTask :: "('p \<Rightarrow> 'e) \<Rightarrow> 'e group \<Rightarrow> ('e, 'p) outcome \<Rightarrow> ('e, 'p) outcome" where
  "runTask wrap g r = (case r of
      Returns e \<Rightarrow> Returns e
    | Panics p \<Rightarrow> if onPanic g then Returns (Some (wrap p)) else Panics p)"

section \<open>Interleaved execution\<close>

datatype 'e pc =
    Acquired
  | Started
  | Returned "'e option"
  | Reported
  | Released
  | Finished

datatype 'e label =
    LGo
  | LAdd nat
  | LReturn nat "'e option"
  | LReport nat "'e option"
  | LFail 'e
  | LRelease nat
  | LDone nat
  | LSetLimit int
  | LScale int

type_synonym 'e sys = "'e group \<times> 'e pc list"

text \<open>\<open>LFail\<close> is a call of \<open>Fail\<close> from inside a task that has started and not returned.\<close>

inductive step :: "'e sys \<Rightarrow> 'e label \<Rightarrow> 'e sys \<Rightarrow> bool" where
  step_Go: "acquire (lim g) = Some l \<Longrightarrow> step (g, ts) LGo (g \<lparr> lim := l \<rparr>, ts @ [Acquired])"
| step_Add: "i < length ts \<Longrightarrow> ts ! i = Acquired \<Longrightarrow>
    step (g, ts) (LAdd i) (g \<lparr> wg := wg g + 1 \<rparr>, ts[i := Started])"
| step_Return: "i < length ts \<Longrightarrow> ts ! i = Started \<Longrightarrow>
    step (g, ts) (LReturn i r) (g, ts[i := Returned r])"
| step_Report: "i < length ts \<Longrightarrow> ts ! i = Returned r \<Longrightarrow>
    step (g, ts) (LReport i r) (Fail r g, ts[i := Reported])"
| step_Fail: "Started \<in> set ts \<Longrightarrow> step (g, ts) (LFail e) (Fail (Some e) g, ts)"
| step_Release: "i < length ts \<Longrightarrow> ts ! i = Reported \<Longrightarrow>
    step (g, ts) (LRelease i) (g \<lparr> lim := release (lim g) \<rparr>, ts[i := Released])"
| step_Done: "i < length ts \<Longrightarrow> ts ! i = Released \<Longrightarrow>
    step (g, ts) (LDone i) (g \<lparr> wg := wg g - 1 \<rparr>, ts[i := Finished])"
| step_SetLimit: "step (g, ts) (LSetLimit n) (SetLimit n g, ts)"
| step_Scale: "step (g, ts) (LScale d) (snd (Scale d g), ts)"

inductive run :: "'e sys \<Rightarrow> 'e label list \<Rightarrow> 'e sys \<Rightarrow> bool" where
  run_Nil: "run s [] s"
| run_snoc: "run s tr t \<Longrightarrow> step t a u \<Longrightarrow> run s (tr @ [a]) u"

inductive_cases stepE: "step (g, ts) a s"

section \<open>Permits and the wait counter\<close>

definition holds_permit :: "'e pc \<Rightarrow> bool" where
  "holds_permit p \<longleftrightarrow> (case p of Released \<Rightarrow> False | Finished \<Rightarrow> False | _ \<Rightarrow> True)"

definition counted :: "'e pc \<Rightarrow> bool" where
  "counted p \<longleftrightarrow> (case p of Acquired \<Rightarrow> False | Finished \<Rightarrow> False | _ \<Rightarrow> True)"

lemma Fail_keeps [simp]:
  "lim (Fail e g) = lim g" "wg (Fail e g) = wg g" "mode (Fail e g) = mode g"
  "hasCancel (Fail e g) = hasCancel g"
  by (auto simp: Fail_def Let_def cancel_def split: option.splits ErrorMode.splits)

lemma SetLimit_keeps [simp]:
  "inUse (lim (SetLimit n g)) = inUse (lim g)" "wg (SetLimit n g) = wg g" "mode (SetLimit n g) = mode g"
  "hasCancel (SetLimit n g) = hasCancel g" "errs (SetLimit n g) = errs g" "err (SetLimit n g) = err g"
  "errOnce (SetLimit n g) = errOnce g" "cause (SetLimit n g) = cause g"
  by (simp_all add: SetLimit_def setLimit_def)

lemma Scale_keeps [simp]:
  "inUse (lim (snd (Scale d g))) = inUse (lim g)" "wg (snd (Scale d g)) = wg g"
  "mode (snd (Scale d g)) = mode g" "hasCancel (snd (Scale d g)) = hasCancel g"
  "errs (snd (Scale d g)) = errs g" "err (snd (Scale d g)) = err g"
  "errOnce (snd (Scale d g)) = errOnce g" "cause (snd (Scale d g)) = cause g"
  by (simp_all add: Scale_def adjust_def Let_def)

definition counters_ok :: "'e sys \<Rightarrow> bool" where
  "counters_ok s \<longleftrightarrow> inUse (lim (fst s)) = num holds_permit (snd s) \<and> wg (fst s) = num counted (snd s)"

lemmas pc_class [simp] = holds_permit_def counted_def

lemma step_counters: "step s a t \<Longrightarrow> counters_ok s \<Longrightarrow> counters_ok t"
  by (induction rule: step.induct)
     (auto simp: counters_ok_def num_update release_def acquire_def split: if_splits)

lemma run_counters: "run s tr t \<Longrightarrow> counters_ok s \<Longrightarrow> counters_ok t"
  by (induction rule: run.induct) (auto dest: step_counters)

lemma counters_reachable:
  assumes "run (New opts, []) tr (g, ts)"
  shows "Running g = num holds_permit ts \<and> wg g = num counted ts \<and>
    (wg g = 0 \<longrightarrow> (\<forall>p \<in> set ts. p = Acquired \<or> p = Finished))"
proof -
  have fold: "inUse (lim (foldl (\<lambda>g x. apply_opt x g) g opts)) = inUse (lim g) \<and>
      wg (foldl (\<lambda>g x. apply_opt x g) g opts) = wg g" for g :: "'a group"
  proof (induction opts arbitrary: g)
    case (Cons x opts)
    then show ?case by (cases x) (simp_all add: setLimit_def)
  qed simp
  have "counters_ok (New opts :: 'a group, [])"
    using fold [of zero_group] by (simp add: counters_ok_def New_def zero_group_def newLimiter_def)
  from run_counters [OF assms this]
  have c: "inUse (lim g) = num holds_permit ts" "wg g = num counted ts"
    by (simp_all add: counters_ok_def)
  moreover have "p = Acquired \<or> p = Finished" if "num counted ts = 0" "p \<in> set ts" for p
    using that unfolding num_zero by (cases p) auto
  ultimately show ?thesis by (simp add: Running_def used_def)
qed

text \<open>C23: in every reachable state of a new group the limiter's permits are exactly the tasks that
  have acquired and not released, and the wait counter is exactly the tasks that
  were added and are not done; so \<open>Wait\<close> can only return when no added task is left.\<close>

theorem group_counters:
  assumes "run (New opts, []) tr (g, ts)"
  shows "Running g = num holds_permit ts \<and> wg g = num counted ts \<and>
    (wg g = 0 \<longrightarrow> (\<forall>p \<in> set ts. p = Acquired \<or> p = Finished))"
  using assms by (rule counters_reachable)

definition keeps_limit :: "'e label \<Rightarrow> bool" where
  "keeps_limit a \<longleftrightarrow> (case a of LSetLimit _ \<Rightarrow> False | LScale _ \<Rightarrow> False | _ \<Rightarrow> True)"

lemma step_bound:
  assumes "step s a t" and "keeps_limit a" and "limit (lim (fst s)) = L" and "inUse (lim (fst s)) \<le> L"
    and "0 \<le> L"
  shows "limit (lim (fst t)) = L \<and> inUse (lim (fst t)) \<le> L"
  using assms
  by (induction rule: step.induct) (auto simp: acquire_def blocked_def release_def keeps_limit_def split: if_splits)

lemma run_bound:
  assumes "run s tr t" and "list_all keeps_limit tr" and "limit (lim (fst s)) = L" and "inUse (lim (fst s)) \<le> L"
    and "0 \<le> L"
  shows "limit (lim (fst t)) = L \<and> inUse (lim (fst t)) \<le> L"
  using assms
proof (induction rule: run.induct)
  case (run_snoc s tr t a u)
  then show ?case using step_bound [OF run_snoc.hyps(2)] by auto
qed auto

text \<open>C26: while the limit is not changed, no more tasks hold a permit than a non-negative limit
  allows, under every interleaving.\<close>

theorem group_concurrency_bound:
  assumes "run (New [WithLimit n, WithErrorMode m], []) tr (g, ts)" and "0 \<le> n" and "list_all keeps_limit tr"
  shows "num holds_permit ts \<le> n"
proof -
  let ?g = "New [WithLimit n, WithErrorMode m]"
  have "limit (lim ?g) = n" "inUse (lim ?g) \<le> n"
    using assms(2) by (simp_all add: New_def zero_group_def newLimiter_def setLimit_def)
  then have "inUse (lim g) \<le> n"
    using run_bound [OF assms(1,3), of n] assms(2) by auto
  with counters_reachable [OF assms(1)] show ?thesis by (simp add: Running_def used_def)
qed

section \<open>Errors\<close>

text \<open>The errors that a trace reports, in order.\<close>

fun reported :: "'e label list \<Rightarrow> 'e list" where
  "reported [] = []"
| "reported (LReport i (Some e) # tr) = e # reported tr"
| "reported (LFail e # tr) = e # reported tr"
| "reported (_ # tr) = reported tr"

lemma reported_append [simp]: "reported (xs @ ys) = reported xs @ reported ys"
  by (induction xs rule: reported.induct) auto

definition errors_ok :: "'e list \<Rightarrow> 'e group \<Rightarrow> bool" where
  "errors_ok es g \<longleftrightarrow>
     (errOnce g \<longleftrightarrow> es \<noteq> []) \<and> err g = (if es = [] then None else Some (hd es)) \<and>
     errs g = (if mode g = CollectErrors then es else []) \<and>
     cause g = (if mode g = FirstError \<and> hasCancel g \<and> es \<noteq> [] then Some (Some (hd es)) else None)"

lemma Fail_errors: "errors_ok es g \<Longrightarrow> errors_ok (es @ [e]) (Fail (Some e) g)"
  by (cases "mode g") (auto simp: errors_ok_def Fail_def Let_def cancel_def)

lemma errors_ok_cong:
  "errors_ok es g \<Longrightarrow> mode g' = mode g \<Longrightarrow> hasCancel g' = hasCancel g \<Longrightarrow> errs g' = errs g \<Longrightarrow>
   err g' = err g \<Longrightarrow> errOnce g' = errOnce g \<Longrightarrow> cause g' = cause g \<Longrightarrow> errors_ok es g'"
  by (simp add: errors_ok_def)

lemma step_errors: "step s a t \<Longrightarrow> errors_ok es (fst s) \<Longrightarrow> errors_ok (es @ reported [a]) (fst t)"
proof (induction rule: step.induct)
  case (step_Report i ts r g)
  then show ?case by (cases r) (simp_all add: Fail_errors, simp add: Fail_def)
qed (auto intro: Fail_errors errors_ok_cong)

lemma run_errors: "run s tr t \<Longrightarrow> errors_ok [] (fst s) \<Longrightarrow> errors_ok (reported tr) (fst t)"
proof (induction rule: run.induct)
  case (run_snoc s tr t a u)
  then show ?case using step_errors [OF run_snoc.hyps(2), of "reported tr"] by simp
qed simp

lemma opts_errors:
  "errors_ok [] (foldl (\<lambda>g x. apply_opt x g) g opts) \<longleftrightarrow> errors_ok [] g"
proof (induction opts arbitrary: g)
  case (Cons x opts)
  have "errors_ok [] (apply_opt x g) = errors_ok [] g" by (cases x) (auto simp: errors_ok_def)
  with Cons show ?case by simp
qed simp

lemma errors_reachable:
  assumes "run (NewWithContext opts, []) tr (g, ts)"
  shows "Errors g = (if mode g = CollectErrors then reported tr else take 1 (reported tr)) \<and>
    Err join g = (if reported tr = [] then None
      else if mode g = CollectErrors then Some (join (reported tr)) else Some (hd (reported tr))) \<and>
    (hasCancel g \<longrightarrow> mode g = FirstError \<longrightarrow>
       cause g = (case reported tr of [] \<Rightarrow> None | e # _ \<Rightarrow> Some (Some e))) \<and>
    (mode g = CollectErrors \<longrightarrow> cause g = None)"
proof -
  have "errors_ok [] (NewWithContext opts :: 'a group)"
    unfolding NewWithContext_def opts_errors by (simp add: errors_ok_def zero_group_def)
  from run_errors [OF assms] this have e: "errors_ok (reported tr) g" by simp
  show ?thesis
  proof (cases "mode g")
    case CollectErrors
    with e show ?thesis by (auto simp: errors_ok_def Errors_def Err_def combinedErr_def)
  next
    case FirstError
    with e show ?thesis
      by (cases "reported tr") (auto simp: errors_ok_def Errors_def Err_def combinedErr_def)
  qed
qed

text \<open>C25: whatever the interleaving, in \<open>CollectErrors\<close> mode \<open>Errors\<close> is the list of all
  reported errors in the order of the reports; in \<open>FirstError\<close> mode the group keeps the
  first one only and, with a context, has cancelled it with that error as the cause.\<close>

theorem group_errors:
  assumes "run (NewWithContext opts, []) tr (g, ts)"
  shows "Errors g = (if mode g = CollectErrors then reported tr else take 1 (reported tr)) \<and>
    Err join g = (if reported tr = [] then None
      else if mode g = CollectErrors then Some (join (reported tr)) else Some (hd (reported tr))) \<and>
    (hasCancel g \<longrightarrow> mode g = FirstError \<longrightarrow>
       cause g = (case reported tr of [] \<Rightarrow> None | e # _ \<Rightarrow> Some (Some e))) \<and>
    (mode g = CollectErrors \<longrightarrow> cause g = None)"
  using assms by (rule errors_reachable)

section \<open>Completion\<close>

lemma returns_reported:
  "run s tr t \<Longrightarrow> snd s = [] \<Longrightarrow> LReturn i r \<in> set tr \<Longrightarrow>
    i < length (snd t) \<and> (snd t ! i = Returned r \<or> LReport i r \<in> set tr)"
proof (induction rule: run.induct)
  case (run_snoc s tr t a u)
  from run_snoc.hyps(2) show ?case
  proof cases
    case (step_Return k ts r' g)
    then show ?thesis using run_snoc by (cases "k = i") (auto simp: nth_list_update)
  qed (use run_snoc in \<open>auto simp: nth_append nth_list_update\<close>)
qed simp

lemma reported_mem: "LReport i (Some e) \<in> set tr \<Longrightarrow> e \<in> set (reported tr)"
  by (induction tr rule: reported.induct) auto

text \<open>C24: once every \<open>Go\<close> has added its task and the wait counter is zero, all tasks have
  finished, no permit is held, and the error of every task is among the reported ones, so
  \<open>Wait\<close> misses none of them.\<close>

theorem group_wait_complete:
  assumes "run (NewWithContext opts, []) tr (g, ts)" and "wg g = 0" and "Acquired \<notin> set ts"
  shows "(\<forall>p \<in> set ts. p = Finished) \<and> Running g = 0 \<and>
    (\<forall>i e. LReturn i (Some e) \<in> set tr \<longrightarrow> e \<in> set (reported tr)) \<and>
    (reported tr \<noteq> [] \<longrightarrow> fst (Wait join g) \<noteq> None)"
proof -
  have fold: "inUse (lim (foldl (\<lambda>g x. apply_opt x g) g opts)) = inUse (lim g) \<and>
      wg (foldl (\<lambda>g x. apply_opt x g) g opts) = wg g" for g :: "'a group"
  proof (induction opts arbitrary: g)
    case (Cons x opts)
    then show ?case by (cases x) (simp_all add: setLimit_def)
  qed simp
  have "counters_ok (NewWithContext opts :: 'a group, [])"
    using fold [of "zero_group \<lparr> hasCancel := True \<rparr>"]
    by (simp add: counters_ok_def NewWithContext_def zero_group_def newLimiter_def)
  from run_counters [OF assms(1) this]
  have c: "inUse (lim g) = num holds_permit ts" "num counted ts = 0"
    using assms(2) by (simp_all add: counters_ok_def)
  have fin: "p = Finished" if "p \<in> set ts" for p
    using c(2) that assms(3) unfolding num_zero by (cases p) auto
  then have "num holds_permit ts = 0" unfolding num_zero by fastforce
  moreover have "e \<in> set (reported tr)" if "LReturn i (Some e) \<in> set tr" for i e
  proof -
    have r: "i < length ts" "ts ! i = Returned (Some e) \<or> LReport i (Some e) \<in> set tr"
      using returns_reported [OF assms(1) _ that] by simp_all
    then have "ts ! i = Finished" using fin nth_mem by blast
    with r(2) show ?thesis by (auto dest: reported_mem)
  qed
  moreover have "reported tr \<noteq> [] \<longrightarrow> fst (Wait join g) \<noteq> None"
    using errors_reachable [OF assms(1), of join] by (auto simp: Wait_def Err_def Let_def)
  ultimately show ?thesis using fin c(1) by (simp add: Running_def used_def)
qed

text \<open>The steps a task has left.\<close>

fun rank :: "'e pc \<Rightarrow> nat" where
  "rank Acquired = 5"
| "rank Started = 4"
| "rank (Returned _) = 3"
| "rank Reported = 2"
| "rank Released = 1"
| "rank Finished = 0"

definition work :: "'e pc list \<Rightarrow> nat" where
  "work ts = sum_list (map rank ts)"

lemma work_update:
  assumes "i < length ts" and "rank q < rank (ts ! i)"
  shows "work (ts[i := q]) < work ts"
proof -
  have "sum_list (map rank ts) = sum_list (map rank (take i ts)) + rank (ts ! i) + sum_list (map rank (drop (Suc i) ts))"
    by (subst id_take_nth_drop [OF assms(1)]) simp
  moreover have "sum_list (map rank (ts[i := q]))
      = sum_list (map rank (take i ts)) + rank q + sum_list (map rank (drop (Suc i) ts))"
    by (subst upd_conv_take_nth_drop [OF assms(1)]) simp
  ultimately show ?thesis using assms(2) by (simp add: work_def)
qed

lemma task_progress:
  assumes "i < length ts" and "ts ! i \<noteq> Finished"
  shows "\<exists>a g' q. step (g, ts) a (g', ts[i := q]) \<and> rank q < rank (ts ! i) \<and> a \<noteq> LGo"
proof (cases "ts ! i")
  case Acquired
  from step_Add [OF assms(1) this] show ?thesis using Acquired by fastforce
next
  case Started
  from step_Return [OF assms(1) this, of g None] show ?thesis using Started by fastforce
next
  case (Returned r)
  from step_Report [OF assms(1) this] show ?thesis using Returned by fastforce
next
  case Reported
  from step_Release [OF assms(1) this] show ?thesis using Reported by fastforce
next
  case Released
  from step_Done [OF assms(1) this] show ?thesis using Released by fastforce
qed (use assms in simp)

lemma run_Cons: "step s a t \<Longrightarrow> run t tr u \<Longrightarrow> run s (a # tr) u"
proof (induction tr arbitrary: u rule: rev_induct)
  case Nil
  then have "u = t" by (auto elim: run.cases)
  with run_snoc [OF run_Nil Nil(1)] show ?case by simp
next
  case (snoc b tr)
  from snoc.prems(2) obtain v where "run t tr v" "step v b u" by (auto elim: run.cases)
  with snoc run_snoc [of s "a # tr" v b u] show ?case by simp
qed

lemma drain:
  "\<exists>tr g' ts'. run (g, ts) tr (g', ts') \<and> (\<forall>p \<in> set ts'. p = Finished) \<and> LGo \<notin> set tr"
proof (induction "work ts" arbitrary: g ts rule: less_induct)
  case less
  show ?case
  proof (cases "\<forall>p \<in> set ts. p = Finished")
    case True
    then show ?thesis using run_Nil by fastforce
  next
    case False
    then obtain i where i: "i < length ts" "ts ! i \<noteq> Finished" by (metis in_set_conv_nth)
    from task_progress [OF this, of g] obtain a g' q where
      s: "step (g, ts) a (g', ts[i := q])" "rank q < rank (ts ! i)" "a \<noteq> LGo" by blast
    from less [OF work_update [OF i(1) s(2)], of g'] obtain tr g'' ts'' where
      "run (g', ts[i := q]) tr (g'', ts'')" "\<forall>p \<in> set ts''. p = Finished" "LGo \<notin> set tr" by blast
    with run_Cons [OF s(1)] s(3) show ?thesis by (metis set_ConsD)
  qed
qed

text \<open>C27: no state of a group is stuck: from every state the started tasks can all run to the end
  without a further \<open>Go\<close>, and then the permits and the wait counter are zero.\<close>

theorem group_drains:
  assumes "run (New opts, []) tr (g, ts)"
  shows "\<exists>tr' g' ts'. run (g, ts) tr' (g', ts') \<and> LGo \<notin> set tr' \<and>
    (\<forall>p \<in> set ts'. p = Finished) \<and> wg g' = 0 \<and> Running g' = 0"
proof -
  from drain [of g ts] obtain tr' g' ts' where d: "run (g, ts) tr' (g', ts')"
    "\<forall>p \<in> set ts'. p = Finished" "LGo \<notin> set tr'" by blast
  from run_counters [OF d(1)] counters_reachable [OF assms] have "counters_ok (g', ts')"
    by (simp add: counters_ok_def Running_def used_def)
  with d(2) have "wg g' = 0 \<and> Running g' = 0"
    by (auto simp: counters_ok_def Running_def used_def num_zero)
  with d show ?thesis by blast
qed

section \<open>Instances\<close>

definition demo_trace :: "string label list" where
  "demo_trace = [LGo, LAdd 0, LReturn 0 (Some ''boom''), LReport 0 (Some ''boom''), LRelease 0, LDone 0]"

lemma demo_run:
  assumes "acquire (lim g) \<noteq> None"
  shows "\<exists>g'. run (g, []) demo_trace (g', [Finished]) \<and> wg g' = wg g"
proof -
  from assms obtain l where l: "acquire (lim g) = Some l" by blast
  let ?g1 = "g \<lparr> lim := l \<rparr>"
  let ?g2 = "?g1 \<lparr> wg := wg ?g1 + 1 \<rparr>"
  let ?g3 = "Fail (Some ''boom'') ?g2"
  let ?g4 = "?g3 \<lparr> lim := release (lim ?g3) \<rparr>"
  let ?g5 = "?g4 \<lparr> wg := wg ?g4 - 1 \<rparr>"
  have "run (g, []) ([] @ [LGo]) (?g1, [Acquired])"
    using step_Go [OF l, of "[]"] by (intro run_snoc [OF run_Nil]) simp
  then have "run (g, []) (([] @ [LGo]) @ [LAdd 0]) (?g2, [Started])"
    using step_Add [of 0 "[Acquired]" ?g1] by (elim run_snoc) simp
  then have "run (g, []) ((([] @ [LGo]) @ [LAdd 0]) @ [LReturn 0 (Some ''boom'')]) (?g2, [Returned (Some ''boom'')])"
    using step_Return [of 0 "[Started]" ?g2] by (elim run_snoc) simp
  then have "run (g, []) (((([] @ [LGo]) @ [LAdd 0]) @ [LReturn 0 (Some ''boom'')]) @ [LReport 0 (Some ''boom'')])
      (?g3, [Reported])"
    using step_Report [of 0 "[Returned (Some ''boom'')]" "Some ''boom''" ?g2] by (elim run_snoc) simp
  then have "run (g, []) ((((([] @ [LGo]) @ [LAdd 0]) @ [LReturn 0 (Some ''boom'')]) @ [LReport 0 (Some ''boom'')])
      @ [LRelease 0]) (?g4, [Released])"
    using step_Release [of 0 "[Reported]" ?g3] by (elim run_snoc) simp
  then have "run (g, []) (((((([] @ [LGo]) @ [LAdd 0]) @ [LReturn 0 (Some ''boom'')]) @ [LReport 0 (Some ''boom'')])
      @ [LRelease 0]) @ [LDone 0]) (?g5, [Finished])"
    using step_Done [of 0 "[Released]" ?g4] by (elim run_snoc) simp
  then show ?thesis by (auto simp: demo_trace_def)
qed

lemma demo_group:
  "acquire (lim (New [WithLimit 1, WithErrorMode FirstError] :: string group)) \<noteq> None"
  "acquire (lim (NewWithContext [] :: string group)) \<noteq> None"
  by (simp_all add: New_def NewWithContext_def zero_group_def newLimiter_def setLimit_def acquire_def blocked_def)

theorem group_counters_witness:
  "\<exists>g :: string group. run (New [WithLimit 1, WithErrorMode FirstError], []) demo_trace (g, [Finished]) \<and> Running g = 0"
  using demo_run [OF demo_group(1)] group_counters [of "[WithLimit 1, WithErrorMode FirstError]" demo_trace _ "[Finished]"]
  by (auto simp: num_def)

theorem group_concurrency_bound_witness: "num holds_permit [Finished :: string pc] \<le> 1"
proof -
  from demo_run [OF demo_group(1)] obtain g where
    r: "run (New [WithLimit 1, WithErrorMode FirstError], []) demo_trace (g, [Finished])" by blast
  show ?thesis by (rule group_concurrency_bound [OF r]) (simp_all add: demo_trace_def keeps_limit_def)
qed

theorem group_errors_witness:
  "\<exists>g :: string group. run (NewWithContext [], []) demo_trace (g, [Finished]) \<and> Errors g = [''boom'']"
proof -
  from demo_run [OF demo_group(2)] obtain g where
    r: "run (NewWithContext [], []) demo_trace (g, [Finished])" by blast
  with group_errors [OF r, of hd] show ?thesis by (auto simp: demo_trace_def split: if_splits)
qed

theorem group_wait_complete_witness:
  "\<exists>g :: string group. run (NewWithContext [], []) demo_trace (g, [Finished]) \<and> fst (Wait hd g) \<noteq> None"
proof -
  have "wg (NewWithContext [] :: string group) = 0" by (simp add: NewWithContext_def zero_group_def)
  with demo_run [OF demo_group(2)] obtain g where
    r: "run (NewWithContext [], []) demo_trace (g, [Finished])" "wg g = 0" by auto
  with group_wait_complete [OF r, of hd] show ?thesis by (auto simp: demo_trace_def)
qed

theorem group_drains_witness:
  "\<exists>tr' g' ts'. run (New [WithLimit 1, WithErrorMode FirstError] :: string group, []) tr' (g', ts') \<and> wg g' = 0"
  using group_drains [OF run_Nil, of "[WithLimit 1, WithErrorMode FirstError]"] by blast

end
