(* ===== verification/WorkerPool.thy ===== *)
theory WorkerPool
  imports WorkerGroup
begin

text \<open>
  \<open>WorkerPool\<close> of \<open>pkg/workergroup/pool.go\<close>: options, scaling, and the interleaving of
  submitters, workers and \<open>Close\<close> over the job channel.  A job is a number; the results of jobs
  are chosen by the steps.  Two histories, of the accepted and of the executed jobs, record what
  the steps did and are read by no step.
\<close>

section \<open>Options and construction\<close>

datatype pool_opt =
    WithQueueSize nat
  | WithPoolErrorMode ErrorMode
  | WithPoolPanicRecovery

record pool_config =
  queueSize :: nat
  groupOpts :: "opt list"

fun apply_pool_opt :: "pool_opt \<Rightarrow> pool_config \<Rightarrow> pool_config" where
  "apply_pool_opt (WithQueueSize n) c = c \<lparr> queueSize := n \<rparr>"
| "apply_pool_opt (WithPoolErrorMode m) c = c \<lparr> groupOpts := groupOpts c @ [WithErrorMode m] \<rparr>"
| "apply_pool_opt WithPoolPanicRecovery c = c \<lparr> groupOpts := groupOpts c @ [WithPanicRecovery] \<rparr>"

text \<open>
  A worker is in its select, runs a job, or has left its loop: stopped, on the cancelled
  context, because the queue is closed and drained, or by the panic of a job.  A submitter has
  called \<open>Submit\<close>, has seen the pool open, and then succeeds, gives up, or panics.
\<close>

datatype why = Stopped | CtxDone | Drained | Panicked

datatype worker = Idle | Running nat | Exited why

datatype submitter = Called nat | Checked nat | Accepted | Refused | Crashed

record 'e pool =
  pgroup :: "'e group"
  queue :: "nat list"
  qcap :: nat
  chanClosed :: bool
  workers :: "nat set"
  stopped :: "nat set"
  nextID :: nat
  closed :: bool
  ctxDone :: bool
  procs :: "worker list"
  submitters :: "submitter list"
  accepted :: "nat list"
  executed :: "nat list"

definition spawnWorkerLocked :: "'e pool \<Rightarrow> 'e pool" where
  "spawnWorkerLocked p = p \<lparr> nextID := nextID p + 1, workers := insert (nextID p) (workers p),
     procs := procs p @ [Idle] \<rparr>"

definition NewWorkerPool :: "int \<Rightarrow> pool_opt list \<Rightarrow> 'e pool" where
  "NewWorkerPool initialWorkers opts =
    (let cfg = foldl (\<lambda>c x. apply_pool_opt x c) \<lparr> queueSize = 0, groupOpts = [] \<rparr> opts;
         gopts = (if length (groupOpts cfg) = 0 then [WithErrorMode CollectErrors] else groupOpts cfg);
         p = \<lparr> pgroup = New gopts, queue = [], qcap = queueSize cfg, chanClosed = False, workers = {},
               stopped = {}, nextID = 0, closed = False, ctxDone = False, procs = [], submitters = [],
               accepted = [], executed = [] \<rparr>
     in (spawnWorkerLocked ^^ nat initialWorkers) p)"

section \<open>Scaling\<close>

datatype pool_error = NegativeCount int | ErrPoolClosed

text \<open>The workers to stop come first in the iteration order of the map, which is the argument
  \<open>order\<close>: a list of the keys.\<close>

definition ScaleTo :: "int \<Rightarrow> nat list \<Rightarrow> 'e pool \<Rightarrow> pool_error option \<times> 'e pool" where
  "ScaleTo n order p =
    (if n < 0 then (Some (NegativeCount n), p)
     else if closed p then (Some ErrPoolClosed, p)
     else
       let current = card (workers p) in
       if current < nat n then (None, (spawnWorkerLocked ^^ (nat n - current)) p)
       else if nat n < current
       then (let gone = set (take (current - nat n) order)
             in (None, p \<lparr> workers := workers p - gone, stopped := stopped p \<union> gone \<rparr>))
       else (None, p))"

text \<open>The target is computed under the lock, the scaling happens later: \<open>p'\<close> is the pool then.\<close>

definition ScaleBy :: "int \<Rightarrow> nat list \<Rightarrow> 'e pool \<Rightarrow> 'e pool \<Rightarrow> int \<times> pool_error option \<times> 'e pool" where
  "ScaleBy delta order p p' =
    (let target = wrap64 (int (card (workers p)) + delta);
         target' = (if target < 0 then 0 else target)
     in (target', ScaleTo target' order p'))"

definition Workers :: "'e pool \<Rightarrow> nat" where
  "Workers p = card (workers p)"

section \<open>Interleaved execution\<close>

text \<open>
  \<open>Submit\<close> reads \<open>closed\<close> under the lock and sends afterwards.  A send succeeds into free
  buffer space or straight to a waiting worker, panics on the closed channel, and loses the
  \<open>select\<close> to a cancelled context (or to the default case of \<open>TrySubmit\<close>).  \<open>Close\<close> sets
  the flag and then closes the channel.
\<close>

inductive pstep :: "'e pool \<Rightarrow> 'e pool \<Rightarrow> bool" where
  submit_call: "pstep p (p \<lparr> submitters := submitters p @ [Called j] \<rparr>)"
| submit_closed: "i < length (submitters p) \<Longrightarrow> submitters p ! i = Called j \<Longrightarrow> closed p \<Longrightarrow>
    pstep p (p \<lparr> submitters := (submitters p)[i := Refused] \<rparr>)"
| submit_open: "i < length (submitters p) \<Longrightarrow> submitters p ! i = Called j \<Longrightarrow> \<not> closed p \<Longrightarrow>
    pstep p (p \<lparr> submitters := (submitters p)[i := Checked j] \<rparr>)"
| send_buffer: "i < length (submitters p) \<Longrightarrow> submitters p ! i = Checked j \<Longrightarrow> \<not> chanClosed p \<Longrightarrow>
    length (queue p) < qcap p \<Longrightarrow>
    pstep p (p \<lparr> submitters := (submitters p)[i := Accepted], queue := queue p @ [j],
                 accepted := accepted p @ [j] \<rparr>)"
| send_direct: "i < length (submitters p) \<Longrightarrow> submitters p ! i = Checked j \<Longrightarrow> \<not> chanClosed p \<Longrightarrow>
    queue p = [] \<Longrightarrow> k < length (procs p) \<Longrightarrow> procs p ! k = Idle \<Longrightarrow>
    pstep p (p \<lparr> submitters := (submitters p)[i := Accepted], procs := (procs p)[k := Running j],
                 accepted := accepted p @ [j] \<rparr>)"
| send_closed: "i < length (submitters p) \<Longrightarrow> submitters p ! i = Checked j \<Longrightarrow> chanClosed p \<Longrightarrow>
    pstep p (p \<lparr> submitters := (submitters p)[i := Crashed] \<rparr>)"
| submit_gives_up: "i < length (submitters p) \<Longrightarrow> submitters p ! i = Checked j \<Longrightarrow>
    pstep p (p \<lparr> submitters := (submitters p)[i := Refused] \<rparr>)"
| receive: "k < length (procs p) \<Longrightarrow> procs p ! k = Idle \<Longrightarrow> queue p = j # q \<Longrightarrow>
    pstep p (p \<lparr> procs := (procs p)[k := Running j], queue := q \<rparr>)"
| job_done: "k < length (procs p) \<Longrightarrow> procs p ! k = Running j \<Longrightarrow>
    pstep p (p \<lparr> procs := (procs p)[k := Idle], pgroup := Fail r (pgroup p), executed := executed p @ [j] \<rparr>)"
| job_panics: "k < length (procs p) \<Longrightarrow> procs p ! k = Running j \<Longrightarrow> onPanic (pgroup p) \<Longrightarrow>
    pstep p (p \<lparr> procs := (procs p)[k := Exited Panicked], pgroup := Fail (Some e) (pgroup p),
                 executed := executed p @ [j] \<rparr>)"
| worker_stops: "k < length (procs p) \<Longrightarrow> procs p ! k = Idle \<Longrightarrow> k \<in> stopped p \<Longrightarrow>
    pstep p (p \<lparr> procs := (procs p)[k := Exited Stopped] \<rparr>)"
| worker_ctx: "k < length (procs p) \<Longrightarrow> procs p ! k = Idle \<Longrightarrow> ctxDone p \<Longrightarrow>
    pstep p (p \<lparr> procs := (procs p)[k := Exited CtxDone] \<rparr>)"
| worker_drained: "k < length (procs p) \<Longrightarrow> procs p ! k = Idle \<Longrightarrow> chanClosed p \<Longrightarrow> queue p = [] \<Longrightarrow>
    pstep p (p \<lparr> procs := (procs p)[k := Exited Drained] \<rparr>)"
| scale: "set order = workers p \<Longrightarrow> distinct order \<Longrightarrow> pstep p (snd (ScaleTo n order p))"
| close_flag: "pstep p (p \<lparr> closed := True \<rparr>)"
| close_chan: "closed p \<Longrightarrow> pstep p (p \<lparr> chanClosed := True \<rparr>)"
| ctx_cancel: "pstep p (p \<lparr> ctxDone := True \<rparr>)"

inductive reach :: "'e pool \<Rightarrow> 'e pool \<Rightarrow> bool" where
  reach_refl: "reach p p"
| reach_step: "reach p q \<Longrightarrow> pstep q r \<Longrightarrow> reach p r"

section \<open>Scaling is exact\<close>

definition ids_ok :: "'e pool \<Rightarrow> bool" where
  "ids_ok p \<longleftrightarrow> nextID p = length (procs p) \<and> workers p \<subseteq> {..< length (procs p)} \<and>
     workers p \<inter> stopped p = {} \<and> stopped p \<subseteq> {..< length (procs p)}"

lemma spawn_one:
  assumes "ids_ok q"
  shows "ids_ok (spawnWorkerLocked q) \<and> card (workers (spawnWorkerLocked q)) = Suc (card (workers q))"
proof -
  have new: "nextID q \<notin> workers q" "nextID q \<notin> stopped q" "finite (workers q)"
    using assms by (auto simp: ids_ok_def intro: finite_subset)
  have "ids_ok (spawnWorkerLocked q)"
    using assms new by (auto simp: spawnWorkerLocked_def ids_ok_def)
  with new show ?thesis by (simp add: spawnWorkerLocked_def)
qed

lemma spawn_ids:
  assumes "ids_ok p"
  shows "ids_ok ((spawnWorkerLocked ^^ k) p) \<and> card (workers ((spawnWorkerLocked ^^ k) p)) = card (workers p) + k"
  by (induction k) (use assms spawn_one in auto)

lemma spawn_keeps [simp]:
  "queue ((spawnWorkerLocked ^^ k) p) = queue p" "accepted ((spawnWorkerLocked ^^ k) p) = accepted p"
  "executed ((spawnWorkerLocked ^^ k) p) = executed p" "chanClosed ((spawnWorkerLocked ^^ k) p) = chanClosed p"
  "closed ((spawnWorkerLocked ^^ k) p) = closed p" "stopped ((spawnWorkerLocked ^^ k) p) = stopped p"
  "submitters ((spawnWorkerLocked ^^ k) p) = submitters p" "ctxDone ((spawnWorkerLocked ^^ k) p) = ctxDone p"
  "procs ((spawnWorkerLocked ^^ k) p) = procs p @ replicate k Idle"
  by (induction k) (simp_all add: spawnWorkerLocked_def replicate_append_same)

lemma card_take_order:
  "distinct order \<Longrightarrow> k \<le> length order \<Longrightarrow> card (set order - set (take k order)) = length order - k"
  by (simp add: card_Diff_subset set_take_subset distinct_card)

lemma ScaleTo_ids:
  assumes "ids_ok p" "set order = workers p" "distinct order"
  shows "ids_ok (snd (ScaleTo n order p))"
proof -
  let ?gone = "set (take (card (workers p) - nat n) order)"
  have "?gone \<subseteq> workers p" using set_take_subset [of _ order] assms(2) by blast
  then have "ids_ok (p \<lparr> workers := workers p - ?gone, stopped := stopped p \<union> ?gone \<rparr>)"
    using assms(1) unfolding ids_ok_def by auto
  then show ?thesis using assms(1) spawn_ids [OF assms(1)] by (simp add: ScaleTo_def Let_def)
qed

text \<open>C29: on an open pool \<open>ScaleTo n\<close> with \<open>n \<ge> 0\<close> leaves exactly \<open>n\<close> registered workers, whatever the
  order in which the map is walked; it refuses a negative count and a closed pool and
  then changes nothing; \<open>ScaleBy\<close> never targets a negative count.\<close>

theorem ScaleTo_exact:
  assumes "ids_ok p" and "set order = workers p" and "distinct order"
  shows "(0 \<le> n \<and> \<not> closed p \<longrightarrow>
      fst (ScaleTo n order p) = None \<and> int (Workers (snd (ScaleTo n order p))) = n) \<and>
    (n < 0 \<or> closed p \<longrightarrow> fst (ScaleTo n order p) \<noteq> None \<and> snd (ScaleTo n order p) = p) \<and>
    0 \<le> fst (ScaleBy n order p p)"
proof -
  have len: "length order = card (workers p)" using assms(2,3) distinct_card by fastforce
  have "card (workers p - set (take (card (workers p) - nat n) order)) = nat n" if "nat n < card (workers p)"
    using card_take_order [OF assms(3), of "card (workers p) - nat n"] that by (simp add: len assms(2))
  then show ?thesis
    using spawn_ids [OF assms(1)] by (auto simp: ScaleTo_def Workers_def ScaleBy_def Let_def)
qed

section \<open>No accepted job is lost\<close>

definition running_jobs :: "worker list \<Rightarrow> nat multiset" where
  "running_jobs ws = (\<Sum>w \<in># mset ws. case w of Running j \<Rightarrow> {#j#} | _ \<Rightarrow> {#})"

lemma running_jobs_simps [simp]:
  "running_jobs [] = {#}"
  "running_jobs (w # ws) = (case w of Running j \<Rightarrow> {#j#} | _ \<Rightarrow> {#}) + running_jobs ws"
  "running_jobs (ws @ us) = running_jobs ws + running_jobs us"
  by (simp_all add: running_jobs_def)

lemma running_jobs_replicate [simp]: "running_jobs (replicate k Idle) = {#}"
  by (induction k) auto

lemma running_jobs_update:
  "k < length ws \<Longrightarrow>
    running_jobs (ws[k := w]) + (case ws ! k of Running j \<Rightarrow> {#j#} | _ \<Rightarrow> {#})
      = running_jobs ws + (case w of Running j \<Rightarrow> {#j#} | _ \<Rightarrow> {#})"
  by (induction ws arbitrary: k) (auto split: nat.split)

lemma running_jobs_start:
  "k < length ws \<Longrightarrow> ws ! k = Idle \<Longrightarrow> running_jobs (ws[k := Running j]) = add_mset j (running_jobs ws)"
  using running_jobs_update [of k ws "Running j"] by simp

lemma running_jobs_stop:
  "k < length ws \<Longrightarrow> ws ! k = Running j \<Longrightarrow> w = Idle \<or> w = Exited y \<Longrightarrow>
    running_jobs ws = add_mset j (running_jobs (ws[k := w]))"
  using running_jobs_update [of k ws w] by auto

lemma running_jobs_exit:
  "k < length ws \<Longrightarrow> ws ! k = Idle \<Longrightarrow> running_jobs (ws[k := Exited y]) = running_jobs ws"
  using running_jobs_update [of k ws "Exited y"] by simp

definition jobs_ok :: "'e pool \<Rightarrow> bool" where
  "jobs_ok p \<longleftrightarrow> mset (accepted p) = mset (queue p) + running_jobs (procs p) + mset (executed p)"

definition drained_ok :: "'e pool \<Rightarrow> bool" where
  "drained_ok p \<longleftrightarrow> (chanClosed p \<longrightarrow> closed p) \<and>
     (Exited Drained \<in> set (procs p) \<longrightarrow> chanClosed p \<and> queue p = []) \<and>
     (\<forall>k < length (procs p). procs p ! k = Exited Stopped \<longrightarrow> k \<in> stopped p) \<and>
     (Exited CtxDone \<in> set (procs p) \<longrightarrow> ctxDone p) \<and>
     (Crashed \<in> set (submitters p) \<longrightarrow> chanClosed p)"

lemma ScaleTo_keeps [simp]:
  "queue (snd (ScaleTo n order p)) = queue p" "accepted (snd (ScaleTo n order p)) = accepted p"
  "executed (snd (ScaleTo n order p)) = executed p" "chanClosed (snd (ScaleTo n order p)) = chanClosed p"
  "closed (snd (ScaleTo n order p)) = closed p" "submitters (snd (ScaleTo n order p)) = submitters p"
  "ctxDone (snd (ScaleTo n order p)) = ctxDone p"
  by (simp_all add: ScaleTo_def Let_def)

lemma ScaleTo_procs: "\<exists>k. procs (snd (ScaleTo n order p)) = procs p @ replicate k Idle"
  by (auto simp: ScaleTo_def Let_def intro: exI [of _ 0])

lemma ScaleTo_stopped: "stopped p \<subseteq> stopped (snd (ScaleTo n order p))"
  by (auto simp: ScaleTo_def Let_def)

lemma pstep_ids: "pstep p q \<Longrightarrow> ids_ok p \<Longrightarrow> ids_ok q"
proof (induction rule: pstep.induct)
  case (scale order p n)
  then show ?case by (intro ScaleTo_ids)
qed (simp_all add: ids_ok_def)

lemma pstep_jobs: "pstep p q \<Longrightarrow> jobs_ok p \<Longrightarrow> jobs_ok q"
proof (induction rule: pstep.induct)
  case (job_done k p j r)
  then show ?case using running_jobs_stop [of k "procs p" j Idle] by (simp add: jobs_ok_def)
next
  case (job_panics k p j e)
  then show ?case using running_jobs_stop [of k "procs p" j "Exited Panicked"] by (simp add: jobs_ok_def)
next
  case (scale order p n)
  obtain k where "procs (snd (ScaleTo n order p)) = procs p @ replicate k Idle"
    using ScaleTo_procs by blast
  with scale show ?case by (simp add: jobs_ok_def)
qed (simp_all add: jobs_ok_def running_jobs_start running_jobs_exit)


lemma drained_ok_procs:
  assumes "drained_ok p" "k < length (procs p)" "procs p ! k = Idle \<or> procs p ! k = Running j"
    and "w = Exited Drained \<Longrightarrow> chanClosed p \<and> queue p = []"
    and "w = Exited Stopped \<Longrightarrow> k \<in> stopped p" "w = Exited CtxDone \<Longrightarrow> ctxDone p"
  shows "drained_ok (p \<lparr> procs := (procs p)[k := w] \<rparr>)"
  using assms set_update_subset_insert [of "procs p" k w]
  by (auto simp: drained_ok_def nth_list_update)

lemma drained_ok_fields:
  "drained_ok p \<Longrightarrow> chanClosed q = chanClosed p \<Longrightarrow> closed q = closed p \<Longrightarrow> procs q = procs p \<Longrightarrow>
   stopped q = stopped p \<Longrightarrow> ctxDone q = ctxDone p \<Longrightarrow>
   (chanClosed p \<Longrightarrow> queue p = [] \<Longrightarrow> queue q = []) \<Longrightarrow>
   (Crashed \<in> set (submitters q) \<Longrightarrow> Crashed \<in> set (submitters p) \<or> chanClosed p) \<Longrightarrow> drained_ok q"
  by (auto simp: drained_ok_def)

lemma crashed_update:
  "Crashed \<in> set (xs[i := x]) \<Longrightarrow> x \<noteq> Crashed \<Longrightarrow> Crashed \<in> set xs"
  using set_update_subset_insert [of xs i x] by auto

lemma pstep_drained: "pstep p q \<Longrightarrow> drained_ok p \<Longrightarrow> drained_ok q"
proof (induction rule: pstep.induct)
  case (send_direct i p j k)
  have "drained_ok (p \<lparr> procs := (procs p)[k := Running j] \<rparr>)"
    using send_direct by (intro drained_ok_procs) auto
  then show ?case by (rule drained_ok_fields) (auto dest: crashed_update)
next
  case (receive k p j q)
  have "drained_ok (p \<lparr> procs := (procs p)[k := Running j] \<rparr>)"
    using receive by (intro drained_ok_procs) auto
  then show ?case by (rule drained_ok_fields) (use receive in auto)
next
  case (job_done k p j r)
  have "drained_ok (p \<lparr> procs := (procs p)[k := Idle] \<rparr>)"
    using job_done by (intro drained_ok_procs) auto
  then show ?case by (rule drained_ok_fields) auto
next
  case (job_panics k p j e)
  have "drained_ok (p \<lparr> procs := (procs p)[k := Exited Panicked] \<rparr>)"
    using job_panics by (intro drained_ok_procs) auto
  then show ?case by (rule drained_ok_fields) auto
next
  case (worker_stops k p)
  then show ?case by (intro drained_ok_procs) auto
next
  case (worker_ctx k p)
  then show ?case by (intro drained_ok_procs) auto
next
  case (worker_drained k p)
  then show ?case by (intro drained_ok_procs) auto
next
  case (scale order p n)
  obtain k where k: "procs (snd (ScaleTo n order p)) = procs p @ replicate k Idle"
    using ScaleTo_procs by blast
  have "stopped p \<subseteq> stopped (snd (ScaleTo n order p))" by (rule ScaleTo_stopped)
  with scale(3) show ?case unfolding drained_ok_def k by (auto simp: nth_append)
next
  case (close_flag p)
  then show ?case by (simp add: drained_ok_def)
next
  case (close_chan p)
  then show ?case by (simp add: drained_ok_def)
next
  case (ctx_cancel p)
  then show ?case by (simp add: drained_ok_def)
next
  case (send_closed i p j)
  then show ?case by (intro drained_ok_fields [OF send_closed(4)]) auto
next
  case (send_buffer i p j)
  then show ?case by (intro drained_ok_fields [OF send_buffer(5)]) (auto dest: crashed_update)
qed (elim drained_ok_fields; auto dest: crashed_update)+

definition pool_ok :: "'e pool \<Rightarrow> bool" where
  "pool_ok p \<longleftrightarrow> ids_ok p \<and> jobs_ok p \<and> drained_ok p"

lemma reach_ok: "reach p q \<Longrightarrow> pool_ok p \<Longrightarrow> pool_ok q"
  by (induction rule: reach.induct) (auto simp: pool_ok_def dest: pstep_ids pstep_jobs pstep_drained)

lemma NewWorkerPool_spawns:
  obtains b where "NewWorkerPool n opts = (spawnWorkerLocked ^^ nat n) b" "ids_ok b" "accepted b = []"
    "queue b = []" "executed b = []" "procs b = []" "submitters b = []" "\<not> chanClosed b" "\<not> closed b"
proof (rule that)
  show "NewWorkerPool n opts = (spawnWorkerLocked ^^ nat n) (NewWorkerPool 0 opts)"
    by (simp add: NewWorkerPool_def Let_def)
qed (simp_all add: NewWorkerPool_def Let_def ids_ok_def)

lemma NewWorkerPool_ok: "pool_ok (NewWorkerPool n opts)"
proof -
  obtain b :: "'a pool" where b: "NewWorkerPool n opts = (spawnWorkerLocked ^^ nat n) b" "ids_ok b"
    "accepted b = []" "queue b = []" "executed b = []" "procs b = []" "submitters b = []" "\<not> chanClosed b"
    by (rule NewWorkerPool_spawns)
  show ?thesis
    unfolding pool_ok_def b(1) using spawn_ids [OF b(2)] by (simp add: jobs_ok_def drained_ok_def b(3-))
qed

lemma running_none: "\<forall>w \<in> set ws. \<exists>y. w = Exited y \<Longrightarrow> running_jobs ws = {#}"
  by (induction ws) auto

text \<open>C28: at every moment the accepted jobs are the queued, the running and the executed ones, each
  as often as it was accepted; and when all workers have exited and one of them was neither
  stopped by scaling, nor ended by the context or a panic, every accepted job was executed
  exactly as often as it was accepted.\<close>

theorem pool_jobs_conserved:
  assumes "reach (NewWorkerPool n opts) p"
  shows "mset (accepted p) = mset (queue p) + running_jobs (procs p) + mset (executed p) \<and>
    ((\<forall>w \<in> set (procs p). \<exists>y. w = Exited y) \<and> \<not> ctxDone p \<and>
     (\<exists>k < length (procs p). k \<notin> stopped p \<and> procs p ! k \<noteq> Exited Panicked)
     \<longrightarrow> mset (accepted p) = mset (executed p))"
proof -
  have ok: "jobs_ok p" "drained_ok p"
    using reach_ok [OF assms NewWorkerPool_ok] by (simp_all add: pool_ok_def)
  have "queue p = [] \<and> running_jobs (procs p) = {#}"
    if ex: "\<forall>w \<in> set (procs p). \<exists>y. w = Exited y" and ctx: "\<not> ctxDone p"
      and k: "k < length (procs p)" "k \<notin> stopped p" "procs p ! k \<noteq> Exited Panicked" for k
  proof -
    have mem: "procs p ! k \<in> set (procs p)" using k(1) by simp
    with ex obtain y where y: "procs p ! k = Exited y" by blast
    have "y = Drained"
      using ok(2) k y ctx mem by (cases y) (auto simp: drained_ok_def)
    with y mem ok(2) running_none [OF ex] show ?thesis by (auto simp: drained_ok_def)
  qed
  with ok(1) show ?thesis unfolding jobs_ok_def by fastforce
qed

section \<open>Behaviours that the documentation excludes\<close>

text \<open>a submitter that has seen the pool open panics when \<open>Close\<close> closes the channel before its
  send; this happens only through \<open>Close\<close>, and is reachable from every new pool.\<close>

theorem Submit_panics_on_Close:
  fixes p :: "'a pool"
  shows "(\<exists>q :: 'a pool. reach (NewWorkerPool n opts) q \<and> Crashed \<in> set (submitters q)) \<and>
   (reach (NewWorkerPool n opts) p \<and> Crashed \<in> set (submitters p) \<longrightarrow> closed p)"
proof -
  define p0 where "p0 = (NewWorkerPool n opts :: 'a pool)"
  have init: "submitters p0 = []" "closed p0 = False"
    by (simp_all add: p0_def NewWorkerPool_def Let_def)
  let ?p1 = "p0 \<lparr> submitters := submitters p0 @ [Called 0] \<rparr>"
  let ?p2 = "?p1 \<lparr> submitters := (submitters ?p1)[0 := Checked 0] \<rparr>"
  let ?p3 = "?p2 \<lparr> closed := True \<rparr>"
  let ?p4 = "?p3 \<lparr> chanClosed := True \<rparr>"
  let ?p5 = "?p4 \<lparr> submitters := (submitters ?p4)[0 := Crashed] \<rparr>"
  have "pstep p0 ?p1" by (rule submit_call)
  moreover have "pstep ?p1 ?p2" by (rule submit_open) (use init in auto)
  moreover have "pstep ?p2 ?p3" by (rule close_flag)
  moreover have "pstep ?p3 ?p4" by (rule close_chan) simp
  moreover have "pstep ?p4 ?p5" by (rule send_closed [of _ _ 0]) (use init in auto)
  ultimately have "reach p0 ?p5" by (meson reach.intros)
  moreover have "Crashed \<in> set (submitters ?p5)" using init by simp
  moreover have "reach p0 p \<Longrightarrow> Crashed \<in> set (submitters p) \<Longrightarrow> closed p"
    using reach_ok [OF _ NewWorkerPool_ok, of n opts p] by (auto simp: p0_def pool_ok_def drained_ok_def)
  ultimately show ?thesis unfolding p0_def by blast
qed

text \<open>the default mode \<open>CollectErrors\<close> of a pool survives only when no group option is given: with
  panic recovery alone the pool keeps the first error only; and no option gives the pool
  a context to cancel, so an error never cancels the pool.\<close>

theorem pool_error_mode:
  "mode (pgroup (NewWorkerPool n [] :: 'a pool)) = CollectErrors \<and>
   mode (pgroup (NewWorkerPool n [WithPoolPanicRecovery] :: 'a pool)) = FirstError \<and>
   \<not> hasCancel (pgroup (NewWorkerPool n opts :: 'a pool)) \<and>
   cause (Fail e (pgroup (NewWorkerPool n opts :: 'a pool))) = None"
proof -
  have g: "pgroup ((spawnWorkerLocked ^^ k) p) = pgroup p" for k and p :: "'a pool"
    by (induction k) (simp_all add: spawnWorkerLocked_def)
  have new: "\<not> hasCancel (New gopts :: 'a group) \<and> cause (New gopts :: 'a group) = None" for gopts
  proof -
    have "\<not> hasCancel (foldl (\<lambda>g x. apply_opt x g) g gopts) \<and> cause (foldl (\<lambda>g x. apply_opt x g) g gopts) = None"
      if "\<not> hasCancel g \<and> cause g = None" for g :: "'a group"
      using that
    proof (induction gopts arbitrary: g)
      case (Cons x gopts)
      have "\<not> hasCancel (apply_opt x g) \<and> cause (apply_opt x g) = None" using Cons.prems by (cases x) auto
      from Cons.IH [OF this] show ?case by simp
    qed simp
    then show ?thesis by (simp add: New_def zero_group_def)
  qed
  have "cause (Fail e g) = None" if "\<not> hasCancel g \<and> cause g = None" for g :: "'a group"
    using that by (auto simp: Fail_def Let_def split: option.splits ErrorMode.splits)
  with new show ?thesis
    by (simp add: NewWorkerPool_def Let_def g) (simp add: New_def zero_group_def)
qed

section \<open>Instances\<close>

definition pool3 :: "string pool" where
  "pool3 = NewWorkerPool 3 []"

lemma pool3_workers: "workers pool3 = {0, 1, 2}"
  by (simp add: pool3_def NewWorkerPool_def Let_def eval_nat_numeral spawnWorkerLocked_def)
     (auto simp: New_def)

lemma pool3_ok: "ids_ok pool3"
  unfolding pool3_def using NewWorkerPool_ok [of 3 "[]"] unfolding pool_ok_def by blast

theorem ScaleTo_exact_witness: "int (Workers (snd (ScaleTo 1 [2, 0, 1] pool3))) = 1"
proof -
  have "\<not> closed pool3" by (simp add: pool3_def NewWorkerPool_def Let_def)
  with ScaleTo_exact [OF pool3_ok, of "[2, 0, 1]" 1] show ?thesis by (auto simp: pool3_workers)
qed

theorem pool_jobs_conserved_witness:
  "mset (accepted pool3) = mset (queue pool3) + running_jobs (procs pool3) + mset (executed pool3)"
  using pool_jobs_conserved [of 3 "[]" pool3] reach_refl [of pool3] by (simp add: pool3_def)

theorem Submit_panics_on_Close_witness:
  "\<exists>q :: string pool. reach pool3 q \<and> Crashed \<in> set (submitters q) \<and> closed q"
  using Submit_panics_on_Close [of 3 "[]"] unfolding pool3_def by blast

end
