(* ===== verification/GoTime.thy ===== *)
theory GoTime
  imports GoPrelude
begin

text \<open>
  What the scheduler uses of Go's \<open>time\<close> package.  An instant (\<open>time.Time\<close>) is the number of
  nanoseconds since the Unix epoch; a \<open>*time.Location\<close> is the list of its offset changes; the
  calendar is the proleptic Gregorian one.  \<open>Date\<close> is \<open>time.Date\<close> with the way it resolves
  local times around an offset change.
\<close>

section \<open>Instants and durations\<close>

type_synonym "time" = int
type_synonym duration = int

abbreviation Second :: duration where "Second \<equiv> 1000000000"
abbreviation Minute :: duration where "Minute \<equiv> 60 * Second"
abbreviation Hour :: duration where "Hour \<equiv> 60 * Minute"
abbreviation Day :: duration where "Day \<equiv> 24 * Hour"

text \<open>The zero \<open>time.Time\<close> is January 1 of year 1, 00:00:00 UTC.\<close>

definition zero_time :: "time" where
  "zero_time = - 62135596800 * Second"

definition IsZero :: "time \<Rightarrow> bool" where
  "IsZero t \<longleftrightarrow> t = zero_time"

text \<open>\<open>Truncate\<close> rounds down to a multiple of \<open>d\<close> since the zero time.\<close>

definition Truncate :: "duration \<Rightarrow> time \<Rightarrow> time" where
  "Truncate d t = t - (t - zero_time) mod d"

lemma Truncate_Second: "Truncate Second t = t - t mod Second"
proof -
  have "t - zero_time = t + 62135596800 * Second" by (simp add: zero_time_def)
  then show ?thesis by (simp only: Truncate_def mod_mult_self1)
qed

lemma Truncate_Minute: "Truncate Minute t = t - t mod Minute"
proof -
  have "t - zero_time = t + 1035593280 * Minute" by (simp add: zero_time_def)
  then show ?thesis by (simp only: Truncate_def mod_mult_self1)
qed

text \<open>\<open>t.Sub(u)\<close> saturates at the limits of a \<open>Duration\<close>.\<close>

definition Sub :: "time \<Rightarrow> time \<Rightarrow> duration" where
  "Sub t u = max (- (2 ^ 63)) (min (2 ^ 63 - 1) (t - u))"

section \<open>The calendar\<close>

definition leap :: "int \<Rightarrow> bool" where
  "leap y \<longleftrightarrow> 4 dvd y \<and> (\<not> 100 dvd y \<or> 400 dvd y)"

text \<open>Days from the epoch to January 1 of a year.\<close>

definition year_start :: "int \<Rightarrow> int" where
  "year_start y = 365 * (y - 1970) + (y - 1) div 4 - (y - 1) div 100 + (y - 1) div 400 - 477"

text \<open>Days from January 1 to the first of a month.\<close>

definition month_start :: "bool \<Rightarrow> int \<Rightarrow> int" where
  "month_start lp m =
    [0, 31, 59, 90, 120, 151, 181, 212, 243, 273, 304, 334, 365] ! nat (m - 1)
    + (if lp \<and> 2 < m then 1 else 0)"

definition year_of :: "int \<Rightarrow> int" where
  "year_of n =
    (let y = 1970 + (n * 400) div 146097
     in if n < year_start y then y - 1 else if year_start (y + 1) \<le> n then y + 1 else y)"

definition month_of_yday :: "bool \<Rightarrow> int \<Rightarrow> int" where
  "month_of_yday lp d = int (length (filter (\<lambda>m. month_start lp m \<le> d) [1, 2, 3, 4, 5, 6, 7, 8, 9, 10, 11, 12]))"

definition month_of :: "int \<Rightarrow> int" where
  "month_of n = (let y = year_of n in month_of_yday (leap y) (n - year_start y))"

definition mday_of :: "int \<Rightarrow> int" where
  "mday_of n = (let y = year_of n in n - year_start y - month_start (leap y) (month_of n) + 1)"

text \<open>The day number of a date; \<open>time.Date\<close> carries months beyond December into the year.\<close>

definition day_number :: "int \<Rightarrow> int \<Rightarrow> int \<Rightarrow> int" where
  "day_number y m d =
    (let y' = y + (m - 1) div 12; m' = (m - 1) mod 12 + 1
     in year_start y' + month_start (leap y') m' + d - 1)"

lemma div_step: "0 < k \<Longrightarrow> y div k = (y - 1) div k + of_bool (k dvd y)" for y k :: int
proof -
  assume k: "0 < k"
  show ?thesis
  proof (cases "k dvd y")
    case True
    then obtain q where y: "y = k * q" ..
    have "(k * q - 1) div k = q - 1"
      using k by (intro int_div_pos_eq [where r = "k - 1"]) (simp_all add: algebra_simps)
    with y k show ?thesis by simp
  next
    case False
    then have r: "0 < y mod k" "y mod k < k"
      using k pos_mod_bound [of k y] pos_mod_sign [of k y] by (auto simp: dvd_eq_mod_eq_0 order_less_le)
    have "(y - 1) div k = y div k"
      using r by (intro int_div_pos_eq [where r = "y mod k - 1"]) simp_all
    with False show ?thesis by simp
  qed
qed

lemma year_start_Suc: "year_start (y + 1) = year_start y + (if leap y then 366 else 365)"
proof -
  define a b c where "a = (y - 1) div 4" and "b = (y - 1) div 100" and "c = (y - 1) div 400"
  have s: "y div 4 = a + of_bool (4 dvd y)" "y div 100 = b + of_bool (100 dvd y)"
    "y div 400 = c + of_bool (400 dvd y)"
    unfolding a_def b_def c_def by (rule div_step; simp)+
  have y: "year_start y = 365 * (y - 1970) + a - b + c - 477"
    by (simp only: year_start_def a_def b_def c_def)
  have e: "y + 1 - 1 = y" by simp
  have y': "year_start (y + 1) = 365 * (y + 1 - 1970) + y div 4 - y div 100 + y div 400 - 477"
    by (simp only: year_start_def e)
  have d: "100 dvd y \<Longrightarrow> 4 dvd y" by (rule dvd_trans [of _ 100]) simp_all
  have d': "400 dvd y \<Longrightarrow> 100 dvd y" by (rule dvd_trans [of _ 400]) simp_all
  show ?thesis
    unfolding y y' s leap_def using d d' by (cases "4 dvd y"; cases "100 dvd y"; cases "400 dvd y") auto
qed

lemma div_between: "0 < k \<Longrightarrow> k * (x div k) \<le> x \<and> x \<le> k * (x div k) + (k - 1)" for x k :: int
  using mult_div_mod_eq [of k x] pos_mod_bound [of k x] pos_mod_sign [of k x] by linarith

lemma year_start_bounds:
  "400 * year_start y \<ge> 146097 * (y - 1970) - 1200"
  "400 * year_start y \<le> 146097 * (y - 1970) + 1200"
proof -
  have d: "k * ((y - 1) div k) \<le> y - 1" "y - 1 \<le> k * ((y - 1) div k) + (k - 1)" if "0 < k" for k
    using div_between [OF that, of "y - 1"] by simp_all
  note d = d [of 4] d [of 100] d [of 400]
  show "400 * year_start y \<ge> 146097 * (y - 1970) - 1200" using d unfolding year_start_def by (simp add: algebra_simps)
  show "400 * year_start y \<le> 146097 * (y - 1970) + 1200" using d unfolding year_start_def by (simp add: algebra_simps)
qed

lemma year_start_mono:
  assumes "y \<le> z"
  shows "year_start y + 365 * (z - y) \<le> year_start z"
  using assms
proof (induction rule: int_ge_induct)
  case (step z)
  then show ?case using year_start_Suc [of z] by (simp split: if_splits)
qed simp

lemma year_of_bounds: "year_start (year_of n) \<le> n" "n < year_start (year_of n + 1)"
proof -
  define y where "y = 1970 + (n * 400) div 146097"
  have n: "146097 * (y - 1970) \<le> n * 400" "n * 400 \<le> 146097 * (y - 1970) + 146096"
    using div_between [of 146097 "n * 400"] by (simp_all add: y_def)
  have "year_start (y - 1) \<le> n" using n year_start_bounds [of "y - 1"] by (simp add: algebra_simps)
  moreover have "n < year_start (y + 1 + 1)" using n year_start_bounds [of "y + 1 + 1"] by (simp add: algebra_simps)
  ultimately show "year_start (year_of n) \<le> n" "n < year_start (year_of n + 1)"
    unfolding year_of_def Let_def y_def [symmetric] by auto
qed

lemma year_of_unique:
  assumes "year_start y \<le> n" and "n < year_start (y + 1)"
  shows "year_of n = y"
proof (rule ccontr)
  assume "year_of n \<noteq> y"
  then consider "year_of n + 1 \<le> y" | "y + 1 \<le> year_of n" by linarith
  then show False
    using assms year_of_bounds [of n] year_start_mono [of "year_of n + 1" y]
      year_start_mono [of "y + 1" "year_of n"] by cases auto
qed

lemma month_start_simps:
  "month_start lp 1 = 0" "month_start lp 2 = 31" "month_start lp 3 = (if lp then 60 else 59)"
  "month_start lp 4 = (if lp then 91 else 90)" "month_start lp 5 = (if lp then 121 else 120)"
  "month_start lp 6 = (if lp then 152 else 151)" "month_start lp 7 = (if lp then 182 else 181)"
  "month_start lp 8 = (if lp then 213 else 212)" "month_start lp 9 = (if lp then 244 else 243)"
  "month_start lp 10 = (if lp then 274 else 273)" "month_start lp 11 = (if lp then 305 else 304)"
  "month_start lp 12 = (if lp then 335 else 334)" "month_start lp 13 = (if lp then 366 else 365)"
  by (simp_all add: month_start_def)

lemma month_of_yday_cases:
  assumes "0 \<le> d"
  shows "month_of_yday lp d =
    (if d < month_start lp 2 then 1 else if d < month_start lp 3 then 2 else if d < month_start lp 4 then 3
     else if d < month_start lp 5 then 4 else if d < month_start lp 6 then 5 else if d < month_start lp 7 then 6
     else if d < month_start lp 8 then 7 else if d < month_start lp 9 then 8 else if d < month_start lp 10 then 9
     else if d < month_start lp 11 then 10 else if d < month_start lp 12 then 11 else 12)"
  using assms by (cases lp) (simp_all add: month_of_yday_def month_start_simps)

lemma month_of_yday_bounds:
  assumes "0 \<le> d" and "d < month_start lp 13"
  shows "1 \<le> month_of_yday lp d" "month_of_yday lp d \<le> 12"
    "month_start lp (month_of_yday lp d) \<le> d" "d < month_start lp (month_of_yday lp d + 1)"
  using assms unfolding month_of_yday_cases [OF assms(1)]
  by (auto simp: month_start_simps split: if_splits)

lemma int_1_12_cases:
  fixes m :: int
  assumes "1 \<le> m" and "m \<le> 12"
  shows "m = 1 \<or> m = 2 \<or> m = 3 \<or> m = 4 \<or> m = 5 \<or> m = 6 \<or> m = 7 \<or> m = 8 \<or> m = 9
    \<or> m = 10 \<or> m = 11 \<or> m = 12"
  using assms by presburger

lemma month_start_step: "1 \<le> m \<Longrightarrow> m \<le> 12 \<Longrightarrow> month_start lp m < month_start lp (m + 1)"
  by (drule (1) int_1_12_cases) (elim disjE; simp add: month_start_simps)

lemma month_start_mono:
  assumes "m \<le> k" "1 \<le> m" "k \<le> 13"
  shows "month_start lp m \<le> month_start lp k"
  using assms
proof (induction rule: int_ge_induct)
  case (step k)
  then show ?case using month_start_step [of k lp] by simp
qed simp

lemma month_of_yday_unique:
  assumes "1 \<le> m" "m \<le> 12" "month_start lp m \<le> d" "d < month_start lp (m + 1)"
  shows "month_of_yday lp d = m"
proof -
  have d: "0 \<le> d" "d < month_start lp 13"
    using assms month_start_mono [of 1 m lp] month_start_mono [of "m + 1" 13 lp]
    by (simp_all add: month_start_simps)
  note b = month_of_yday_bounds [OF d]
  show ?thesis
  proof (rule ccontr)
    assume "month_of_yday lp d \<noteq> m"
    then consider "month_of_yday lp d + 1 \<le> m" | "m + 1 \<le> month_of_yday lp d" by linarith
    then show False
      using assms b month_start_mono [of "month_of_yday lp d + 1" m lp]
        month_start_mono [of "m + 1" "month_of_yday lp d" lp] by cases auto
  qed
qed

text \<open>The days of a month carry the same year and month, and the next month follows them.\<close>

lemma yday_bounds: "0 \<le> n - year_start (year_of n)"
  "n - year_start (year_of n) < month_start (leap (year_of n)) 13"
  using year_of_bounds [of n] year_start_Suc [of "year_of n"] by (simp_all add: month_start_simps)

lemma month_of_bounds: "1 \<le> month_of n" "month_of n \<le> 12"
  "year_start (year_of n) + month_start (leap (year_of n)) (month_of n) \<le> n"
  "n < year_start (year_of n) + month_start (leap (year_of n)) (month_of n + 1)"
  using month_of_yday_bounds [OF yday_bounds [of n]] by (simp_all add: month_of_def Let_def)

lemma mday_of_bounds: "1 \<le> mday_of n" "mday_of n \<le> 31"
proof -
  show "1 \<le> mday_of n" using month_of_bounds(3) [of n] by (simp add: mday_of_def Let_def)
  have "month_start lp (m + 1) \<le> month_start lp m + 31" if "1 \<le> m" "m \<le> 12" for lp m
    using int_1_12_cases [OF that] by (elim disjE) (simp_all add: month_start_simps)
  from this [OF month_of_bounds(1,2) [of n]] month_of_bounds(4) [of n]
  show "mday_of n \<le> 31" by (simp add: mday_of_def Let_def) (smt (verit))
qed

lemma day_number_in_year: "1 \<le> m \<Longrightarrow> m \<le> 12 \<Longrightarrow> day_number y m d = year_start y + month_start (leap y) m + d - 1"
  by (simp add: day_number_def Let_def)

lemma day_number_date: "day_number (year_of n) (month_of n) (mday_of n + k) = n + k"
  by (simp add: day_number_in_year month_of_bounds mday_of_def Let_def)

lemma year_start_next: "year_start (y + 1) = year_start y + month_start (leap y) 13"
  by (simp add: year_start_Suc month_start_simps)

lemma day_number_next_month:
  assumes "1 \<le> m" "m \<le> 12"
  shows "day_number y (m + 1) 1 = year_start y + month_start (leap y) (m + 1)"
proof (cases "m = 12")
  case True
  then have "day_number y (m + 1) 1 = year_start (y + 1) + month_start (leap (y + 1)) 1"
    by (simp add: day_number_def Let_def)
  with True show ?thesis by (simp add: year_start_next month_start_simps)
next
  case False
  with assms show ?thesis by (simp add: day_number_in_year)
qed

lemma month_of_next:
  assumes "n \<le> k" and "k < day_number (year_of n) (month_of n + 1) 1"
  shows "month_of k = month_of n"
proof -
  note m = month_of_bounds [of n]
  let ?y = "year_of n" and ?m = "month_of n"
  have k: "k < year_start ?y + month_start (leap ?y) (?m + 1)"
    using assms(2) day_number_next_month [OF m(1,2)] by simp
  moreover have "month_start (leap ?y) (?m + 1) \<le> month_start (leap ?y) 13"
    using m(1,2) by (intro month_start_mono) simp_all
  ultimately have "k < year_start (?y + 1)" by (simp add: year_start_next)
  with assms(1) year_of_bounds(1) [of n] have y: "year_of k = ?y" by (intro year_of_unique) simp_all
  show ?thesis
    unfolding month_of_def [of k] Let_def y using k m assms(1) by (intro month_of_yday_unique) simp_all
qed

lemma month_next_less: "n < day_number (year_of n) (month_of n + 1) 1"
  using month_of_bounds [of n] day_number_next_month by simp

section \<open>Locations\<close>

text \<open>
  A location has an offset (seconds east of UTC) before its first change, and the instants
  (Unix seconds) of its changes with the offsets from then on, in ascending order.
\<close>

datatype zone = Zone (base_offset: int) (changes: "(int \<times> int) list")

definition UTC :: zone where
  "UTC = Zone 0 []"

text \<open>\<open>l.lookup(sec)\<close>: the offset in force, and where it began and where it ends.\<close>

fun lookup_from :: "int option \<Rightarrow> int \<Rightarrow> (int \<times> int) list \<Rightarrow> int \<Rightarrow> int \<times> int option \<times> int option" where
  "lookup_from start off [] sec = (off, start, None)"
| "lookup_from start off ((at, off') # cs) sec =
    (if sec < at then (off, start, Some at) else lookup_from (Some at) off' cs sec)"

definition lookup :: "zone \<Rightarrow> int \<Rightarrow> int \<times> int option \<times> int option" where
  "lookup z sec = lookup_from None (base_offset z) (changes z) sec"

definition offset_at :: "zone \<Rightarrow> int \<Rightarrow> int" where
  "offset_at z sec = fst (lookup z sec)"

text \<open>The fields of an instant in a location.\<close>

definition local_sec :: "zone \<Rightarrow> time \<Rightarrow> int" where
  "local_sec z t = t div Second + offset_at z (t div Second)"

definition local_day :: "zone \<Rightarrow> time \<Rightarrow> int" where
  "local_day z t = local_sec z t div 86400"

definition tYear :: "zone \<Rightarrow> time \<Rightarrow> int" where "tYear z t = year_of (local_day z t)"
definition tMonth :: "zone \<Rightarrow> time \<Rightarrow> int" where "tMonth z t = month_of (local_day z t)"
definition tDay :: "zone \<Rightarrow> time \<Rightarrow> int" where "tDay z t = mday_of (local_day z t)"
definition tHour :: "zone \<Rightarrow> time \<Rightarrow> int" where "tHour z t = local_sec z t mod 86400 div 3600"
definition tMinute :: "zone \<Rightarrow> time \<Rightarrow> int" where "tMinute z t = local_sec z t mod 3600 div 60"
definition tSecond :: "zone \<Rightarrow> time \<Rightarrow> int" where "tSecond z t = local_sec z t mod 60"

text \<open>January 1, 1970 was a Thursday.\<close>

definition tWeekday :: "zone \<Rightarrow> time \<Rightarrow> int" where "tWeekday z t = (local_day z t + 4) mod 7"

text \<open>
  \<open>time.Date\<close>: the local time read as UTC selects an offset; when the instant that it gives
  is outside the span of that offset, the offset at that instant is taken instead.
\<close>

definition resolve_local :: "zone \<Rightarrow> int \<Rightarrow> int" where
  "resolve_local z unix =
    (let (off, start, stop) = lookup z unix
     in if off = 0 then unix
        else let utc = unix - off
             in if (case start of None \<Rightarrow> False | Some a \<Rightarrow> utc < a) \<or>
                   (case stop of None \<Rightarrow> False | Some b \<Rightarrow> b \<le> utc)
                then unix - offset_at z utc else unix - off)"

definition Date :: "zone \<Rightarrow> int \<Rightarrow> int \<Rightarrow> int \<Rightarrow> int \<Rightarrow> int \<Rightarrow> int \<Rightarrow> time" where
  "Date z y m d h mi s =
    resolve_local z (day_number y m d * 86400 + h * 3600 + mi * 60 + s) * Second"

section \<open>Locations with one offset\<close>

definition fixed_zone :: "zone \<Rightarrow> bool" where
  "fixed_zone z \<longleftrightarrow> changes z = []"

lemma fixed_offset: "fixed_zone z \<Longrightarrow> lookup z sec = (base_offset z, None, None)"
  by (simp add: fixed_zone_def lookup_def)

lemma fixed_local_sec: "fixed_zone z \<Longrightarrow> local_sec z t = (t + base_offset z * Second) div Second"
  by (simp add: local_sec_def offset_at_def fixed_offset)

lemma fixed_Date: "fixed_zone z \<Longrightarrow>
    Date z y m d h mi s = (day_number y m d * 86400 + h * 3600 + mi * 60 + s - base_offset z) * Second"
  by (simp add: Date_def resolve_local_def fixed_offset Let_def)

text \<open>The fields as truncated divisions of the local clock in nanoseconds.\<close>

definition wall :: "zone \<Rightarrow> time \<Rightarrow> int" where
  "wall z t = t + base_offset z * Second"

lemma local_sec_wall: "fixed_zone z \<Longrightarrow> local_sec z t = wall z t div Second"
  unfolding wall_def by (rule fixed_local_sec)

text \<open>Two instants with the same part of the wall clock agree on the fields of that part.\<close>

lemma local_sec_div: "fixed_zone z \<Longrightarrow> 0 < k \<Longrightarrow> local_sec z t div k = wall z t div (Second * k)"
  unfolding local_sec_wall by (rule zdiv_zmult2_eq [symmetric]) simp

lemma fixed_local_day: "fixed_zone z \<Longrightarrow> local_day z t = wall z t div Day"
  using local_sec_div [of z 86400 t] by (simp add: local_day_def)

lemma mod_div_as_div:
  fixes a b x :: int
  assumes "0 < a" "0 < b"
  shows "x mod (a * b) div b = x div b mod a"
proof -
  have "x mod (b * a) = b * (x div b mod a) + x mod b"
    using assms(1) by (intro zmod_zmult2_eq) simp
  then show ?thesis using assms(2) by (simp add: mult.commute [of a b])
qed

lemma fixed_hour: "fixed_zone z \<Longrightarrow> tHour z t = wall z t div Hour mod 24"
  using mod_div_as_div [of 24 3600 "local_sec z t"] local_sec_div [of z 3600 t] by (simp add: tHour_def)

lemma fixed_minute: "fixed_zone z \<Longrightarrow> tMinute z t = wall z t div Minute mod 60"
  using mod_div_as_div [of 60 60 "local_sec z t"] local_sec_div [of z 60 t] by (simp add: tMinute_def)

lemma fixed_second: "fixed_zone z \<Longrightarrow> tSecond z t = wall z t div Second mod 60"
  by (simp add: tSecond_def fixed_local_sec wall_def)

lemma field_bounds:
  "1 \<le> tMonth z t" "tMonth z t \<le> 12" "1 \<le> tDay z t" "tDay z t \<le> 31" "0 \<le> tWeekday z t" "tWeekday z t < 7"
  "0 \<le> tHour z t" "tHour z t < 24" "0 \<le> tMinute z t" "tMinute z t < 60" "0 \<le> tSecond z t" "tSecond z t < 60"
  using div_between [of 3600 "local_sec z t mod 86400"] div_between [of 60 "local_sec z t mod 3600"]
  by (simp_all add: tMonth_def tDay_def tWeekday_def tHour_def tMinute_def tSecond_def month_of_bounds
      mday_of_bounds div_int_pos_iff)

end
