(* ===== verification/CronNext.thy ===== *)
theory CronNext
  imports GoTime
begin

text \<open>
  Schedules and the search for activation times (\<open>pkg/crontask/expression.go\<close>, \<open>isDue\<close> of
  \<open>utilities.go\<close>).  The search loop need not end (it does not for some locations with
  offset changes), so it is a partial function: \<open>None\<close> means that \<open>Next\<close> does not return.
\<close>

section \<open>Schedules\<close>

record cronSchedule =
  second :: "bool list"
  minute :: "bool list"
  hour :: "bool list"
  dayOfMonth :: "bool list"
  month :: "bool list"
  dayOfWeek :: "bool list"
  loc :: zone

datatype schedule = CronSchedule cronSchedule | IntervalSchedule duration

text \<open>Reading a field table; the parser makes every table long enough for its field.\<close>

definition bit :: "bool list \<Rightarrow> int \<Rightarrow> bool" where
  "bit xs i = xs ! nat i"

section \<open>The search (\<open>cronSchedule.Next\<close>)\<close>

definition next_start :: "cronSchedule \<Rightarrow> time \<Rightarrow> time" where
  "next_start s t = (if length (second s) > 0 then t + Second else Truncate Minute (t + Minute))"

text \<open>One pass through the body of the loop: where it continues, or \<open>None\<close> when it returns \<open>t\<close>.\<close>

definition advance :: "cronSchedule \<Rightarrow> time \<Rightarrow> time option" where
  "advance s t =
    (let z = loc s in
     if \<not> bit (month s) (tMonth z t) then Some (Date z (tYear z t) (tMonth z t + 1) 1 0 0 0)
     else if \<not> bit (dayOfMonth s) (tDay z t) \<or> \<not> bit (dayOfWeek s) (tWeekday z t)
     then Some (Date z (tYear z t) (tMonth z t) (tDay z t + 1) 0 0 0)
     else if \<not> bit (hour s) (tHour z t)
     then Some (Date z (tYear z t) (tMonth z t) (tDay z t) (tHour z t + 1) 0 0)
     else if \<not> bit (minute s) (tMinute z t) then Some (Truncate Minute (t + Minute))
     else if length (second s) > 0 \<and> \<not> bit (second s) (tSecond z t) then Some (Truncate Second (t + Second))
     else None)"

partial_function (option) next_loop :: "cronSchedule \<Rightarrow> time \<Rightarrow> time \<Rightarrow> time option" where
  "next_loop s deadline t =
    (if t < deadline
     then (case advance s t of None \<Rightarrow> Some t | Some t' \<Rightarrow> next_loop s deadline t')
     else Some zero_time)"

declare next_loop.simps [code]

definition horizon :: duration where
  "horizon = 4 * 365 * 24 * Hour"

definition cronSchedule_Next :: "cronSchedule \<Rightarrow> time \<Rightarrow> time option" where
  "cronSchedule_Next s t = next_loop s (next_start s t + horizon) (next_start s t)"

text \<open>\<open>UnixNano\<close> is an \<open>int64\<close>.\<close>

definition intervalSchedule_Next :: "duration \<Rightarrow> time \<Rightarrow> time" where
  "intervalSchedule_Next d t = t + (d - go_mod (wrap64 t) d)"

fun Next :: "schedule \<Rightarrow> time \<Rightarrow> time option" where
  "Next (CronSchedule s) t = cronSchedule_Next s t"
| "Next (IntervalSchedule d) t = Some (intervalSchedule_Next d t)"

text \<open>The loop \<open>for len(out) < n\<close> of \<open>NextN\<close> and \<open>NextRuns\<close>.\<close>

fun collect_next :: "schedule \<Rightarrow> nat \<Rightarrow> time \<Rightarrow> time list option" where
  "collect_next s 0 cur = Some []"
| "collect_next s (Suc n) cur = (case Next s cur of
      None \<Rightarrow> None
    | Some next \<Rightarrow>
        if IsZero next then Some []
        else map_option (\<lambda>out. next # out) (collect_next s n next))"

definition NextN :: "schedule \<Rightarrow> time \<Rightarrow> int \<Rightarrow> time list option" where
  "NextN s from_t n = (if n \<le> 0 then Some [] else collect_next s (nat n) from_t)"

definition isDue :: "schedule \<Rightarrow> time \<Rightarrow> bool option" where
  "isDue s at0 =
    (let at = Truncate Second at0
     in map_option (\<lambda>next. \<not> IsZero next \<and> \<not> at < next) (Next s (at - Second)))"

section \<open>Specification\<close>

text \<open>The instants at which a schedule fires, and the first of them in a span.\<close>

definition fires :: "cronSchedule \<Rightarrow> time \<Rightarrow> bool" where
  "fires s t \<longleftrightarrow>
    bit (month s) (tMonth (loc s) t) \<and> bit (dayOfMonth s) (tDay (loc s) t) \<and>
    bit (dayOfWeek s) (tWeekday (loc s) t) \<and> bit (hour s) (tHour (loc s) t) \<and>
    bit (minute s) (tMinute (loc s) t) \<and> (second s \<noteq> [] \<longrightarrow> bit (second s) (tSecond (loc s) t))"

definition first_in :: "cronSchedule \<Rightarrow> time \<Rightarrow> time \<Rightarrow> time \<Rightarrow> bool" where
  "first_in s a b r \<longleftrightarrow> a \<le> r \<and> r < b \<and> fires s r \<and> (\<forall>u. a \<le> u \<and> u < r \<longrightarrow> \<not> fires s u)"

definition silent :: "cronSchedule \<Rightarrow> time \<Rightarrow> time \<Rightarrow> bool" where
  "silent s a b \<longleftrightarrow> (\<forall>u. a \<le> u \<and> u < b \<longrightarrow> \<not> fires s u)"

text \<open>Locations with one offset, a whole number of minutes.\<close>

definition minute_zone :: "zone \<Rightarrow> bool" where
  "minute_zone z \<longleftrightarrow> fixed_zone z \<and> 60 dvd base_offset z"

section \<open>The search is exact\<close>

lemma advance_None: "advance s t = None \<longleftrightarrow> fires s t"
  by (auto simp: advance_def fires_def Let_def)

lemma same_quot:
  fixes k t u :: int
  assumes "0 < k" "t \<le> u" "u < k * (t div k + 1)"
  shows "u div k = t div k"
proof -
  have "k * (t div k) \<le> u" using div_between [OF assms(1), of t] assms(2) by linarith
  with assms show ?thesis by (intro int_div_pos_eq [where r = "u - k * (t div k)"]) (simp_all add: algebra_simps)
qed

lemma below_quot: "0 < k \<Longrightarrow> t < k * (t div k + 1)" for k t :: int
  using div_between [of k t] by (simp add: algebra_simps)

lemma quot_less:
  fixes k n x :: int
  assumes "0 < k"
  shows "x div k < n \<longleftrightarrow> x < n * k"
proof
  assume "x div k < n"
  then have "k * (x div k + 1) \<le> k * n" using assms by (intro mult_left_mono) simp_all
  with below_quot [OF assms, of x] show "x < n * k" by (simp add: mult.commute)
next
  assume "x < n * k"
  moreover have "k * (x div k) \<le> x" using div_between [OF assms, of x] by simp
  ultimately have "k * (x div k) < k * n" by (simp add: mult.commute)
  with assms show "x div k < n" by simp
qed

lemma wall_mono: "wall z t \<le> wall z u \<longleftrightarrow> t \<le> u" "wall z t < wall z u \<longleftrightarrow> t < u"
  by (simp_all add: wall_def)

text \<open>Between an instant and the next multiple of a unit of the wall clock nothing changes in
  the fields of that unit and above.\<close>

lemma skip_days:
  assumes "fixed_zone z" and "wall z t' = N * Day" and "local_day z t < N"
    and "\<And>n. local_day z t \<le> n \<Longrightarrow> n < N \<Longrightarrow> \<not> P n"
  shows "t < t' \<and> (\<forall>u. t \<le> u \<and> u < t' \<longrightarrow> \<not> P (local_day z u))"
proof (intro conjI allI impI)
  have "wall z t div Day < N" using assms(3) fixed_local_day [OF assms(1)] by simp
  then have "wall z t < N * Day" by (subst (asm) quot_less) simp_all
  then show "t < t'" using assms(2) wall_mono by metis
next
  fix u
  assume u: "t \<le> u \<and> u < t'"
  have "wall z u < N * Day" using u assms(2) wall_mono by metis
  then have "wall z u div Day < N" by (subst quot_less) simp_all
  moreover have "wall z t div Day \<le> wall z u div Day" using u wall_mono by (intro zdiv_mono1) auto
  ultimately show "\<not> P (local_day z u)" using assms(4) fixed_local_day [OF assms(1)] by simp
qed

lemma skip_unit:
  assumes "0 < k" and "wall z t' = k * (wall z t div k + 1)"
    and "\<And>u. wall z u div k = wall z t div k \<Longrightarrow> \<not> P u"
  shows "t < t' \<and> (\<forall>u. t \<le> u \<and> u < t' \<longrightarrow> \<not> P u)"
proof (intro conjI allI impI)
  show "t < t'" using below_quot [OF assms(1), of "wall z t"] assms(2) wall_mono by metis
next
  fix u
  assume u: "t \<le> u \<and> u < t'"
  then have "wall z t \<le> wall z u" "wall z u < k * (wall z t div k + 1)"
    using assms(2) wall_mono by metis+
  from same_quot [OF assms(1) this] show "\<not> P u" by (rule assms(3))
qed

lemma wall_Date:
  "fixed_zone z \<Longrightarrow> wall z (Date z y m d h mi sc) = (day_number y m d * 86400 + h * 3600 + mi * 60 + sc) * Second"
  by (simp add: wall_def fixed_Date algebra_simps)

lemma advance_month:
  assumes "fixed_zone (loc s)" and "\<not> bit (month s) (tMonth (loc s) t)"
    and "t' = Date (loc s) (tYear (loc s) t) (tMonth (loc s) t + 1) 1 0 0 0"
  shows "t < t' \<and> silent s t t'"
proof -
  let ?z = "loc s" and ?n = "local_day (loc s) t"
  let ?N = "day_number (year_of ?n) (month_of ?n + 1) 1"
  have w: "wall ?z t' = ?N * Day"
    using assms(3) by (simp add: wall_Date [OF assms(1)] tYear_def tMonth_def)
  have no: "\<not> bit (month s) (month_of n)" if "?n \<le> n" "n < ?N" for n
    using assms(2) month_of_next [OF that] by (simp add: tMonth_def)
  from skip_days [OF assms(1) w month_next_less, where P = "\<lambda>n. bit (month s) (month_of n)", OF no]
  have "t < t' \<and> (\<forall>u. t \<le> u \<and> u < t' \<longrightarrow> \<not> bit (month s) (month_of (local_day ?z u)))" .
  then show ?thesis by (simp add: silent_def fires_def tMonth_def)
qed

lemma advance_day:
  assumes "fixed_zone (loc s)" and "\<not> bit (dayOfMonth s) (tDay (loc s) t) \<or> \<not> bit (dayOfWeek s) (tWeekday (loc s) t)"
    and "t' = Date (loc s) (tYear (loc s) t) (tMonth (loc s) t) (tDay (loc s) t + 1) 0 0 0"
  shows "t < t' \<and> silent s t t'"
proof -
  let ?z = "loc s" and ?n = "local_day (loc s) t"
  let ?P = "\<lambda>n. bit (dayOfMonth s) (mday_of n) \<and> bit (dayOfWeek s) ((n + 4) mod 7)"
  have w: "wall ?z t' = (?n + 1) * Day"
    using assms(3) by (simp add: wall_Date [OF assms(1)] tYear_def tMonth_def tDay_def day_number_date)
  have no: "\<not> ?P n" if "?n \<le> n" "n < ?n + 1" for n
  proof -
    have "n = ?n" using that by simp
    with assms(2) show ?thesis by (simp add: tDay_def tWeekday_def)
  qed
  have l: "?n < ?n + 1" by simp
  from skip_days [OF assms(1) w l, where P = ?P, OF no]
  have "t < t' \<and> (\<forall>u. t \<le> u \<and> u < t' \<longrightarrow> \<not> ?P (local_day ?z u))" .
  then show ?thesis by (simp add: silent_def fires_def tDay_def tWeekday_def) blast
qed

lemma hour_of_day: "fixed_zone z \<Longrightarrow> local_day z t * 24 + tHour z t = wall z t div Hour"
proof -
  assume z: "fixed_zone z"
  have "wall z t div (Hour * 24) = wall z t div Hour div 24" by (rule zdiv_zmult2_eq) simp
  then have "local_day z t = wall z t div Hour div 24" using fixed_local_day [OF z, of t] by simp
  then show ?thesis using fixed_hour [OF z, of t] by simp
qed

lemma advance_hour:
  assumes z: "fixed_zone (loc s)" and "\<not> bit (hour s) (tHour (loc s) t)"
    and "t' = Date (loc s) (tYear (loc s) t) (tMonth (loc s) t) (tDay (loc s) t) (tHour (loc s) t + 1) 0 0"
  shows "t < t' \<and> silent s t t'"
proof -
  have "wall (loc s) t' = (local_day (loc s) t * 24 + tHour (loc s) t + 1) * Hour"
    using assms(3) day_number_date [of "local_day (loc s) t" 0]
    by (simp add: wall_Date [OF z] tYear_def tMonth_def tDay_def algebra_simps)
  then have w: "wall (loc s) t' = Hour * (wall (loc s) t div Hour + 1)"
    using hour_of_day [OF z, of t] by (simp add: mult.commute)
  have "t < t' \<and> (\<forall>u. t \<le> u \<and> u < t' \<longrightarrow> \<not> bit (hour s) (tHour (loc s) u))"
    using assms(2) fixed_hour [OF z] by (intro skip_unit [OF _ w]) simp_all
  then show ?thesis by (auto simp: silent_def fires_def)
qed

text \<open>Where whole minutes of the instant and of the wall clock coincide, truncating to the
  minute (and to the second) steps to the next one.\<close>

lemma wall_div:
  assumes "0 < k" and "k dvd base_offset z * Second" and "t' = t + k - t mod k"
  shows "wall z t' = k * (wall z t div k + 1)"
proof -
  have "wall z t mod k = t mod k" using assms(2) by (simp add: wall_def mod_add_right_eq [symmetric, of t] mod_0_imp_dvd)
  moreover have "k * (wall z t div k) = wall z t - wall z t mod k" by (simp add: minus_mod_eq_mult_div)
  ultimately show ?thesis using assms(3) by (simp add: wall_def algebra_simps)
qed

lemma minute_zone_dvd: "minute_zone z \<Longrightarrow> Minute dvd base_offset z * Second"
  unfolding minute_zone_def by (intro mult_dvd_mono) simp_all

lemma advance_minute:
  assumes z: "minute_zone (loc s)" and "\<not> bit (minute s) (tMinute (loc s) t)"
    and "t' = Truncate Minute (t + Minute)"
  shows "t < t' \<and> silent s t t'"
proof -
  have f: "fixed_zone (loc s)" using z by (simp add: minute_zone_def)
  have "t' = t + Minute - t mod Minute" unfolding assms(3) Truncate_Minute by simp
  from wall_div [OF _ minute_zone_dvd [OF z] this]
  have w: "wall (loc s) t' = Minute * (wall (loc s) t div Minute + 1)" by simp
  have "t < t' \<and> (\<forall>u. t \<le> u \<and> u < t' \<longrightarrow> \<not> bit (minute s) (tMinute (loc s) u))"
    using assms(2) fixed_minute [OF f] by (intro skip_unit [OF _ w]) simp_all
  then show ?thesis by (auto simp: silent_def fires_def)
qed

lemma advance_second:
  assumes z: "fixed_zone (loc s)" and "second s \<noteq> []" and "\<not> bit (second s) (tSecond (loc s) t)"
    and "t' = Truncate Second (t + Second)"
  shows "t < t' \<and> silent s t t'"
proof -
  have "t' = t + Second - t mod Second" unfolding assms(4) Truncate_Second by simp
  from wall_div [OF _ _ this, of "loc s"]
  have w: "wall (loc s) t' = Second * (wall (loc s) t div Second + 1)" by simp
  have "t < t' \<and> (\<forall>u. t \<le> u \<and> u < t' \<longrightarrow> \<not> bit (second s) (tSecond (loc s) u))"
    using assms(3) fixed_second [OF z] by (intro skip_unit [OF _ w]) simp_all
  then show ?thesis using assms(2) by (auto simp: silent_def fires_def)
qed

lemma advance_Some:
  assumes "minute_zone (loc s)" and "advance s t = Some t'"
  shows "t < t'" "silent s t t'"
proof -
  have z: "fixed_zone (loc s)" using assms(1) by (simp add: minute_zone_def)
  note a = assms(2) [unfolded advance_def Let_def]
  have "t < t' \<and> silent s t t'"
    using a advance_month [OF z _ sym, of t t'] advance_day [OF z _ sym, of t t'] advance_hour [OF z _ sym, of t t']
      advance_minute [OF assms(1) _ sym, of t t'] advance_second [OF z _ _ sym, of t t']
    by (simp only: option.inject option.distinct length_greater_0_conv split: if_splits) simp_all
  then show "t < t'" "silent s t t'" by simp_all
qed

text \<open>The loop ends, and finds the first activation in what is left of the span.\<close>

lemma next_loop_first:
  assumes "minute_zone (loc s)"
  shows "\<exists>r. next_loop s b a = Some r \<and> (first_in s a b r \<or> r = zero_time \<and> silent s a b)"
proof (induction "nat (b - a)" arbitrary: a rule: less_induct)
  case less
  show ?case
  proof (cases "a < b")
    case True
    show ?thesis
    proof (cases "advance s a")
      case None
      with True have "next_loop s b a = Some a" by (subst next_loop.simps) simp
      with None True show ?thesis by (auto simp: first_in_def advance_None)
    next
      case (Some t)
      note t = advance_Some [OF assms Some]
      have "next_loop s b a = next_loop s b t" using True Some by (subst next_loop.simps) simp
      moreover have "nat (b - t) < nat (b - a)" using t(1) True by simp
      ultimately obtain r where r: "next_loop s b a = Some r" "first_in s t b r \<or> r = zero_time \<and> silent s t b"
        using less by metis
      have u: "u < t \<Longrightarrow> a \<le> u \<Longrightarrow> \<not> fires s u" for u using t(2) by (simp add: silent_def)
      from r(2) have "first_in s a b r \<or> r = zero_time \<and> silent s a b"
        using u t(1) unfolding first_in_def silent_def by (meson less_imp_le not_le order_trans)
      with r(1) show ?thesis by blast
    qed
  next
    case False
    then have "next_loop s b a = Some zero_time" by (subst next_loop.simps) simp
    with False show ?thesis by (auto simp: silent_def)
  qed
qed

lemma next_start_second: "second s \<noteq> [] \<Longrightarrow> next_start s t = t + Second"
  by (simp add: next_start_def)

lemma next_start_minute:
  assumes "second s = []"
  shows "t < next_start s t" "next_start s t \<le> t + Minute" "Minute dvd next_start s t"
proof -
  have e: "next_start s t = t + Minute - (t + Minute) mod Minute"
    using assms unfolding next_start_def Truncate_Minute by simp
  show "t < next_start s t" "next_start s t \<le> t + Minute"
    using pos_mod_bound [of Minute "t + Minute"] pos_mod_sign [of Minute "t + Minute"] e by simp_all
  show "Minute dvd next_start s t" unfolding e by (rule dvd_minus_mod)
qed

lemma next_start_after: "t < next_start s t"
  by (cases "second s = []") (simp_all add: next_start_minute next_start_second)

lemma Next_first:
  assumes "minute_zone (loc s)"
  obtains r where "Next (CronSchedule s) t = Some r"
    "first_in s (next_start s t) (next_start s t + horizon) r \<or>
     r = zero_time \<and> silent s (next_start s t) (next_start s t + horizon)"
  using next_loop_first [OF assms, of "next_start s t + horizon" "next_start s t"]
  by (auto simp: cronSchedule_Next_def)

text \<open>The instants a second-aligned call of \<open>isDue\<close> starts the search from.\<close>

lemma due_start:
  assumes "Second dvd a"
  shows "a \<le> next_start s (a - Second)"
    "next_start s (a - Second) = a \<longleftrightarrow> (second s = [] \<longrightarrow> Minute dvd a)"
proof -
  have "a \<le> next_start s (a - Second) \<and> (next_start s (a - Second) = a \<longleftrightarrow> (second s = [] \<longrightarrow> Minute dvd a))"
  proof (cases "second s = []")
    case True
    note n = next_start_minute [OF True, of "a - Second"]
    have "Second dvd Minute" by simp
    from dvd_trans [OF this n(3)] have "Second dvd next_start s (a - Second) - (a - Second)"
      using assms by (intro dvd_diff) simp_all
    from zdvd_imp_le [OF this] n(1) have 1: "a \<le> next_start s (a - Second)" by simp
    have "next_start s (a - Second) \<le> a" if "Minute dvd a"
    proof (rule ccontr)
      assume "\<not> next_start s (a - Second) \<le> a"
      then have "Minute \<le> next_start s (a - Second) - a"
        using that n(3) by (intro zdvd_imp_le dvd_diff) simp_all
      with n(2) show False by simp
    qed
    with 1 n(3) True show ?thesis by (metis dual_order.antisym)
  qed (simp add: next_start_second)
  then show "a \<le> next_start s (a - Second)"
    "next_start s (a - Second) = a \<longleftrightarrow> (second s = [] \<longrightarrow> Minute dvd a)" by simp_all
qed

section \<open>Properties\<close>


text \<open>in such a location \<open>isDue\<close> returns, and holds exactly when the schedule fires at the
  given instant, cut to the second (which has to be a full minute when the schedule has no
  seconds field).\<close>

theorem isDue_iff_fires:
  assumes "minute_zone (loc s)"
  shows "isDue (CronSchedule s) at = Some
    (fires s (Truncate Second at) \<and> (second s = [] \<longrightarrow> Minute dvd Truncate Second at)
     \<and> Truncate Second at \<noteq> zero_time)"
proof -
  let ?a = "Truncate Second at"
  have "Second dvd ?a" unfolding Truncate_Second by (rule dvd_minus_mod)
  note d = due_start [OF this, of s]
  obtain r where r: "Next (CronSchedule s) (?a - Second) = Some r"
    "first_in s (next_start s (?a - Second)) (next_start s (?a - Second) + horizon) r \<or>
     r = zero_time \<and> silent s (next_start s (?a - Second)) (next_start s (?a - Second) + horizon)"
    by (rule Next_first [OF assms])
  have h: "0 < horizon" by (simp add: horizon_def)
  have "(r \<noteq> zero_time \<and> \<not> ?a < r) \<longleftrightarrow> fires s ?a \<and> next_start s (?a - Second) = ?a \<and> ?a \<noteq> zero_time"
    using r(2) d(1) h unfolding first_in_def silent_def by (smt (verit))
  with r(1) d(2) show ?thesis by (auto simp: isDue_def Let_def IsZero_def)
qed

text \<open>The activations that follow one another from an instant on.\<close>

fun successive :: "cronSchedule \<Rightarrow> time \<Rightarrow> time list \<Rightarrow> bool" where
  "successive s t [] \<longleftrightarrow> True"
| "successive s t (r # rs) \<longleftrightarrow>
     first_in s (next_start s t) (next_start s t + horizon) r \<and> successive s r rs"

lemma successive_ascends: "successive s t rs \<Longrightarrow> sorted_wrt (<) (t # rs)"
proof (induction rs arbitrary: t)
  case (Cons r rs)
  then have "t < r" using next_start_after [of t s] by (simp add: first_in_def)
  with Cons.IH [of r] Cons.prems show ?case by auto
qed simp

lemma collect_next_successive:
  assumes z: "minute_zone (loc s)" and "zero_time \<le> t"
  shows "\<exists>rs. collect_next (CronSchedule s) n t = Some rs \<and> successive s t rs \<and> length rs \<le> n \<and>
    (length rs < n \<longrightarrow> silent s (next_start s (last (t # rs))) (next_start s (last (t # rs)) + horizon))"
  using assms(2)
proof (induction n arbitrary: t)
  case (Suc n)
  obtain r where r: "Next (CronSchedule s) t = Some r"
    "first_in s (next_start s t) (next_start s t + horizon) r \<or>
     r = zero_time \<and> silent s (next_start s t) (next_start s t + horizon)"
    by (rule Next_first [OF z])
  show ?case
  proof (cases "first_in s (next_start s t) (next_start s t + horizon) r")
    case True
    then have "t < r" using next_start_after [of t s] by (simp add: first_in_def)
    with Suc.prems have "zero_time < r" by simp
    with Suc.IH [of r] r(1) True show ?thesis by (fastforce simp: IsZero_def)
  next
    case False
    with r show ?thesis by (simp add: IsZero_def)
  qed
qed simp

text \<open>from an instant that is not before the zero time, \<open>NextN\<close> returns at most \<open>n\<close>
  instants, in strictly ascending order, each the first activation after the one before; when
  it returns fewer, the schedule is silent for 1460 days after the last of them.\<close>

theorem NextN_successive:
  assumes "minute_zone (loc s)" and "zero_time \<le> t"
  shows "\<exists>rs. NextN (CronSchedule s) t n = Some rs \<and> successive s t rs \<and> sorted_wrt (<) (t # rs)
    \<and> length rs \<le> nat n
    \<and> (length rs < nat n \<longrightarrow>
        silent s (next_start s (last (t # rs))) (next_start s (last (t # rs)) + horizon))"
proof -
  obtain rs where "collect_next (CronSchedule s) (nat n) t = Some rs" "successive s t rs" "length rs \<le> nat n"
    "length rs < nat n \<longrightarrow> silent s (next_start s (last (t # rs))) (next_start s (last (t # rs)) + horizon)"
    using collect_next_successive [OF assms] by metis
  then show ?thesis using successive_ascends [of s t rs] by (cases "n \<le> 0") (auto simp: NextN_def)
qed

section \<open>Where the search fails\<close>

text \<open>A pass that continues at the same instant never ends.\<close>

lemma next_loop_stuck:
  assumes "advance s t = Some t" and "t < b"
  shows "next_loop s b t = None"
proof (rule ccontr)
  assume "next_loop s b t \<noteq> None"
  then obtain r where "next_loop s b t = Some r" by blast
  then have "\<not> (advance s t = Some t \<and> t < b)"
    by (rule next_loop.raw_induct [where P = "\<lambda>s b t r. \<not> (advance s t = Some t \<and> t < b)", rotated])
      (auto split: if_splits option.splits)
  with assms show False by simp
qed

text \<open>New York in 2024: clocks go from 02:00 to 03:00 on March 10, and back on November 3.\<close>

definition new_york :: zone where
  "new_york = Zone (- 18000) [(1710054000, - 14400), (1730613600, - 18000)]"

definition table :: "nat \<Rightarrow> nat list \<Rightarrow> bool list" where
  "table n vs = map (\<lambda>i. i \<in> set vs) [0..<n]"

text \<open>The schedule of \<open>mi h * * *\<close> in a location.\<close>

definition daily :: "nat \<Rightarrow> nat \<Rightarrow> zone \<Rightarrow> cronSchedule" where
  "daily mi h z =
    \<lparr> second = [], minute = table 60 [mi], hour = table 24 [h], dayOfMonth = table 32 [1..<32],
      month = table 13 [1..<13], dayOfWeek = table 8 [0..<7], loc = z \<rparr>"

definition dst_gap :: "time" where
  "dst_gap = Date new_york 2024 3 10 2 0 0"

lemma dst_gap_val: "dst_gap = 1710050400 * Second"
  by code_simp

lemma dst_gap_fields:
  assumes "t = dst_gap \<or> t = dst_gap + Second \<or> t = dst_gap + Minute"
  shows "tYear new_york t = 2024" "tMonth new_york t = 3" "tDay new_york t = 10" "tWeekday new_york t = 0"
    "tHour new_york t = 1"
proof -
  have f: "tYear new_york t = 2024 \<and> tMonth new_york t = 3 \<and> tDay new_york t = 10 \<and> tWeekday new_york t = 0
    \<and> tHour new_york t = 1"
    if "t \<in> {1710050400 * Second, 1710050401 * Second, 1710050460 * Second}" for t
    using that by (elim insertE emptyE; hypsubst; code_simp)
  from f [of t] assms show "tYear new_york t = 2024" "tMonth new_york t = 3" "tDay new_york t = 10"
    "tWeekday new_york t = 0" "tHour new_york t = 1"
    by (auto simp: dst_gap_val)
qed

lemma advance_gap:
  assumes "loc s = new_york" and "bit (month s) 3" "bit (dayOfMonth s) 10" "bit (dayOfWeek s) 0" "\<not> bit (hour s) 1"
    and "t = dst_gap \<or> t = dst_gap + Second \<or> t = dst_gap + Minute"
  shows "advance s t = Some dst_gap"
  unfolding advance_def Let_def assms(1) dst_gap_fields [OF assms(6)]
  using assms(2-5) by (simp add: dst_gap_def)

text \<open>in New York, for every schedule that includes Sunday, March 10, but not the hour
  from 01:00, \<open>Next\<close> does not return from the instant that \<open>time.Date\<close> gives for 02:00 on
  that day: the step to the next hour lands on 01:00 again and again.\<close>

theorem Next_hangs_in_gap:
  assumes "loc s = new_york" and "bit (month s) 3" "bit (dayOfMonth s) 10" "bit (dayOfWeek s) 0" "\<not> bit (hour s) 1"
  shows "Next (CronSchedule s) dst_gap = None \<and> isDue (CronSchedule s) (dst_gap + Second) = None"
proof -
  note g = advance_gap [OF assms]
  have h: "Minute < horizon" by (simp add: horizon_def)
  have start: "next_start s dst_gap = dst_gap + Second \<or> next_start s dst_gap = dst_gap + Minute"
    unfolding next_start_def Truncate_Minute by (simp add: dst_gap_val)
  have "next_loop s (next_start s dst_gap + horizon) dst_gap = None"
    using start h by (intro next_loop_stuck g) auto
  moreover have "advance s (next_start s dst_gap) = Some dst_gap" using start g by blast
  ultimately have n: "cronSchedule_Next s dst_gap = None"
    using h unfolding cronSchedule_Next_def by (subst next_loop.simps) simp
  have "Truncate Second (dst_gap + Second) - Second = dst_gap"
    unfolding Truncate_Second by (simp add: dst_gap_val)
  with n show ?thesis by (simp add: isDue_def Let_def)
qed

theorem Next_hangs_in_gap_witness:
  "Next (CronSchedule (daily 30 2 new_york)) dst_gap = None
   \<and> isDue (CronSchedule (daily 30 2 new_york)) (dst_gap + Second) = None"
  by (rule Next_hangs_in_gap) (simp_all add: daily_def table_def bit_def)

text \<open>The schedule of \<open>0 0 29 2 *\<close>.\<close>

definition leap_day :: cronSchedule where
  "leap_day = (daily 0 0 UTC) \<lparr> dayOfMonth := table 32 [29], month := table 13 [2] \<rparr>"

lemma UTC_zone: "minute_zone UTC" "fixed_zone UTC" "wall UTC t = t"
  by (simp_all add: minute_zone_def fixed_zone_def UTC_def wall_def)

lemma bit_table:
  assumes "bit (table n vs) i" and "0 \<le> i" "i < int n"
  shows "nat i \<in> set vs"
  using assms nth_map [of "nat i" "[0..<n]" "\<lambda>i. i \<in> set vs"] by (simp add: bit_def table_def nat_less_iff)

lemma leap_day_fires:
  assumes "fires leap_day u"
  shows "month_of (u div Day) = 2" "mday_of (u div Day) = 29" "u div Hour mod 24 = 0" "u div Minute mod 60 = 0"
proof -
  have b: "bit (table 13 [2]) (tMonth UTC u)" "bit (table 32 [29]) (tDay UTC u)"
    "bit (table 24 [0]) (tHour UTC u)" "bit (table 60 [0]) (tMinute UTC u)"
    using assms by (simp_all add: fires_def leap_day_def daily_def)
  note f = field_bounds [of UTC u]
  have "tMonth UTC u = 2" "tDay UTC u = 29" "tHour UTC u = 0" "tMinute UTC u = 0"
    using bit_table [OF b(1)] bit_table [OF b(2)] bit_table [OF b(3)] bit_table [OF b(4)] f by auto
  then show "month_of (u div Day) = 2" "mday_of (u div Day) = 29" "u div Hour mod 24 = 0" "u div Minute mod 60 = 0"
    using fixed_hour [of UTC u] fixed_minute [of UTC u] fixed_local_day [of UTC u]
    by (simp_all add: UTC_zone tMonth_def tDay_def)
qed

lemma leap_day_year:
  assumes "month_of n = 2" and "mday_of n = 29"
  shows "leap (year_of n)" "n = year_start (year_of n) + 59"
proof -
  have n: "n = year_start (year_of n) + month_start (leap (year_of n)) 2 + 28"
    using assms by (simp add: mday_of_def Let_def)
  then show "n = year_start (year_of n) + 59" by (simp add: month_start_simps)
  show "leap (year_of n)"
    using month_of_bounds(4) [of n] assms(1) n by (simp add: month_start_simps split: if_splits)
qed

lemma no_leap_day_between:
  assumes "month_of n = 2" and "mday_of n = 29" and "19782 \<le> n" "n < 21243"
  shows "n = 19782"
proof -
  note y = leap_day_year [OF assms(1,2)]
  have v: "year_start 2024 = 19723" "year_start 2028 = 21184" by (simp_all add: year_start_def)
  have "2024 \<le> year_of n"
  proof (rule ccontr)
    assume "\<not> 2024 \<le> year_of n"
    then show False using year_of_bounds(2) [of n] year_start_mono [of "year_of n + 1" 2024] v assms(3) by simp
  qed
  moreover have "year_of n < 2028"
  proof (rule ccontr)
    assume "\<not> year_of n < 2028"
    then show False using year_start_mono [of 2028 "year_of n"] v assms(4) y(2) by simp
  qed
  ultimately consider "year_of n = 2024" | "year_of n = 2025" | "year_of n = 2026" | "year_of n = 2027"
    by linarith
  then show ?thesis using y v by cases (simp_all add: leap_def)
qed

definition feb_29_2024 :: "time" where
  "feb_29_2024 = Date UTC 2024 2 29 0 0 0"

lemma feb_29_val: "feb_29_2024 = 19782 * Day"
  by code_simp

lemma leap_day_fires_2024: "fires leap_day feb_29_2024"
  by code_simp

text \<open>from midnight of February 29, 2024 (UTC) the yearly schedule of that day reports no
  further activation, although it fires again at midnight of February 29, 2028, the next time
  its date exists: the span of 1460 days ends less than a day too early.\<close>

theorem Next_misses_leap_day:
  "Next (CronSchedule leap_day) feb_29_2024 = Some zero_time
   \<and> fires leap_day feb_29_2024 \<and> fires leap_day (Date UTC 2028 2 29 0 0 0)"
proof (intro conjI)
  have z: "minute_zone (loc leap_day)" by (simp add: leap_day_def daily_def UTC_zone)
  have start: "next_start leap_day feb_29_2024 = 19782 * Day + Minute"
    unfolding next_start_def Truncate_Minute by (simp add: feb_29_val leap_day_def daily_def)
  have no: "\<not> fires leap_day u" if "19782 * Day + Minute \<le> u" "u < 19782 * Day + Minute + horizon" for u
  proof
    assume "fires leap_day u"
    note f = leap_day_fires [OF this]
    have d: "u div Day = 19782"
    proof (rule no_leap_day_between [OF f(1,2)])
      show "19782 \<le> u div Day" using that(1) zdiv_mono1 [of "19782 * Day" u Day] by simp
      show "u div Day < 21243" using that(2) by (subst quot_less) (simp_all add: horizon_def)
    qed
    have "u div Hour = 24 * (u div Hour div 24)" using f(3) by (simp add: minus_mod_eq_mult_div [symmetric])
    moreover have "u div Hour div 24 = u div Day" using zdiv_zmult2_eq [of 24 u Hour] by simp
    ultimately have "u div Hour = 24 * 19782" using d by simp
    moreover have "u div Minute = 60 * (u div Minute div 60)" using f(4) by (simp add: minus_mod_eq_mult_div [symmetric])
    moreover have "u div Minute div 60 = u div Hour" using zdiv_zmult2_eq [of 60 u Minute] by simp
    ultimately have "u div Minute = 60 * 24 * 19782" by simp
    then have "u < 19782 * Day + Minute" using below_quot [of Minute u] by simp
    with that(1) show False by simp
  qed
  obtain r where "Next (CronSchedule leap_day) feb_29_2024 = Some r"
    "first_in leap_day (19782 * Day + Minute) (19782 * Day + Minute + horizon) r \<or> r = zero_time"
    by (rule Next_first [OF z, of feb_29_2024]) (use start in auto)
  with no show "Next (CronSchedule leap_day) feb_29_2024 = Some zero_time"
    by (auto simp: first_in_def)
  show "fires leap_day feb_29_2024" by (rule leap_day_fires_2024)
  show "fires leap_day (Date UTC 2028 2 29 0 0 0)" by code_simp
qed

section \<open>Instances\<close>

lemma leap_day_zone: "minute_zone (loc leap_day)" "second leap_day = []"
  by (simp_all add: leap_day_def daily_def UTC_zone)


theorem isDue_iff_fires_witness:
  "isDue (CronSchedule leap_day) (feb_29_2024 + 5) = Some True \<and> isDue (CronSchedule leap_day) (feb_29_2024 + Second) = Some False"
proof -
  have t: "Truncate Second (feb_29_2024 + 5) = feb_29_2024" "Truncate Second (feb_29_2024 + Second) = feb_29_2024 + Second"
    unfolding Truncate_Second by (simp_all add: feb_29_val)
  have f: "fires leap_day feb_29_2024" "Minute dvd feb_29_2024" "\<not> Minute dvd feb_29_2024 + Second" "feb_29_2024 \<noteq> zero_time"
    using leap_day_fires_2024 by (simp_all add: feb_29_val zero_time_def)
  show ?thesis
    using f unfolding isDue_iff_fires [OF leap_day_zone(1)] t leap_day_zone(2) by simp
qed

theorem NextN_successive_witness: "\<exists>rs. NextN (CronSchedule leap_day) 0 3 = Some rs \<and> length rs \<le> 3"
  using NextN_successive [OF leap_day_zone(1), of 0 3] by (auto simp: zero_time_def)

end
