(* ===== verification/GoStrings.thy ===== *)
theory GoStrings
  imports GoValues
begin

text \<open>
  What the libraries use of Go's \<open>strings\<close> and \<open>strconv\<close> packages, on byte strings.
  \<open>ToLower\<close> maps the ASCII letters and the two other characters with an ASCII lower case
  (U+0130 and U+212A); the lower case of the remaining letters is not ASCII, so it makes no
  difference for the look-ups in tables with ASCII keys that the code does with it.
\<close>

section \<open>Searching and splitting\<close>

definition HasPrefix :: "gostring \<Rightarrow> gostring \<Rightarrow> bool" where
  "HasPrefix s p \<longleftrightarrow> take (length p) s = p"

fun Index :: "gostring \<Rightarrow> byte \<Rightarrow> nat option" where
  "Index [] c = None"
| "Index (b # s) c = (if b = c then Some 0 else map_option Suc (Index s c))"

text \<open>\<open>strings.Split\<close> with a separator of one byte: there is always a first part.\<close>

fun Split_at :: "gostring \<Rightarrow> byte \<Rightarrow> gostring list" where
  "Split_at [] c = [[]]"
| "Split_at (b # s) c =
    (if b = c then [] # Split_at s c
     else case Split_at s c of [] \<Rightarrow> [[b]] | p # ps \<Rightarrow> (b # p) # ps)"

lemma Split_at_nonempty [simp]: "Split_at s c \<noteq> []"
  by (induction s) (auto split: list.splits)

lemma Split_at_single: "c \<notin> set s \<Longrightarrow> Split_at s c = [s]"
  by (induction s) auto

fun Join :: "gostring list \<Rightarrow> gostring \<Rightarrow> gostring" where
  "Join [] sep = []"
| "Join [p] sep = p"
| "Join (p # ps) sep = p @ sep @ Join ps sep"

lemma Join_Cons: "ps \<noteq> [] \<Longrightarrow> Join (p # ps) sep = p @ sep @ Join ps sep"
  by (cases ps) simp_all

lemma Join_Split_at: "Join (Split_at s c) [c] = s"
proof (induction s)
  case (Cons b s)
  show ?case
  proof (cases "b = c")
    case True
    with Cons show ?thesis by (simp add: Join_Cons)
  next
    case False
    obtain p ps where p: "Split_at s c = p # ps" using Split_at_nonempty [of s c] by (cases "Split_at s c") auto
    with Cons False show ?thesis by (cases ps) auto
  qed
qed simp

lemma Split_at_parts: "p \<in> set (Split_at s c) \<Longrightarrow> c \<notin> set p"
  by (induction s arbitrary: p) (auto split: list.splits if_splits)

section \<open>White space\<close>

text \<open>The white space character that a reversed string ends in, removed.\<close>

fun drop_space_end :: "gostring \<Rightarrow> gostring option" where
  "drop_space_end [] = None"
| "drop_space_end (a # s) =
    (if byte_is [9, 10, 11, 12, 13, 32] a then Some s
     else case s of
       [] \<Rightarrow> None
     | b # s' \<Rightarrow>
        if drop_space [b, a] = Some [] then Some s'
        else (case s' of
          [] \<Rightarrow> None
        | c # s'' \<Rightarrow> if drop_space [c, b, a] = Some [] then Some s'' else None))"

lemma drop_space_end_length: "drop_space_end s = Some t \<Longrightarrow> length t < length s"
  by (cases s) (auto split: if_splits list.splits)

function trim_end :: "gostring \<Rightarrow> gostring" where
  "trim_end s = (case drop_space_end s of None \<Rightarrow> s | Some t \<Rightarrow> trim_end t)"
  by pat_completeness auto
termination
  by (relation "measure length") (auto dest: drop_space_end_length)

declare trim_end.simps [simp del]

definition TrimSpace :: "gostring \<Rightarrow> gostring" where
  "TrimSpace s = rev (trim_end (rev (TrimLeftSpace s)))"

lemma TrimLeftSpace_length: "length (TrimLeftSpace s) \<le> length s"
proof (induction s rule: TrimLeftSpace.induct)
  case (1 s)
  then show ?case
    by (subst TrimLeftSpace.simps) (fastforce split: option.splits dest: drop_space_length)
qed

text \<open>Strings of visible ASCII characters have nothing to trim.\<close>

definition visible :: "byte \<Rightarrow> bool" where
  "visible c \<longleftrightarrow> 33 \<le> byte_val c \<and> byte_val c \<le> 126"

lemma drop_space_visible: "visible c \<Longrightarrow> drop_space (c # s) = None"
  by (cases s) (auto simp: visible_def byte_is_def split: list.splits)

lemma drop_space_end_visible: "visible c \<Longrightarrow> list_all visible s \<Longrightarrow> drop_space_end (c # s) = None"
  by (cases s; cases "tl s") (simp_all add: drop_space_visible del: drop_space.simps, simp_all add: visible_def byte_is_def)

lemma TrimLeftSpace_visible: "list_all visible s \<Longrightarrow> TrimLeftSpace s = s"
  by (cases s) (simp_all add: TrimLeftSpace.simps [of "[]"] TrimLeftSpace.simps [of "_ # _"] drop_space_visible
      del: drop_space.simps(2))

lemma TrimSpace_visible: "list_all visible s \<Longrightarrow> TrimSpace s = s"
proof -
  assume v: "list_all visible s"
  have "drop_space_end r = None" if "list_all visible r" for r
    using that by (cases r) (simp_all add: drop_space_end_visible del: drop_space_end.simps(2))
  from this [of "rev s"] v have "trim_end (rev s) = rev s"
    by (subst trim_end.simps) (simp add: list_all_iff)
  with v show ?thesis by (simp add: TrimSpace_def TrimLeftSpace_visible)
qed

lemma IsEmpty_visible: "list_all visible s \<Longrightarrow> IsEmpty s \<longleftrightarrow> s = []"
  by (simp add: IsEmpty_def TrimLeftSpace_visible)

lemma TrimLeftSpace_stop: "drop_space (TrimLeftSpace s) = None"
proof (induction s rule: TrimLeftSpace.induct)
  case (1 s)
  then show ?case by (subst TrimLeftSpace.simps) (auto split: option.splits)
qed

lemma TrimLeftSpace_id: "drop_space s = None \<Longrightarrow> TrimLeftSpace s = s"
  by (subst TrimLeftSpace.simps) simp

lemma TrimLeftSpace_idem [simp]: "TrimLeftSpace (TrimLeftSpace s) = TrimLeftSpace s"
  by (rule TrimLeftSpace_id) (rule TrimLeftSpace_stop)

text \<open>Trimming a trimmed string changes nothing.\<close>

lemma drop_space_append: "drop_space p = Some t \<Longrightarrow> drop_space (p @ q) = Some (t @ q)"
  by (cases p rule: drop_space.cases) (auto split: if_splits list.splits)

lemma drop_space_end_suffix: "drop_space_end s = Some t \<Longrightarrow> \<exists>w. s = w @ t"
  by (cases s) (auto split: if_splits list.splits)

lemma trim_end_suffix: "\<exists>w. s = w @ trim_end s"
proof (induction s rule: trim_end.induct)
  case (1 s)
  show ?case
  proof (cases "drop_space_end s")
    case None
    then show ?thesis by (subst trim_end.simps) simp
  next
    case (Some t)
    obtain w where "s = w @ t" using drop_space_end_suffix [OF Some] by blast
    moreover obtain v where "t = v @ trim_end t" using 1 [OF Some] by blast
    moreover have "trim_end s = trim_end t" using Some by (subst trim_end.simps) simp
    ultimately show ?thesis by (metis append.assoc)
  qed
qed

lemma trim_end_stop: "drop_space_end (trim_end s) = None"
proof (induction s rule: trim_end.induct)
  case (1 s)
  then show ?case by (subst trim_end.simps) (auto split: option.splits)
qed

lemma TrimSpace_idem [simp]: "TrimSpace (TrimSpace s) = TrimSpace s"
proof -
  let ?l = "TrimLeftSpace s"
  obtain w where "rev ?l = w @ trim_end (rev ?l)" using trim_end_suffix by blast
  then have l: "?l = TrimSpace s @ rev w"
    by (metis TrimSpace_def rev_append rev_rev_ident)
  have "drop_space (TrimSpace s) = None"
  proof (rule ccontr)
    assume "drop_space (TrimSpace s) \<noteq> None"
    then obtain t where "drop_space (TrimSpace s) = Some t" by blast
    from drop_space_append [OF this] l TrimLeftSpace_stop [of s] show False by simp
  qed
  then have "TrimLeftSpace (TrimSpace s) = TrimSpace s" by (rule TrimLeftSpace_id)
  moreover have "trim_end (trim_end r) = trim_end r" for r
    using trim_end_stop [of r] by (subst trim_end.simps) simp
  ultimately show ?thesis by (simp add: TrimSpace_def)
qed

text \<open>The bytes up to the next white space character, and the rest.\<close>

fun take_field :: "gostring \<Rightarrow> gostring \<times> gostring" where
  "take_field [] = ([], [])"
| "take_field (b # s) =
    (if drop_space (b # s) \<noteq> None then ([], b # s)
     else (let (f, r) = take_field s in (b # f, r)))"

lemma take_field_length: "length (snd (take_field s)) \<le> length s"
  by (induction s rule: take_field.induct) (auto split: prod.splits)

lemma take_field_rest: "drop_space (b # s) = None \<Longrightarrow> length (snd (take_field (b # s))) \<le> length s"
  using take_field_length [of s] by (simp add: split_def Let_def del: drop_space.simps)

function Fields :: "gostring \<Rightarrow> gostring list" where
  "Fields s =
    (case TrimLeftSpace s of
       [] \<Rightarrow> []
     | b # t \<Rightarrow> fst (take_field (b # t)) # Fields (snd (take_field (b # t))))"
  by pat_completeness auto
termination
proof (relation "measure length")
  fix s b t
  assume e: "TrimLeftSpace s = b # t"
  then have "length (snd (take_field (b # t))) \<le> length t"
    using TrimLeftSpace_stop [of s] by (intro take_field_rest) simp
  moreover have "Suc (length t) \<le> length s" using TrimLeftSpace_length [of s] e by simp
  ultimately show "(snd (take_field (b # t)), s) \<in> measure length" by simp
qed simp

declare Fields.simps [simp del]

section \<open>Lower case\<close>

definition lower_byte :: "byte \<Rightarrow> byte" where
  "lower_byte c = (if 65 \<le> byte_val c \<and> byte_val c \<le> 90 then char_of (byte_val c + 32) else c)"

fun ToLower :: "gostring \<Rightarrow> gostring" where
  "ToLower (a # b # s) =
    (if byte_val a = 196 \<and> byte_val b = 176 then CHR ''i'' # ToLower s
     else if byte_val a = 226 \<and> byte_val b = 132 \<and> s \<noteq> [] \<and> byte_val (hd s) = 170
     then CHR ''k'' # ToLower (tl s)
     else lower_byte a # ToLower (b # s))"
| "ToLower s = map lower_byte s"

section \<open>Numbers\<close>

definition is_dec :: "byte \<Rightarrow> bool" where
  "is_dec c \<longleftrightarrow> 48 \<le> byte_val c \<and> byte_val c \<le> 57"

definition dec_val :: "gostring \<Rightarrow> int" where
  "dec_val s = foldl (\<lambda>n c. n * 10 + (of_char c - 48)) 0 s"

text \<open>\<open>strconv.Atoi\<close>, and \<open>strconv.ParseInt(s, 10, 64)\<close>: an optional sign and at least one
  digit, in the range of 64 bits.\<close>

definition Atoi :: "gostring \<Rightarrow> int option" where
  "Atoi s =
    (let neg = (case s of [] \<Rightarrow> False | c # _ \<Rightarrow> c = CHR ''-'');
         ds = (case s of [] \<Rightarrow> [] | c # r \<Rightarrow> if c = CHR ''-'' \<or> c = CHR ''+'' then r else s);
         n = (if neg then - dec_val ds else dec_val ds)
     in if ds \<noteq> [] \<and> list_all is_dec ds \<and> in_int64 n then Some n else None)"

lemma Atoi_in_int64: "Atoi s = Some n \<Longrightarrow> in_int64 n"
  by (auto simp: Atoi_def Let_def split: if_splits)

text \<open>The decimal digits of a number read back as the number.\<close>

lemma dec_val_snoc: "dec_val (s @ [c]) = dec_val s * 10 + (of_char c - 48)"
  by (simp add: dec_val_def)

lemma digit_byte: "d < 10 \<Longrightarrow> (of_char (char_of (48 + d :: nat) :: byte) :: int) = 48 + int d"
  using of_nat_of_char [of "char_of (48 + d)", where ?'a = int] by simp

lemma is_dec_digit: "d < 10 \<Longrightarrow> is_dec (char_of (48 + d :: nat))"
  by (simp add: is_dec_def)

lemma digits_facts: "digits n \<noteq> [] \<and> list_all is_dec (digits n) \<and> dec_val (digits n) = int n"
proof (induction n rule: digits.induct)
  case (1 n)
  show ?case
  proof (cases "n < 10")
    case True
    then show ?thesis by (subst (1 2 3) digits.simps) (simp add: is_dec_def dec_val_def digit_byte)
  next
    case False
    have m: "n mod 10 < 10" by simp
    have e: "int (n div 10) * 10 + int (n mod 10) = int n"
      by (simp only: of_nat_mult [symmetric] of_nat_add [symmetric] of_nat_numeral [symmetric, where ?'a = int]
          div_mult_mod_eq)
    show ?thesis
      using False 1 [OF False] m e
      by (subst (1 2 3) digits.simps) (simp add: dec_val_snoc is_dec_digit digit_byte)
  qed
qed

lemma digits_visible: "list_all visible (digits n)"
  using digits_facts [of n] by (auto simp: list_all_iff is_dec_def visible_def)

lemma itoa_visible: "list_all visible (itoa i)" "itoa i \<noteq> []"
  using digits_visible [of "nat i"] digits_visible [of "nat (- i)"] digits_facts [of "nat i"]
  by (simp_all add: itoa_def visible_def)

lemma digits_head: "hd (digits n) \<noteq> CHR ''-'' \<and> hd (digits n) \<noteq> CHR ''+''"
  using digits_facts [of n] by (cases "digits n") (auto simp: is_dec_def)

lemma Atoi_itoa: "in_int64 i \<Longrightarrow> Atoi (itoa i) = Some i"
  using digits_facts [of "nat i"] digits_head [of "nat i"] digits_facts [of "nat (- i)"]
  by (cases "i < 0"; cases "digits (nat i)") (auto simp: Atoi_def itoa_def Let_def)

text \<open>\<open>strconv.ParseUint(s, 10, 64)\<close>: digits without a sign.\<close>

definition ParseUint :: "gostring \<Rightarrow> int option" where
  "ParseUint s =
    (if s \<noteq> [] \<and> list_all is_dec s \<and> dec_val s < 2 ^ 64 then Some (dec_val s) else None)"

lemma ParseUint_digits: "n < 2 ^ 64 \<Longrightarrow> ParseUint (digits n) = Some (int n)"
  using digits_facts [of n] by (simp add: ParseUint_def)

end
