(* ===== verification/Conv.thy ===== *)
theory Conv
  imports GoStrings
begin

text \<open>
  Conversions to integers and booleans (\<open>pkg/conv\<close>: \<open>converter.go\<close>, \<open>int.go\<close>, \<open>uint.go\<close>,
  \<open>bool.go\<close>, and their helpers in \<open>default.go\<close>, \<open>kind.go\<close> and \<open>indirect.go\<close>).  A value of type
  \<open>any\<close> is one of the predeclared types or a pointer to one; floating-point numbers are
  abstract, with the operations that the code applies to them as arguments.
\<close>

section \<open>Values and configuration\<close>

datatype int_kind = KInt | KInt8 | KInt16 | KInt32 | KInt64
datatype uint_kind = KUint | KUint8 | KUint16 | KUint32 | KUint64 | KUintptr

text \<open>A pointer is nil or points to a value; the pointer types are those that the type switches
  of \<open>Int64\<close> and \<open>Uint64\<close> name, and the others.  Types with conversion methods of their own
  (\<open>intConverter\<close> and the like) and named types are not modelled.\<close>

datatype ptr_type = PInt64 | PInt | PUint64 | PUint | PString | POther

datatype 'f any =
    ANil
  | AInt int_kind int
  | AUint uint_kind int
  | AFloat 'f
  | AComplex 'f
  | ABool bool
  | AString gostring
  | ALen nat
  | ATime bool
  | AStruct
  | APtr ptr_type "'f any option"

text \<open>The operations on floating-point numbers: parsing, comparison with the truncated value,
  the sign, comparison with zero, and the conversions \<open>int64(f)\<close> and \<open>uint64(f)\<close>.\<close>

record 'f float_ops =
  ParseFloat :: "gostring \<Rightarrow> 'f option"
  is_trunc :: "'f \<Rightarrow> bool"
  is_neg :: "'f \<Rightarrow> bool"
  is_zero :: "'f \<Rightarrow> bool"
  to_int64 :: "'f \<Rightarrow> int"
  to_uint64 :: "'f \<Rightarrow> int"

record Converter =
  strictMode :: bool
  trimStrings :: bool
  nilAsZero :: bool
  emptyAsZero :: bool

definition NewConverter :: Converter where
  "NewConverter = \<lparr> strictMode = False, trimStrings = True, nilAsZero = True, emptyAsZero = True \<rparr>"

definition WithStrictMode :: "bool \<Rightarrow> Converter \<Rightarrow> Converter" where
  "WithStrictMode v c = c \<lparr> strictMode := v \<rparr>"

definition WithTrimStrings :: "bool \<Rightarrow> Converter \<Rightarrow> Converter" where
  "WithTrimStrings v c = c \<lparr> trimStrings := v \<rparr>"

definition EnableTrimStrings :: "Converter \<Rightarrow> Converter" where
  "EnableTrimStrings c = WithTrimStrings True c"

definition DisableTrimStrings :: "Converter \<Rightarrow> Converter" where
  "DisableTrimStrings c = WithTrimStrings False c"

definition WithNilAsZero :: "bool \<Rightarrow> Converter \<Rightarrow> Converter" where
  "WithNilAsZero v c = c \<lparr> nilAsZero := v \<rparr>"

definition EnableNilAsZero :: "Converter \<Rightarrow> Converter" where
  "EnableNilAsZero c = WithNilAsZero True c"

definition DisableNilAsZero :: "Converter \<Rightarrow> Converter" where
  "DisableNilAsZero c = WithNilAsZero False c"

definition WithEmptyAsZero :: "bool \<Rightarrow> Converter \<Rightarrow> Converter" where
  "WithEmptyAsZero v c = c \<lparr> emptyAsZero := v \<rparr>"

definition EnableEmptyAsZero :: "Converter \<Rightarrow> Converter" where
  "EnableEmptyAsZero c = WithEmptyAsZero True c"

definition DisableEmptyAsZero :: "Converter \<Rightarrow> Converter" where
  "DisableEmptyAsZero c = WithEmptyAsZero False c"

definition IsStrictMode :: "Converter \<Rightarrow> bool" where
  "IsStrictMode c = strictMode c"

definition Clone_converter :: "Converter \<Rightarrow> Converter" where
  "Clone_converter c = \<lparr> strictMode = strictMode c, trimStrings = trimStrings c,
     nilAsZero = nilAsZero c, emptyAsZero = emptyAsZero c \<rparr>"

definition Reset_converter :: "Converter \<Rightarrow> Converter" where
  "Reset_converter c = c \<lparr> strictMode := False, trimStrings := True, nilAsZero := True, emptyAsZero := True \<rparr>"

text \<open>A failed conversion, by its message.\<close>

datatype conv_error = EmptyString | NotConvertible | Lossy | Overflows

type_synonym 'a conv = "conv_error + 'a"

section \<open>Booleans\<close>

definition true_texts :: "gostring list" where
  "true_texts = [''1'', ''t'', ''T'', ''true'', ''True'', ''TRUE'', ''y'', ''Y'', ''yes'', ''Yes'', ''YES'',
    ''on'', ''On'', ''ON'']"

definition false_texts :: "gostring list" where
  "false_texts = [''0'', ''f'', ''F'', ''false'', ''False'', ''FALSE'', ''n'', ''N'', ''no'', ''No'', ''NO'',
    ''off'', ''Off'', ''OFF'']"

definition trimmed :: "Converter \<Rightarrow> gostring \<Rightarrow> gostring" where
  "trimmed c v = (if trimStrings c then TrimSpace v else v)"

definition stringToBool :: "Converter \<Rightarrow> gostring \<Rightarrow> bool conv" where
  "stringToBool c v0 =
    (if IsEmpty v0 then (if emptyAsZero c then Inr False else Inl EmptyString)
     else
       let v = trimmed c v0 in
       if 5 < length v then Inl NotConvertible
       else if v \<in> set true_texts then Inr True
       else if v \<in> set false_texts then Inr False
       else Inl NotConvertible)"

text \<open>\<open>reflect\<close> follows pointers to the value behind them; a nil pointer gives no value.\<close>

fun indirectValue :: "'f any \<Rightarrow> 'f any option" where
  "indirectValue (APtr ty p) = (case p of None \<Rightarrow> None | Some v \<Rightarrow> indirectValue v)"
| "indirectValue ANil = None"
| "indirectValue v = Some v"

definition boolFromReflect :: "'f float_ops \<Rightarrow> Converter \<Rightarrow> 'f any \<Rightarrow> bool conv" where
  "boolFromReflect fl c from_v = (case indirectValue from_v of
      None \<Rightarrow> if nilAsZero c then Inr False else Inl NotConvertible
    | Some v \<Rightarrow> (case v of
        AString s \<Rightarrow> stringToBool c s
      | ABool b \<Rightarrow> Inr b
      | AInt k i \<Rightarrow> Inr (i \<noteq> 0)
      | AUint k i \<Rightarrow> Inr (i \<noteq> 0)
      | AFloat f \<Rightarrow> Inr (\<not> is_zero fl f)
      | AComplex f \<Rightarrow> Inr (\<not> is_zero fl f)
      | ALen n \<Rightarrow> Inr (0 < n)
      | ATime z \<Rightarrow> Inr (\<not> z)
      | _ \<Rightarrow> Inl NotConvertible))"

fun conv_Bool :: "'f float_ops \<Rightarrow> Converter \<Rightarrow> 'f any \<Rightarrow> bool conv" where
  "conv_Bool fl c ANil = (if nilAsZero c then Inr False else Inl NotConvertible)"
| "conv_Bool fl c (ABool b) = Inr b"
| "conv_Bool fl c (AString s) = stringToBool c s"
| "conv_Bool fl c v = boolFromReflect fl c v"

section \<open>Signed integers\<close>

definition MaxInt64 :: int where "MaxInt64 = 2 ^ 63 - 1"

definition stringToInt64 :: "'f float_ops \<Rightarrow> Converter \<Rightarrow> gostring \<Rightarrow> int conv" where
  "stringToInt64 fl c v0 =
    (if IsEmpty v0 then (if emptyAsZero c then Inr 0 else Inl EmptyString)
     else
       let v = trimmed c v0 in
       case Atoi v of
         Some n \<Rightarrow> Inr n
       | None \<Rightarrow> (case ParseFloat fl v of
           Some f \<Rightarrow> if strictMode c \<and> \<not> is_trunc fl f then Inl Lossy else Inr (to_int64 fl f)
         | None \<Rightarrow> (case stringToBool c v of
             Inr b \<Rightarrow> Inr (if b then 1 else 0)
           | Inl _ \<Rightarrow> Inl NotConvertible)))"

definition int64FromReflect :: "'f float_ops \<Rightarrow> Converter \<Rightarrow> 'f any \<Rightarrow> int conv" where
  "int64FromReflect fl c from_v = (case indirectValue from_v of
      None \<Rightarrow> if nilAsZero c then Inr 0 else Inl NotConvertible
    | Some v \<Rightarrow> (case v of
        AString s \<Rightarrow> stringToInt64 fl c s
      | AInt k i \<Rightarrow> Inr i
      | AUint k i \<Rightarrow> Inr (if MaxInt64 < i then MaxInt64 else i)
      | AFloat f \<Rightarrow> if strictMode c \<and> \<not> is_trunc fl f then Inl Lossy else Inr (to_int64 fl f)
      | AComplex f \<Rightarrow> Inr (to_int64 fl f)
      | ABool b \<Rightarrow> Inr (if b then 1 else 0)
      | ALen n \<Rightarrow> Inr (int n)
      | _ \<Rightarrow> Inl NotConvertible))"

fun Int64 :: "'f float_ops \<Rightarrow> Converter \<Rightarrow> 'f any \<Rightarrow> int conv" where
  "Int64 fl c ANil = (if nilAsZero c then Inr 0 else Inl NotConvertible)"
| "Int64 fl c (AInt k i) = Inr i"
| "Int64 fl c (AString s) = stringToInt64 fl c s"
| "Int64 fl c (AFloat f) = (if strictMode c \<and> \<not> is_trunc fl f then Inl Lossy else Inr (to_int64 fl f))"
| "Int64 fl c (ABool b) = Inr (if b then 1 else 0)"
| "Int64 fl c (APtr ty v) =
    (if ty \<in> {PInt64, PInt, PString} \<and> v = None then Inr 0 else int64FromReflect fl c (APtr ty v))"
| "Int64 fl c v = int64FromReflect fl c v"

text \<open>The common body of the narrower conversions: a value of the target type is returned
  as it is, everything else goes through \<open>Int64\<close> and is limited to the range of the target.\<close>

definition clamp_to :: "Converter \<Rightarrow> int \<Rightarrow> int \<Rightarrow> int \<Rightarrow> int conv" where
  "clamp_to c lo hi n =
    (if hi < n \<or> n < lo
     then (if strictMode c then Inl Overflows else if hi < n then Inr hi else Inr lo)
     else Inr n)"

definition narrow :: "Converter \<Rightarrow> int \<Rightarrow> int \<Rightarrow> int conv \<Rightarrow> int conv" where
  "narrow c lo hi r = (case r of Inl _ \<Rightarrow> Inl NotConvertible | Inr n \<Rightarrow> clamp_to c lo hi n)"

definition conv_Int :: "'f float_ops \<Rightarrow> Converter \<Rightarrow> 'f any \<Rightarrow> int conv" where
  "conv_Int fl c v = (case v of AInt KInt i \<Rightarrow> Inr i | _ \<Rightarrow> narrow c (- (2 ^ 63)) MaxInt64 (Int64 fl c v))"

definition Int8 :: "'f float_ops \<Rightarrow> Converter \<Rightarrow> 'f any \<Rightarrow> int conv" where
  "Int8 fl c v = (case v of AInt KInt8 i \<Rightarrow> Inr i | _ \<Rightarrow> narrow c (- 128) 127 (Int64 fl c v))"

definition Int16 :: "'f float_ops \<Rightarrow> Converter \<Rightarrow> 'f any \<Rightarrow> int conv" where
  "Int16 fl c v = (case v of AInt KInt16 i \<Rightarrow> Inr i | _ \<Rightarrow> narrow c (- 32768) 32767 (Int64 fl c v))"

definition Int32 :: "'f float_ops \<Rightarrow> Converter \<Rightarrow> 'f any \<Rightarrow> int conv" where
  "Int32 fl c v = (case v of AInt KInt32 i \<Rightarrow> Inr i | _ \<Rightarrow> narrow c (- 2147483648) 2147483647 (Int64 fl c v))"

definition IntOrDefault :: "'f float_ops \<Rightarrow> 'f any \<Rightarrow> int \<Rightarrow> int" where
  "IntOrDefault fl v d = (case conv_Int fl NewConverter v of Inr i \<Rightarrow> i | Inl _ \<Rightarrow> d)"

section \<open>Unsigned integers\<close>

text \<open>\<open>uint64(math.Max(0, f))\<close>\<close>

definition float_to_uint64 :: "'f float_ops \<Rightarrow> 'f \<Rightarrow> int" where
  "float_to_uint64 fl f = (if is_neg fl f then 0 else to_uint64 fl f)"

definition stringToUint64 :: "'f float_ops \<Rightarrow> Converter \<Rightarrow> gostring \<Rightarrow> int conv" where
  "stringToUint64 fl c v0 =
    (if IsEmpty v0 then (if emptyAsZero c then Inr 0 else Inl EmptyString)
     else
       let v = trimmed c v0 in
       case ParseUint v of
         Some n \<Rightarrow> Inr n
       | None \<Rightarrow> (case ParseFloat fl v of
           Some f \<Rightarrow> Inr (float_to_uint64 fl f)
         | None \<Rightarrow> (case stringToBool c v of
             Inr b \<Rightarrow> Inr (if b then 1 else 0)
           | Inl _ \<Rightarrow> Inl NotConvertible)))"

definition uint64FromReflect :: "'f float_ops \<Rightarrow> Converter \<Rightarrow> 'f any \<Rightarrow> int conv" where
  "uint64FromReflect fl c from_v = (case indirectValue from_v of
      None \<Rightarrow> if nilAsZero c then Inr 0 else Inl NotConvertible
    | Some v \<Rightarrow> (case v of
        AString s \<Rightarrow> stringToUint64 fl c s
      | AUint k i \<Rightarrow> Inr i
      | AInt k i \<Rightarrow> Inr (if i < 0 then 0 else i)
      | AFloat f \<Rightarrow> Inr (float_to_uint64 fl f)
      | AComplex f \<Rightarrow> Inr (float_to_uint64 fl f)
      | ABool b \<Rightarrow> Inr (if b then 1 else 0)
      | ALen n \<Rightarrow> Inr (int n)
      | _ \<Rightarrow> Inl NotConvertible))"

fun Uint64 :: "'f float_ops \<Rightarrow> Converter \<Rightarrow> 'f any \<Rightarrow> int conv" where
  "Uint64 fl c ANil = (if nilAsZero c then Inr 0 else Inl NotConvertible)"
| "Uint64 fl c (AUint k i) = Inr i"
| "Uint64 fl c (AInt k i) = Inr (if i < 0 then 0 else i)"
| "Uint64 fl c (AString s) = stringToUint64 fl c s"
| "Uint64 fl c (AFloat f) = Inr (float_to_uint64 fl f)"
| "Uint64 fl c (ABool b) = Inr (if b then 1 else 0)"
| "Uint64 fl c (APtr ty v) =
    (if ty \<in> {PUint64, PUint, PString} \<and> v = None then Inr 0 else uint64FromReflect fl c (APtr ty v))"
| "Uint64 fl c v = uint64FromReflect fl c v"

definition MaxUint64 :: int where "MaxUint64 = 2 ^ 64 - 1"

definition conv_Uint :: "'f float_ops \<Rightarrow> Converter \<Rightarrow> 'f any \<Rightarrow> int conv" where
  "conv_Uint fl c v = (case v of AUint KUint i \<Rightarrow> Inr i | _ \<Rightarrow> narrow c 0 MaxUint64 (Uint64 fl c v))"

definition Uint8 :: "'f float_ops \<Rightarrow> Converter \<Rightarrow> 'f any \<Rightarrow> int conv" where
  "Uint8 fl c v = (case v of AUint KUint8 i \<Rightarrow> Inr i | _ \<Rightarrow> narrow c 0 255 (Uint64 fl c v))"

definition Uint16 :: "'f float_ops \<Rightarrow> Converter \<Rightarrow> 'f any \<Rightarrow> int conv" where
  "Uint16 fl c v = (case v of AUint KUint16 i \<Rightarrow> Inr i | _ \<Rightarrow> narrow c 0 65535 (Uint64 fl c v))"

definition Uint32 :: "'f float_ops \<Rightarrow> Converter \<Rightarrow> 'f any \<Rightarrow> int conv" where
  "Uint32 fl c v = (case v of AUint KUint32 i \<Rightarrow> Inr i | _ \<Rightarrow> narrow c 0 4294967295 (Uint64 fl c v))"

section \<open>Texts of integers (\<open>string.go\<close>)\<close>

text \<open>The texts of integers and booleans; the other cases of \<open>String\<close> are not modelled.\<close>

fun conv_String :: "'f any \<Rightarrow> gostring option" where
  "conv_String (AString s) = Some s"
| "conv_String (ABool b) = Some (if b then ''true'' else ''false'')"
| "conv_String (AInt k i) = Some (itoa i)"
| "conv_String (AUint k i) = Some (digits (nat i))"
| "conv_String _ = None"

section \<open>Ranges\<close>

text \<open>What Go's types guarantee of a value, and what the operations on floating-point numbers
  guarantee of their results.\<close>

fun int_range :: "int_kind \<Rightarrow> int \<times> int" where
  "int_range KInt = (- (2 ^ 63), 2 ^ 63 - 1)"
| "int_range KInt8 = (- 128, 127)"
| "int_range KInt16 = (- 32768, 32767)"
| "int_range KInt32 = (- 2147483648, 2147483647)"
| "int_range KInt64 = (- (2 ^ 63), 2 ^ 63 - 1)"

fun uint_max :: "uint_kind \<Rightarrow> int" where
  "uint_max KUint = 2 ^ 64 - 1"
| "uint_max KUint8 = 255"
| "uint_max KUint16 = 65535"
| "uint_max KUint32 = 4294967295"
| "uint_max KUint64 = 2 ^ 64 - 1"
| "uint_max KUintptr = 2 ^ 64 - 1"

fun wt_any :: "'f any \<Rightarrow> bool" where
  "wt_any (AInt k i) \<longleftrightarrow> fst (int_range k) \<le> i \<and> i \<le> snd (int_range k)"
| "wt_any (AUint k i) \<longleftrightarrow> 0 \<le> i \<and> i \<le> uint_max k"
| "wt_any (ALen n) \<longleftrightarrow> int n \<le> MaxInt64"
| "wt_any (APtr ty p) \<longleftrightarrow> (case p of None \<Rightarrow> True | Some v \<Rightarrow> wt_any v)"
| "wt_any _ \<longleftrightarrow> True"

definition wt_floats :: "'f float_ops \<Rightarrow> bool" where
  "wt_floats fl \<longleftrightarrow> (\<forall>f. in_int64 (to_int64 fl f) \<and> 0 \<le> to_uint64 fl f \<and> to_uint64 fl f \<le> MaxUint64)"

lemma int_range_in_int64: "fst (int_range k) \<le> i \<Longrightarrow> i \<le> snd (int_range k) \<Longrightarrow> in_int64 i"
  by (cases k) (simp_all add: in_int64_def)

lemma uint_max_le: "uint_max k \<le> MaxUint64"
  by (cases k) (simp_all add: MaxUint64_def)

lemma small_in_int64 [simp]: "in_int64 0" "in_int64 1" "in_int64 MaxInt64"
  by (simp_all add: in_int64_def MaxInt64_def)

lemma indirectValue_wt: "wt_any v \<Longrightarrow> indirectValue v = Some u \<Longrightarrow> wt_any u"
  by (induction v) (auto split: option.splits)

lemma stringToInt64_range: "wt_floats fl \<Longrightarrow> stringToInt64 fl c s = Inr i \<Longrightarrow> in_int64 i"
  by (auto simp: stringToInt64_def wt_floats_def Let_def dest: Atoi_in_int64
      split: if_splits option.splits sum.splits)

lemma int64FromReflect_range:
  assumes "wt_floats fl" "wt_any v" "int64FromReflect fl c v = Inr i"
  shows "in_int64 i"
proof (cases "indirectValue v")
  case (Some u)
  note w = indirectValue_wt [OF assms(2) Some]
  show ?thesis
    using assms(1,3) w Some stringToInt64_range [OF assms(1), of c _ i] int_range_in_int64
    by (cases u) (auto simp: int64FromReflect_def wt_floats_def in_int64_def MaxInt64_def split: if_splits)
qed (use assms in \<open>auto simp: int64FromReflect_def split: if_splits\<close>)

lemma Int64_range:
  assumes "wt_floats fl" "wt_any v" "Int64 fl c v = Inr i"
  shows "in_int64 i"
  using assms int64FromReflect_range [OF assms(1,2), of c i]
  by (cases v) (auto simp: wt_floats_def int_range_in_int64 dest: stringToInt64_range [OF assms(1)] split: if_splits)

text \<open>Floating-point operations for the examples: no text is a number.\<close>

definition no_floats :: "unit float_ops" where
  "no_floats = \<lparr> ParseFloat = (\<lambda>_. None), is_trunc = (\<lambda>_. True), is_neg = (\<lambda>_. False),
     is_zero = (\<lambda>_. True), to_int64 = (\<lambda>_. 0), to_uint64 = (\<lambda>_. 0) \<rparr>"

section \<open>Properties\<close>

text \<open>The conversions to a signed type with their type and its range, and the unsigned ones.\<close>

definition int_conversions :: "'f float_ops \<Rightarrow> ((Converter \<Rightarrow> 'f any \<Rightarrow> int conv) \<times> int_kind) list" where
  "int_conversions fl = [(conv_Int fl, KInt), (Int8 fl, KInt8), (Int16 fl, KInt16), (Int32 fl, KInt32)]"

lemma clamp_to_result:
  "lo \<le> hi \<Longrightarrow> narrow c lo hi r = Inr i \<Longrightarrow> lo \<le> i \<and> i \<le> hi"
  "lo \<le> n \<and> n \<le> hi \<Longrightarrow> narrow c lo hi (Inr n) = Inr n"
  "n < lo \<Longrightarrow> narrow c lo hi (Inr n) = (if strictMode c then Inl Overflows else if hi < n then Inr hi else Inr lo)"
  "hi < n \<Longrightarrow> narrow c lo hi (Inr n) = (if strictMode c then Inl Overflows else Inr hi)"
  by (auto simp: narrow_def clamp_to_def split: sum.splits if_splits)

text \<open>The integer that a value stands for by itself: an integer, a boolean, or the decimal text of an integer.\<close>

definition denotes :: "'f any \<Rightarrow> int \<Rightarrow> bool" where
  "denotes v n \<longleftrightarrow> (case v of
      AInt k i \<Rightarrow> n = i
    | AUint k i \<Rightarrow> n = i
    | ABool b \<Rightarrow> n = (if b then 1 else 0)
    | AString s \<Rightarrow> s = itoa n
    | _ \<Rightarrow> False)"

lemma Int64_text: "in_int64 i \<Longrightarrow> Int64 fl c (AString (itoa i)) = Inr i"
  by (simp add: stringToInt64_def Let_def trimmed_def TrimSpace_visible itoa_visible IsEmpty_visible Atoi_itoa)

lemma Int64_denotes: "denotes v n \<Longrightarrow> in_int64 n \<Longrightarrow> Int64 fl c v = Inr n"
  by (cases v) (auto simp: denotes_def Int64_text int64FromReflect_def in_int64_def MaxInt64_def simp del: Int64.simps(3))

lemma Int64_big: "wt_any (AUint l n) \<Longrightarrow> \<not> in_int64 n \<Longrightarrow> Int64 fl c (AUint l n) = Inr MaxInt64"
  by (simp add: int64FromReflect_def in_int64_def MaxInt64_def)

text \<open>C37: the conversions to \<open>int\<close>, \<open>int8\<close>, \<open>int16\<close> and \<open>int32\<close> only return values of their
  type.  An integer of 64 bits, as a signed or unsigned value, a boolean or a decimal text, is converted
  exactly when it is in the range, and otherwise it is an error in strict mode and becomes the
  nearest value of the range else.  A \<open>uint64\<close> above the largest \<open>int64\<close> is likewise an error or the
  largest value, except that \<open>int\<close> gives its largest value in strict mode too.  Every other value is converted
  as the result of \<open>Int64\<close> on it, and an error of \<open>Int64\<close> is an error.\<close>

theorem narrow_conversions:
  assumes "wt_any v" and "(f, k) \<in> set (int_conversions fl)" and "int_range k = (lo, hi)"
  shows "(\<forall>i. f c v = Inr i \<longrightarrow> lo \<le> i \<and> i \<le> hi)
    \<and> (\<forall>n. denotes v n \<and> in_int64 n \<longrightarrow>
          f c v = (if lo \<le> n \<and> n \<le> hi then Inr n else if strictMode c then Inl Overflows else Inr (if hi < n then hi else lo)))
    \<and> (\<forall>l n. v = AUint l n \<and> \<not> in_int64 n \<longrightarrow> f c v = (if strictMode c \<and> k \<noteq> KInt then Inl Overflows else Inr hi))
    \<and> (\<forall>n. Int64 fl c v = Inr n \<longrightarrow>
          f c v = (if lo \<le> n \<and> n \<le> hi then Inr n else if strictMode c then Inl Overflows else Inr (if hi < n then hi else lo)))
    \<and> (\<forall>e. Int64 fl c v = Inl e \<longrightarrow> f c v = Inl NotConvertible)"
proof -
  have f: "f c v = (case v of AInt k' i \<Rightarrow> if k' = k then Inr i else narrow c lo hi (Int64 fl c v)
      | _ \<Rightarrow> narrow c lo hi (Int64 fl c v))" and r: "lo \<le> hi"
    using assms(2,3) by (cases v; cases k;
      auto simp: int_conversions_def conv_Int_def Int8_def Int16_def Int32_def MaxInt64_def split: int_kind.splits)+
  have n: "f c v = narrow c lo hi (Int64 fl c v)"
    using f assms(1,3) by (cases v) (auto simp: narrow_def clamp_to_def)
  have "f c v = (if strictMode c \<and> k \<noteq> KInt then Inl Overflows else Inr hi)" if "v = AUint l n" "\<not> in_int64 n" for l n
  proof -
    have "Int64 fl c v = Inr MaxInt64" using Int64_big [of l n fl c] assms(1) that by simp
    moreover have "lo \<le> MaxInt64" "hi \<le> MaxInt64" "hi < MaxInt64 \<longleftrightarrow> k \<noteq> KInt"
      using assms(2,3) by (auto simp: int_conversions_def MaxInt64_def)
    ultimately show ?thesis unfolding n by (auto simp: narrow_def clamp_to_def)
  qed
  moreover have "\<forall>n. denotes v n \<and> in_int64 n \<longrightarrow> Int64 fl c v = Inr n" using Int64_denotes by blast
  ultimately show ?thesis
    unfolding n using r by (auto simp: narrow_def clamp_to_def split: sum.splits if_splits)
qed

lemma narrow_conversions_witness:
  "Int8 no_floats (WithStrictMode True NewConverter) (AInt KInt 300) = Inl Overflows
    \<and> Int8 no_floats NewConverter (AString (itoa (- 300))) = Inr (- 128)"
proof -
  have k: "(Int8 no_floats, KInt8) \<in> set (int_conversions no_floats)" "int_range KInt8 = (- 128, 127)"
    by (simp_all add: int_conversions_def)
  have v: "wt_any (AInt KInt 300 :: unit any)" "wt_any (AString (itoa (- 300)) :: unit any)" by simp_all
  note narrow_conversions [OF v(1) k, of "WithStrictMode True NewConverter"] narrow_conversions [OF v(2) k, of NewConverter]
  moreover have "denotes (AInt KInt 300 :: unit any) 300" "denotes (AString (itoa (- 300)) :: unit any) (- 300)"
    "in_int64 300" "in_int64 (- 300)"
    by (simp_all add: denotes_def in_int64_def)
  ultimately show ?thesis by (simp add: WithStrictMode_def NewConverter_def)
qed

text \<open>the text of an integer or a boolean reads back as the value, whatever the
  configuration.\<close>

theorem text_roundtrip:
  fixes fl :: "'f float_ops"
  assumes "wt_any (AInt k i :: 'f any)" and "wt_any (AUint l j :: 'f any)"
  shows "Int64 fl c (AString (the (conv_String (AInt k i :: 'f any)))) = Inr i
    \<and> Uint64 fl c (AString (the (conv_String (AUint l j :: 'f any)))) = Inr j
    \<and> conv_Bool fl c (AString (the (conv_String (ABool b :: 'f any)))) = Inr b"
proof (intro conjI)
  have t: "trimmed c s = s" if "list_all visible s" for s
    using that by (simp add: trimmed_def TrimSpace_visible)
  have "in_int64 i" using assms(1) by (auto intro: int_range_in_int64)
  then show "Int64 fl c (AString (the (conv_String (AInt k i :: 'f any)))) = Inr i"
    by (simp add: Int64_text del: Int64.simps(3))
  have "0 \<le> j" "j < 2 ^ 64" using assms(2) uint_max_le [of l] by (simp_all add: MaxUint64_def)
  then show "Uint64 fl c (AString (the (conv_String (AUint l j :: 'f any)))) = Inr j"
    using ParseUint_digits [of "nat j"] digits_facts [of "nat j"]
    by (simp add: stringToUint64_def Let_def t digits_visible IsEmpty_visible nat_less_iff)
  have "list_all visible ''true''" "list_all visible ''false''" by (simp_all add: visible_def)
  then show "conv_Bool fl c (AString (the (conv_String (ABool b :: 'f any)))) = Inr b"
    using t [of "''true''"] t [of "''false''"]
    by (simp add: stringToBool_def Let_def IsEmpty_visible true_texts_def false_texts_def)
qed

lemma text_roundtrip_witness:
  "Int64 no_floats NewConverter (AString (the (conv_String (AInt KInt8 (- 7) :: unit any)))) = Inr (- 7)
    \<and> Uint64 no_floats NewConverter (AString (the (conv_String (AUint KUint8 200 :: unit any)))) = Inr 200"
  using text_roundtrip [of KInt8 "- 7" KUint8 200 no_floats NewConverter] by simp

text \<open>strict mode, documented to refuse lossy conversions, still converts the largest
  \<open>uint64\<close> to the largest \<open>int64\<close> and \<open>-1\<close> to the unsigned \<open>0\<close>; and when nil is not to be
  zero, a nil \<open>*int\<close> still is, though a nil pointer to another type is refused.\<close>

theorem strict_mode_is_lossy:
  "Int64 fl (WithStrictMode True NewConverter) (AUint KUint64 MaxUint64) = Inr MaxInt64
   \<and> Uint64 fl (WithStrictMode True NewConverter) (AInt KInt (- 1)) = Inr 0
   \<and> Int64 fl (DisableNilAsZero NewConverter) (APtr PInt None) = Inr 0
   \<and> Int64 fl (DisableNilAsZero NewConverter) (APtr POther None) = Inl NotConvertible"
  by (simp add: int64FromReflect_def MaxUint64_def MaxInt64_def DisableNilAsZero_def WithNilAsZero_def)

end
