(* ===== verification/CronParse.thy ===== *)
theory CronParse
  imports CronNext Conv
begin

text \<open>
  The parser of cron expressions (\<open>pkg/crontask\<close>: \<open>utilities.go\<close>, \<open>entry.go\<close>, \<open>default.go\<close>,
  the tables of \<open>constant.go\<close>) and the alias table.  The time zone database, the parser of
  durations and floating-point numbers are arguments.  An error carries the values that its
  message formats instead of the text.
\<close>

section \<open>Fields\<close>

record fieldSpec =
  fmin :: int
  fmax :: int
  fname :: gostring

definition cronFields :: "fieldSpec list" where
  "cronFields =
    [\<lparr> fmin = 0, fmax = 59, fname = ''minute'' \<rparr>,
     \<lparr> fmin = 0, fmax = 23, fname = ''hour'' \<rparr>,
     \<lparr> fmin = 1, fmax = 31, fname = ''day-of-month'' \<rparr>,
     \<lparr> fmin = 1, fmax = 12, fname = ''month'' \<rparr>,
     \<lparr> fmin = 0, fmax = 7, fname = ''day-of-week'' \<rparr>]"

definition cronFieldsWithSeconds :: "fieldSpec list" where
  "cronFieldsWithSeconds =
    [\<lparr> fmin = 0, fmax = 59, fname = ''second'' \<rparr>,
     \<lparr> fmin = 0, fmax = 59, fname = ''minute'' \<rparr>,
     \<lparr> fmin = 0, fmax = 23, fname = ''hour'' \<rparr>,
     \<lparr> fmin = 1, fmax = 31, fname = ''day-of-month'' \<rparr>,
     \<lparr> fmin = 1, fmax = 12, fname = ''month'' \<rparr>,
     \<lparr> fmin = 0, fmax = 7, fname = ''day-of-week'' \<rparr>]"

definition monthNames :: "(gostring \<times> int) list" where
  "monthNames = [(''jan'', 1), (''feb'', 2), (''mar'', 3), (''apr'', 4), (''may'', 5), (''jun'', 6),
    (''jul'', 7), (''aug'', 8), (''sep'', 9), (''oct'', 10), (''nov'', 11), (''dec'', 12)]"

definition dowNames :: "(gostring \<times> int) list" where
  "dowNames = [(''sun'', 0), (''mon'', 1), (''tue'', 2), (''wed'', 3), (''thu'', 4), (''fri'', 5), (''sat'', 6)]"

datatype reason =
    InvalidStep gostring gostring | InvalidRangeStart gostring | InvalidRangeEnd gostring
  | RangeStartOut int int int | RangeEndOut int int int | RangeReversed int int
  | InvalidValue gostring | ValueOut int int int
  | ExpressionEmpty | MissingFields | UnknownTimezone gostring | InvalidDuration gostring
  | IntervalNotPositive | UnknownAlias gostring | WrongFieldCount nat

datatype ExpressionError = ExpressionError (Expression: gostring) (Field: int) (Reason: reason)

text \<open>What the parser takes from outside.\<close>

record 'f cron_env =
  LoadLocation :: "gostring \<Rightarrow> zone option"
  ParseDuration :: "gostring \<Rightarrow> duration option"
  floats :: "'f float_ops"

definition parseNamedOrInt :: "'f cron_env \<Rightarrow> gostring \<Rightarrow> bool \<Rightarrow> bool \<Rightarrow> int option" where
  "parseNamedOrInt env s isMonth isDow =
    (if IsEmpty s then None
     else
       let lower = ToLower s;
           number = (case conv_Int (floats env) NewConverter (AString s) of Inl _ \<Rightarrow> None | Inr n \<Rightarrow> Some n);
           day = (case (if isDow then map_of dowNames lower else None) of Some n \<Rightarrow> Some n | None \<Rightarrow> number)
       in case (if isMonth then map_of monthNames lower else None) of Some n \<Rightarrow> Some n | None \<Rightarrow> day)"

definition day_of_week_name :: gostring where
  "day_of_week_name = ''day-of-week''"

definition setBit :: "bool list \<Rightarrow> int \<Rightarrow> fieldSpec \<Rightarrow> bool list" where
  "setBit bits v0 spec =
    (let v = (if fname spec = day_of_week_name \<and> v0 = 7 then 0 else v0)
     in if 0 \<le> v \<and> v < int (length bits) then bits[nat v := True] else bits)"

text \<open>\<open>for v := lo; v <= hi; v += step\<close>, where the addition wraps; the fuel is the number of
  passes.\<close>

fun setRange :: "nat \<Rightarrow> int \<Rightarrow> int \<Rightarrow> int \<Rightarrow> fieldSpec \<Rightarrow> bool list \<Rightarrow> bool list" where
  "setRange 0 v hi step spec bits = bits"
| "setRange (Suc k) v hi step spec bits =
    (if v \<le> hi then setRange k (wrap64 (v + step)) hi step spec (setBit bits v spec) else bits)"

definition passes :: nat where
  "passes = 130"

text \<open>\<open>parsePart\<close> up to its loop: the first and last value and the step.\<close>

definition partStep :: "gostring \<Rightarrow> gostring \<Rightarrow> int \<Rightarrow> ExpressionError + int \<times> gostring" where
  "partStep expr part fieldIndex =
    (case Index part (CHR ''/'') of
       None \<Rightarrow> Inr (1, part)
     | Some idx \<Rightarrow>
         let stepStr = drop (idx + 1) part in
         case Atoi stepStr of
           None \<Rightarrow> Inl (ExpressionError expr fieldIndex (InvalidStep stepStr part))
         | Some step \<Rightarrow>
             if step \<le> 0 then Inl (ExpressionError expr fieldIndex (InvalidStep stepStr part))
             else Inr (step, take idx part))"

definition partRange ::
    "'f cron_env \<Rightarrow> gostring \<Rightarrow> gostring \<Rightarrow> int \<Rightarrow> fieldSpec \<Rightarrow> ExpressionError + int \<times> int" where
  "partRange env expr part fieldIndex spec =
    (let isMonth = (fname spec = ''month''); isDow = (fname spec = day_of_week_name);
         fail = (\<lambda>r. Inl (ExpressionError expr fieldIndex r))
     in
     if part = ''*'' \<or> part = ''?'' then Inr (fmin spec, fmax spec)
     else case Index part (CHR ''-'') of
       Some idx \<Rightarrow>
         (let loStr = take idx part; hiStr = drop (idx + 1) part in
          case parseNamedOrInt env loStr isMonth isDow of
            None \<Rightarrow> fail (InvalidRangeStart loStr)
          | Some lo \<Rightarrow>
         (case parseNamedOrInt env hiStr isMonth isDow of
            None \<Rightarrow> fail (InvalidRangeEnd hiStr)
          | Some hi \<Rightarrow>
             if lo < fmin spec \<or> fmax spec < lo then fail (RangeStartOut lo (fmin spec) (fmax spec))
             else if hi < fmin spec \<or> fmax spec < hi then fail (RangeEndOut hi (fmin spec) (fmax spec))
             else if hi < lo then fail (RangeReversed lo hi)
             else Inr (lo, hi)))
     | None \<Rightarrow>
         (case parseNamedOrInt env part isMonth isDow of
            None \<Rightarrow> fail (InvalidValue part)
          | Some v \<Rightarrow>
             if v < fmin spec \<or> fmax spec < v then fail (ValueOut v (fmin spec) (fmax spec))
             else Inr (v, v)))"

definition parsePart ::
    "'f cron_env \<Rightarrow> gostring \<Rightarrow> gostring \<Rightarrow> int \<Rightarrow> fieldSpec \<Rightarrow> bool list \<Rightarrow> ExpressionError + bool list" where
  "parsePart env expr part fieldIndex spec bits =
    (case partStep expr part fieldIndex of
       Inl e \<Rightarrow> Inl e
     | Inr (step, part') \<Rightarrow>
        (case partRange env expr part' fieldIndex spec of
           Inl e \<Rightarrow> Inl e
         | Inr (lo, hi) \<Rightarrow> Inr (setRange passes lo hi step spec bits)))"

fun parseParts ::
    "'f cron_env \<Rightarrow> gostring \<Rightarrow> gostring list \<Rightarrow> int \<Rightarrow> fieldSpec \<Rightarrow> bool list \<Rightarrow> ExpressionError + bool list" where
  "parseParts env expr [] fieldIndex spec bits = Inr bits"
| "parseParts env expr (part # parts) fieldIndex spec bits =
    (case parsePart env expr part fieldIndex spec bits of
       Inl e \<Rightarrow> Inl e
     | Inr bits' \<Rightarrow> parseParts env expr parts fieldIndex spec bits')"

definition parseField ::
    "'f cron_env \<Rightarrow> gostring \<Rightarrow> gostring \<Rightarrow> int \<Rightarrow> fieldSpec \<Rightarrow> bool list \<Rightarrow> ExpressionError + bool list" where
  "parseField env expr field fieldIndex spec bits =
    parseParts env expr (Split_at field (CHR '','')) fieldIndex spec bits"

text \<open>The loop over the fields, each into its table, made with \<open>make([]bool, n)\<close>.\<close>

fun parseFields ::
    "'f cron_env \<Rightarrow> gostring \<Rightarrow> int \<Rightarrow> (gostring \<times> fieldSpec \<times> nat) list \<Rightarrow> ExpressionError + bool list list" where
  "parseFields env raw i [] = Inr []"
| "parseFields env raw i ((f, spec, n) # rest) =
    (case parseField env raw f i spec (replicate n False) of
       Inl e \<Rightarrow> Inl e
     | Inr bits \<Rightarrow> (case parseFields env raw (i + 1) rest of
           Inl e \<Rightarrow> Inl e
         | Inr tables \<Rightarrow> Inr (bits # tables)))"

definition parseFiveField :: "'f cron_env \<Rightarrow> gostring \<Rightarrow> gostring list \<Rightarrow> zone \<Rightarrow> ExpressionError + cronSchedule" where
  "parseFiveField env raw fs z =
    (case parseFields env raw 0 (zip fs (zip cronFields [60, 24, 32, 13, 8])) of
       Inl e \<Rightarrow> Inl e
     | Inr t \<Rightarrow> Inr \<lparr> second = [], minute = t ! 0, hour = t ! 1, dayOfMonth = t ! 2, month = t ! 3,
                     dayOfWeek = t ! 4, loc = z \<rparr>)"

definition parseSixField :: "'f cron_env \<Rightarrow> gostring \<Rightarrow> gostring list \<Rightarrow> zone \<Rightarrow> ExpressionError + cronSchedule" where
  "parseSixField env raw fs z =
    (case parseFields env raw 0 (zip fs (zip cronFieldsWithSeconds [60, 60, 24, 32, 13, 8])) of
       Inl e \<Rightarrow> Inl e
     | Inr t \<Rightarrow> Inr \<lparr> second = t ! 0, minute = t ! 1, hour = t ! 2, dayOfMonth = t ! 3, month = t ! 4,
                     dayOfWeek = t ! 5, loc = z \<rparr>)"

section \<open>Expressions and aliases\<close>

type_synonym aliases = "gostring \<Rightarrow> gostring option"

definition aliasMap :: "(gostring \<times> gostring) list" where
  "aliasMap =
   [(''@yearly'', ''0 0 1 1 *''), (''@annually'', ''0 0 1 1 *''), (''@monthly'', ''0 0 1 * *''),
    (''@weekly'', ''0 0 * * 0''), (''@daily'', ''0 0 * * *''), (''@midnight'', ''0 0 * * *''),
    (''@hourly'', ''0 * * * *''), (''@minutely'', ''* * * * *''), (''@weekdays'', ''0 0 * * 1-5''),
    (''@weekends'', ''0 0 * * 0,6''),
    (''@businessdaily'', ''0 9 * * 1-5''), (''@businesshourly'', ''0 9-17 * * 1-5''),
    (''@quarterly'', ''0 0 1 1,4,7,10 *''), (''@semimonthly'', ''0 0 1,15 * *''),
    (''@workhours'', ''* 9-17 * * 1-5''), (''@marketopen'', ''30 9 * * 1-5''),
    (''@marketclose'', ''0 16 * * 1-5''), (''@endofday'', ''0 17 * * 1-5''),
    (''@startofday'', ''0 8 * * 1-5''), (''@lunchtime'', ''0 12 * * 1-5''),
    (''@endofweek'', ''0 17 * * 5''), (''@startofweek'', ''0 8 * * 1''),
    (''@endofmonth'', ''59 23 28 * *''), (''@payroll'', ''0 8 1,15 * *''),
    (''@nightlymaintenance'', ''0 2 * * *''), (''@premarket'', ''0 8 * * 1-5''),
    (''@aftermarket'', ''0 17 * * 1-5''), (''@midmarket'', ''30 12 * * 1-5''),
    (''@quarterend'', ''59 23 31 3,6,9,12 *''), (''@taxdeadline'', ''0 8 15 4 *''),
    (''@regulatoryopen'', ''0 7 * * 1-5''), (''@offpeakhourly'', ''0 20-23,0-6 * * *''),
    (''@deploymentwindow'', ''0 22 * * 2,4''), (''@databasebackup'', ''0 1 * * *''),
    (''@weeklyreport'', ''0 8 * * 1''), (''@monthlyreport'', ''0 8 1 * *''),
    (''@customerdigest'', ''0 9 * * 1-5''), (''@slacheck'', ''*/15 9-17 * * 1-5'')]"

definition lookupAlias :: "aliases \<Rightarrow> gostring \<Rightarrow> gostring option" where
  "lookupAlias am name = am name"

definition fail_expr :: "gostring \<Rightarrow> reason \<Rightarrow> ExpressionError + 'a" where
  "fail_expr e r = Inl (ExpressionError e (- 1) r)"

text \<open>The last part of \<open>Parse\<close>, after aliases are expanded.\<close>

definition parseFieldList :: "'f cron_env \<Rightarrow> gostring \<Rightarrow> zone \<Rightarrow> ExpressionError + schedule" where
  "parseFieldList env expr z =
    (let fs = Fields expr in
     if length fs = 5 then map_sum id CronSchedule (parseFiveField env expr fs z)
     else if length fs = 6 then map_sum id CronSchedule (parseSixField env expr fs z)
     else fail_expr expr (WrongFieldCount (length fs)))"

text \<open>\<open>Parse\<close> after the time zone is split off.\<close>

definition parseIn :: "'f cron_env \<Rightarrow> aliases \<Rightarrow> gostring \<Rightarrow> zone \<Rightarrow> ExpressionError + schedule" where
  "parseIn env am expr z =
    (if HasPrefix expr ''@every '' then
       (let durationStr = drop 7 expr in
        case ParseDuration env (TrimSpace durationStr) of
          None \<Rightarrow> fail_expr expr (InvalidDuration durationStr)
        | Some d \<Rightarrow> if d \<le> 0 then fail_expr expr IntervalNotPositive else Inr (IntervalSchedule d))
     else if HasPrefix expr ''@'' then
       (case lookupAlias am (ToLower expr) of
          None \<Rightarrow> fail_expr expr (UnknownAlias expr)
        | Some expanded \<Rightarrow> parseFieldList env expanded z)
     else parseFieldList env expr z)"

definition Parse :: "'f cron_env \<Rightarrow> aliases \<Rightarrow> gostring \<Rightarrow> ExpressionError + schedule" where
  "Parse env am expr0 =
    (let expr = TrimSpace expr0 in
     if expr = '''' then fail_expr expr ExpressionEmpty
     else if HasPrefix expr ''TZ='' then
       (case Index expr (CHR '' '') of
          None \<Rightarrow> fail_expr expr MissingFields
        | Some idx \<Rightarrow>
            let tzName = drop 3 (take idx expr) in
            case LoadLocation env tzName of
              None \<Rightarrow> fail_expr expr (UnknownTimezone tzName)
            | Some z \<Rightarrow> parseIn env am (TrimSpace (drop (idx + 1) expr)) z)
     else parseIn env am expr UTC)"

definition Validate :: "'f cron_env \<Rightarrow> aliases \<Rightarrow> gostring \<Rightarrow> ExpressionError option" where
  "Validate env am expr =
    (if IsEmpty expr then Some (ExpressionError expr (- 1) ExpressionEmpty)
     else case Parse env am expr of Inl e \<Rightarrow> Some e | Inr _ \<Rightarrow> None)"

definition IsValidCronExpr :: "'f cron_env \<Rightarrow> aliases \<Rightarrow> gostring \<Rightarrow> bool" where
  "IsValidCronExpr env am expr \<longleftrightarrow> Validate env am expr = None"

text \<open>The convenience functions on expressions; the outer option is \<open>None\<close> when the search does
  not return.\<close>

definition IsDue_expr :: "'f cron_env \<Rightarrow> aliases \<Rightarrow> gostring \<Rightarrow> time \<Rightarrow> bool option" where
  "IsDue_expr env am expr t = (case Parse env am expr of Inl _ \<Rightarrow> Some False | Inr s \<Rightarrow> isDue s t)"

definition NextRun :: "'f cron_env \<Rightarrow> aliases \<Rightarrow> gostring \<Rightarrow> time \<Rightarrow> (ExpressionError + time) option" where
  "NextRun env am expr t = (case Parse env am expr of Inl e \<Rightarrow> Some (Inl e) | Inr s \<Rightarrow> map_option Inr (Next s t))"

definition NextRuns :: "'f cron_env \<Rightarrow> aliases \<Rightarrow> gostring \<Rightarrow> time \<Rightarrow> int \<Rightarrow> (ExpressionError + time list) option" where
  "NextRuns env am expr t n = (case Parse env am expr of
      Inl e \<Rightarrow> Some (Inl e)
    | Inr s \<Rightarrow> if n \<le> 0 then Some (Inr []) else map_option Inr (collect_next s (nat n) t))"

text \<open>\<open>MustParse\<close> panics on an error: \<open>None\<close>.\<close>

definition MustParse :: "'f cron_env \<Rightarrow> aliases \<Rightarrow> gostring \<Rightarrow> (gostring \<times> schedule) option" where
  "MustParse env am expr = (case Parse env am expr of Inl _ \<Rightarrow> None | Inr s \<Rightarrow> Some (expr, s))"

datatype alias_error = AliasEmpty | AliasNoAt | AliasFieldCount | AliasExpression ExpressionError | AliasNotFound

definition RegisterAlias :: "'f cron_env \<Rightarrow> aliases \<Rightarrow> gostring \<Rightarrow> gostring \<Rightarrow> alias_error option \<times> aliases" where
  "RegisterAlias env am name expr =
    (if IsEmpty name \<or> IsEmpty expr then (Some AliasEmpty, am)
     else if \<not> HasPrefix name ''@'' then (Some AliasNoAt, am)
     else
       let fs = Fields (TrimSpace expr) in
       if length fs \<noteq> 5 \<and> length fs \<noteq> 6 then (Some AliasFieldCount, am)
       else case Parse env am expr of
           Inl e \<Rightarrow> (Some (AliasExpression e), am)
         | Inr _ \<Rightarrow> (None, am(ToLower name \<mapsto> expr)))"

definition DeleteAlias :: "aliases \<Rightarrow> gostring \<Rightarrow> alias_error option \<times> aliases" where
  "DeleteAlias am name =
    (if IsEmpty name then (Some AliasEmpty, am)
     else if \<not> HasPrefix name ''@'' then (Some AliasNoAt, am)
     else let key = ToLower name in
       if am key = None then (Some AliasNotFound, am) else (None, am(key := None)))"

end
