(* ===== verification/CronParseProps.thy ===== *)
theory CronParseProps
  imports CronParse
begin

text \<open>
  What the parser of cron expressions accepts and the tables it builds: the loop that fills a
  range, the values of a field, the well-formedness of parsed schedules, and the alias table.
\<close>

section \<open>Filling a range\<close>

definition norm_day :: "fieldSpec \<Rightarrow> int \<Rightarrow> int" where
  "norm_day spec v = (if fname spec = day_of_week_name \<and> v = 7 then 0 else v)"

lemma length_setBit [simp]: "length (setBit bits v spec) = length bits"
  by (simp add: setBit_def Let_def)

lemma setBit_nth:
  "i < length bits \<Longrightarrow> setBit bits v spec ! i \<longleftrightarrow> bits ! i \<or> norm_day spec v = int i"
  by (auto simp: setBit_def norm_day_def Let_def nth_list_update)

lemma length_setRange [simp]: "length (setRange k v hi step spec bits) = length bits"
  by (induction k arbitrary: v bits) simp_all

lemma setRange_mono: "i < length bits \<Longrightarrow> bits ! i \<Longrightarrow> setRange k v hi step spec bits ! i"
  by (induction k arbitrary: v bits) (simp_all add: setBit_nth)

definition step_values :: "int \<Rightarrow> int \<Rightarrow> int \<Rightarrow> int set" where
  "step_values lo hi step = {v. lo \<le> v \<and> v \<le> hi \<and> step dvd v - lo}"

lemma step_values_unfold:
  assumes "lo \<le> hi" "0 < step"
  shows "step_values lo hi step = insert lo (step_values (lo + step) hi step)"
proof -
  have "lo + step \<le> v" if "lo \<le> v" "step dvd v - lo" "v \<noteq> lo" for v
    using zdvd_imp_le [OF that(2)] that by simp
  moreover have "step dvd v - lo \<longleftrightarrow> step dvd v - (lo + step)" for v
  proof -
    have "step dvd x + step \<longleftrightarrow> step dvd x" for x by simp
    from this [of "v - (lo + step)"] show ?thesis by (simp only: diff_add_cancel diff_diff_add [symmetric])
  qed
  ultimately show ?thesis using assms by (auto simp: step_values_def)
qed

lemma setRange_values:
  assumes "0 < step" "step \<le> 2 ^ 62" "0 \<le> lo" "hi \<le> 59" "lo \<le> 2 ^ 62 + 59" "nat (hi - lo + 1) < k"
    and "i < length bits"
  shows "setRange k lo hi step spec bits ! i \<longleftrightarrow>
    bits ! i \<or> (\<exists>v \<in> step_values lo hi step. norm_day spec v = int i)"
  using assms(3-)
proof (induction k arbitrary: lo bits)
  case (Suc k)
  show ?case
  proof (cases "lo \<le> hi")
    case True
    have w: "wrap64 (lo + step) = lo + step"
      using Suc.prems(1,2) True assms(1,2) by (intro wrap64_id) (simp add: in_int64_def)
    have "setRange k (lo + step) hi step spec (setBit bits lo spec) ! i \<longleftrightarrow>
        setBit bits lo spec ! i \<or> (\<exists>v \<in> step_values (lo + step) hi step. norm_day spec v = int i)"
      using Suc.prems True assms(1,2) by (intro Suc.IH) simp_all
    then show ?thesis
      using True w Suc.prems(5) by (auto simp: setBit_nth step_values_unfold [OF True assms(1)])
  qed (auto simp: step_values_def)
qed simp

text \<open>The fuel is enough for every step of an \<open>int\<close>: a huge step wraps at every second pass,
  and the value after both is lower than before.\<close>

lemma wrap64_high: "2 ^ 63 \<le> x \<Longrightarrow> x < 2 ^ 63 + 2 ^ 64 \<Longrightarrow> wrap64 x = x - 2 ^ 64"
proof -
  assume x: "2 ^ 63 \<le> x" "x < 2 ^ 63 + 2 ^ 64"
  have "(x + 2 ^ 63) mod 2 ^ 64 = (x + 2 ^ 63 - 2 ^ 64) mod 2 ^ 64" by (rule minus_mod_self2 [symmetric])
  also have "\<dots> = x + 2 ^ 63 - 2 ^ 64" using x by (intro mod_pos_pos_trivial) simp_all
  finally show ?thesis by (simp add: wrap64_def)
qed

lemma setRange_stop: "hi < v \<Longrightarrow> setRange k v hi step spec bits = bits"
  by (cases k) simp_all

lemma setRange_small_steps:
  assumes "0 < step" "step < 2 ^ 63 - 60" "0 \<le> lo" "hi \<le> 59" "lo < 2 ^ 63" "nat (hi - lo + 1) < k"
  shows "setRange (k + j) lo hi step spec bits = setRange k lo hi step spec bits"
  using assms(3-)
proof (induction k arbitrary: lo bits)
  case (Suc k)
  show ?case
  proof (cases "lo \<le> hi")
    case True
    have w: "wrap64 (lo + step) = lo + step"
      using Suc.prems(1,2) True assms(1,2) by (intro wrap64_id) (simp add: in_int64_def)
    show ?thesis
      using Suc.prems True assms(1,2) w Suc.IH [of "lo + step" "setBit bits lo spec"] by simp
  qed (simp add: setRange_stop)
qed simp

lemma setRange_huge_steps:
  assumes "2 ^ 63 - 60 \<le> step" "step < 2 ^ 63" "0 \<le> lo" "lo \<le> 59" "hi \<le> 59" "2 * nat lo + 3 < k"
  shows "setRange (k + j) lo hi step spec bits = setRange k lo hi step spec bits"
  using assms(3,4,6)
proof (induction "nat lo" arbitrary: lo bits k rule: less_induct)
  case less
  show ?case
  proof (cases "lo \<le> hi \<and> 2 ^ 63 \<le> lo + step")
    case False
    then consider "hi < lo" | "lo + step < 2 ^ 63" by linarith
    then show ?thesis
    proof cases
      case 2
      then have "wrap64 (lo + step) = lo + step" using assms(1) less.prems(1) by (intro wrap64_id) (simp add: in_int64_def)
      moreover have "hi < lo + step" using assms(1,5) less.prems(1) by simp
      ultimately show ?thesis using less.prems(3) by (cases k) (simp_all add: setRange_stop)
    qed (simp add: setRange_stop)
  next
    case True
    define k' where "k' = k - 3"
    have k: "k = Suc (Suc (Suc k'))" using less.prems(3) by (simp add: k'_def)
    let ?w = "lo + step - 2 ^ 64" and ?v = "lo + 2 * step - 2 ^ 64"
    let ?b = "setBit bits lo spec"
    have l: "0 \<le> lo" "lo \<le> 59" by fact+
    have w1: "wrap64 (lo + step) = ?w" using True assms(2) less.prems(2) by (intro wrap64_high) simp_all
    have h1: "?w \<le> hi" using assms(2,5) less.prems True by simp
    have w2: "wrap64 (?w + step) = ?v"
      using assms(1,2) less.prems(1,2) True by (subst wrap64_id) (simp_all add: in_int64_def)
    have b: "setBit ?b ?w spec = ?b" using assms(2) less.prems(2) by (simp add: setBit_def Let_def)
    have two: "setRange (Suc (Suc m)) lo hi step spec bits = setRange m ?v hi step spec ?b" for m
      using True h1 w1 w2 b by simp
    show ?thesis
    proof (cases "0 \<le> ?v")
      case True
      have n: "nat ?v < nat lo" using assms(2) less.prems(1) True by simp
      moreover have "2 * nat ?v + 3 < Suc k'" using less.prems(3) n unfolding k by linarith
      ultimately have "setRange (Suc k' + j) ?v hi step spec ?b = setRange (Suc k') ?v hi step spec ?b"
        using less.hyps [of ?v "Suc k'" ?b] True assms(2) less.prems(2) by simp
      then show ?thesis unfolding k using two [of "Suc k' + j"] two [of "Suc k'"] by simp
    next
      case False
      have w3: "wrap64 (?v + step) = ?v + step"
        using False assms(1) less.prems(1) by (intro wrap64_id) (simp add: in_int64_def)
      have b3: "setBit ?b ?v spec = ?b" using False by (simp add: setBit_def Let_def)
      have h3: "hi < ?v + step" using assms(1,5) less.prems(1) by simp
      have "setRange (Suc m) ?v hi step spec ?b = ?b" for m
        using w3 b3 setRange_stop [OF h3] by simp
      then show ?thesis unfolding k using two [of "Suc k' + j"] two [of "Suc k'"] by simp
    qed
  qed
qed

lemma setRange_fuel:
  assumes "0 < step" "step < 2 ^ 63" "0 \<le> lo" "lo \<le> hi" "hi \<le> 59"
  shows "setRange (passes + j) lo hi step spec bits = setRange passes lo hi step spec bits"
proof (cases "step < 2 ^ 63 - 60")
  case True
  show ?thesis
    using assms True by (intro setRange_small_steps) (simp_all add: passes_def nat_less_iff)
next
  case False
  have "nat lo \<le> 59" using assms by simp
  then have "2 * nat lo + 3 < passes" by (simp add: passes_def)
  moreover have "2 ^ 63 - 60 \<le> step" "lo \<le> 59" using assms False by simp_all
  ultimately show ?thesis using assms(2,3,5) by (intro setRange_huge_steps)
qed

section \<open>The values of a field\<close>

text \<open>The values that one part of a list denotes, or \<open>None\<close> when the part is refused.\<close>

definition part_bounds :: "'f cron_env \<Rightarrow> fieldSpec \<Rightarrow> gostring \<Rightarrow> (int \<times> int \<times> int) option" where
  "part_bounds env spec part =
    (case partStep [] part 0 of
       Inl _ \<Rightarrow> None
     | Inr (step, part') \<Rightarrow> (case partRange env [] part' 0 spec of
         Inl _ \<Rightarrow> None
       | Inr (lo, hi) \<Rightarrow> Some (lo, hi, step)))"

definition part_values :: "'f cron_env \<Rightarrow> fieldSpec \<Rightarrow> gostring \<Rightarrow> int set" where
  "part_values env spec part =
    (case part_bounds env spec part of None \<Rightarrow> {} | Some (lo, hi, step) \<Rightarrow> step_values lo hi step)"

definition wf_spec :: "fieldSpec \<Rightarrow> bool" where
  "wf_spec spec \<longleftrightarrow> 0 \<le> fmin spec \<and> fmin spec \<le> fmax spec \<and> fmax spec \<le> 59"

lemma cronFields_wf: "list_all wf_spec cronFields" "list_all wf_spec cronFieldsWithSeconds"
  by (simp_all add: cronFields_def cronFieldsWithSeconds_def wf_spec_def)

lemma partStep_cong:
  "(case partStep e part i of Inl _ \<Rightarrow> None | Inr r \<Rightarrow> Some r) = (case partStep [] part 0 of Inl _ \<Rightarrow> None | Inr r \<Rightarrow> Some r)"
  by (auto simp: partStep_def Let_def split: option.splits)

lemma partStep_step: "partStep e part i = Inr (step, p) \<Longrightarrow> 0 < step \<and> step < 2 ^ 63"
  by (auto simp: partStep_def Let_def in_int64_def dest!: Atoi_in_int64 split: option.splits if_splits)

lemma partRange_cong:
  "(case partRange env e part i spec of Inl _ \<Rightarrow> None | Inr r \<Rightarrow> Some r) =
   (case partRange env [] part 0 spec of Inl _ \<Rightarrow> None | Inr r \<Rightarrow> Some r)"
  by (simp add: partRange_def Let_def split: option.split)

lemma partRange_range:
  "partRange env e part i spec = Inr (lo, hi) \<Longrightarrow> fmin spec \<le> fmax spec \<Longrightarrow>
   fmin spec \<le> lo \<and> lo \<le> hi \<and> hi \<le> fmax spec"
  by (auto simp: partRange_def Let_def split: option.splits if_splits)

lemma part_bounds_range:
  assumes "part_bounds env spec part = Some (lo, hi, step)" and "wf_spec spec"
  shows "0 < step" "step < 2 ^ 63" "fmin spec \<le> lo" "lo \<le> hi" "hi \<le> fmax spec"
  using assms partRange_range [of env "[]" _ 0 spec lo hi] partStep_step [of "[]" part 0 step]
  by (auto simp: part_bounds_def wf_spec_def split: sum.splits prod.splits)

lemma parsePart_bounds:
  "(case parsePart env e part i spec bits of Inl _ \<Rightarrow> None | Inr b \<Rightarrow> Some b) =
   map_option (\<lambda>(lo, hi, step). setRange passes lo hi step spec bits) (part_bounds env spec part)"
proof (cases "partStep e part i")
  case (Inl a)
  with partStep_cong [of e part i] show ?thesis
    by (auto simp: parsePart_def part_bounds_def split: sum.splits)
next
  case (Inr r)
  obtain step p where r: "r = (step, p)" by (cases r)
  have s: "partStep [] part 0 = Inr (step, p)"
    using partStep_cong [of e part i] Inr r by (auto split: sum.splits)
  show ?thesis
    using partRange_cong [of env e p i spec] Inr r s
    by (auto simp: parsePart_def part_bounds_def split: sum.splits)
qed

lemma parsePart_Inr:
  assumes "parsePart env e part i spec bits = Inr b"
  obtains lo hi step where "part_bounds env spec part = Some (lo, hi, step)"
    "b = setRange passes lo hi step spec bits"
  using parsePart_bounds [of env e part i spec bits] assms by (cases "part_bounds env spec part") auto

lemma parsePart_Inl: "(\<exists>x. parsePart env e part i spec bits = Inl x) \<longleftrightarrow> part_bounds env spec part = None"
  using parsePart_bounds [of env e part i spec bits] 
  by (cases "parsePart env e part i spec bits"; cases "part_bounds env spec part") auto

definition small_steps :: "'f cron_env \<Rightarrow> fieldSpec \<Rightarrow> gostring \<Rightarrow> bool" where
  "small_steps env spec part \<longleftrightarrow>
    (case part_bounds env spec part of None \<Rightarrow> True | Some (lo, hi, step) \<Rightarrow> step \<le> 2 ^ 62)"

lemma parsePart_values:
  assumes "parsePart env e part i spec bits = Inr b" and "wf_spec spec" and "small_steps env spec part"
    and "j < length bits"
  shows "length b = length bits"
    "b ! j \<longleftrightarrow> bits ! j \<or> (\<exists>v \<in> part_values env spec part. norm_day spec v = int j)"
proof -
  obtain lo hi step where p: "part_bounds env spec part = Some (lo, hi, step)"
    "b = setRange passes lo hi step spec bits"
    by (rule parsePart_Inr [OF assms(1)])
  note r = part_bounds_range [OF p(1) assms(2)]
  from p show "length b = length bits" by simp
  have "nat (hi - lo + 1) < passes" using r assms(2) by (simp add: wf_spec_def passes_def nat_less_iff)
  then show "b ! j \<longleftrightarrow> bits ! j \<or> (\<exists>v \<in> part_values env spec part. norm_day spec v = int j)"
    using p r assms(2-4) setRange_values [of step lo hi passes j bits spec]
    by (simp add: wf_spec_def small_steps_def part_values_def)
qed

lemma parseParts_values:
  assumes "wf_spec spec" and "\<forall>part \<in> set parts. small_steps env spec part"
    and "parseParts env e parts i spec bits = Inr b" and "j < length bits"
  shows "length b = length bits \<and>
    (b ! j \<longleftrightarrow> bits ! j \<or> (\<exists>part \<in> set parts. \<exists>v \<in> part_values env spec part. norm_day spec v = int j))"
  using assms(2-)
proof (induction parts arbitrary: bits)
  case (Cons part parts)
  then obtain b1 where b1: "parsePart env e part i spec bits = Inr b1" "parseParts env e parts i spec b1 = Inr b"
    by (auto split: sum.splits)
  have "small_steps env spec part" using Cons.prems by simp
  note p = parsePart_values [OF b1(1) assms(1) this Cons.prems(3)]
  show ?case using Cons.IH [of b1] Cons.prems b1 p by auto
qed simp

lemma parseParts_length: "parseParts env e parts i spec bits = Inr b \<Longrightarrow> length b = length bits"
proof (induction parts arbitrary: bits)
  case (Cons part parts)
  then obtain b1 where b1: "parsePart env e part i spec bits = Inr b1" "parseParts env e parts i spec b1 = Inr b"
    by (auto split: sum.splits)
  then have "length b1 = length bits" by (auto elim!: parsePart_Inr)
  with Cons.IH [OF b1(2)] show ?case by simp
qed simp

lemma parseParts_fails:
  "(\<exists>x. parseParts env e parts i spec bits = Inl x) \<longleftrightarrow> (\<exists>part \<in> set parts. part_bounds env spec part = None)"
proof (induction parts arbitrary: bits)
  case (Cons part parts)
  show ?case
    using Cons parsePart_Inl [of env e part i spec bits]
    by (cases "parsePart env e part i spec bits") auto
qed simp

text \<open>C18: a field is refused exactly when one part of its comma-separated list is, and
  otherwise the table marks exactly the values that the parts denote: the values of each range
  that are a multiple of the step (of at most \<open>2 ^ 62\<close>) from its start, Sunday as 0.\<close>

theorem parseField_values:
  assumes "spec \<in> set cronFieldsWithSeconds"
    and "\<forall>part \<in> set (Split_at field (CHR '','')). small_steps env spec part"
  shows "(case parseField env expr field i spec (replicate n False) of
      Inl _ \<Rightarrow> (\<exists>part \<in> set (Split_at field (CHR '','')). part_bounds env spec part = None)
    | Inr b \<Rightarrow> length b = n
        \<and> (\<forall>part \<in> set (Split_at field (CHR '','')). part_bounds env spec part \<noteq> None)
        \<and> (\<forall>j < n. b ! j \<longleftrightarrow> (\<exists>part \<in> set (Split_at field (CHR '','')).
              \<exists>v \<in> part_values env spec part. norm_day spec v = int j)))"
proof -
  have w: "wf_spec spec" using assms(1) cronFields_wf(2) by (simp add: list_all_iff)
  show ?thesis
  proof (cases "parseField env expr field i spec (replicate n False)")
    case (Inl e)
    then show ?thesis
      using parseParts_fails [of env expr "Split_at field (CHR '','')" i spec "replicate n False"]
      by (auto simp: parseField_def)
  next
    case (Inr b)
    then have b: "parseParts env expr (Split_at field (CHR '','')) i spec (replicate n False) = Inr b"
      by (simp add: parseField_def)
    have "length b = n" using parseParts_length [OF b] by simp
    then show ?thesis
      using Inr parseParts_values [OF w assms(2) b] parseParts_fails [of env expr "Split_at field (CHR '','')" i spec "replicate n False"]
        b by auto
  qed
qed

section \<open>Parsed schedules\<close>

text \<open>A table has the length its field needs and marks at least one value of the field.\<close>

definition table_ok :: "nat \<Rightarrow> int \<Rightarrow> int \<Rightarrow> bool list \<Rightarrow> bool" where
  "table_ok n lo hi bits \<longleftrightarrow> length bits = n \<and> (\<exists>v. lo \<le> v \<and> v \<le> hi \<and> bit bits v)"

text \<open>The tables of a schedule of \<open>n\<close> fields: five, without seconds, or six.\<close>

definition wf_schedule :: "nat \<Rightarrow> cronSchedule \<Rightarrow> bool" where
  "wf_schedule n s \<longleftrightarrow>
    (n = 5 \<and> second s = [] \<or> n = 6 \<and> table_ok 60 0 59 (second s)) \<and> table_ok 60 0 59 (minute s) \<and>
    table_ok 24 0 23 (hour s) \<and> table_ok 32 1 31 (dayOfMonth s) \<and> table_ok 13 1 12 (month s) \<and>
    table_ok 8 0 6 (dayOfWeek s)"

lemma parsePart_first:
  assumes "parsePart env e part i spec bits = Inr b" and "wf_spec spec" and "int (length bits) = fmax spec + 1"
  shows "\<exists>v. fmin spec \<le> v \<and> v \<le> fmax spec \<and> b ! nat (norm_day spec v)"
proof -
  obtain lo hi step where p: "part_bounds env spec part = Some (lo, hi, step)"
    "b = setRange passes lo hi step spec bits"
    by (rule parsePart_Inr [OF assms(1)])
  note r = part_bounds_range [OF p(1) assms(2)]
  have n: "0 \<le> norm_day spec lo" "nat (norm_day spec lo) < length bits"
    using r assms(2,3) by (auto simp: norm_day_def wf_spec_def nat_less_iff)
  have "setBit bits lo spec ! nat (norm_day spec lo)" using n by (simp add: setBit_nth)
  then have "setRange 129 (wrap64 (lo + step)) hi step spec (setBit bits lo spec) ! nat (norm_day spec lo)"
    using n by (intro setRange_mono) simp_all
  moreover have "b = setRange 129 (wrap64 (lo + step)) hi step spec (setBit bits lo spec)"
    using r(4) p(2) setRange.simps(2) [of 129 lo hi step spec bits] by (simp add: passes_def)
  ultimately show ?thesis using r by (intro exI [of _ lo]) auto
qed

lemma parseParts_mono: "parseParts env e parts i spec bits = Inr b \<Longrightarrow> j < length bits \<Longrightarrow> bits ! j \<Longrightarrow> b ! j"
proof (induction parts arbitrary: bits)
  case (Cons part parts)
  then obtain b1 where b1: "parsePart env e part i spec bits = Inr b1" "parseParts env e parts i spec b1 = Inr b"
    by (auto split: sum.splits)
  then have "length b1 = length bits" "b1 ! j" using Cons.prems by (auto elim!: parsePart_Inr intro: setRange_mono)
  with Cons.IH [OF b1(2)] Cons.prems show ?case by simp
qed simp

lemma parseField_table:
  assumes "parseField env e f i spec (replicate n False) = Inr b" and "wf_spec spec" and "int n = fmax spec + 1"
    and "fname spec = day_of_week_name \<Longrightarrow> fmin spec = 0"
  shows "table_ok n (fmin spec) (if fname spec = day_of_week_name then min (fmax spec) 6 else fmax spec) b
    \<or> fname spec = day_of_week_name \<and> fmax spec \<noteq> 7"
proof -
  obtain part parts where parts: "Split_at f (CHR '','') = part # parts"
    using Split_at_nonempty [of f "CHR '',''"] by (cases "Split_at f (CHR '','')") auto
  then obtain b1 where b1: "parsePart env e part i spec (replicate n False) = Inr b1"
    "parseParts env e parts i spec b1 = Inr b"
    using assms(1) by (auto simp: parseField_def split: sum.splits)
  have l: "length b1 = n" using b1(1) by (auto elim!: parsePart_Inr)
  obtain v where v: "fmin spec \<le> v" "v \<le> fmax spec" "b1 ! nat (norm_day spec v)"
    using parsePart_first [OF b1(1) assms(2)] assms(3) by auto
  have "nat (norm_day spec v) < length b1"
    using v(1,2) assms(2,3) l by (auto simp: norm_day_def wf_spec_def nat_less_iff)
  then have "b ! nat (norm_day spec v)" by (rule parseParts_mono [OF b1(2) _ v(3)])
  moreover have "length b = n" using parseParts_length [OF b1(2)] l by simp
  ultimately show ?thesis
    using v(1,2) assms(4) by (auto simp: table_ok_def bit_def norm_day_def split: if_splits intro!: exI [of _ "norm_day spec v"])
qed

text \<open>The range of the values that a table can mark: Sunday is 0, not 7.\<close>

definition table_max :: "fieldSpec \<Rightarrow> int" where
  "table_max spec = (if fname spec = day_of_week_name then 6 else fmax spec)"

definition table_for :: "gostring \<times> fieldSpec \<times> nat \<Rightarrow> bool list \<Rightarrow> bool" where
  "table_for item b \<longleftrightarrow> (case item of (f, spec, n) \<Rightarrow> table_ok n (fmin spec) (table_max spec) b)"

definition plain_spec :: "fieldSpec \<times> nat \<Rightarrow> bool" where
  "plain_spec x \<longleftrightarrow> (case x of (spec, n) \<Rightarrow> wf_spec spec \<and> int n = fmax spec + 1 \<and>
    (fname spec = day_of_week_name \<longrightarrow> fmin spec = 0 \<and> fmax spec = 7))"

lemma parseFields_tables:
  "parseFields env raw i items = Inr ts \<Longrightarrow> list_all (\<lambda>(f, x). plain_spec x) items \<Longrightarrow> list_all2 table_for items ts"
proof (induction env raw i items arbitrary: ts rule: parseFields.induct)
  case (2 env raw i f spec n rest)
  from 2(2) obtain b ts' where b: "parseField env raw f i spec (replicate n False) = Inr b"
    "parseFields env raw (i + 1) rest = Inr ts'" "ts = b # ts'"
    by (auto split: sum.splits)
  have "table_ok n (fmin spec) (table_max spec) b"
    using parseField_table [OF b(1)] 2(3) by (auto simp: plain_spec_def table_max_def)
  then show ?case using 2(1) [OF b(1,2)] 2(3) b(3) by (simp add: table_for_def)
qed simp

lemma five_list: "length xs = 5 \<Longrightarrow> \<exists>a b c d e. xs = [a, b, c, d, e]"
  by (auto simp: length_Suc_conv eval_nat_numeral)

lemma six_list: "length xs = 6 \<Longrightarrow> \<exists>a b c d e f. xs = [a, b, c, d, e, f]"
  by (auto simp: length_Suc_conv eval_nat_numeral)

lemma parseFiveField_wf:
  assumes "parseFiveField env raw fs z = Inr s" and "length fs = 5"
  shows "wf_schedule 5 s"
proof -
  obtain a b c d e where fs: "fs = [a, b, c, d, e]" using five_list [OF assms(2)] by blast
  let ?items = "zip fs (zip cronFields [60, 24, 32, 13, 8])"
  obtain ts where t: "parseFields env raw 0 ?items = Inr ts"
    "s = \<lparr> second = [], minute = ts ! 0, hour = ts ! 1, dayOfMonth = ts ! 2, month = ts ! 3,
           dayOfWeek = ts ! 4, loc = z \<rparr>"
    using assms(1) by (auto simp: parseFiveField_def split: sum.splits)
  have "list_all (\<lambda>(f, x). plain_spec x) ?items"
    by (simp add: fs cronFields_def plain_spec_def wf_spec_def day_of_week_name_def)
  from parseFields_tables [OF t(1) this] show ?thesis
    unfolding fs cronFields_def
    by (auto simp: list_all2_Cons1 table_for_def t(2) wf_schedule_def table_max_def day_of_week_name_def)
qed

lemma parseSixField_wf:
  assumes "parseSixField env raw fs z = Inr s" and "length fs = 6"
  shows "wf_schedule 6 s"
proof -
  obtain a b c d e f where fs: "fs = [a, b, c, d, e, f]" using six_list [OF assms(2)] by blast
  let ?items = "zip fs (zip cronFieldsWithSeconds [60, 60, 24, 32, 13, 8])"
  obtain ts where t: "parseFields env raw 0 ?items = Inr ts"
    "s = \<lparr> second = ts ! 0, minute = ts ! 1, hour = ts ! 2, dayOfMonth = ts ! 3, month = ts ! 4,
           dayOfWeek = ts ! 5, loc = z \<rparr>"
    using assms(1) by (auto simp: parseSixField_def split: sum.splits)
  have "list_all (\<lambda>(f, x). plain_spec x) ?items"
    by (simp add: fs cronFieldsWithSeconds_def plain_spec_def wf_spec_def day_of_week_name_def)
  from parseFields_tables [OF t(1) this] show ?thesis
    unfolding fs cronFieldsWithSeconds_def
    by (auto simp: list_all2_Cons1 table_for_def t(2) wf_schedule_def table_max_def day_of_week_name_def)
qed

text \<open>The text whose fields an expression stands for: without blanks and time zone, and with an alias replaced.\<close>

definition field_text :: "aliases \<Rightarrow> gostring \<Rightarrow> gostring" where
  "field_text am expr =
    (let e = TrimSpace expr;
         e' = (if HasPrefix e ''TZ='' then TrimSpace (drop (the (Index e (CHR '' '')) + 1) e) else e)
     in if HasPrefix e' ''@'' then the (lookupAlias am (ToLower e')) else e')"

fun wf_any_schedule :: "nat \<Rightarrow> schedule \<Rightarrow> bool" where
  "wf_any_schedule n (CronSchedule s) \<longleftrightarrow> wf_schedule n s"
| "wf_any_schedule n (IntervalSchedule d) \<longleftrightarrow> 0 < d"

lemma parseFieldList_wf: "parseFieldList env e z = Inr s \<Longrightarrow> wf_any_schedule (length (Fields e)) s"
  by (auto simp: parseFieldList_def Let_def fail_expr_def map_sum_def
      dest: parseFiveField_wf parseSixField_wf split: if_splits sum.splits)

lemma parseIn_wf:
  "parseIn env am e z = Inr s \<Longrightarrow>
    wf_any_schedule (length (Fields (if HasPrefix e ''@'' then the (lookupAlias am (ToLower e)) else e))) s"
  by (auto simp: parseIn_def Let_def fail_expr_def dest: parseFieldList_wf split: if_splits option.splits)

text \<open>C19: every schedule that \<open>Parse\<close> returns is well formed: an interval is positive; a cron schedule
  stands for five or six fields, has a table for the seconds exactly when there are six, and each
  of its tables has the full length (so \<open>Next\<close> never reads outside it) and marks at least one value that
  the field can take.\<close>

theorem Parse_wf:
  assumes "Parse env am expr = Inr s"
  shows "wf_any_schedule (length (Fields (field_text am expr))) s"
  using assms
  by (auto simp: Parse_def Let_def fail_expr_def field_text_def dest!: parseIn_wf split: if_splits option.splits)

section \<open>Aliases\<close>

text \<open>an alias that was registered for an expression without surrounding blanks, without a
  time zone and not itself an alias, parses to the same schedule as the expression, and other
  names are unaffected; after its deletion it is unknown again.\<close>

theorem RegisterAlias_parses:
  assumes "RegisterAlias env am name expr = (None, am')"
    and "TrimSpace name = name" and "\<not> HasPrefix name ''@every ''"
    and "TrimSpace expr = expr" and "\<not> HasPrefix expr ''TZ=''" and "\<not> HasPrefix expr ''@''"
  shows "Parse env am' name = Parse env am expr
    \<and> (\<forall>k. k \<noteq> ToLower name \<longrightarrow> am' k = am k)
    \<and> DeleteAlias am' name = (None, am'(ToLower name := None))"
proof -
  have r: "am' = am(ToLower name \<mapsto> expr)" "HasPrefix name ''@''" "\<not> IsEmpty name" "\<not> IsEmpty expr"
    using assms(1) by (auto simp: RegisterAlias_def Let_def split: if_splits sum.splits)
  have "name \<noteq> []" "expr \<noteq> []" using r(3,4) IsEmpty_Nil by blast+
  have n: "\<not> HasPrefix name ''TZ=''"
    using r(2) by (cases name) (auto simp: HasPrefix_def)
  have e: "\<not> HasPrefix expr ''@every ''"
    using assms(6) by (cases expr) (auto simp: HasPrefix_def)
  have "Parse env am' name = parseFieldList env expr UTC"
    using r n \<open>name \<noteq> []\<close> assms(2,3) by (simp add: Parse_def Let_def parseIn_def lookupAlias_def)
  moreover have "Parse env am expr = parseFieldList env expr UTC"
    using e \<open>expr \<noteq> []\<close> assms(4-6) by (simp add: Parse_def Let_def parseIn_def)
  ultimately show ?thesis using r by (simp add: DeleteAlias_def Let_def)
qed

text \<open>A concrete environment: one time zone, no durations, no floating-point numbers.\<close>

definition demo_env :: "unit cron_env" where
  "demo_env = \<lparr> LoadLocation = (\<lambda>n. if n = ''America/New_York'' then Some new_york else None),
     ParseDuration = (\<lambda>_. None), floats = no_floats \<rparr>"

text \<open>\<open>RegisterAlias\<close> accepts an expression with a time zone, and \<open>Parse\<close> then refuses the
  alias, because it takes the time zone for a first field.\<close>

theorem zoned_alias_unusable:
  "fst (RegisterAlias demo_env am ''@ny'' ''TZ=America/New_York 0 9 * * *'') = None
   \<and> Parse demo_env (snd (RegisterAlias demo_env am ''@ny'' ''TZ=America/New_York 0 9 * * *'')) ''@ny''
     = Inl (ExpressionError ''TZ=America/New_York 0 9 * * *'' 0
         (InvalidStep ''New_York'' ''TZ=America/New_York''))"
  by code_simp

text \<open>a step near the largest \<open>int\<close> makes the loop of a range wrap: the field
  \<open>5-9/9223372036854775807\<close> selects the minutes 1, 3 and 5 instead of 5 alone.\<close>

theorem step_wraps_around:
  "parseField demo_env ''e'' ''5-9/9223372036854775807'' 0 (cronFields ! 0) (replicate 60 False) = Inr (table 60 [1, 3, 5])"
  by code_simp

theorem Parse_wf_witness:
  "case Parse demo_env (map_of aliasMap) ''TZ=America/New_York 15 30 2 * * *'' of
     Inr (CronSchedule s) \<Rightarrow> table_ok 60 0 59 (second s) \<and> second s \<noteq> [] | _ \<Rightarrow> False"
proof -
  define r where "r = Parse demo_env (map_of aliasMap) ''TZ=America/New_York 15 30 2 * * *''"
  have c: "case r of Inr (CronSchedule s) \<Rightarrow> True | _ \<Rightarrow> False" unfolding r_def by code_simp
  have n: "length (Fields (field_text (map_of aliasMap) ''TZ=America/New_York 15 30 2 * * *'')) = 6" by code_simp
  from c obtain s where s: "r = Inr (CronSchedule s)" by (auto split: sum.splits schedule.splits)
  from Parse_wf [OF s [unfolded r_def]] n have "table_ok 60 0 59 (second s)" by (simp add: wf_schedule_def)
  then show ?thesis by (auto simp: s [unfolded r_def] table_ok_def)
qed

theorem parseField_values_witness:
  "case parseField demo_env ''e'' ''mon-fri/2,7'' 5 (cronFieldsWithSeconds ! 5) (replicate 8 False) of
     Inl _ \<Rightarrow> False | Inr b \<Rightarrow> b = table 8 [0, 1, 3, 5] \<and> length b = 8"
proof -
  have m: "cronFieldsWithSeconds ! 5 \<in> set cronFieldsWithSeconds" by (rule nth_mem) (simp add: cronFieldsWithSeconds_def)
  have s: "list_all (small_steps demo_env (cronFieldsWithSeconds ! 5)) (Split_at ''mon-fri/2,7'' (CHR '',''))"
    by code_simp
  have p: "parseField demo_env ''e'' ''mon-fri/2,7'' 5 (cronFieldsWithSeconds ! 5) (replicate 8 False) = Inr (table 8 [0, 1, 3, 5])"
    by code_simp
  from parseField_values [OF m, where env = demo_env and field = "''mon-fri/2,7''" and expr = "''e''" and i = 5 and n = 8] s
  show ?thesis by (simp add: p list_all_iff)
qed

theorem RegisterAlias_parses_witness:
  "Parse demo_env (snd (RegisterAlias demo_env Map.empty ''@Noon'' ''0 12 * * *'')) ''@Noon''
   = Parse demo_env Map.empty ''0 12 * * *''"
proof -
  have "fst (RegisterAlias demo_env Map.empty ''@Noon'' ''0 12 * * *'') = None"
    "TrimSpace ''@Noon'' = ''@Noon''" "\<not> HasPrefix ''@Noon'' ''@every ''"
    "TrimSpace ''0 12 * * *'' = ''0 12 * * *''" "\<not> HasPrefix ''0 12 * * *'' ''TZ=''" "\<not> HasPrefix ''0 12 * * *'' ''@''"
    by code_simp+
  note h = this
  have r: "RegisterAlias demo_env Map.empty ''@Noon'' ''0 12 * * *''
      = (None, snd (RegisterAlias demo_env Map.empty ''@Noon'' ''0 12 * * *''))"
    using h(1) by (simp add: prod_eq_iff)
  from RegisterAlias_parses [OF r h(2-6)] show ?thesis by (rule conjunct1)
qed

end
