(* ===== verification/CronExplain.thy ===== *)
theory CronExplain
  imports CronParseProps
begin

text \<open>
  English descriptions of cron expressions (\<open>pkg/crontask\<close>: \<open>Explain\<close> of \<open>entry.go\<close>, the
  \<open>describe\<close> and \<open>explain\<close> functions of \<open>utilities.go\<close>).  The upper case of a first character
  and the number of days of a duration (a floating-point division) are arguments.
\<close>

section \<open>Words\<close>

definition monthLabels :: "gostring list" where
  "monthLabels = ['''', ''January'', ''February'', ''March'', ''April'', ''May'', ''June'', ''July'',
    ''August'', ''September'', ''October'', ''November'', ''December'']"

definition monthLabel :: "int \<Rightarrow> gostring" where
  "monthLabel n = monthLabels ! nat n"

definition isWild :: "gostring \<Rightarrow> bool" where
  "isWild f \<longleftrightarrow> f = ''*'' \<or> f = ''?''"

definition to_int :: "'f cron_env \<Rightarrow> gostring \<Rightarrow> int option" where
  "to_int env f = (case conv_Int (floats env) NewConverter (AString f) of Inl _ \<Rightarrow> None | Inr n \<Rightarrow> Some n)"

definition extractStep :: "'f cron_env \<Rightarrow> gostring \<Rightarrow> int" where
  "extractStep env f =
    (if IsEmpty f then 0
     else if \<not> HasPrefix f ''*/'' then 0
     else let n = IntOrDefault (floats env) (AString (drop 2 f)) 0 in if n \<le> 0 then 0 else n)"

definition parseInt :: "'f cron_env \<Rightarrow> gostring \<Rightarrow> int option" where
  "parseInt env f = (if IsEmpty f then None else to_int env f)"

definition parseRange :: "'f cron_env \<Rightarrow> gostring \<Rightarrow> (int \<times> int) option" where
  "parseRange env f =
    (if IsEmpty f then None
     else case Index f (CHR ''-'') of
       None \<Rightarrow> None
     | Some idx \<Rightarrow> (case (to_int env (take idx f), to_int env (drop (idx + 1) f)) of
         (Some lo, Some hi) \<Rightarrow> Some (lo, hi)
       | _ \<Rightarrow> None))"

definition dowLabel :: "int \<Rightarrow> gostring" where
  "dowLabel n =
    (if 0 \<le> n \<and> n < 7
     then [''Sunday'', ''Monday'', ''Tuesday'', ''Wednesday'', ''Thursday'', ''Friday'', ''Saturday''] ! nat n
     else itoa n)"

definition ordinal :: "int \<Rightarrow> gostring" where
  "ordinal n =
    (if go_mod n 100 \<in> {11, 12, 13} then itoa n @ ''th''
     else if go_mod n 10 = 1 then itoa n @ ''st''
     else if go_mod n 10 = 2 then itoa n @ ''nd''
     else if go_mod n 10 = 3 then itoa n @ ''rd''
     else itoa n @ ''th'')"

definition joinEnglish :: "gostring list \<Rightarrow> gostring" where
  "joinEnglish items =
    (case items of
       [] \<Rightarrow> ''''
     | [a] \<Rightarrow> a
     | [a, b] \<Rightarrow> a @ '' and '' @ b
     | _ \<Rightarrow> Join (butlast items) '', '' @ '', and '' @ last items)"

text \<open>\<open>strutil.Capitalize\<close>: the first character in upper case, then all bytes but the first.\<close>

definition Capitalize :: "(gostring \<Rightarrow> gostring) \<Rightarrow> gostring \<Rightarrow> gostring" where
  "Capitalize upper str = (if IsEmpty str then str else upper str @ tl str)"

section \<open>Fields in words\<close>

definition describe_months :: "'f cron_env \<Rightarrow> gostring \<Rightarrow> gostring" where
  "describe_months env field =
    (let parts = Split_at field (CHR '','');
         listed = (if 1 < length parts
           then joinEnglish (map (\<lambda>p0. let p = TrimSpace p0 in
                  case map_of monthNames (ToLower p) of
                    Some n \<Rightarrow> monthLabel n
                  | None \<Rightarrow> (case Atoi p of
                      Some n \<Rightarrow> if 1 \<le> n \<and> n \<le> 12 then monthLabel n else p
                    | None \<Rightarrow> p)) parts)
           else field)
     in case parseRange env field of
          Some (lo, hi) \<Rightarrow>
            if 1 \<le> lo \<and> lo \<le> 12 \<and> 1 \<le> hi \<and> hi \<le> 12 then monthLabel lo @ '' through '' @ monthLabel hi
            else listed
        | None \<Rightarrow> listed)"

definition describeMonthField :: "'f cron_env \<Rightarrow> gostring \<Rightarrow> gostring" where
  "describeMonthField env field =
    (if IsEmpty field then ''''
     else case map_of monthNames (ToLower field) of
       Some n \<Rightarrow> monthLabel n
     | None \<Rightarrow>
      (case parseInt env field of
         Some n \<Rightarrow> if 1 \<le> n \<and> n \<le> 12 then monthLabel n else describe_months env field
       | None \<Rightarrow> describe_months env field))"

definition describeDOMField :: "'f cron_env \<Rightarrow> gostring \<Rightarrow> gostring" where
  "describeDOMField env field =
    (if IsEmpty field then ''''
     else case parseInt env field of
       Some n \<Rightarrow> ordinal n
     | None \<Rightarrow>
      (case parseRange env field of
         Some (lo, hi) \<Rightarrow> ordinal lo @ '' through the '' @ ordinal hi
       | None \<Rightarrow>
          let parts = Split_at field (CHR '','') in
          if 1 < length parts
          then joinEnglish (map (\<lambda>p. case to_int env (TrimSpace p) of Some n \<Rightarrow> ordinal n | None \<Rightarrow> p) parts)
          else field))"

definition fixed_days :: "(gostring \<times> gostring) list" where
  "fixed_days =
    [(''1-5'', ''Monday through Friday''), (''mon-fri'', ''Monday through Friday''),
     (''0'', ''Sunday''), (''7'', ''Sunday''), (''sun'', ''Sunday''), (''1'', ''Monday''), (''mon'', ''Monday''),
     (''2'', ''Tuesday''), (''tue'', ''Tuesday''), (''3'', ''Wednesday''), (''wed'', ''Wednesday''),
     (''4'', ''Thursday''), (''thu'', ''Thursday''), (''5'', ''Friday''), (''fri'', ''Friday''),
     (''6'', ''Saturday''), (''sat'', ''Saturday'')]"

definition describe_days :: "(gostring \<Rightarrow> gostring) \<Rightarrow> 'f cron_env \<Rightarrow> gostring \<Rightarrow> gostring" where
  "describe_days upper env field =
    (let parts = Split_at field (CHR '','') in
     if 1 < length parts
     then joinEnglish (map (\<lambda>p0. let p = TrimSpace p0 in
            case to_int env p of
              Some n \<Rightarrow> dowLabel (if n = 7 then 0 else n)
            | None \<Rightarrow> Capitalize upper p) parts)
     else field)"

definition describeDOWField :: "(gostring \<Rightarrow> gostring) \<Rightarrow> 'f cron_env \<Rightarrow> gostring \<Rightarrow> gostring" where
  "describeDOWField upper env field =
    (if IsEmpty field then ''''
     else case map_of fixed_days (ToLower field) of
       Some d \<Rightarrow> d
     | None \<Rightarrow>
      (case parseRange env field of
         Some (lo, hi) \<Rightarrow>
           if 0 \<le> lo \<and> lo \<le> 6 \<and> 0 \<le> hi \<and> hi \<le> 6 then dowLabel lo @ '' through '' @ dowLabel hi
           else describe_days upper env field
       | None \<Rightarrow> describe_days upper env field))"

section \<open>Times in words\<close>

definition explainIntervalDuration :: "(duration \<Rightarrow> int) \<Rightarrow> duration \<Rightarrow> gostring" where
  "explainIntervalDuration days_in d =
    (if d < Minute then
       (let secs = go_div d Second in
        if secs = 1 then ''Every second'' else ''Every '' @ itoa secs @ '' seconds'')
     else if d < Hour then
       (let mins = d div Minute in if mins = 1 then ''Every minute'' else ''Every '' @ itoa mins @ '' minutes'')
     else if d < 24 * Hour then
       (let hrs = d div Hour in if hrs = 1 then ''Every hour'' else ''Every '' @ itoa hrs @ '' hours'')
     else let days = days_in d in if days = 1 then ''Every day'' else ''Every '' @ itoa days @ '' days'')"

text \<open>\<open>%02d\<close>\<close>

definition two_digits :: "int \<Rightarrow> gostring" where
  "two_digits n = (if 0 \<le> n \<and> n < 10 then CHR ''0'' # itoa n else itoa n)"

definition explainTimePart :: "'f cron_env \<Rightarrow> gostring \<Rightarrow> gostring \<Rightarrow> gostring" where
  "explainTimePart env mi hr =
    (let minWild = isWild mi; hrWild = isWild hr; minStep = extractStep env mi; hrStep = extractStep env hr;
         mInt = parseInt env mi; hInt = parseInt env hr
     in
     if IsEmpty mi \<or> IsEmpty hr then ''''
     else if minWild \<and> hrWild then ''Every minute''
     else if 0 < minStep \<and> hrWild then
       (if minStep = 1 then ''Every minute'' else ''Every '' @ itoa minStep @ '' minutes'')
     else if mi = ''0'' \<and> 0 < hrStep then
       (if hrStep = 1 then ''Every hour'' else ''Every '' @ itoa hrStep @ '' hours'')
     else if mi = ''0'' \<and> hrWild then ''Every hour''
     else if mInt \<noteq> None \<and> hInt \<noteq> None then ''At '' @ two_digits (the hInt) @ '':'' @ two_digits (the mInt)
     else if mInt \<noteq> None \<and> hrWild then ''Every hour at :'' @ two_digits (the mInt)
     else if hInt \<noteq> None \<and> minWild then ''Every minute of hour '' @ two_digits (the hInt)
     else if 0 < minStep \<and> hInt \<noteq> None
     then ''Every '' @ itoa minStep @ '' minutes during hour '' @ two_digits (the hInt)
     else case parseRange env hr of
       Some (lo, hi) \<Rightarrow>
         if mi = ''0'' then ''Every hour from '' @ two_digits lo @ '':00 to '' @ two_digits hi @ '':00''
         else ''At minute '' @ mi @ '' of hour '' @ hr
     | None \<Rightarrow> ''At minute '' @ mi @ '' of hour '' @ hr)"

definition explainFiveFields ::
    "(gostring \<Rightarrow> gostring) \<Rightarrow> 'f cron_env \<Rightarrow> gostring \<Rightarrow> gostring \<Rightarrow> gostring \<Rightarrow> gostring \<Rightarrow> gostring \<Rightarrow> gostring" where
  "explainFiveFields upper env mi hr dm mon dow =
    (let timeDesc = explainTimePart env mi hr;
         qualifiers =
           (if \<not> isWild dm then [''on the '' @ describeDOMField env dm @ '' of each month''] else []) @
           (if \<not> isWild mon then [''in '' @ describeMonthField env mon] else []) @
           (if \<not> isWild dow then [describeDOWField upper env dow] else [])
     in if qualifiers = [] then timeDesc else timeDesc @ '', '' @ Join qualifiers '', '')"

definition explainSixFields ::
    "(gostring \<Rightarrow> gostring) \<Rightarrow> 'f cron_env \<Rightarrow>
     gostring \<Rightarrow> gostring \<Rightarrow> gostring \<Rightarrow> gostring \<Rightarrow> gostring \<Rightarrow> gostring \<Rightarrow> gostring" where
  "explainSixFields upper env sec mi hr dm mon dow =
    (let wild = isWild mi \<and> isWild hr \<and> isWild dm \<and> isWild mon \<and> isWild dow;
         step = extractStep env sec; n = parseInt env sec;
         base = explainFiveFields upper env mi hr dm mon dow
     in
     if isWild sec \<and> wild then ''Every second''
     else if 0 < step \<and> wild then
       (if step = 1 then ''Every second'' else ''Every '' @ itoa step @ '' seconds'')
     else if n \<noteq> None \<and> wild then ''At second :'' @ two_digits (the n) @ '' of every minute''
     else if sec \<noteq> ''0'' \<and> \<not> isWild sec then base @ '' (at second '' @ sec @ '')''
     else base)"

definition explainFields :: "(gostring \<Rightarrow> gostring) \<Rightarrow> 'f cron_env \<Rightarrow> gostring list \<Rightarrow> gostring" where
  "explainFields upper env fs =
    (if length fs = 5 then explainFiveFields upper env (fs ! 0) (fs ! 1) (fs ! 2) (fs ! 3) (fs ! 4)
     else if length fs = 6
     then explainSixFields upper env (fs ! 0) (fs ! 1) (fs ! 2) (fs ! 3) (fs ! 4) (fs ! 5)
     else ''Custom schedule'')"

definition aliasDescriptions :: "(gostring \<times> gostring) list" where
  "aliasDescriptions =
   [
    (''@yearly'', ''Once a year, at midnight on January 1st''),
    (''@annually'', ''Once a year, at midnight on January 1st''),
    (''@monthly'', ''Once a month, at midnight on the 1st''),
    (''@weekly'', ''Once a week, at midnight on Sunday''),
    (''@daily'', ''Once a day, at midnight''),
    (''@midnight'', ''Once a day, at midnight''),
    (''@hourly'', ''Every hour''),
    (''@minutely'', ''Every minute''),
    (''@weekdays'', ''At midnight, Monday through Friday''),
    (''@weekends'', ''At midnight, on Saturday and Sunday''),
    (''@businessdaily'', ''At 09:00, Monday through Friday''),
    (''@businesshourly'', ''Every hour from 09:00 to 17:00, Monday through Friday''),
    (''@quarterly'', ''Once a quarter, at midnight on the 1st''),
    (''@semimonthly'', ''Twice a month, at midnight on the 1st and 15th''),
    (''@workhours'', ''Every minute from 09:00 to 17:59, Monday through Friday''),
    (''@marketopen'', ''At 09:30, Monday through Friday''),
    (''@marketclose'', ''At 16:00, Monday through Friday''),
    (''@endofday'', ''At 17:00, Monday through Friday''),
    (''@startofday'', ''At 08:00, Monday through Friday''),
    (''@lunchtime'', ''At 12:00, Monday through Friday''),
    (''@endofweek'', ''At 17:00 on Friday''),
    (''@startofweek'', ''At 08:00 on Monday''),
    (''@endofmonth'', ''At 23:59 on the 28th of every month''),
    (''@payroll'', ''At 08:00 on the 1st and 15th of every month''),
    (''@nightlymaintenance'', ''At 02:00, every day''),
    (''@premarket'', ''At 08:00, Monday through Friday (1 hour before US market open)''),
    (''@aftermarket'', ''At 17:00, Monday through Friday (1 hour after US market close)''),
    (''@midmarket'', ''At 12:30, Monday through Friday (US market midpoint)''),
    (''@quarterend'', ''At 23:59 on the last day of each fiscal quarter''),
    (''@taxdeadline'', ''At 08:00 on April 15th (US federal tax deadline)''),
    (''@regulatoryopen'', ''At 07:00, Monday through Friday''),
    (''@offpeakhourly'', ''Every hour from 20:00 to 06:00, every day''),
    (''@deploymentwindow'', ''At 22:00 on Tuesday and Thursday''),
    (''@databasebackup'', ''At 01:00, every day''),
    (''@weeklyreport'', ''At 08:00 on Monday''),
    (''@monthlyreport'', ''At 08:00 on the 1st of every month''),
    (''@customerdigest'', ''At 09:00, Monday through Friday''),
    (''@slacheck'', ''Every 15 minutes from 09:00 to 17:00, Monday through Friday'')
   ]"

text \<open>\<open>Explain\<close> fails with \<open>ErrInvalidExpression\<close> or with the error of \<open>Parse\<close>.\<close>

datatype explain_error = ErrInvalidExpression | ParseFailed ExpressionError

text \<open>\<open>Explain\<close> after the time zone is cut off.\<close>

definition explain_clean ::
    "(gostring \<Rightarrow> gostring) \<Rightarrow> (duration \<Rightarrow> int) \<Rightarrow> 'f cron_env \<Rightarrow> aliases \<Rightarrow> gostring \<Rightarrow> explain_error + gostring" where
  "explain_clean upper days_in env am clean =
    (if HasPrefix clean ''@every '' then
       (let d = (case ParseDuration env (TrimSpace (drop 7 clean)) of None \<Rightarrow> 0 | Some d \<Rightarrow> d)
        in Inr (explainIntervalDuration days_in d))
     else if HasPrefix clean ''@'' then
       (let lower = ToLower clean in
        case map_of aliasDescriptions lower of
          Some desc \<Rightarrow> Inr desc
        | None \<Rightarrow> (case lookupAlias am lower of
            Some expanded \<Rightarrow> Inr (explainFields upper env (Fields expanded))
          | None \<Rightarrow> Inl ErrInvalidExpression))
     else Inr (explainFields upper env (Fields clean)))"

definition Explain ::
    "(gostring \<Rightarrow> gostring) \<Rightarrow> (duration \<Rightarrow> int) \<Rightarrow> 'f cron_env \<Rightarrow> aliases \<Rightarrow> gostring \<Rightarrow> explain_error + gostring" where
  "Explain upper days_in env am expr =
    (if IsEmpty expr then Inl ErrInvalidExpression
     else
       let trimmed_expr = TrimSpace expr in
       case Parse env am trimmed_expr of
         Inl e \<Rightarrow> Inl (ParseFailed e)
       | Inr _ \<Rightarrow>
           let clean = (if HasPrefix trimmed_expr ''TZ='' then
                          (case Index trimmed_expr (CHR '' '') of
                             None \<Rightarrow> trimmed_expr
                           | Some idx \<Rightarrow> TrimSpace (drop (idx + 1) trimmed_expr))
                        else trimmed_expr)
           in explain_clean upper days_in env am clean)"

section \<open>Properties\<close>

lemma parseIn_explains: "parseIn env am e z = Inr s \<Longrightarrow> \<exists>t. explain_clean upper days_in env am e = Inr t"
  by (auto simp: parseIn_def explain_clean_def Let_def fail_expr_def split: if_splits option.splits)

text \<open>\<open>Explain\<close> describes exactly the expressions that \<open>Parse\<close> accepts, and otherwise
  reports the error of \<open>Parse\<close> (or its own error for a blank expression).\<close>

theorem Explain_iff_Parse:
  "(case Explain upper days_in env am expr of
      Inl ErrInvalidExpression \<Rightarrow> IsEmpty expr
    | Inl (ParseFailed e) \<Rightarrow> \<not> IsEmpty expr \<and> Parse env am expr = Inl e
    | Inr _ \<Rightarrow> \<not> IsEmpty expr \<and> (\<exists>s. Parse env am expr = Inr s))"
proof -
  have p: "Parse env am (TrimSpace expr) = Parse env am expr" by (simp add: Parse_def)
  show ?thesis
  proof (cases "IsEmpty expr")
    case False
    show ?thesis
    proof (cases "Parse env am expr")
      case (Inl e)
      with False p show ?thesis by (simp add: Explain_def Let_def)
    next
      case (Inr s)
      note i = Inr [unfolded Parse_def Let_def]
      show ?thesis
      proof (cases "HasPrefix (TrimSpace expr) ''TZ=''")
        case True
        with i obtain idx z where z: "Index (TrimSpace expr) (CHR '' '') = Some idx"
          "parseIn env am (TrimSpace (drop (idx + 1) (TrimSpace expr))) z = Inr s"
          by (auto simp: fail_expr_def split: if_splits option.splits)
        obtain t where "explain_clean upper days_in env am (TrimSpace (drop (idx + 1) (TrimSpace expr))) = Inr t"
          using parseIn_explains [OF z(2)] by blast
        with z(1) True False Inr p show ?thesis by (simp add: Explain_def Let_def)
      next
        case False
        with i have "parseIn env am (TrimSpace expr) UTC = Inr s"
          by (auto simp: fail_expr_def split: if_splits)
        then obtain t where "explain_clean upper days_in env am (TrimSpace expr) = Inr t"
          using parseIn_explains by blast
        with False \<open>\<not> IsEmpty expr\<close> Inr p show ?thesis by (simp add: Explain_def Let_def)
      qed
    qed
  qed (simp add: Explain_def)
qed

text \<open>the description of an alias that was registered anew stays the built-in one:
  \<open>@daily\<close>, redefined to fire at 05:00, is still described as midnight.\<close>

theorem redefined_alias_description:
  "(let am = snd (RegisterAlias demo_env (map_of aliasMap) ''@daily'' ''0 5 * * *'')
    in Explain (\<lambda>_. []) (\<lambda>_. 0) demo_env am ''@daily'' = Inr ''Once a day, at midnight''
     \<and> Parse demo_env am ''@daily'' = Inr (CronSchedule (daily 0 5 UTC \<lparr> dayOfWeek := table 8 [0..<7] \<rparr>)))"
  by code_simp

text \<open>The schedule of the alias \<open>@quarterEnd\<close>.\<close>

definition quarter_end :: cronSchedule where
  "quarter_end = (daily 59 23 UTC) \<lparr> dayOfMonth := table 32 [31], month := table 13 [3, 6, 9, 12],
     dayOfWeek := table 8 [0..<7] \<rparr>"

lemma month_days: "mday_of n \<le> month_start (leap (year_of n)) (month_of n + 1) - month_start (leap (year_of n)) (month_of n)"
  using month_of_bounds(4) [of n] by (simp add: mday_of_def Let_def)

text \<open>the alias \<open>@quarterEnd\<close>, described as the last day of each fiscal quarter, fires
  on the 31st only, so it never fires in June or September.\<close>

theorem quarter_end_skips:
  "Parse demo_env (map_of aliasMap) ''@quarterEnd'' = Inr (CronSchedule quarter_end)
   \<and> Explain (\<lambda>_. []) (\<lambda>_. 0) demo_env (map_of aliasMap) ''@quarterEnd''
       = Inr ''At 23:59 on the last day of each fiscal quarter''
   \<and> \<not> (fires quarter_end t \<and> tMonth UTC t \<in> {6, 9})"
proof (intro conjI notI)
  show "Parse demo_env (map_of aliasMap) ''@quarterEnd'' = Inr (CronSchedule quarter_end)" by code_simp
  show "Explain (\<lambda>_. []) (\<lambda>_. 0) demo_env (map_of aliasMap) ''@quarterEnd''
       = Inr ''At 23:59 on the last day of each fiscal quarter''" by code_simp
  assume "fires quarter_end t \<and> tMonth UTC t \<in> {6, 9}"
  then have b: "bit (table 13 [3, 6, 9, 12]) (tMonth UTC t)" "bit (table 32 [31]) (tDay UTC t)"
    and m: "tMonth UTC t \<in> {6, 9}"
    by (simp_all add: fires_def quarter_end_def daily_def)
  have "tDay UTC t = 31" using bit_table [OF b(2)] field_bounds [of UTC t] by auto
  with m month_days [of "local_day UTC t"] show False
    by (auto simp: tMonth_def tDay_def month_start_simps split: if_splits)
qed

end
