(* ===== verification/CronExec.thy ===== *)
theory CronExec
  imports CronNext
begin

text \<open>
  The execution of one activation of a job (\<open>pkg/crontask\<close>: \<open>executor.go\<close>, the job options and
  backoff policies of \<open>options.go\<close>, \<open>hooks.go\<close>).  A run is the sequence of the calls it makes:
  attempts of the job function, hooks, the error handler and the recorded result.  What the
  outside world answers at each point (the outcome of an attempt, whether the context is done)
  is an argument.  Logging hooks only write to the logger and are not modelled.
\<close>

section \<open>Jobs\<close>

datatype 'e run_error = CtxErr | JobError int 'e | PanicError

datatype 'e outcome = Succeeds | Fails 'e | Panics

datatype 'e event =
    OnStart | Executed int | OnRetry int 'e | OnSuccess | OnFailure "'e run_error" | OnPanic
  | OnComplete | OnError "'e run_error" | Recorded "'e run_error option"

text \<open>The hooks of a job: whether they implement the optional \<open>RetryHook\<close> and \<open>PanicHook\<close>.\<close>

record hooks =
  isRetryHook :: bool
  isPanicHook :: bool

record jobConfig =
  maxRetries :: int
  backoff :: "(int \<Rightarrow> duration) option"
  timeout :: duration
  jitter :: duration
  job_hooks :: "hooks option"

definition zero_jobConfig :: jobConfig where
  "zero_jobConfig = \<lparr> maxRetries = 0, backoff = None, timeout = 0, jitter = 0, job_hooks = None \<rparr>"

definition WithMaxRetries :: "int \<Rightarrow> jobConfig \<Rightarrow> jobConfig" where
  "WithMaxRetries n c = (if 0 \<le> n then c \<lparr> maxRetries := n \<rparr> else c)"

definition WithBackoff :: "(int \<Rightarrow> duration) option \<Rightarrow> jobConfig \<Rightarrow> jobConfig" where
  "WithBackoff p c = (if p \<noteq> None then c \<lparr> backoff := p \<rparr> else c)"

definition WithTimeout :: "duration \<Rightarrow> jobConfig \<Rightarrow> jobConfig" where
  "WithTimeout d c = (if 0 < d then c \<lparr> timeout := d \<rparr> else c)"

definition WithJitter :: "duration \<Rightarrow> jobConfig \<Rightarrow> jobConfig" where
  "WithJitter m c = (if 0 < m then c \<lparr> jitter := m \<rparr> else c)"

definition ConstantBackoff :: "duration \<Rightarrow> int \<Rightarrow> duration" where
  "ConstantBackoff delay _ = delay"

text \<open>\<open>d *= 2\<close> for \<open>i\<close> from 1 below \<open>attempt\<close>; a \<open>Duration\<close> is an \<open>int64\<close>.\<close>

fun doubled :: "nat \<Rightarrow> duration \<Rightarrow> duration" where
  "doubled 0 d = d"
| "doubled (Suc k) d = doubled k (wrap64 (d * 2))"

definition ExponentialBackoff :: "duration \<Rightarrow> int \<Rightarrow> duration" where
  "ExponentialBackoff base attempt = doubled (nat (attempt - 1)) base"

section \<open>One run\<close>

text \<open>The answers of the world: the context is done during the jitter wait, before an attempt,
  or during the backoff wait after an attempt; the outcome of each attempt; and whether the
  executor has an error handler.\<close>

record 'e world =
  jitterCancelled :: bool
  ctxDone :: "int \<Rightarrow> bool"
  fnResult :: "int \<Rightarrow> 'e outcome"
  waitCancelled :: "int \<Rightarrow> bool"
  hasOnError :: bool

datatype 'e loop_end = Finished "'e run_error option" | Crashed

definition retry_event :: "jobConfig \<Rightarrow> int \<Rightarrow> 'e \<Rightarrow> 'e event list" where
  "retry_event c k e = (case job_hooks c of
      None \<Rightarrow> [] | Some h \<Rightarrow> if isRetryHook h then [OnRetry k e] else [])"

definition backoff_cancelled :: "jobConfig \<Rightarrow> 'e world \<Rightarrow> int \<Rightarrow> bool" where
  "backoff_cancelled c w k \<longleftrightarrow> (case backoff c of None \<Rightarrow> False | Some p \<Rightarrow> 0 < p k \<and> waitCancelled w k)"

text \<open>The loop \<open>for attempt := 1; attempt <= e.cfg.maxRetries+1; attempt++\<close>, with \<open>finalErr\<close> as its
  state: the calls it makes, and how it ends.\<close>

function retry_loop ::
    "jobConfig \<Rightarrow> 'e world \<Rightarrow> int \<Rightarrow> 'e run_error option \<Rightarrow> 'e event list \<times> 'e loop_end" where
  "retry_loop c w attempt finalErr0 =
    (if \<not> attempt \<le> wrap64 (maxRetries c + 1) then ([], Finished finalErr0)
     else
       let finalErr = (if ctxDone w attempt then Some CtxErr else finalErr0) in
       if finalErr \<noteq> None then ([], Finished finalErr)
       else case fnResult w attempt of
           Panics \<Rightarrow> ([Executed attempt], Crashed)
         | Succeeds \<Rightarrow> ([Executed attempt], Finished None)
         | Fails e \<Rightarrow>
             (let evs = Executed attempt # (if attempt \<le> maxRetries c then retry_event c attempt e else []) in
              if attempt \<le> maxRetries c \<and> backoff_cancelled c w attempt then (evs, Finished (Some CtxErr))
              else let (rest, result) = retry_loop c w (attempt + 1) (Some (JobError attempt e))
                   in (evs @ rest, result)))"
  by pat_completeness auto
termination
  by (relation "measure (\<lambda>(c, w, attempt, _). nat (wrap64 (maxRetries c + 1) + 1 - attempt))") auto

declare retry_loop.simps [simp del]

definition hook_event :: "jobConfig \<Rightarrow> 'e event \<Rightarrow> 'e event list" where
  "hook_event c ev = (if job_hooks c = None then [] else [ev])"

definition panic_events :: "jobConfig \<Rightarrow> 'e event list" where
  "panic_events c = (case job_hooks c of
      None \<Rightarrow> [] | Some h \<Rightarrow> (if isPanicHook h then [OnPanic] else []) @ [OnComplete])"

text \<open>\<open>executor.run\<close>; a panic of the job function is recovered by the deferred function.\<close>

definition run :: "jobConfig \<Rightarrow> 'e world \<Rightarrow> 'e event list" where
  "run c w =
    (if 0 < jitter c \<and> jitterCancelled w then []
     else
       let (evs, result) = retry_loop c w 1 None in
       hook_event c OnStart @ evs @
       (case result of
          Crashed \<Rightarrow> panic_events c @ [Recorded (Some PanicError)]
        | Finished None \<Rightarrow> hook_event c OnSuccess @ hook_event c OnComplete @ [Recorded None]
        | Finished (Some err) \<Rightarrow>
            hook_event c (OnFailure err) @ (if hasOnError w then [OnError err] else []) @
            hook_event c OnComplete @ [Recorded (Some err)]))"

section \<open>Reports of a run\<close>

definition is_attempt :: "'e event \<Rightarrow> bool" where
  "is_attempt ev \<longleftrightarrow> (case ev of Executed _ \<Rightarrow> True | _ \<Rightarrow> False)"

definition is_verdict :: "'e event \<Rightarrow> bool" where
  "is_verdict ev \<longleftrightarrow> (case ev of OnSuccess \<Rightarrow> True | OnFailure _ \<Rightarrow> True | _ \<Rightarrow> False)"

definition is_recorded :: "'e event \<Rightarrow> bool" where
  "is_recorded ev \<longleftrightarrow> (case ev of Recorded _ \<Rightarrow> True | _ \<Rightarrow> False)"

text \<open>The loop stops at the first error of the job function: the pass after it finds \<open>finalErr\<close>
  set and breaks.\<close>

lemma retry_loop_error: "retry_loop c w k (Some err) = ([], Finished (if k \<le> wrap64 (maxRetries c + 1) \<and> ctxDone w k then Some CtxErr else Some err))"
  by (subst retry_loop.simps) simp

lemma retry_loop_once:
  "retry_loop c w k None =
    (if \<not> k \<le> wrap64 (maxRetries c + 1) then ([], Finished None)
     else if ctxDone w k then ([], Finished (Some CtxErr))
     else case fnResult w k of
         Panics \<Rightarrow> ([Executed k], Crashed)
       | Succeeds \<Rightarrow> ([Executed k], Finished None)
       | Fails e \<Rightarrow>
           (Executed k # (if k \<le> maxRetries c then retry_event c k e else []),
            Finished (Some
              (if k \<le> maxRetries c \<and> backoff_cancelled c w k then CtxErr
               else if k + 1 \<le> wrap64 (maxRetries c + 1) \<and> ctxDone w (k + 1) then CtxErr
               else JobError k e))))"
  by (subst retry_loop.simps) (auto simp: retry_loop_error Let_def split: outcome.split)

lemma filter_hook [simp]:
  "filter P (hook_event c ev) = (if P ev then hook_event c ev else [])"
  by (simp add: hook_event_def)

lemma filter_retry_event:
  "filter is_attempt (retry_event c k e) = []" "filter is_verdict (retry_event c k e) = []"
  "filter is_recorded (retry_event c k e) = []" "filter (\<lambda>ev. ev = OnComplete) (retry_event c k e) = []"
  by (auto simp: retry_event_def is_attempt_def is_verdict_def is_recorded_def split: option.splits)

lemma event_kinds [simp]:
  "is_attempt (Executed k)" "\<not> is_attempt OnStart" "\<not> is_attempt OnSuccess" "\<not> is_attempt (OnFailure r)"
  "\<not> is_attempt OnComplete" "\<not> is_attempt (OnError r)" "\<not> is_attempt (Recorded x)" "\<not> is_attempt OnPanic"
  "\<not> is_verdict (Executed k)" "\<not> is_verdict OnStart" "is_verdict OnSuccess" "is_verdict (OnFailure r)"
  "\<not> is_verdict OnComplete" "\<not> is_verdict (OnError r)" "\<not> is_verdict (Recorded x)" "\<not> is_verdict OnPanic"
  "\<not> is_recorded (Executed k)" "\<not> is_recorded OnStart" "\<not> is_recorded OnSuccess" "\<not> is_recorded (OnFailure r)"
  "\<not> is_recorded OnComplete" "\<not> is_recorded (OnError r)" "is_recorded (Recorded x)" "\<not> is_recorded OnPanic"
  by (simp_all add: is_attempt_def is_verdict_def is_recorded_def)

definition reports_once :: "jobConfig \<Rightarrow> 'e event list \<Rightarrow> bool" where
  "reports_once c evs \<longleftrightarrow>
    (\<exists>r. evs \<noteq> [] \<and> last evs = Recorded r \<and> filter is_recorded evs = [Recorded r]
       \<and> (job_hooks c \<noteq> None \<longrightarrow> hd evs = OnStart)
       \<and> filter (\<lambda>ev. ev = OnComplete) evs = hook_event c OnComplete
       \<and> filter is_verdict evs =
           (case r of None \<Rightarrow> hook_event c OnSuccess
            | Some err \<Rightarrow> if err = PanicError then [] else hook_event c (OnFailure err)))"

lemma retry_loop_quiet:
  "filter is_verdict (fst (retry_loop c w 1 None)) = []" "filter is_recorded (fst (retry_loop c w 1 None)) = []"
  "filter (\<lambda>ev. ev = OnComplete) (fst (retry_loop c w 1 None)) = []"
  "snd (retry_loop c w 1 None) \<noteq> Finished (Some PanicError)"
  unfolding retry_loop_once by (auto simp: filter_retry_event split: outcome.split)

lemma panic_quiet:
  "filter is_attempt (panic_events c) = []" "filter is_verdict (panic_events c) = []" "filter is_recorded (panic_events c) = []"
  "filter (\<lambda>ev. ev = OnComplete) (panic_events c) = hook_event c OnComplete"
  by (auto simp: panic_events_def hook_event_def split: option.splits)

text \<open>every run that is not cancelled during its jitter wait records exactly one result, as
  its last call; with hooks it begins with \<open>OnStart\<close>, completes exactly once, and gives exactly
  one verdict, the recorded one, except that a panic is recorded without a verdict.\<close>

theorem run_reports_once:
  assumes "\<not> (0 < jitter c \<and> jitterCancelled w)"
  shows "reports_once c (run c w)"
proof -
  obtain evs result where r: "retry_loop c w 1 None = (evs, result)" by (cases "retry_loop c w 1 None")
  note q = retry_loop_quiet [of c w, unfolded r fst_conv snd_conv]
  have hd: "job_hooks c \<noteq> None \<Longrightarrow> hd (hook_event c OnStart @ xs) = OnStart" for xs :: "'a event list"
    by (auto simp: hook_event_def)
  show ?thesis
  proof (cases result)
    case Crashed
    then have "run c w = hook_event c OnStart @ evs @ panic_events c @ [Recorded (Some PanicError)]"
      using assms r by (simp add: run_def)
    then show ?thesis using q hd by (auto simp: reports_once_def panic_quiet intro!: exI [of _ "Some PanicError"])
  next
    case (Finished err)
    show ?thesis
    proof (cases err)
      case None
      then have "run c w = hook_event c OnStart @ evs @ hook_event c OnSuccess @ hook_event c OnComplete @ [Recorded None]"
        using assms r Finished by (simp add: run_def)
      then show ?thesis using q hd by (auto simp: reports_once_def intro!: exI [of _ None])
    next
      case (Some e)
      then have "run c w = hook_event c OnStart @ evs @ hook_event c (OnFailure e) @
          (if hasOnError w then [OnError e] else []) @ hook_event c OnComplete @ [Recorded (Some e)]"
        using assms r Finished by (simp add: run_def)
      then show ?thesis using q hd Finished Some by (auto simp: reports_once_def intro!: exI [of _ "Some e"])
    qed
  qed
qed

text \<open>whatever the configured number of retries, a run executes the job function at most
  once: after a first failure the retry hook is told of a retry, but the loop breaks.  And with
  the largest number of retries the bound wraps, so the function is not executed at all and the
  run reports success.\<close>

theorem no_retries:
  "length (filter is_attempt (run c w)) \<le> 1
   \<and> run (WithMaxRetries (2 ^ 63 - 1) zero_jobConfig) w = [Recorded None]"
proof
  have "length (filter is_attempt (fst (retry_loop c w 1 None))) \<le> 1"
    unfolding retry_loop_once by (auto simp: filter_retry_event split: outcome.split)
  then show "length (filter is_attempt (run c w)) \<le> 1"
    by (auto simp: run_def Let_def panic_quiet split: prod.splits loop_end.splits option.splits)
  have "wrap64 (2 ^ 63 - 1 + 1) = - (2 ^ 63)" by (simp add: wrap64_def)
  then show "run (WithMaxRetries (2 ^ 63 - 1) zero_jobConfig) w = [Recorded None]"
    by (simp add: run_def WithMaxRetries_def zero_jobConfig_def retry_loop_once hook_event_def)
qed

definition failing :: "string world" where
  "failing = \<lparr> jitterCancelled = False, ctxDone = (\<lambda>_. False), fnResult = (\<lambda>_. Fails ''boom''),
     waitCancelled = (\<lambda>_. False), hasOnError = True \<rparr>"

theorem run_reports_once_witness:
  "reports_once (WithMaxRetries 3 zero_jobConfig \<lparr> job_hooks := Some \<lparr> isRetryHook = True, isPanicHook = False \<rparr> \<rparr>)
     [OnStart, Executed 1, OnRetry 1 ''boom'', OnFailure (JobError 1 ''boom''), OnError (JobError 1 ''boom''),
      OnComplete, Recorded (Some (JobError 1 ''boom''))]"
proof -
  let ?c = "WithMaxRetries 3 zero_jobConfig \<lparr> job_hooks := Some \<lparr> isRetryHook = True, isPanicHook = False \<rparr> \<rparr>"
  have "run ?c failing = [OnStart, Executed 1, OnRetry 1 ''boom'', OnFailure (JobError 1 ''boom''),
      OnError (JobError 1 ''boom''), OnComplete, Recorded (Some (JobError 1 ''boom''))]"
    by code_simp
  then show ?thesis using run_reports_once [of ?c failing] by (simp add: failing_def)
qed

end
