(* ===== verification/CronHooks.thy ===== *)
theory CronHooks
  imports CronExec
begin

text \<open>
  Hooks (\<open>pkg/crontask/hooks.go\<close>): chains of hooks, the counters of \<open>MetricsHook\<close>, and the
  semaphore of \<open>ConcurrencyLimiterHook\<close> as a step relation over the jobs that share it.
\<close>

section \<open>Chains\<close>

text \<open>A hook is \<open>NoopHooks\<close>, a chain, or one of the program's hooks, here with its name and its
  two optional interfaces.  \<open>deliver\<close> is who receives a call, in order.\<close>

datatype hook = NoopHooks | Leaf string hooks | Chained "hook list"

definition wants :: "hooks \<Rightarrow> 'e event \<Rightarrow> bool" where
  "wants h ev \<longleftrightarrow> (case ev of OnRetry _ _ \<Rightarrow> isRetryHook h | OnPanic \<Rightarrow> isPanicHook h | _ \<Rightarrow> True)"

fun deliver :: "hook \<Rightarrow> 'e event \<Rightarrow> string list" where
  "deliver NoopHooks ev = []"
| "deliver (Leaf n h) ev = (if wants h ev then [n] else [])"
| "deliver (Chained hs) ev = concat (map (\<lambda>h. deliver h ev) hs)"

definition active_hooks :: "hook option list \<Rightarrow> hook list" where
  "active_hooks hs = map the (filter (\<lambda>h. h \<noteq> None) hs)"

definition ChainHooks :: "hook option list \<Rightarrow> hook" where
  "ChainHooks hs = (case active_hooks hs of [] \<Rightarrow> NoopHooks | [h] \<Rightarrow> h | active \<Rightarrow> Chained active)"

text \<open>\<open>WithHooks\<close>: the hooks of a job, unless none is given.\<close>

definition WithHooks :: "hook option list \<Rightarrow> hook option \<Rightarrow> hook option" where
  "WithHooks hs old = (case active_hooks hs of [] \<Rightarrow> old | [h] \<Rightarrow> Some h | active \<Rightarrow> Some (ChainHooks hs))"

lemma ChainHooks_delivers:
  "deliver (ChainHooks hs) ev = concat (map (\<lambda>h. deliver h ev) (active_hooks hs))"
  by (cases "active_hooks hs"; cases "tl (active_hooks hs)") (auto simp: ChainHooks_def)

section \<open>Counters\<close>

record metrics =
  successCount :: int
  failureCount :: int
  panicCount :: int
  totalDurNs :: int

definition MetricsHook :: metrics where
  "MetricsHook = \<lparr> successCount = 0, failureCount = 0, panicCount = 0, totalDurNs = 0 \<rparr>"

definition metrics_step :: "'e event \<Rightarrow> duration \<Rightarrow> metrics \<Rightarrow> metrics" where
  "metrics_step ev d m = (case ev of
      OnSuccess \<Rightarrow> m \<lparr> successCount := wrap64 (successCount m + 1), totalDurNs := wrap64 (totalDurNs m + d) \<rparr>
    | OnFailure _ \<Rightarrow> m \<lparr> failureCount := wrap64 (failureCount m + 1), totalDurNs := wrap64 (totalDurNs m + d) \<rparr>
    | OnPanic \<Rightarrow> m \<lparr> panicCount := wrap64 (panicCount m + 1) \<rparr>
    | _ \<Rightarrow> m)"

section \<open>The concurrency limiter\<close>

text \<open>The semaphore is a buffered channel: its capacity and the number of slots in use.\<close>

record sem =
  sem_cap :: nat
  sem_len :: nat

definition ConcurrencyLimiterHook :: "int \<Rightarrow> sem" where
  "ConcurrencyLimiterHook n = \<lparr> sem_cap = nat (if n \<le> 0 then 1 else n), sem_len = 0 \<rparr>"

definition Active :: "sem \<Rightarrow> int" where
  "Active h = int (sem_len h)"

text \<open>\<open>OnStart\<close>: the send goes through when there is room (\<open>None\<close>: it waits), or the context is
  done first and the method returns without a slot.\<close>

definition hook_OnStart :: "sem \<Rightarrow> sem option" where
  "hook_OnStart h = (if sem_len h < sem_cap h then Some (h \<lparr> sem_len := sem_len h + 1 \<rparr>) else None)"

definition hook_OnComplete :: "sem \<Rightarrow> sem" where
  "hook_OnComplete h = (if 0 < sem_len h then h \<lparr> sem_len := sem_len h - 1 \<rparr> else h)"

text \<open>The invocations that share a limiter: not started, started with a slot, started after
  their context was done, completed.\<close>

datatype job_pc = Pending | Slot | NoSlot | Completed

datatype hook_label = Acquire nat | Cancel nat | Complete nat

inductive hook_step :: "sem \<times> job_pc list \<Rightarrow> hook_label \<Rightarrow> sem \<times> job_pc list \<Rightarrow> bool" where
  acquire_slot: "i < length js \<Longrightarrow> js ! i = Pending \<Longrightarrow> hook_OnStart h = Some h' \<Longrightarrow>
    hook_step (h, js) (Acquire i) (h', js[i := Slot])"
| cancelled: "i < length js \<Longrightarrow> js ! i = Pending \<Longrightarrow> hook_step (h, js) (Cancel i) (h, js[i := NoSlot])"
| complete: "i < length js \<Longrightarrow> js ! i = Slot \<or> js ! i = NoSlot \<Longrightarrow>
    hook_step (h, js) (Complete i) (hook_OnComplete h, js[i := Completed])"

inductive hook_run :: "sem \<times> job_pc list \<Rightarrow> hook_label list \<Rightarrow> sem \<times> job_pc list \<Rightarrow> bool" where
  hook_run_Nil: "hook_run s [] s"
| hook_run_Cons: "hook_step s a t \<Longrightarrow> hook_run t tr u \<Longrightarrow> hook_run s (a # tr) u"

inductive_cases hook_stepE: "hook_step (h, js) a t"
inductive_simps hook_run_simps: "hook_run s [] t" "hook_run s (a # tr) t"

definition holders :: "job_pc list \<Rightarrow> int" where
  "holders js = num (\<lambda>j. j = Slot) js"

definition no_cancel :: "hook_label \<Rightarrow> bool" where
  "no_cancel a \<longleftrightarrow> (case a of Cancel _ \<Rightarrow> False | _ \<Rightarrow> True)"

text \<open>Without cancellation the slots in use are the jobs that hold one.\<close>

definition slots_ok :: "sem \<times> job_pc list \<Rightarrow> bool" where
  "slots_ok s \<longleftrightarrow> int (sem_len (fst s)) = holders (snd s) \<and> sem_len (fst s) \<le> sem_cap (fst s) \<and> NoSlot \<notin> set (snd s)"

lemma hook_step_slots: "hook_step s a t \<Longrightarrow> no_cancel a \<Longrightarrow> slots_ok s \<Longrightarrow> slots_ok t \<and> sem_cap (fst t) = sem_cap (fst s)"
proof (induction rule: hook_step.induct)
  case (acquire_slot i js h h')
  then show ?case
    using set_update_subset_insert [of js i Slot]
    by (auto simp: slots_ok_def hook_OnStart_def holders_def num_update split: if_splits)
next
  case (complete i js h)
  have "js ! i \<noteq> NoSlot" using complete nth_mem [of i js] by (metis slots_ok_def snd_conv)
  then have slot: "js ! i = Slot" using complete by simp
  have "0 < holders js" using num_pos [OF nth_mem [OF complete(1)], of "\<lambda>j. j = Slot"] slot by (simp add: holders_def)
  then show ?case
    using complete(1,4) slot set_update_subset_insert [of js i Completed]
    by (auto simp: slots_ok_def hook_OnComplete_def holders_def num_update)
qed (simp add: no_cancel_def)

lemma hook_run_slots:
  "hook_run s tr t \<Longrightarrow> list_all no_cancel tr \<Longrightarrow> slots_ok s \<Longrightarrow> slots_ok t \<and> sem_cap (fst t) = sem_cap (fst s)"
  by (induction rule: hook_run.induct) (auto dest: hook_step_slots)

text \<open>C36: while no context is done during \<open>OnStart\<close>, the jobs between \<open>OnStart\<close> and
  \<open>OnComplete\<close> are exactly the active slots, and never more than the limit.\<close>

theorem limiter_hook_bound:
  assumes "hook_run (ConcurrencyLimiterHook n, replicate k Pending) tr (h, js)" and "list_all no_cancel tr"
  shows "Active h = holders js \<and> holders js \<le> max 1 n"
proof -
  have "slots_ok (ConcurrencyLimiterHook n, replicate k Pending)"
    using num_zero [of "\<lambda>j. j = Slot" "replicate k Pending"]
    by (simp add: slots_ok_def ConcurrencyLimiterHook_def holders_def)
  from hook_run_slots [OF assms this] show ?thesis
    by (auto simp: slots_ok_def Active_def ConcurrencyLimiterHook_def split: if_splits)
qed

text \<open>a job whose context was done in \<open>OnStart\<close> releases, in \<open>OnComplete\<close>, the slot of a
  running job, so that with a limit of 1 two jobs run at once.\<close>

theorem limiter_hook_exceeded:
  "hook_run (ConcurrencyLimiterHook 1, [Pending, Pending, Pending]) [Acquire 0, Cancel 1, Complete 1, Acquire 2]
     (\<lparr> sem_cap = 1, sem_len = 1 \<rparr>, [Slot, Completed, Slot])
   \<and> holders [Slot, Completed, Slot] = 2"
proof
  let ?h0 = "\<lparr> sem_cap = 1, sem_len = 0 \<rparr>" and ?h1 = "\<lparr> sem_cap = 1, sem_len = 1 \<rparr>"
  have "hook_step (?h0, [Pending, Pending, Pending]) (Acquire 0) (?h1, [Slot, Pending, Pending])"
    using acquire_slot [of 0 "[Pending, Pending, Pending]" ?h0 ?h1] by (simp add: hook_OnStart_def)
  moreover have "hook_step (?h1, [Slot, Pending, Pending]) (Cancel 1) (?h1, [Slot, NoSlot, Pending])"
    using cancelled [of 1 "[Slot, Pending, Pending]" ?h1] by simp
  moreover have "hook_step (?h1, [Slot, NoSlot, Pending]) (Complete 1) (?h0, [Slot, Completed, Pending])"
    using complete [of 1 "[Slot, NoSlot, Pending]" ?h1] by (simp add: hook_OnComplete_def)
  moreover have "hook_step (?h0, [Slot, Completed, Pending]) (Acquire 2) (?h1, [Slot, Completed, Slot])"
    using acquire_slot [of 2 "[Slot, Completed, Pending]" ?h0 ?h1] by (simp add: hook_OnStart_def)
  moreover have "ConcurrencyLimiterHook 1 = ?h0" by (simp add: ConcurrencyLimiterHook_def)
  ultimately show "hook_run (ConcurrencyLimiterHook 1, [Pending, Pending, Pending]) [Acquire 0, Cancel 1, Complete 1, Acquire 2]
     (?h1, [Slot, Completed, Slot])"
    by (simp only:) (blast intro: hook_run.intros)
qed (simp add: holders_def)

theorem limiter_hook_bound_witness: "holders [Slot, Pending] \<le> 1"
proof -
  have "hook_run (ConcurrencyLimiterHook 1, replicate 2 Pending) [Acquire 0] (\<lparr> sem_cap = 1, sem_len = 1 \<rparr>, [Slot, Pending])"
    using acquire_slot [of 0 "[Pending, Pending]" "ConcurrencyLimiterHook 1" "\<lparr> sem_cap = 1, sem_len = 1 \<rparr>"]
    by (auto simp: hook_run_simps ConcurrencyLimiterHook_def hook_OnStart_def numeral_2_eq_2)
  from limiter_hook_bound [OF this] show ?thesis by (simp add: no_cancel_def)
qed

end
