(* ===== verification/CronScheduler.thy ===== *)
theory CronScheduler
  imports CronParseProps CronExec
begin

text \<open>
  The job registry and the scheduler (\<open>pkg/crontask\<close>: \<open>job.go\<close>, \<open>scheduler.go\<close>, \<open>New\<close> of
  \<open>default.go\<close>, \<open>recordResult\<close> and \<open>updateNextRun\<close> of \<open>utilities.go\<close>).  The registry is the map
  of its entries; one pass of the scheduler loop is a function of the two clock readings it
  takes; starting, stopping and shutting down is a step relation over the goroutines involved.
\<close>

section \<open>The interface of a keyed store\<close>

text \<open>What the clients of the registry rely on: a value carries its key.\<close>

locale keyed_store =
  fixes key :: "'v \<Rightarrow> 'k"
    and get :: "'s \<Rightarrow> 'k \<Rightarrow> 'v option"
    and add :: "'v \<Rightarrow> 's \<Rightarrow> 's"
    and del :: "'k \<Rightarrow> 's \<Rightarrow> 's option"
  assumes get_add: "get (add v s) j = (if j = key v then Some v else get s j)"
    and del_None: "del k s = None \<longleftrightarrow> get s k = None"
    and get_del: "del k s = Some t \<Longrightarrow> get t j = (if j = k then None else get s j)"
begin

lemma del_add: "\<exists>t. del (key v) (add v s) = Some t \<and> (\<forall>j. get t j = (if j = key v then None else get s j))"
proof -
  have "del (key v) (add v s) \<noteq> None" by (simp add: del_None get_add)
  then obtain t where t: "del (key v) (add v s) = Some t" by blast
  with get_del [OF t] show ?thesis by (auto simp: get_add)
qed

lemma add_replaces: "key u = key v \<Longrightarrow> get (add v (add u s)) = get (add v s)"
  by (rule ext) (simp add: get_add)

lemma del_twice: "del k s = Some t \<Longrightarrow> del k t = None"
  by (simp add: del_None get_del)

end

section \<open>Entries and the registry\<close>

record 'e entry =
  eid :: gostring
  ename :: gostring
  expression :: gostring
  schedule_of :: schedule
  ecfg :: jobConfig
  nextRun :: "time"
  lastRun :: "time"
  lastErr :: "'e run_error option"
  runCount :: int

record 'e JobInfo =
  ID :: gostring
  Name :: gostring
  info_expression :: gostring
  NextRun_info :: "time"
  LastRun :: "time"
  LastErr :: "'e run_error option"
  RunCount :: int

definition snapshot :: "'e entry \<Rightarrow> 'e JobInfo" where
  "snapshot e = \<lparr> ID = eid e, Name = ename e, info_expression = expression e, NextRun_info = nextRun e,
     LastRun = lastRun e, LastErr = lastErr e, RunCount = runCount e \<rparr>"

definition recordResult :: "'e entry \<Rightarrow> time \<Rightarrow> 'e run_error option \<Rightarrow> 'e entry" where
  "recordResult e t err = e \<lparr> lastRun := t, lastErr := err, runCount := wrap64 (runCount e + 1) \<rparr>"

text \<open>\<open>None\<close> when the search for the next activation does not return.\<close>

definition updateNextRun :: "'e entry \<Rightarrow> time \<Rightarrow> 'e entry option" where
  "updateNextRun e now = map_option (\<lambda>n. e \<lparr> nextRun := n \<rparr>) (Next (schedule_of e) now)"

type_synonym 'e registry = "gostring \<Rightarrow> 'e entry option"

definition newRegistry :: "'e registry" where
  "newRegistry = Map.empty"

definition registry_add :: "'e entry \<Rightarrow> 'e registry \<Rightarrow> 'e registry" where
  "registry_add e r = r(eid e \<mapsto> e)"

definition registry_remove :: "gostring \<Rightarrow> 'e registry \<Rightarrow> 'e registry option" where
  "registry_remove k r = (if r k = None then None else Some (r(k := None)))"

definition registry_get :: "'e registry \<Rightarrow> gostring \<Rightarrow> 'e entry option" where
  "registry_get r k = r k"

interpretation reg: keyed_store eid registry_get registry_add registry_remove
  by unfold_locales (auto simp: registry_get_def registry_add_def registry_remove_def split: if_splits)

section \<open>What is due\<close>

definition due_at :: "time \<Rightarrow> 'e entry \<Rightarrow> bool" where
  "due_at now e \<longleftrightarrow> \<not> IsZero (nextRun e) \<and> \<not> now < nextRun e"

text \<open>The loop of \<open>nextDue\<close> over the entries, in the order of the map's iteration.\<close>

fun nextDue_loop :: "time \<Rightarrow> 'e entry list \<Rightarrow> 'e entry list \<times> duration \<Rightarrow> 'e entry list \<times> duration" where
  "nextDue_loop now [] acc = acc"
| "nextDue_loop now (e # es) (due, remaining) =
    (if IsZero (nextRun e) then nextDue_loop now es (due, remaining)
     else if \<not> now < nextRun e then nextDue_loop now es (due @ [e], remaining)
     else let d = Sub (nextRun e) now in
       nextDue_loop now es (due, if d < remaining then d else remaining))"

definition nextDue :: "time \<Rightarrow> 'e entry list \<Rightarrow> 'e entry list \<times> duration" where
  "nextDue now es = nextDue_loop now es ([], Hour)"

text \<open>One pass of the scheduler loop: the jobs due at \<open>now\<close> are dispatched and get their next
  activation; \<open>later\<close> is the second reading of the clock, for the sleep.  \<open>None\<close>: the search for
  a next activation does not return, and the loop hangs.\<close>

fun update_due :: "time \<Rightarrow> 'e entry list \<Rightarrow> 'e entry list option" where
  "update_due now [] = Some []"
| "update_due now (e # es) =
    (case (if due_at now e then updateNextRun e now else Some e) of
       None \<Rightarrow> None
     | Some e' \<Rightarrow> map_option (\<lambda>es'. e' # es') (update_due now es))"

definition loop_pass :: "time \<Rightarrow> time \<Rightarrow> 'e entry list \<Rightarrow> (gostring list \<times> 'e entry list \<times> duration) option" where
  "loop_pass now later es =
    map_option (\<lambda>es'. (map eid (fst (nextDue now es)), es', snd (nextDue later es'))) (update_due now es)"

lemma nextDue_loop_due: "fst (nextDue_loop now es (due, rem)) = due @ filter (due_at now) es"
  by (induction es arbitrary: due rem) (simp_all add: due_at_def Let_def)

lemma Sub_facts: "now < t \<Longrightarrow> 0 < Sub t now" "Sub t now \<le> t - now \<or> Sub t now = - (2 ^ 63)"
  by (auto simp: Sub_def)

lemma nextDue_loop_sleep:
  assumes "0 < rem"
  shows "0 < snd (nextDue_loop now es (due, rem)) \<and> snd (nextDue_loop now es (due, rem)) \<le> rem \<and>
    (\<forall>e \<in> set es. \<not> IsZero (nextRun e) \<longrightarrow> now < nextRun e \<longrightarrow> now + snd (nextDue_loop now es (due, rem)) \<le> nextRun e)"
  using assms
proof (induction es arbitrary: due rem)
  case (Cons e es)
  show ?case
  proof (cases "IsZero (nextRun e) \<or> \<not> now < nextRun e")
    case True
    then show ?thesis using Cons.IH [OF Cons.prems, of due] Cons.IH [OF Cons.prems, of "due @ [e]"] by auto
  next
    case False
    let ?d = "Sub (nextRun e) now"
    let ?r = "if ?d < rem then ?d else rem"
    have d: "0 < ?d" "?d \<le> nextRun e - now" using False Sub_facts(1) [of now "nextRun e"] Sub_facts(2) [of "nextRun e" now] by auto
    then have "0 < ?r" using Cons.prems by simp
    from Cons.IH [OF this, of due] show ?thesis using False d by (auto simp: Let_def)
  qed
qed simp

section \<open>The pass is correct\<close>

text \<open>The schedules for which the search returns: parsed intervals, and cron schedules in a
  location with one offset.\<close>

fun regular :: "schedule \<Rightarrow> bool" where
  "regular (CronSchedule s) \<longleftrightarrow> minute_zone (loc s)"
| "regular (IntervalSchedule d) \<longleftrightarrow> 0 < d"

lemma go_mod_less: "0 < d \<Longrightarrow> go_mod x d < d"
proof -
  assume d: "0 < d"
  show ?thesis
  proof (cases "0 \<le> x")
    case False
    then have "go_mod x d = - (\<bar>x\<bar> mod d)"
      using d by (simp add: go_mod_def go_div_def minus_div_mult_eq_mod [symmetric] algebra_simps)
    moreover have "0 \<le> \<bar>x\<bar> mod d" using d by (rule pos_mod_sign)
    ultimately show ?thesis using d by linarith
  qed (simp add: d)
qed

lemma Next_regular:
  assumes "regular s"
  obtains n where "Next s now = Some n" "n = zero_time \<or> now < n"
proof (cases s)
  case (CronSchedule c)
  with assms have z: "minute_zone (loc c)" by simp
  obtain n where n: "Next (CronSchedule c) now = Some n"
    "first_in c (next_start c now) (next_start c now + horizon) n \<or>
     n = zero_time \<and> silent c (next_start c now) (next_start c now + horizon)"
    by (rule Next_first [OF z])
  then have "n = zero_time \<or> now < n" using next_start_after [of now c] by (auto simp: first_in_def)
  with n(1) CronSchedule that show ?thesis by simp
next
  case (IntervalSchedule d)
  with assms go_mod_less [of d "wrap64 now"] that show ?thesis by (simp add: intervalSchedule_Next_def)
qed

definition rescheduled :: "time \<Rightarrow> 'e entry \<Rightarrow> 'e entry \<Rightarrow> bool" where
  "rescheduled now e e' \<longleftrightarrow>
    (if due_at now e then \<exists>n. Next (schedule_of e) now = Some n \<and> e' = e \<lparr> nextRun := n \<rparr> \<and> \<not> due_at now e'
     else e' = e)"

lemma update_due_result:
  "\<forall>e \<in> set es. regular (schedule_of e) \<Longrightarrow> \<exists>es'. update_due now es = Some es' \<and> list_all2 (rescheduled now) es es'"
proof (induction es)
  case (Cons e es)
  then obtain es' where es': "update_due now es = Some es'" "list_all2 (rescheduled now) es es'" by auto
  show ?case
  proof (cases "due_at now e")
    case True
    obtain n where n: "Next (schedule_of e) now = Some n" "n = zero_time \<or> now < n"
      using Next_regular [of "schedule_of e" now] Cons.prems by auto
    then have "rescheduled now e (e \<lparr> nextRun := n \<rparr>)"
      using True by (auto simp: rescheduled_def due_at_def IsZero_def)
    with es' True n(1) show ?thesis by (simp add: updateNextRun_def)
  next
    case False
    then have "rescheduled now e e" by (simp add: rescheduled_def)
    with es' False show ?thesis by simp
  qed
qed simp

text \<open>C34: with regular schedules a pass of the loop returns: it dispatches exactly the entries
  that are due, each once, gives each of them its next activation (after \<open>now\<close>, so that it is
  not due again), leaves the others alone, and sleeps for at most an hour and not past the next
  activation of any entry that is still ahead at the second reading of the clock, from which the sleep is
  computed.  An entry that has become due by then does not shorten the sleep.\<close>

theorem loop_pass_correct:
  assumes "\<forall>e \<in> set es. regular (schedule_of e)"
  shows "\<exists>es' sleep. loop_pass now later es = Some (map eid (filter (due_at now) es), es', sleep)
    \<and> list_all2 (rescheduled now) es es'
    \<and> 0 < sleep \<and> sleep \<le> Hour
    \<and> (\<forall>e \<in> set es'. IsZero (nextRun e) \<or> due_at later e \<or> later + sleep \<le> nextRun e)"
proof -
  obtain es' where u: "update_due now es = Some es'" "list_all2 (rescheduled now) es es'"
    using update_due_result [OF assms] by blast
  have due: "fst (nextDue now es) = filter (due_at now) es"
    by (simp add: nextDue_def nextDue_loop_due)
  have "loop_pass now later es = Some (map eid (filter (due_at now) es), es', snd (nextDue later es'))"
    by (simp add: loop_pass_def u(1) due)
  moreover have "0 < snd (nextDue later es') \<and> snd (nextDue later es') \<le> Hour \<and>
      (\<forall>e \<in> set es'. IsZero (nextRun e) \<or> due_at later e \<or> later + snd (nextDue later es') \<le> nextRun e)"
    using nextDue_loop_sleep [of Hour later es' "[]"] by (auto simp: nextDue_def due_at_def)
  ultimately show ?thesis using u(2) by blast
qed

section \<open>Registering jobs\<close>

text \<open>The configuration of a scheduler; its location is read by \<open>Location\<close> and \<open>now\<close> only.\<close>

record schedulerConfig =
  sloc :: zone
  withSecs :: bool
  hasErrorHandler :: bool
  defaultHooks :: "hooks option"

definition zero_schedulerConfig :: schedulerConfig where
  "zero_schedulerConfig = \<lparr> sloc = UTC, withSecs = False, hasErrorHandler = False, defaultHooks = None \<rparr>"

definition WithLocation :: "zone option \<Rightarrow> schedulerConfig \<Rightarrow> schedulerConfig" where
  "WithLocation z c = (case z of None \<Rightarrow> c | Some z' \<Rightarrow> c \<lparr> sloc := z' \<rparr>)"

definition WithSeconds :: "schedulerConfig \<Rightarrow> schedulerConfig" where
  "WithSeconds c = c \<lparr> withSecs := True \<rparr>"

definition WithErrorHandler :: "bool \<Rightarrow> schedulerConfig \<Rightarrow> schedulerConfig" where
  "WithErrorHandler given c = (if given then c \<lparr> hasErrorHandler := True \<rparr> else c)"

definition Location :: "schedulerConfig \<Rightarrow> zone" where
  "Location c = sloc c"

definition WithSecondsEnabled :: "schedulerConfig \<Rightarrow> bool" where
  "WithSecondsEnabled c = withSecs c"

datatype sched_error =
  ErrSchedulerStopped | ErrSchedulerRunning | NilFunction | BadExpression ExpressionError | ErrJobNotFound

text \<open>\<open>Register\<close>: \<open>id\<close> is the one given by \<open>WithJobID\<close> (or empty), \<open>fresh\<close> the identifier drawn
  otherwise, \<open>now\<close> the time of the call.  \<open>None\<close>: the search for the first activation does not
  return.\<close>

definition newEntry :: "gostring \<Rightarrow> gostring \<Rightarrow> gostring \<Rightarrow> schedule \<Rightarrow> jobConfig \<Rightarrow> time \<Rightarrow> 'e entry" where
  "newEntry jid name expr sched cfg first =
    \<lparr> eid = jid, ename = name, expression = expr, schedule_of = sched, ecfg = cfg, nextRun = first,
      lastRun = zero_time, lastErr = None, runCount = 0 \<rparr>"

lemma newEntry_fields [simp]:
  "eid (newEntry jid name expr sched cfg first) = jid" "schedule_of (newEntry jid name expr sched cfg first) = sched"
  "nextRun (newEntry jid name expr sched cfg first) = first" "runCount (newEntry jid name expr sched cfg first) = 0"
  by (simp_all add: newEntry_def)

definition Register ::
    "'f cron_env \<Rightarrow> aliases \<Rightarrow> schedulerConfig \<Rightarrow> bool \<Rightarrow> gostring \<Rightarrow> bool \<Rightarrow> gostring \<Rightarrow> gostring \<Rightarrow> gostring \<Rightarrow>
     jobConfig \<Rightarrow> time \<Rightarrow> 'e registry \<Rightarrow> ((sched_error + gostring) \<times> 'e registry) option" where
  "Register env am sc stopped expr fn_nil id0 fresh name cfg0 now r =
    (if stopped then Some (Inl ErrSchedulerStopped, r)
     else if fn_nil then Some (Inl NilFunction, r)
     else
       let cfg = (if job_hooks cfg0 = None \<and> defaultHooks sc \<noteq> None
                  then cfg0 \<lparr> job_hooks := defaultHooks sc \<rparr> else cfg0);
           jid = (if id0 = [] then fresh else id0)
       in case Parse env am expr of
            Inl err \<Rightarrow> Some (Inl (BadExpression err), r)
          | Inr sched \<Rightarrow>
              map_option (\<lambda>first. (Inr jid, registry_add (newEntry jid name expr sched cfg first) r))
                (Next sched now))"

definition Remove :: "gostring \<Rightarrow> 'e registry \<Rightarrow> sched_error option \<times> 'e registry" where
  "Remove k r = (case registry_remove k r of None \<Rightarrow> (Some ErrJobNotFound, r) | Some r' \<Rightarrow> (None, r'))"

definition Jobs :: "'e entry list \<Rightarrow> 'e JobInfo list" where
  "Jobs es = map snapshot es"

definition Scheduler_NextRuns :: "'e registry \<Rightarrow> gostring \<Rightarrow> time \<Rightarrow> int \<Rightarrow> (sched_error + time list) option" where
  "Scheduler_NextRuns r k t n = (case registry_get r k of
      None \<Rightarrow> Some (Inl ErrJobNotFound)
    | Some e \<Rightarrow> if n \<le> 0 then Some (Inr []) else map_option Inr (collect_next (schedule_of e) (nat n) t))"

text \<open>a registered job is found under its identifier with the schedule of its expression
  (read in UTC unless the expression names a time zone, whatever the scheduler's location) and
  that schedule's first activation; the other jobs are unaffected, and removing it once
  succeeds and once more fails.\<close>

theorem Register_found:
  assumes "Register env am sc stopped expr fn_nil id0 fresh name cfg now r = Some (Inr k, r')"
  shows "(\<exists>e. registry_get r' k = Some e \<and> Parse env am expr = Inr (schedule_of e)
        \<and> Next (schedule_of e) now = Some (nextRun e) \<and> runCount e = 0)
    \<and> (\<forall>j. j = k \<or> registry_get r' j = registry_get r j)
    \<and> fst (Remove k r') = None \<and> fst (Remove k (snd (Remove k r'))) = Some ErrJobNotFound"
proof -
  obtain sched cfg' first where n: "r' = registry_add (newEntry k name expr sched cfg' first) r"
    "Parse env am expr = Inr sched" "Next sched now = Some first"
    using assms by (auto simp: Register_def Let_def split: if_splits sum.splits)
  let ?e = "newEntry k name expr sched cfg' first"
  have e: "r' = registry_add ?e r" "eid ?e = k" "Parse env am expr = Inr (schedule_of ?e)"
    "Next (schedule_of ?e) now = Some (nextRun ?e)" "runCount ?e = 0"
    using n by simp_all
  obtain t where t: "registry_remove k r' = Some t" using reg.del_add [of ?e r] e(1,2) by auto
  show ?thesis
    using e t reg.del_twice [OF t] by (auto simp: reg.get_add Remove_def)
qed

section \<open>Starting and stopping\<close>

text \<open>
  Each \<open>Start\<close> makes new channels; they are numbered, and \<open>gen\<close> is the number of the current
  ones.  A \<open>Start\<close> has read the \<open>stopped\<close> flag before it takes the lock; a \<open>Shutdown\<close> sets
  the flag, copies the channels under the lock, and closes the copy outside of it.
\<close>

datatype shutdown_pc = Entering | Captured nat bool | Closing nat | Waiting nat | Finished_shutdown

record scheduler =
  running :: bool
  stopped :: bool
  gen :: nat
  stopClosed :: "nat set"
  doneClosed :: "nat set"
  loops :: "nat set"
  starting :: nat
  shutdowns :: "shutdown_pc list"
  crashed :: bool

text \<open>\<open>New\<close> closes the first \<open>doneCh\<close>.\<close>

definition New_scheduler :: scheduler where
  "New_scheduler = \<lparr> running = False, stopped = False, gen = 0, stopClosed = {}, doneClosed = {0}, loops = {},
     starting = 0, shutdowns = [], crashed = False \<rparr>"

text \<open>Closing a channel that is closed panics.\<close>

definition close_stop :: "nat \<Rightarrow> scheduler \<Rightarrow> scheduler" where
  "close_stop g s = (if g \<in> stopClosed s then s \<lparr> crashed := True \<rparr> else s \<lparr> stopClosed := insert g (stopClosed s) \<rparr>)"

definition Stop :: "scheduler \<Rightarrow> scheduler" where
  "Stop s = (if running s then close_stop (gen s) s else s)"

definition IsRunning :: "scheduler \<Rightarrow> bool" where
  "IsRunning s = running s"

definition start_loop :: "scheduler \<Rightarrow> scheduler" where
  "start_loop s = s \<lparr> running := True, gen := gen s + 1, loops := insert (gen s + 1) (loops s), starting := starting s - 1 \<rparr>"

definition end_loop :: "nat \<Rightarrow> scheduler \<Rightarrow> scheduler" where
  "end_loop g s = s \<lparr> running := False, loops := loops s - {g}, doneClosed := insert g (doneClosed s) \<rparr>"

inductive sched_step :: "scheduler \<Rightarrow> scheduler \<Rightarrow> bool" where
  start_check: "\<not> stopped s \<Longrightarrow> sched_step s (s \<lparr> starting := starting s + 1 \<rparr>)"
| start_refused: "stopped s \<Longrightarrow> sched_step s s"
| start_go: "0 < starting s \<Longrightarrow> \<not> running s \<Longrightarrow> sched_step s (start_loop s)"
| start_busy: "0 < starting s \<Longrightarrow> running s \<Longrightarrow> sched_step s (s \<lparr> starting := starting s - 1 \<rparr>)"
| stop: "sched_step s (Stop s)"
| shutdown_enter: "sched_step s (s \<lparr> stopped := True, shutdowns := shutdowns s @ [Entering] \<rparr>)"
| shutdown_capture: "i < length (shutdowns s) \<Longrightarrow> shutdowns s ! i = Entering \<Longrightarrow>
    sched_step s (s \<lparr> shutdowns := (shutdowns s)[i := Captured (gen s) (running s)] \<rparr>)"
| shutdown_idle: "i < length (shutdowns s) \<Longrightarrow> shutdowns s ! i = Captured g False \<Longrightarrow>
    sched_step s (s \<lparr> shutdowns := (shutdowns s)[i := Finished_shutdown] \<rparr>)"
| shutdown_select_closed: "i < length (shutdowns s) \<Longrightarrow> shutdowns s ! i = Captured g True \<Longrightarrow> g \<in> stopClosed s \<Longrightarrow>
    sched_step s (s \<lparr> shutdowns := (shutdowns s)[i := Waiting g] \<rparr>)"
| shutdown_select_open: "i < length (shutdowns s) \<Longrightarrow> shutdowns s ! i = Captured g True \<Longrightarrow> g \<notin> stopClosed s \<Longrightarrow>
    sched_step s (s \<lparr> shutdowns := (shutdowns s)[i := Closing g] \<rparr>)"
| shutdown_close: "i < length (shutdowns s) \<Longrightarrow> shutdowns s ! i = Closing g \<Longrightarrow>
    sched_step s (close_stop g (s \<lparr> shutdowns := (shutdowns s)[i := Waiting g] \<rparr>))"
| shutdown_done: "i < length (shutdowns s) \<Longrightarrow> shutdowns s ! i = Waiting g \<Longrightarrow> g \<in> doneClosed s \<Longrightarrow>
    sched_step s (s \<lparr> shutdowns := (shutdowns s)[i := Finished_shutdown] \<rparr>)"
| shutdown_timeout: "i < length (shutdowns s) \<Longrightarrow> shutdowns s ! i = Waiting g \<Longrightarrow>
    sched_step s (s \<lparr> shutdowns := (shutdowns s)[i := Finished_shutdown] \<rparr>)"
| loop_exit: "g \<in> loops s \<Longrightarrow> g \<in> stopClosed s \<Longrightarrow> sched_step s (end_loop g s)"

inductive sched_reach :: "scheduler \<Rightarrow> bool" where
  reach_new: "sched_reach New_scheduler"
| reach_step: "sched_reach s \<Longrightarrow> sched_step s t \<Longrightarrow> sched_reach t"

text \<open>At most one loop runs, that of the current channels, and exactly while the flag is set.\<close>

definition sched_inv :: "scheduler \<Rightarrow> bool" where
  "sched_inv s \<longleftrightarrow>
    loops s = (if running s then {gen s} else {}) \<and> (running s \<longrightarrow> gen s \<notin> doneClosed s) \<and>
    (\<forall>g \<in> stopClosed s \<union> doneClosed s. g \<le> gen s) \<and> (\<forall>g. Captured g True \<in> set (shutdowns s) \<or>
       Closing g \<in> set (shutdowns s) \<or> Waiting g \<in> set (shutdowns s) \<longrightarrow> g \<le> gen s)"

lemma set_update_cases: "x \<in> set (xs[i := y]) \<Longrightarrow> x = y \<or> x \<in> set xs"
  using set_update_subset_insert [of xs i y] by auto

lemma sched_step_inv: "sched_step s t \<Longrightarrow> sched_inv s \<Longrightarrow> sched_inv t"
proof (induction rule: sched_step.induct)
  case (start_go s)
  then have "\<forall>g \<in> stopClosed s \<union> doneClosed s. g \<le> gen s" by (simp add: sched_inv_def)
  then have "Suc (gen s) \<notin> doneClosed s" by force
  with start_go show ?case by (auto simp: sched_inv_def start_loop_def intro: le_SucI)
next
  case (shutdown_select_closed i s g)
  then show ?case by (auto simp: sched_inv_def dest!: set_update_cases)
next
  case (shutdown_select_open i s g)
  then show ?case by (auto simp: sched_inv_def dest!: set_update_cases) (metis nth_mem)+
next
  case (shutdown_close i s g)
  have "Closing g \<in> set (shutdowns s)" using shutdown_close nth_mem [of i "shutdowns s"] by simp
  with shutdown_close show ?case
    by (auto simp: sched_inv_def close_stop_def dest!: set_update_cases split: if_splits)
qed (auto simp: sched_inv_def start_loop_def end_loop_def Stop_def close_stop_def dest!: set_update_cases split: if_splits)

text \<open>C35: in every reachable state at most one scheduler loop runs, the one that listens on the
  current stop channel; it runs exactly while \<open>IsRunning\<close> reports so, and its \<open>doneCh\<close> is open.\<close>

theorem single_loop:
  assumes "sched_reach s"
  shows "loops s = (if IsRunning s then {gen s} else {}) \<and> \<not> (IsRunning s \<and> gen s \<in> doneClosed s)"
proof -
  have "sched_inv s"
    using assms
  proof (induction rule: sched_reach.induct)
    case (reach_step s t)
    then show ?case by (blast intro: sched_step_inv)
  qed (simp add: sched_inv_def New_scheduler_def)
  then show ?thesis by (auto simp: sched_inv_def IsRunning_def)
qed

definition started :: scheduler where
  "started = start_loop (New_scheduler \<lparr> starting := 1 \<rparr>)"

lemma started_reach: "sched_reach (New_scheduler \<lparr> starting := 1 \<rparr>)" "sched_reach started"
proof -
  have "sched_step New_scheduler (New_scheduler \<lparr> starting := starting New_scheduler + 1 \<rparr>)"
    by (rule start_check) (simp add: New_scheduler_def)
  moreover have "New_scheduler \<lparr> starting := starting New_scheduler + 1 \<rparr> = New_scheduler \<lparr> starting := 1 \<rparr>"
    by (simp add: New_scheduler_def)
  ultimately show 1: "sched_reach (New_scheduler \<lparr> starting := 1 \<rparr>)"
    using reach_step [OF reach_new] by simp
  have "sched_step (New_scheduler \<lparr> starting := 1 \<rparr>) started"
    unfolding started_def by (rule start_go) (simp_all add: New_scheduler_def)
  with 1 show "sched_reach started" by (rule reach_step)
qed

text \<open>two calls of \<open>Stop\<close> before the loop has ended close the stop channel twice, which
  panics; and a \<open>Start\<close> that read the flag before a \<open>Shutdown\<close> leaves the scheduler running
  after that \<open>Shutdown\<close> has returned.\<close>

theorem stop_races:
  "(\<exists>s. sched_reach s \<and> IsRunning s \<and> \<not> crashed s \<and> sched_reach (Stop (Stop s)) \<and> crashed (Stop (Stop s)))
   \<and> (\<exists>s. sched_reach s \<and> stopped s \<and> shutdowns s = [Finished_shutdown] \<and> IsRunning s \<and> stopClosed s = {})"
proof
  have "sched_reach (Stop (Stop started))" using started_reach(2) reach_step stop by blast
  then show "\<exists>s. sched_reach s \<and> IsRunning s \<and> \<not> crashed s \<and> sched_reach (Stop (Stop s)) \<and> crashed (Stop (Stop s))"
    using started_reach(2)
    by (intro exI [of _ started])
      (simp add: started_def start_loop_def New_scheduler_def IsRunning_def Stop_def close_stop_def)
  let ?s0 = "New_scheduler \<lparr> starting := 1 \<rparr>"
  let ?s1 = "?s0 \<lparr> stopped := True, shutdowns := shutdowns ?s0 @ [Entering] \<rparr>"
  let ?s2 = "?s1 \<lparr> shutdowns := (shutdowns ?s1)[0 := Captured (gen ?s1) (running ?s1)] \<rparr>"
  let ?s3 = "?s2 \<lparr> shutdowns := (shutdowns ?s2)[0 := Finished_shutdown] \<rparr>"
  have "sched_reach ?s1" using started_reach(1) shutdown_enter by (rule reach_step)
  moreover have "sched_step ?s1 ?s2" by (rule shutdown_capture) (simp_all add: New_scheduler_def)
  ultimately have "sched_reach ?s2" by (rule reach_step)
  moreover have "sched_step ?s2 ?s3" by (rule shutdown_idle [of 0 _ 0]) (simp_all add: New_scheduler_def)
  ultimately have "sched_reach ?s3" by (rule reach_step)
  moreover have "sched_step ?s3 (start_loop ?s3)" by (rule start_go) (simp_all add: New_scheduler_def)
  ultimately have "sched_reach (start_loop ?s3)" by (rule reach_step)
  then show "\<exists>s. sched_reach s \<and> stopped s \<and> shutdowns s = [Finished_shutdown] \<and> IsRunning s \<and> stopClosed s = {}"
    by (intro exI [of _ "start_loop ?s3"]) (simp add: start_loop_def New_scheduler_def IsRunning_def)
qed

section \<open>Instances\<close>

theorem single_loop_witness: "loops started = {1} \<and> IsRunning started"
  using single_loop [OF started_reach(2)]
  by (simp add: started_def start_loop_def New_scheduler_def IsRunning_def split: if_splits)

definition demo_entry :: "string entry" where
  "demo_entry = (newEntry ''a'' ''a'' ''@every'' (IntervalSchedule Minute) zero_jobConfig (5 * Minute))"

theorem loop_pass_correct_witness:
  "\<exists>es' sleep. loop_pass (5 * Minute) (5 * Minute) [demo_entry] = Some ([''a''], es', sleep) \<and> 0 < sleep \<and> sleep \<le> Hour"
proof -
  have r: "\<forall>e \<in> set [demo_entry]. regular (schedule_of e)" by (simp add: demo_entry_def)
  have "map eid (filter (due_at (5 * Minute)) [demo_entry]) = [''a'']"
    by (simp add: demo_entry_def due_at_def IsZero_def zero_time_def)
  with loop_pass_correct [OF r, of "5 * Minute" "5 * Minute"] show ?thesis by metis
qed

theorem Register_found_witness:
  "fst (Remove ''j'' (snd (the (Register demo_env Map.empty zero_schedulerConfig False ''0 0 29 2 *'' False ''j'' ''f'' ''n''
      zero_jobConfig 0 (newRegistry :: string registry))))) = None"
proof -
  let ?r = "Register demo_env Map.empty zero_schedulerConfig False ''0 0 29 2 *'' False ''j'' ''f'' ''n''
      zero_jobConfig 0 (newRegistry :: string registry)"
  have p: "Parse demo_env Map.empty ''0 0 29 2 *'' = Inr (CronSchedule (leap_day \<lparr> dayOfWeek := table 8 [0..<7] \<rparr>))"
    by code_simp
  have z: "minute_zone (loc (leap_day \<lparr> dayOfWeek := table 8 [0..<7] \<rparr>))" using leap_day_zone(1) by simp
  obtain n where "Next (CronSchedule (leap_day \<lparr> dayOfWeek := table 8 [0..<7] \<rparr>)) 0 = Some n"
    by (rule Next_first [OF z, of 0]) blast
  with p obtain r' where r: "?r = Some (Inr ''j'', r')"
    by (simp add: Register_def Let_def zero_schedulerConfig_def)
  from Register_found [OF r] show ?thesis by (simp add: r)
qed

end
