(* ===== verification/Streaming.thy ===== *)
theory Streaming
  imports Wrapper GoTime
begin

text \<open>
  The streaming wrapper of \<open>stream.go\<close>: its configuration, the sequential strategies in both
  directions, and \<open>Start\<close>.  The reader, the writer, the codecs, the clock and the two rates
  computed in floating point are arguments, gathered in a record; the state of a reader and of
  a writer is opaque.  Callbacks run in goroutines of their own and only read; they are left
  out, and so are the pauses of the throttle.
\<close>

section \<open>Configuration and state\<close>

type_synonym bytes = gostring

definition StrategyDirect :: gostring where "StrategyDirect = ''direct''"
definition StrategyBuffered :: gostring where "StrategyBuffered = ''buffered''"
definition StrategyChunked :: gostring where "StrategyChunked = ''chunked''"

definition CompressNone :: gostring where "CompressNone = ''none''"
definition CompressGzip :: gostring where "CompressGzip = ''gzip''"
definition CompressDeflate :: gostring where "CompressDeflate = ''deflate''"
definition CompressFlate :: gostring where "CompressFlate = ''flate''"

lemmas stream_names = StrategyDirect_def StrategyBuffered_def StrategyChunked_def CompressNone_def
  CompressGzip_def CompressDeflate_def CompressFlate_def

record StreamConfig =
  ChunkSize :: int
  IsReceiving :: bool
  Strategy :: gostring
  Compression :: gostring
  UseBufferPool :: bool
  MaxConcurrentChunks :: int
  ReadTimeout :: duration
  WriteTimeout :: duration
  ThrottleRate :: int

definition NewStreamConfig :: StreamConfig where
  "NewStreamConfig = \<lparr> ChunkSize = 65536, IsReceiving = False, Strategy = StrategyBuffered,
     Compression = CompressNone, UseBufferPool = True, MaxConcurrentChunks = 4,
     ReadTimeout = 30 * Second, WriteTimeout = 30 * Second, ThrottleRate = 0 \<rparr>"

record StreamProgress =
  pTotalBytes :: int
  TransferredBytes :: int
  Percentage :: int
  CurrentChunk :: int
  pTotalChunks :: int
  ElapsedTime :: duration
  EstimatedTimeRemaining :: duration
  TransferRate :: int
  LastUpdate :: "time"

definition zero_progress :: StreamProgress where
  "zero_progress = \<lparr> pTotalBytes = 0, TransferredBytes = 0, Percentage = 0, CurrentChunk = 0,
     pTotalChunks = 0, ElapsedTime = 0, EstimatedTimeRemaining = 0, TransferRate = 0,
     LastUpdate = zero_time \<rparr>"

text \<open>The statistics that the code sets; three more fields are never written.\<close>

record StreamingStats =
  StartTime :: "time"
  EndTime :: "time"
  sTotalBytes :: int
  CompressedBytes :: int
  CompressionRatio :: rat
  AverageChunkSize :: int
  sTotalChunks :: int
  FailedChunks :: int
  AverageBandwidth :: int
  sErrors :: "goerr list"

record StreamChunk =
  SequenceNumber :: int
  Data :: bytes
  Size :: int
  Checksum :: "32 word"
  Timestamp :: "time"
  Compressed :: bool
  CompressionType :: gostring
  chunkError :: "goerr option"

text \<open>The pool of buffers is known by the size of its buffers.  \<open>cancelled\<close> tells whether the
  function \<open>cancel\<close> of the wrapper's own context was called; \<open>ticks\<close>, \<open>polls\<close> and
  \<open>next_addr\<close> count the readings of the clock, the looks at the context and the allocated
  errors.\<close>

record ('r, 'w) StreamingWrapper =
  wrap :: wrapper
  config :: StreamConfig
  reader :: "'r option"
  writer :: "'w option"
  progress :: StreamProgress
  stats :: StreamingStats
  currentChunk :: int
  errors :: "goerr list"
  isStreaming :: bool
  bufferPool :: "int option"
  cancelled :: bool
  ticks :: nat
  polls :: nat
  next_addr :: addr

datatype read_error = EOF | ReadError goerr
datatype ctx_error = Canceled | DeadlineExceeded

text \<open>The environment: one \<open>Read\<close> with a buffer of the given size, one \<open>Write\<close>, the two
  directions of the codecs, the clock, the context of the wrapper and the float computations
  \<open>int64(float64(bytes) / elapsed.Seconds())\<close> and
  \<open>time.Duration(float64(remaining) / float64(rate) * float64(time.Second))\<close>.\<close>

record ('r, 'w) io =
  Read :: "'r \<Rightarrow> int \<Rightarrow> bytes \<times> read_error option \<times> 'r"
  Write :: "'w \<Rightarrow> bytes \<Rightarrow> goerr option \<times> 'w"
  gzip :: "bytes \<Rightarrow> goerr + bytes"
  gunzip :: "bytes \<Rightarrow> goerr + bytes"
  deflate :: "bytes \<Rightarrow> goerr + bytes"
  inflate :: "bytes \<Rightarrow> goerr + bytes"
  clock :: "nat \<Rightarrow> time"
  own_ctx :: "nat \<Rightarrow> ctx_error option"
  rate_of :: "int \<Rightarrow> duration \<Rightarrow> int"
  remaining_of :: "int \<Rightarrow> int \<Rightarrow> duration"

type_synonym ctx = "nat \<Rightarrow> ctx_error option"

definition NewStreaming :: "('r, 'w) io \<Rightarrow> env \<Rightarrow> 'r option \<Rightarrow> StreamConfig option \<Rightarrow> ('r, 'w) StreamingWrapper" where
  "NewStreaming io e r config0 =
    (let cfg = (case config0 of None \<Rightarrow> NewStreamConfig | Some c \<Rightarrow> c);
         w1 = WithMessage ''Streaming initialized'' (WithStatusCode 200 (New e));
         w2 = WithDebuggingKV ''streaming'' (GBool True) w1;
         w3 = WithDebuggingKV ''strategy'' (GStr (Strategy cfg)) w2;
         w4 = WithDebuggingKV ''compression'' (GStr (Compression cfg)) w3
     in \<lparr> wrap = w4, config = cfg, reader = r, writer = None, progress = zero_progress,
          stats = \<lparr> StartTime = clock io 0, EndTime = zero_time, sTotalBytes = 0, CompressedBytes = 0,
            CompressionRatio = 0, AverageChunkSize = 0, sTotalChunks = 0, FailedChunks = 0,
            AverageBandwidth = 0, sErrors = [] \<rparr>,
          currentChunk = 0, errors = [], isStreaming = False,
          bufferPool = (if UseBufferPool cfg then Some (ChunkSize cfg) else None),
          cancelled = False, ticks = 1, polls = 0, next_addr = env_addr e \<rparr>)"

text \<open>On a wrapper; \<open>AsStreaming\<close> on a non-nil one passes the default configuration.\<close>

definition WithStreaming ::
    "('r, 'w) io \<Rightarrow> env \<Rightarrow> wrapper \<Rightarrow> 'r option \<Rightarrow> StreamConfig option \<Rightarrow> ('r, 'w) StreamingWrapper" where
  "WithStreaming io e w r cfg = (NewStreaming io e r cfg) \<lparr> wrap := WithMessage ''Streaming mode enabled'' w \<rparr>"

definition AsStreaming :: "('r, 'w) io \<Rightarrow> env \<Rightarrow> wrapper \<Rightarrow> 'r option \<Rightarrow> ('r, 'w) StreamingWrapper" where
  "AsStreaming io e w r = WithStreaming io e w r (Some NewStreamConfig)"

section \<open>Settings\<close>

definition on_wrap :: "(wrapper \<Rightarrow> wrapper) \<Rightarrow> ('r, 'w) StreamingWrapper \<Rightarrow> ('r, 'w) StreamingWrapper" where
  "on_wrap f s = s \<lparr> wrap := f (wrap s) \<rparr>"

definition on_config :: "(StreamConfig \<Rightarrow> StreamConfig) \<Rightarrow> ('r, 'w) StreamingWrapper \<Rightarrow> ('r, 'w) StreamingWrapper" where
  "on_config f s = s \<lparr> config := f (config s) \<rparr>"

definition note_kv :: "gostring \<Rightarrow> goval \<Rightarrow> ('r, 'w) StreamingWrapper \<Rightarrow> ('r, 'w) StreamingWrapper" where
  "note_kv k v s = on_wrap (WithDebuggingKV k v) s"

text \<open>\<open>WithStatusCode(...).WithMessage(...).BindCause()\<close>; \<open>BindCause\<close> allocates at most two
  errors.\<close>

definition refuse :: "int \<Rightarrow> gostring \<Rightarrow> ('r, 'w) StreamingWrapper \<Rightarrow> ('r, 'w) StreamingWrapper" where
  "refuse code msg s =
    (on_wrap (\<lambda>w. BindCause (next_addr s) (WithMessage msg (WithStatusCode code w))) s)
      \<lparr> next_addr := next_addr s + 2 \<rparr>"

definition WithReceiveMode :: "bool \<Rightarrow> ('r, 'w) StreamingWrapper \<Rightarrow> ('r, 'w) StreamingWrapper" where
  "WithReceiveMode v s = on_config (\<lambda>c. c \<lparr> IsReceiving := v \<rparr>) s"

definition WithWriter :: "'w option \<Rightarrow> ('r, 'w) StreamingWrapper \<Rightarrow> ('r, 'w) StreamingWrapper" where
  "WithWriter v s = s \<lparr> writer := v \<rparr>"

definition WithTotalBytes :: "int \<Rightarrow> ('r, 'w) StreamingWrapper \<Rightarrow> ('r, 'w) StreamingWrapper" where
  "WithTotalBytes n s =
    (let p1 = (progress s) \<lparr> pTotalBytes := n \<rparr>;
         size = ChunkSize (config s);
         p2 = (if 0 < size then p1 \<lparr> pTotalChunks := go_div (wrap64 (wrap64 (n + size) - 1)) size \<rparr> else p1)
     in note_kv ''total_bytes'' (GInt n) (s \<lparr> progress := p2 \<rparr>))"

definition WithStreamingStrategy :: "gostring \<Rightarrow> ('r, 'w) StreamingWrapper \<Rightarrow> ('r, 'w) StreamingWrapper" where
  "WithStreamingStrategy v s =
    (if IsEmpty v then refuse 400 ''Invalid streaming strategy: cannot be empty'' s
     else note_kv ''streaming_strategy'' (GStr v) (on_config (\<lambda>c. c \<lparr> Strategy := v \<rparr>) s))"

definition WithCompressionType :: "gostring \<Rightarrow> ('r, 'w) StreamingWrapper \<Rightarrow> ('r, 'w) StreamingWrapper" where
  "WithCompressionType v s =
    (if IsEmpty v then refuse 400 ''Invalid compression type: cannot be empty'' s
     else note_kv ''compression_type'' (GStr v) (on_config (\<lambda>c. c \<lparr> Compression := v \<rparr>) s))"

definition WithChunkSize :: "int \<Rightarrow> ('r, 'w) StreamingWrapper \<Rightarrow> ('r, 'w) StreamingWrapper" where
  "WithChunkSize n s =
    (if n \<le> 0 then refuse 400 (''Invalid chunk size: '' @ itoa n @ '' (must be > 0)'') s
     else note_kv ''chunk_size'' (GInt n) (on_config (\<lambda>c. c \<lparr> ChunkSize := n \<rparr>) s))"

definition WithThrottleRate :: "int \<Rightarrow> ('r, 'w) StreamingWrapper \<Rightarrow> ('r, 'w) StreamingWrapper" where
  "WithThrottleRate n s =
    (if n < 0 then refuse 400 (''Invalid throttle rate: '' @ itoa n @ '' (must be >= 0)'') s
     else let s1 = on_config (\<lambda>c. c \<lparr> ThrottleRate := n \<rparr>) s
       in if 0 < n then note_kv ''throttle_rate_bps'' (GInt n) s1
          else note_kv ''throttle_rate'' (GStr ''unlimited'') s1)"

definition WithMaxConcurrentChunks :: "int \<Rightarrow> ('r, 'w) StreamingWrapper \<Rightarrow> ('r, 'w) StreamingWrapper" where
  "WithMaxConcurrentChunks n s =
    (if n \<le> 0 then refuse 400 (''Invalid max concurrent chunks: '' @ itoa n @ '' (must be > 0)'') s
     else note_kv ''max_concurrent_chunks'' (GInt n) (on_config (\<lambda>c. c \<lparr> MaxConcurrentChunks := n \<rparr>) s))"

definition WithBufferPooling :: "bool \<Rightarrow> ('r, 'w) StreamingWrapper \<Rightarrow> ('r, 'w) StreamingWrapper" where
  "WithBufferPooling v s = note_kv ''buffer_pooling_enabled'' (GBool v) (on_config (\<lambda>c. c \<lparr> UseBufferPool := v \<rparr>) s)"

definition WithReadTimeout :: "int \<Rightarrow> ('r, 'w) StreamingWrapper \<Rightarrow> ('r, 'w) StreamingWrapper" where
  "WithReadTimeout n s =
    (if n \<le> 0 then refuse 400 (''Invalid read timeout: '' @ itoa n @ '' ms (must be > 0)'') s
     else note_kv ''read_timeout_ms'' (GInt n) (on_config (\<lambda>c. c \<lparr> ReadTimeout := wrap64 (n * 1000000) \<rparr>) s))"

definition WithWriteTimeout :: "int \<Rightarrow> ('r, 'w) StreamingWrapper \<Rightarrow> ('r, 'w) StreamingWrapper" where
  "WithWriteTimeout n s =
    (if n \<le> 0 then refuse 400 (''Invalid write timeout: '' @ itoa n @ '' ms (must be > 0)'') s
     else note_kv ''write_timeout_ms'' (GInt n) (on_config (\<lambda>c. c \<lparr> WriteTimeout := wrap64 (n * 1000000) \<rparr>) s))"

text \<open>The answer of every setting on a nil receiver.\<close>

definition respondStreamBadRequestDefault :: "env \<Rightarrow> wrapper" where
  "respondStreamBadRequestDefault e =
    BindCause (env_addr e) (WithMessage ''invalid streaming wrapper: nil reference provided.''
      (WithHeader (Some BadRequest) (New e)))"

definition HasErrors :: "('r, 'w) StreamingWrapper \<Rightarrow> bool" where
  "HasErrors s = (length (errors s) > 0)"

text \<open>The getters take a copy; \<open>GetStats\<close> first sets the compression ratio.\<close>

definition GetStats :: "('r, 'w) StreamingWrapper \<Rightarrow> StreamingStats \<times> ('r, 'w) StreamingWrapper" where
  "GetStats s =
    (let st = stats s;
         ratio = (if 0 < sTotalBytes st \<and> 0 < CompressedBytes st
                  then of_int (CompressedBytes st) / of_int (sTotalBytes st) else 1);
         st' = st \<lparr> CompressionRatio := ratio \<rparr>
     in (st', s \<lparr> stats := st' \<rparr>))"

text \<open>\<open>Cancel\<close>; the debugging value is the second of the clock.\<close>

definition Cancel :: "('r, 'w) io \<Rightarrow> ('r, 'w) StreamingWrapper \<Rightarrow> ('r, 'w) StreamingWrapper" where
  "Cancel io s =
    (let s1 = on_wrap (WithMessage ''Streaming cancelled'') (s \<lparr> cancelled := True \<rparr>)
     in (note_kv ''cancelled_at'' (GInt (clock io (ticks s) div Second)) s1) \<lparr> ticks := ticks s + 1 \<rparr>)"

section \<open>One chunk\<close>

definition recordError :: "goerr \<Rightarrow> ('r, 'w) StreamingWrapper \<Rightarrow> ('r, 'w) StreamingWrapper" where
  "recordError e s = s \<lparr> errors := errors s @ [e], stats := (stats s) \<lparr> sErrors := sErrors (stats s) @ [e] \<rparr> \<rparr>"

definition failChunk :: "('r, 'w) StreamingWrapper \<Rightarrow> ('r, 'w) StreamingWrapper" where
  "failChunk s = s \<lparr> stats := (stats s) \<lparr> FailedChunks := wrap64 (FailedChunks (stats s) + 1) \<rparr> \<rparr>"

definition addCompressed :: "int \<Rightarrow> ('r, 'w) StreamingWrapper \<Rightarrow> ('r, 'w) StreamingWrapper" where
  "addCompressed n s = s \<lparr> stats := (stats s) \<lparr> CompressedBytes := wrap64 (CompressedBytes (stats s) + n) \<rparr> \<rparr>"

definition compressChunk :: "('r, 'w) io \<Rightarrow> StreamConfig \<Rightarrow> StreamChunk \<Rightarrow> goerr + bytes" where
  "compressChunk io cfg chunk =
    (if Compression cfg = CompressGzip then gzip io (Data chunk)
     else if Compression cfg = CompressFlate then deflate io (Data chunk)
     else Inr (Data chunk))"

definition decompressChunk :: "('r, 'w) io \<Rightarrow> StreamChunk \<Rightarrow> goerr + bytes" where
  "decompressChunk io chunk =
    (if CompressionType chunk = CompressGzip then gunzip io (Data chunk)
     else if CompressionType chunk = CompressFlate then inflate io (Data chunk)
     else Inr (Data chunk))"

unbundle bit_operations_syntax

definition checksum_byte :: "32 word \<Rightarrow> byte \<Rightarrow> 32 word" where
  "checksum_byte crc b = (drop_bit 8 crc OR push_bit 24 (crc AND 255)) XOR of_nat (byte_val b)"

definition calculateChecksum :: "bytes \<Rightarrow> 32 word" where
  "calculateChecksum data = foldl checksum_byte 0 data"

definition updateProgress :: "('r, 'w) io \<Rightarrow> StreamChunk \<Rightarrow> ('r, 'w) StreamingWrapper \<Rightarrow> ('r, 'w) StreamingWrapper" where
  "updateProgress io chunk s =
    (let cur = currentChunk s;
         p0 = progress s;
         tb = wrap64 (TransferredBytes p0 + Size chunk);
         p1 = p0 \<lparr> TransferredBytes := tb, CurrentChunk := cur \<rparr>;
         total = pTotalBytes p1;
         p2 = (if 0 < total then p1 \<lparr> Percentage := go_div (wrap64 (tb * 100)) total \<rparr> else p1);
         elapsed = clock io (ticks s) - StartTime (stats s);
         p3 = p2 \<lparr> ElapsedTime := elapsed, LastUpdate := clock io (ticks s + 1) \<rparr>;
         rate = rate_of io tb elapsed;
         p4 = (if 0 < elapsed
               then let p = p3 \<lparr> TransferRate := rate \<rparr>
                 in if 0 < rate \<and> 0 < total
                    then p \<lparr> EstimatedTimeRemaining := remaining_of io (wrap64 (total - tb)) rate \<rparr> else p
               else p3);
         st1 = (stats s) \<lparr> sTotalChunks := cur, sTotalBytes := tb \<rparr>;
         st2 = (if 0 < cur then st1 \<lparr> AverageChunkSize := go_div tb cur \<rparr> else st1);
         st3 = st2 \<lparr> AverageBandwidth := TransferRate p4 \<rparr>
     in s \<lparr> progress := p4, stats := st3, ticks := ticks s + 2 \<rparr>)"

text \<open>\<open>sw.writer.Write(chunk.Data)\<close>, when there is a writer.\<close>

definition write_data :: "('r, 'w) io \<Rightarrow> bytes \<Rightarrow> ('r, 'w) StreamingWrapper \<Rightarrow> goerr option \<times> ('r, 'w) StreamingWrapper" where
  "write_data io data s = (case writer s of
      None \<Rightarrow> (None, s)
    | Some w \<Rightarrow> (case Write io w data of (err, w') \<Rightarrow> (err, s \<lparr> writer := Some w' \<rparr>)))"

text \<open>The pause of the throttle reads the clock once.\<close>

definition throttle :: "('r, 'w) StreamingWrapper \<Rightarrow> ('r, 'w) StreamingWrapper" where
  "throttle s = (if 0 < ThrottleRate (config s) then s \<lparr> ticks := ticks s + 1 \<rparr> else s)"

definition new_chunk :: "('r, 'w) io \<Rightarrow> int \<Rightarrow> bytes \<Rightarrow> ('r, 'w) StreamingWrapper \<Rightarrow> StreamChunk \<times> ('r, 'w) StreamingWrapper" where
  "new_chunk io i data s =
    (\<lparr> SequenceNumber = i, Data = data, Size = int (length data), Checksum = 0,
       Timestamp = clock io (ticks s), Compressed = False, CompressionType = Compression (config s),
       chunkError = None \<rparr>, s \<lparr> ticks := ticks s + 1 \<rparr>)"

text \<open>The body of the loop for a chunk that was read, per strategy and direction: whether it ends
  with \<open>continue\<close>, and the new state.  \<open>k\<close> is the local chunk number of the chunked strategy.\<close>

definition compressing :: "('r, 'w) StreamingWrapper \<Rightarrow> bool" where
  "compressing s \<longleftrightarrow> Compression (config s) \<noteq> CompressNone"

definition direct_chunk :: "('r, 'w) io \<Rightarrow> int \<Rightarrow> bytes \<Rightarrow> ('r, 'w) StreamingWrapper \<Rightarrow> bool \<times> ('r, 'w) StreamingWrapper" where
  "direct_chunk io k data s0 =
    (let (chunk, s) = new_chunk io (currentChunk s0) data s0;
         comp = (if compressing s then compressChunk io (config s) chunk else Inr (Data chunk))
     in case comp of
       Inl compErr \<Rightarrow> (True, recordError compErr s)
     | Inr d \<Rightarrow>
        (let chunk1 = chunk \<lparr> Data := d, Compressed := compressing s \<rparr>;
             s1 = (if compressing s then addCompressed (int (length d)) s else s);
             chunk2 = chunk1 \<lparr> Checksum := calculateChecksum (Data chunk1) \<rparr>
         in case write_data io (Data chunk2) s1 of
              (Some writeErr, s2) \<Rightarrow> (True, failChunk (recordError writeErr s2))
            | (None, s2) \<Rightarrow>
               (let s3 = updateProgress io chunk2 s2
                in (False, throttle (s3 \<lparr> currentChunk := wrap64 (currentChunk s3 + 1) \<rparr>)))))"

definition receive_direct_chunk :: "('r, 'w) io \<Rightarrow> int \<Rightarrow> bytes \<Rightarrow> ('r, 'w) StreamingWrapper \<Rightarrow> bool \<times> ('r, 'w) StreamingWrapper" where
  "receive_direct_chunk io k data s0 =
    (let (chunk, s) = new_chunk io (currentChunk s0) data s0;
         dec = (if compressing s then decompressChunk io chunk else Inr (Data chunk))
     in case dec of
       Inl decErr \<Rightarrow> (True, failChunk (recordError decErr s))
     | Inr d \<Rightarrow>
        (let chunk1 = chunk \<lparr> Data := d, Compressed := False \<rparr>;
             chunk2 = chunk1 \<lparr> Checksum := calculateChecksum (Data chunk1) \<rparr>
         in case write_data io (Data chunk2) s of
              (Some writeErr, s2) \<Rightarrow> (True, failChunk (recordError writeErr s2))
            | (None, s2) \<Rightarrow>
               (let s3 = updateProgress io chunk2 s2
                in (False, throttle (s3 \<lparr> currentChunk := wrap64 (currentChunk s3 + 1) \<rparr>)))))"

text \<open>In the chunked strategy a failure of the codec or of the writer is noted and the chunk goes
  on: with its data as read, and into the progress.\<close>

definition write_and_count :: "('r, 'w) io \<Rightarrow> StreamChunk \<Rightarrow> ('r, 'w) StreamingWrapper \<Rightarrow> bool \<times> ('r, 'w) StreamingWrapper" where
  "write_and_count io chunk0 s =
    (let chunk = chunk0 \<lparr> Checksum := calculateChecksum (Data chunk0) \<rparr>
     in case write_data io (Data chunk) s of
          (Some writeErr, s1) \<Rightarrow>
            (False, updateProgress io (chunk \<lparr> chunkError := Some writeErr \<rparr>) (failChunk (recordError writeErr s1)))
        | (None, s1) \<Rightarrow> (False, updateProgress io chunk s1))"

definition chunked_chunk :: "('r, 'w) io \<Rightarrow> int \<Rightarrow> bytes \<Rightarrow> ('r, 'w) StreamingWrapper \<Rightarrow> bool \<times> ('r, 'w) StreamingWrapper" where
  "chunked_chunk io k data s0 =
    (let (chunk, s) = new_chunk io k data s0
     in if compressing s
        then (case compressChunk io (config s) chunk of
            Inl compErr \<Rightarrow>
              write_and_count io (chunk \<lparr> chunkError := Some compErr \<rparr>) (failChunk (recordError compErr s))
          | Inr d \<Rightarrow>
              write_and_count io (chunk \<lparr> Data := d, Compressed := True \<rparr>) (addCompressed (int (length d)) s))
        else write_and_count io chunk s)"

definition receive_chunked_chunk :: "('r, 'w) io \<Rightarrow> int \<Rightarrow> bytes \<Rightarrow> ('r, 'w) StreamingWrapper \<Rightarrow> bool \<times> ('r, 'w) StreamingWrapper" where
  "receive_chunked_chunk io k data s0 =
    (let (chunk, s) = new_chunk io k data s0
     in if compressing s
        then (case decompressChunk io chunk of
            Inl decErr \<Rightarrow>
              write_and_count io (chunk \<lparr> chunkError := Some decErr \<rparr>) (failChunk (recordError decErr s))
          | Inr d \<Rightarrow> write_and_count io (chunk \<lparr> Data := d, Compressed := False \<rparr>) s)
        else write_and_count io chunk s)"

section \<open>The sequential strategies\<close>

fun ctx_text :: "ctx_error \<Rightarrow> gostring" where
  "ctx_text Canceled = ''context canceled''"
| "ctx_text DeadlineExceeded = ''context deadline exceeded''"

text \<open>\<open>fmt.Errorf\<close> with a new address.\<close>

definition Errorf :: "gostring \<Rightarrow> ('r, 'w) StreamingWrapper \<Rightarrow> goerr option \<times> ('r, 'w) StreamingWrapper" where
  "Errorf msg s = (Some (foreign (next_addr s) msg), s \<lparr> next_addr := next_addr s + 1 \<rparr>)"

definition set_end :: "('r, 'w) io \<Rightarrow> ('r, 'w) StreamingWrapper \<Rightarrow> ('r, 'w) StreamingWrapper" where
  "set_end io s = s \<lparr> stats := (stats s) \<lparr> EndTime := clock io (ticks s) \<rparr>, ticks := ticks s + 1 \<rparr>"

definition set_start :: "('r, 'w) io \<Rightarrow> ('r, 'w) StreamingWrapper \<Rightarrow> ('r, 'w) StreamingWrapper" where
  "set_start io s = s \<lparr> stats := (stats s) \<lparr> StartTime := clock io (ticks s) \<rparr>, ticks := ticks s + 1 \<rparr>"

type_synonym ('r, 'w) strategy =
  "ctx \<Rightarrow> ('r, 'w) StreamingWrapper \<Rightarrow> (goerr option \<times> ('r, 'w) StreamingWrapper) option"

text \<open>The loop \<open>for\<close> of the four strategies.  \<^term>\<open>None\<close>: the call does not return, because the loop
  goes on for ever or because of a panic (a buffer of negative size).\<close>

partial_function (option) read_loop ::
    "('r, 'w) io \<Rightarrow> ctx \<Rightarrow>
      (int \<Rightarrow> bytes \<Rightarrow> ('r, 'w) StreamingWrapper \<Rightarrow> bool \<times> ('r, 'w) StreamingWrapper) \<Rightarrow>
      int \<Rightarrow> ('r, 'w) StreamingWrapper \<Rightarrow> (goerr option \<times> ('r, 'w) StreamingWrapper) option" where
  "read_loop io ctx step k s =
    (case ctx (polls s) of
       Some e \<Rightarrow> Some (Errorf (''streaming cancelled: '' @ ctx_text e) (s \<lparr> polls := polls s + 1 \<rparr>))
     | None \<Rightarrow>
        (case Read io (the (reader s)) (ChunkSize (config s)) of (data, err, r) \<Rightarrow>
          let s1 = s \<lparr> polls := polls s + 1, reader := Some r \<rparr>;
              (skip, s2) = (if 0 < length data then step k data s1 else (False, s1));
              k' = (if 0 < length data \<and> \<not> skip then wrap64 (k + 1) else k)
          in if skip then read_loop io ctx step k' s2
             else (case err of
                 None \<Rightarrow> read_loop io ctx step k' s2
               | Some EOF \<Rightarrow> Some (None, set_end io s2)
               | Some (ReadError e) \<Rightarrow>
                   Some (Errorf (''read error: '' @ Error_text e) (failChunk (recordError e s2))))))"

declare read_loop.simps [code]

definition run_loop ::
    "('r, 'w) io \<Rightarrow> ctx \<Rightarrow>
      (int \<Rightarrow> bytes \<Rightarrow> ('r, 'w) StreamingWrapper \<Rightarrow> bool \<times> ('r, 'w) StreamingWrapper) \<Rightarrow>
      ('r, 'w) StreamingWrapper \<Rightarrow> (goerr option \<times> ('r, 'w) StreamingWrapper) option" where
  "run_loop io ctx step s =
    (if ChunkSize (config s) < 0 then None else read_loop io ctx step 0 (set_start io s))"

definition streamDirect :: "('r, 'w) io \<Rightarrow> ('r, 'w) strategy" where
  "streamDirect io ctx s = run_loop io ctx (direct_chunk io) s"

definition streamChunked :: "('r, 'w) io \<Rightarrow> ('r, 'w) strategy" where
  "streamChunked io ctx s = run_loop io ctx (chunked_chunk io) s"

definition streamReceiveDirect :: "('r, 'w) io \<Rightarrow> ('r, 'w) strategy" where
  "streamReceiveDirect io ctx s = run_loop io ctx (receive_direct_chunk io) s"

definition streamReceiveChunked :: "('r, 'w) io \<Rightarrow> ('r, 'w) strategy" where
  "streamReceiveChunked io ctx s = run_loop io ctx (receive_chunked_chunk io) s"

section \<open>Start\<close>

text \<open>The outcome of the buffered strategies depends on the schedule of their goroutines; it is the
  argument \<open>buffered\<close>, with the direction as its first argument.\<close>

definition run_strategy ::
    "('r, 'w) io \<Rightarrow> (bool \<Rightarrow> ('r, 'w) strategy) \<Rightarrow> ('r, 'w) strategy" where
  "run_strategy io buffered ctx s =
    (let strat = Strategy (config s); receiving = IsReceiving (config s)
     in if strat = StrategyDirect
        then (if receiving then streamReceiveDirect io ctx s else streamDirect io ctx s)
        else if strat = StrategyBuffered then buffered receiving ctx s
        else if strat = StrategyChunked
        then (if receiving then streamReceiveChunked io ctx s else streamChunked io ctx s)
        else Some (NewError (next_addr s) (''unknown streaming strategy: '' @ strat),
          s \<lparr> next_addr := next_addr s + 1 \<rparr>))"

definition millis :: "time \<Rightarrow> int" where
  "millis t = t div 1000000"

definition start_failed :: "('r, 'w) io \<Rightarrow> goerr \<Rightarrow> ('r, 'w) StreamingWrapper \<Rightarrow> ('r, 'w) StreamingWrapper" where
  "start_failed io streamErr s =
    (let s1 = set_end io s;
         s2 = (on_wrap (\<lambda>w. WithStatusCode 500 (WithErrorAck (next_addr s) (Some streamErr) w)) s1)
                \<lparr> next_addr := next_addr s + 1 \<rparr>;
         s3 = note_kv ''failed_chunks'' (GInt (FailedChunks (stats s2))) s2;
         s4 = note_kv ''total_errors'' (GInt (int (length (errors s3)))) s3
     in recordError streamErr s4)"

definition start_succeeded :: "('r, 'w) io \<Rightarrow> ('r, 'w) StreamingWrapper \<Rightarrow> ('r, 'w) StreamingWrapper" where
  "start_succeeded io s =
    (let s1 = (if IsZero (EndTime (stats s)) then set_end io s else s);
         s2 = s1 \<lparr> progress := (progress s1) \<lparr> Percentage := 100 \<rparr> \<rparr>;
         st = stats s2;
         s3 = on_wrap (\<lambda>w. WithMessage ''Streaming completed successfully'' (WithStatusCode 200 w)) s2;
         s4 = note_kv ''started_at_ms'' (GInt (millis (StartTime st))) s3;
         s5 = note_kv ''completed_at_ms'' (GInt (millis (EndTime st))) s4;
         s6 = note_kv ''total_chunks'' (GInt (sTotalChunks st)) s5;
         s7 = note_kv ''total_bytes'' (GInt (sTotalBytes st)) s6;
         s8 = note_kv ''compressed_bytes'' (GInt (CompressedBytes st)) s7
     in note_kv ''duration_ms'' (GInt (go_div (Sub (EndTime st) (StartTime st)) 1000000)) s8)"

definition Start ::
    "('r, 'w) io \<Rightarrow> (bool \<Rightarrow> ('r, 'w) strategy) \<Rightarrow> ctx option \<Rightarrow> ('r, 'w) StreamingWrapper \<Rightarrow>
      ('r, 'w) StreamingWrapper option" where
  "Start io buffered ctx0 s =
    (if reader s = None then Some (refuse 400 ''reader not set for streaming'' s)
     else if isStreaming s then Some (refuse 409 ''streaming already in progress'' s)
     else
       let s1 = on_wrap (WithMessage ''Streaming started'') (s \<lparr> isStreaming := True \<rparr>);
           s2 = (note_kv ''started_at_ms'' (GInt (millis (clock io (ticks s)))) s1) \<lparr> ticks := ticks s + 1 \<rparr>;
           ctx = (case ctx0 of Some c \<Rightarrow> c
                  | None \<Rightarrow> \<lambda>n. if cancelled s then Some Canceled else own_ctx io n)
       in case run_strategy io buffered ctx s2 of
            None \<Rightarrow> None
          | Some (streamErr, s3) \<Rightarrow>
              let s4 = s3 \<lparr> isStreaming := False \<rparr>
              in Some (case streamErr of
                   Some e \<Rightarrow> start_failed io e s4
                 | None \<Rightarrow> start_succeeded io s4))"

end
