(* ===== verification/StreamingLoop.thy ===== *)
theory StreamingLoop
  imports Streaming "HOL-Library.Sublist"
begin

text \<open>
  What the sequential strategies of \<open>stream.go\<close> do with a reader that delivers chunks and then
  ends: the loop folds the body of the strategy over the chunks.  The bodies share two
  interfaces, \<open>chunk_handler\<close> (what the loop relies on) and \<open>clean_handler\<close> (what a chunk
  without failures does), each interpreted for the four bodies.
\<close>

section \<open>Readers and writers\<close>

text \<open>Reading from \<open>r\<close> with buffers of \<open>n\<close> bytes gives the chunks, perhaps with empty reads in
  between, and then the end; the last chunk may come together with the end, which is then
  reported again.\<close>

inductive delivers :: "('r, 'w) io \<Rightarrow> int \<Rightarrow> 'r \<Rightarrow> bytes list \<Rightarrow> bool" for io n where
  ends: "Read io r n = ([], Some EOF, r') \<Longrightarrow> delivers io n r []"
| idle: "Read io r n = ([], None, r') \<Longrightarrow> delivers io n r' cs \<Longrightarrow> delivers io n r cs"
| more: "Read io r n = (c, None, r') \<Longrightarrow> c \<noteq> [] \<Longrightarrow> delivers io n r' cs \<Longrightarrow> delivers io n r (c # cs)"
| last: "Read io r n = (c, Some EOF, r') \<Longrightarrow> c \<noteq> [] \<Longrightarrow> delivers io n r' [] \<Longrightarrow> delivers io n r [c]"

text \<open>A writer that appends what it is given to the bytes \<open>sink w\<close> and never fails.\<close>

definition appends :: "('r, 'w) io \<Rightarrow> ('w \<Rightarrow> bytes) \<Rightarrow> bool" where
  "appends io sink \<longleftrightarrow> (\<forall>w d. \<exists>w'. Write io w d = (None, w') \<and> sink w' = sink w @ d)"

text \<open>The fold of a body over chunks.\<close>

fun session ::
    "(int \<Rightarrow> bytes \<Rightarrow> ('r, 'w) StreamingWrapper \<Rightarrow> bool \<times> ('r, 'w) StreamingWrapper) \<Rightarrow>
      int \<Rightarrow> ('r, 'w) StreamingWrapper \<Rightarrow> bytes list \<Rightarrow> ('r, 'w) StreamingWrapper" where
  "session step k s [] = s"
| "session step k s (c # cs) =
    (case step k c s of (skip, s') \<Rightarrow> session step (if skip then k else wrap64 (k + 1)) s' cs)"

section \<open>What the loop relies on\<close>

definition at_read :: "'r option \<Rightarrow> nat \<Rightarrow> ('r, 'w) StreamingWrapper \<Rightarrow> ('r, 'w) StreamingWrapper" where
  "at_read r n s = s \<lparr> polls := n, reader := r \<rparr>"

lemma at_read_simps [simp]:
  "at_read r n (at_read r' n' s) = at_read r n s"
  "config (at_read r n s) = config s" "polls (at_read r n s) = n" "reader (at_read r n s) = r"
  "writer (at_read r n s) = writer s" "errors (at_read r n s) = errors s" "stats (at_read r n s) = stats s"
  "progress (at_read r n s) = progress s" "currentChunk (at_read r n s) = currentChunk s"
  "ticks (at_read r n s) = ticks s" "wrap (at_read r n s) = wrap s"
  "isStreaming (at_read r n s) = isStreaming s" "compressing (at_read r n s) = compressing s"
  "cancelled (at_read r n s) = cancelled s"
  by (simp_all add: at_read_def compressing_def)

lemma at_read_frame:
  "recordError e (at_read r n s) = at_read r n (recordError e s)"
  "failChunk (at_read r n s) = at_read r n (failChunk s)"
  "addCompressed i (at_read r n s) = at_read r n (addCompressed i s)"
  "throttle (at_read r n s) = at_read r n (throttle s)"
  "set_end io (at_read r n s) = at_read r n (set_end io s)"
  "at_read r n s \<lparr> currentChunk := i \<rparr> = at_read r n (s \<lparr> currentChunk := i \<rparr>)"
  "at_read r n s \<lparr> ticks := m \<rparr> = at_read r n (s \<lparr> ticks := m \<rparr>)"
  "at_read r n s \<lparr> writer := v \<rparr> = at_read r n (s \<lparr> writer := v \<rparr>)"
  by (simp_all add: recordError_def failChunk_def addCompressed_def throttle_def set_end_def at_read_def)

lemma updateProgress_frame: "updateProgress io c (at_read r n s) = at_read r n (updateProgress io c s)"
  by (simp add: updateProgress_def at_read_def Let_def)

lemma write_data_frame: "write_data io d (at_read r n s) = apsnd (at_read r n) (write_data io d s)"
  by (simp add: write_data_def at_read_frame split: option.split prod.split)

lemma new_chunk_frame: "new_chunk io i d (at_read r n s) = apsnd (at_read r n) (new_chunk io i d s)"
  by (simp add: new_chunk_def at_read_frame)

lemmas body_frames = at_read_frame updateProgress_frame write_data_frame new_chunk_frame

lemma write_and_count_frame: "write_and_count io c (at_read r n s) = apsnd (at_read r n) (write_and_count io c s)"
  by (cases "write_data io (Data c) s")
    (simp add: write_and_count_def body_frames Let_def split: option.split)

text \<open>The configuration stays as it is.\<close>

lemma config_kept [simp]:
  "config (recordError e s) = config s" "config (failChunk s) = config s" "config (addCompressed i s) = config s"
  "config (throttle s) = config s" "config (set_end io s) = config s" "config (set_start io s) = config s"
  "config (updateProgress io c s) = config s" "config (snd (new_chunk io i d s)) = config s"
  "config (snd (write_data io d s)) = config s"
  by (simp_all add: recordError_def failChunk_def addCompressed_def throttle_def set_end_def set_start_def
      updateProgress_def new_chunk_def write_data_def Let_def split: option.split prod.split)

locale chunk_handler =
  fixes step :: "int \<Rightarrow> bytes \<Rightarrow> ('r, 'w) StreamingWrapper \<Rightarrow> bool \<times> ('r, 'w) StreamingWrapper"
  assumes step_frame: "step k d (at_read r n s) = apsnd (at_read r n) (step k d s)"
    and step_config: "config (snd (step k d s)) = config s"
begin

lemma session_frame: "session step k (at_read r n s) cs = at_read r n (session step k s cs)"
proof (induction cs arbitrary: k s)
  case (Cons c cs)
  then show ?case by (cases "step k c s") (simp add: step_frame)
qed simp

lemma session_config: "config (session step k s cs) = config s"
proof (induction cs arbitrary: k s)
  case (Cons c cs)
  show ?case
  proof (cases "step k c s")
    case (Pair skip s')
    with step_config [of k c s] Cons show ?thesis by simp
  qed
qed simp

lemma loop_step:
  assumes "ctx (polls s) = None" and "reader s = Some r" and "Read io r (ChunkSize (config s)) = (c, err, r')"
    and "c \<noteq> []" and "step k c s = (skip, s')"
  shows "read_loop io ctx step k s =
    (let s2 = at_read (Some r') (polls s + 1) s' in
     if skip then read_loop io ctx step k s2
     else (case err of
         None \<Rightarrow> read_loop io ctx step (wrap64 (k + 1)) s2
       | Some EOF \<Rightarrow> Some (None, set_end io s2)
       | Some (ReadError e) \<Rightarrow> Some (Errorf (''read error: '' @ Error_text e) (failChunk (recordError e s2)))))"
proof -
  have "step k c (at_read (Some r') (polls s + 1) s) = (skip, at_read (Some r') (polls s + 1) s')"
    using assms(5) by (simp add: step_frame)
  then have "step k c (s\<lparr>polls := polls s + 1, reader := Some r'\<rparr>) = (skip, at_read (Some r') (polls s + 1) s')"
    by (simp add: at_read_def)
  with assms(1-4) show ?thesis
    by (subst read_loop.simps) (simp add: Let_def)
qed

lemma loop_empty_read:
  assumes "ctx (polls s) = None" and "reader s = Some r" and "Read io r (ChunkSize (config s)) = ([], err, r')"
  shows "read_loop io ctx step k s =
    (let s2 = at_read (Some r') (polls s + 1) s in
     case err of
         None \<Rightarrow> read_loop io ctx step k s2
       | Some EOF \<Rightarrow> Some (None, set_end io s2)
       | Some (ReadError e) \<Rightarrow> Some (Errorf (''read error: '' @ Error_text e) (failChunk (recordError e s2))))"
  using assms by (subst read_loop.simps) (simp add: Let_def at_read_def)

text \<open>The loop is the fold over the chunks.\<close>

lemma loop_session:
  assumes "delivers io n r cs" and "\<And>i. ctx i = None"
    and "reader s = Some r" and "ChunkSize (config s) = n"
  shows "\<exists>r' m. read_loop io ctx step k s = Some (None, at_read (Some r') m (set_end io (session step k s cs)))"
  using assms(1,3,4)
proof (induction arbitrary: k s rule: delivers.induct)
  case (ends r r')
  then show ?case using assms(2) by (auto simp: loop_empty_read at_read_frame intro!: exI)
next
  case (idle r r' cs)
  let ?s = "at_read (Some r') (polls s + 1) s"
  have "read_loop io ctx step k s = read_loop io ctx step k ?s"
    using idle assms(2) by (simp add: loop_empty_read)
  with idle.IH [of ?s k] idle.prems show ?case by (simp add: session_frame at_read_frame)
next
  case (more r c r' cs)
  obtain skip s' where st: "step k c s = (skip, s')" by (cases "step k c s")
  let ?s = "at_read (Some r') (polls s + 1) s'"
  let ?k = "if skip then k else wrap64 (k + 1)"
  have "read_loop io ctx step k s = read_loop io ctx step ?k ?s"
    using more assms(2) st by (simp add: loop_step)
  moreover have "ChunkSize (config ?s) = n" using step_config [of k c s] st more.prems by simp
  ultimately show ?case using more.IH [of ?s ?k] st by (simp add: session_frame at_read_frame)
next
  case (last r c r')
  obtain skip s' where st: "step k c s = (skip, s')" by (cases "step k c s")
  let ?s = "at_read (Some r') (polls s + 1) s'"
  have c: "ChunkSize (config ?s) = n" using step_config [of k c s] st last.prems by simp
  show ?case
  proof (cases skip)
    case True
    then have "read_loop io ctx step k s = read_loop io ctx step k ?s"
      using last assms(2) st by (simp add: loop_step)
    with last.IH [of ?s k] c st True show ?thesis by (simp add: at_read_frame)
  next
    case False
    then have "read_loop io ctx step k s = Some (None, set_end io ?s)"
      using last assms(2) st by (simp add: loop_step)
    with st False show ?thesis by (auto simp: at_read_frame intro!: exI)
  qed
qed

lemma run_session:
  assumes "delivers io (ChunkSize (config s)) r cs" and "\<And>i. ctx i = None" and "reader s = Some r"
    and "0 \<le> ChunkSize (config s)"
  shows "\<exists>r' m. run_loop io ctx step s = Some (None, at_read (Some r') m (set_end io (session step 0 (set_start io s) cs)))"
proof -
  have "reader (set_start io s) = Some r" using assms(3) by (simp add: set_start_def)
  from loop_session [OF assms(1,2) this, where k = 0] assms(4) show ?thesis by (simp add: run_loop_def)
qed

end

section \<open>The four bodies\<close>

lemmas body_defs = direct_chunk_def receive_direct_chunk_def chunked_chunk_def receive_chunked_chunk_def

lemma write_and_count_config: "config (snd (write_and_count io c s)) = config s"
  by (cases "write_data io (Data c) s") (simp add: write_and_count_def Let_def config_kept(9) [of io "Data c" s, symmetric]
      split: option.split del: config_kept(9))

interpretation direct: chunk_handler "direct_chunk io" for io
  by unfold_locales (auto simp: body_defs body_frames Let_def case_prod_beta split: option.split sum.split)

interpretation receive_direct: chunk_handler "receive_direct_chunk io" for io
  by unfold_locales (auto simp: body_defs body_frames Let_def case_prod_beta split: option.split sum.split)

interpretation chunked: chunk_handler "chunked_chunk io" for io
  by unfold_locales (auto simp: body_defs body_frames write_and_count_frame write_and_count_config Let_def case_prod_beta
      split: sum.split)

interpretation receive_chunked: chunk_handler "receive_chunked_chunk io" for io
  by unfold_locales (auto simp: body_defs body_frames write_and_count_frame write_and_count_config Let_def case_prod_beta
      split: sum.split)

section \<open>Chunks without failures\<close>

text \<open>What the two directions make of the data of a chunk.\<close>

definition encode :: "('r, 'w) io \<Rightarrow> StreamConfig \<Rightarrow> bytes \<Rightarrow> goerr + bytes" where
  "encode io cfg d =
    (if Compression cfg = CompressGzip then gzip io d
     else if Compression cfg = CompressFlate then deflate io d else Inr d)"

definition decode :: "('r, 'w) io \<Rightarrow> StreamConfig \<Rightarrow> bytes \<Rightarrow> goerr + bytes" where
  "decode io cfg d =
    (if Compression cfg = CompressGzip then gunzip io d
     else if Compression cfg = CompressFlate then inflate io d else Inr d)"

lemma chunk_codes:
  "compressChunk io cfg (fst (new_chunk io i d s)) = encode io cfg d"
  "decompressChunk io (fst (new_chunk io i d s)) = decode io (config s) d"
  by (simp_all add: compressChunk_def decompressChunk_def encode_def decode_def new_chunk_def)

lemma no_code: "\<not> compressing s \<Longrightarrow> encode io (config s) d = Inr d" "\<not> compressing s \<Longrightarrow> decode io (config s) d = Inr d"
  by (simp_all add: compressing_def encode_def decode_def stream_names)

text \<open>The fields that the laws speak of, through the parts of a body.\<close>

definition tally :: "('r, 'w) StreamingWrapper \<Rightarrow> 'w option \<times> goerr list \<times> int \<times> int \<times> int \<times> int" where
  "tally s = (writer s, errors s, FailedChunks (stats s), TransferredBytes (progress s), currentChunk s, sTotalChunks (stats s))"

lemma tally_parts:
  "tally (snd (new_chunk io i d s)) = tally s" "tally (addCompressed m s) = tally s" "tally (throttle s) = tally s"
  "tally (set_start io s) = tally s" "tally (set_end io s) = tally s" "tally (at_read r n s) = tally s"
  by (simp_all add: tally_def new_chunk_def addCompressed_def throttle_def set_start_def set_end_def)

lemma tally_changes:
  "tally (recordError e s) = (case tally s of (w, es, f, t, c, n) \<Rightarrow> (w, es @ [e], f, t, c, n))"
  "tally (failChunk s) = (case tally s of (w, es, f, t, c, n) \<Rightarrow> (w, es, wrap64 (f + 1), t, c, n))"
  "tally (updateProgress io ch s) = (case tally s of (w, es, f, t, c, n) \<Rightarrow> (w, es, f, wrap64 (t + Size ch), c, c))"
  "tally (s \<lparr> currentChunk := i \<rparr>) = (case tally s of (w, es, f, t, c, n) \<Rightarrow> (w, es, f, t, i, n))"
  "tally (s \<lparr> writer := v \<rparr>) = (case tally s of (w, es, f, t, c, n) \<Rightarrow> (v, es, f, t, c, n))"
  by (simp_all add: tally_def recordError_def failChunk_def updateProgress_def Let_def)

text \<open>A wrapper that is ready: a reader that delivers \<open>cs\<close>, and counters within their type.\<close>

definition ready :: "('r, 'w) io \<Rightarrow> bytes list \<Rightarrow> ('r, 'w) StreamingWrapper \<Rightarrow> bool" where
  "ready io cs s \<longleftrightarrow> (\<exists>r. reader s = Some r \<and> delivers io (ChunkSize (config s)) r cs) \<and> 0 \<le> ChunkSize (config s) \<and>
    in_int64 (currentChunk s) \<and> in_int64 (TransferredBytes (progress s))"

lemma set_start_kept [simp]:
  "reader (set_start io s) = reader s" "writer (set_start io s) = writer s" "errors (set_start io s) = errors s"
  "currentChunk (set_start io s) = currentChunk s" "progress (set_start io s) = progress s"
  "FailedChunks (stats (set_start io s)) = FailedChunks (stats s)" "wrap (set_start io s) = wrap s"
  "sTotalChunks (stats (set_start io s)) = sTotalChunks (stats s)" "isStreaming (set_start io s) = isStreaming s"
  by (simp_all add: set_start_def)

context chunk_handler
begin

lemma run_ready:
  assumes "ready io cs s" and "\<forall>i. ctx i = None"
  shows "\<exists>r' m. run_loop io ctx step s = Some (None, at_read (Some r') m (set_end io (session step 0 (set_start io s) cs)))"
proof -
  from assms(1) obtain r where "reader s = Some r" "delivers io (ChunkSize (config s)) r cs" "0 \<le> ChunkSize (config s)"
    by (auto simp: ready_def)
  with run_session [of io s r cs ctx] assms(2) show ?thesis by blast
qed

end

text \<open>The fields after a run over \<open>cs\<close> without failures.\<close>

definition after_clean ::
    "bool \<Rightarrow> bytes list \<Rightarrow> 'w \<Rightarrow> ('r, 'w) StreamingWrapper \<Rightarrow> 'w option \<times> goerr list \<times> int \<times> int \<times> int \<times> int" where
  "after_clean counts cs w' s =
      (Some w', errors s, FailedChunks (stats s),
       wrap64 (TransferredBytes (progress s) + int (length (concat cs))),
       if counts then wrap64 (currentChunk s + int (length cs)) else currentChunk s,
       if cs = [] then sTotalChunks (stats s)
       else if counts then wrap64 (currentChunk s + int (length cs) - 1) else currentChunk s)"

locale clean_handler = chunk_handler step
  for step :: "int \<Rightarrow> bytes \<Rightarrow> ('r, 'w) StreamingWrapper \<Rightarrow> bool \<times> ('r, 'w) StreamingWrapper" +
  fixes io :: "('r, 'w) io" and code :: "StreamConfig \<Rightarrow> bytes \<Rightarrow> goerr + bytes" and counts :: bool
  assumes clean: "code (config s) d = Inr e \<Longrightarrow> writer s = Some w \<Longrightarrow> Write io w e = (None, w') \<Longrightarrow>
    \<exists>s'. step k d s = (False, s') \<and> tally s' = (Some w', errors s, FailedChunks (stats s),
      wrap64 (TransferredBytes (progress s) + int (length d)),
      if counts then wrap64 (currentChunk s + 1) else currentChunk s, currentChunk s)"
begin

lemma session_clean:
  assumes "appends io sink" and "writer s = Some w" and "in_int64 (currentChunk s)" and "in_int64 (TransferredBytes (progress s))"
    and "list_all2 (\<lambda>c e. code (config s) c = Inr e) cs es"
  shows "\<exists>w'. sink w' = sink w @ concat es \<and> tally (session step k s cs) =
      (Some w', errors s, FailedChunks (stats s),
       wrap64 (TransferredBytes (progress s) + int (length (concat cs))),
       if counts then wrap64 (currentChunk s + int (length cs)) else currentChunk s,
       if cs = [] then sTotalChunks (stats s)
       else if counts then wrap64 (currentChunk s + int (length cs) - 1) else currentChunk s)"
  using assms(2-)
proof (induction cs arbitrary: es k s w)
  case Nil
  then show ?case by (auto simp: tally_def)
next
  case (Cons c cs)
  then obtain e es' where es: "es = e # es'" "code (config s) c = Inr e" "list_all2 (\<lambda>c e. code (config s) c = Inr e) cs es'"
    by (auto simp: list_all2_Cons1)
  obtain w1 where w1: "Write io w e = (None, w1)" "sink w1 = sink w @ e" using assms(1) by (auto simp: appends_def)
  from clean [OF es(2) Cons.prems(1) w1(1), of k] obtain s1 where s1: "step k c s = (False, s1)"
    and t: "tally s1 = (Some w1, errors s, FailedChunks (stats s),
      wrap64 (TransferredBytes (progress s) + int (length c)),
      if counts then wrap64 (currentChunk s + 1) else currentChunk s, currentChunk s)" by blast
  have cfg: "config s1 = config s" using step_config [of k c s] s1 by simp
  from t Cons.prems(2) have w: "writer s1 = Some w1" and i: "in_int64 (currentChunk s1)" "in_int64 (TransferredBytes (progress s1))"
    by (auto simp: tally_def)
  from Cons.IH [OF w i, of es' "wrap64 (k + 1)"] es(3) cfg obtain w' where
    w': "sink w' = sink w1 @ concat es'" and r: "tally (session step (wrap64 (k + 1)) s1 cs) =
      (Some w', errors s1, FailedChunks (stats s1),
       wrap64 (TransferredBytes (progress s1) + int (length (concat cs))),
       if counts then wrap64 (currentChunk s1 + int (length cs)) else currentChunk s1,
       if cs = [] then sTotalChunks (stats s1)
       else if counts then wrap64 (currentChunk s1 + int (length cs) - 1) else currentChunk s1)" by auto
  have "sink w' = sink w @ concat es" using w' w1(2) es(1) by simp
  moreover have "session step k s (c # cs) = session step (wrap64 (k + 1)) s1 cs" using s1 by simp
  moreover have "wrap64 (wrap64 (currentChunk s + 1) + int (length cs) - 1) = wrap64 (currentChunk s + int (length cs))"
    using wrap64_add [of "currentChunk s + 1" "int (length cs) - 1"] by (simp add: algebra_simps)
  ultimately show ?case using t r Cons.prems(2) by (intro exI [of _ w']) (auto simp: tally_def wrap64_add wrap64_add_right algebra_simps)
qed

lemma run_clean:
  assumes "ready io cs s" and "\<forall>i. ctx i = None"
    and "writer s = Some w" and "appends io sink" and "list_all2 (\<lambda>c e. code (config s) c = Inr e) cs es"
  shows "\<exists>s' w'. run_loop io ctx step s = Some (None, s') \<and> sink w' = sink w @ concat es \<and> tally s' = after_clean counts cs w' s"
proof -
  from assms(1) have i: "in_int64 (currentChunk s)" "in_int64 (TransferredBytes (progress s))" by (auto simp: ready_def)
  from run_ready [OF assms(1,2)] obtain r' m where
    run: "run_loop io ctx step s = Some (None, at_read (Some r') m (set_end io (session step 0 (set_start io s) cs)))" by blast
  from session_clean [OF assms(4), of "set_start io s" w cs es 0] assms(3,5) i obtain w' where
    "sink w' = sink w @ concat es" "tally (session step 0 (set_start io s) cs) = after_clean counts cs w' s"
    by (auto simp: after_clean_def)
  then have "sink w' = sink w @ concat es \<and> tally (at_read (Some r') m (set_end io (session step 0 (set_start io s) cs))) = after_clean counts cs w' s"
    by (simp add: tally_parts)
  with run show ?thesis by blast
qed

end

lemma write_ok: "writer s = Some w \<Longrightarrow> Write io w d = (None, w') \<Longrightarrow> write_data io d s = (None, s \<lparr> writer := Some w' \<rparr>)"
  by (simp add: write_data_def)

lemmas clean_defs = body_defs write_and_count_def case_prod_beta Let_def chunk_codes no_code write_ok

lemma Size_new [simp]: "Size (fst (new_chunk io i d s)) = int (length d)" "Data (fst (new_chunk io i d s)) = d"
  by (simp_all add: new_chunk_def)

lemma new_chunk_kept [simp]:
  "config (snd (new_chunk io i d s)) = config s" "compressing (snd (new_chunk io i d s)) = compressing s"
  "writer (snd (new_chunk io i d s)) = writer s" "writer (addCompressed m s) = writer s"
  "writer (recordError e s) = writer s" "writer (failChunk s) = writer s"
  by (simp_all add: new_chunk_def compressing_def addCompressed_def recordError_def failChunk_def)

lemma tally_intro: "tally s = (writer s, errors s, FailedChunks (stats s), TransferredBytes (progress s), currentChunk s, sTotalChunks (stats s))"
  by (simp add: tally_def)

lemma currentChunk_kept [simp]:
  "currentChunk (updateProgress io c s) = currentChunk s" "currentChunk (addCompressed m s) = currentChunk s"
  "currentChunk (snd (new_chunk io i d s)) = currentChunk s" "currentChunk (recordError e s) = currentChunk s"
  "currentChunk (failChunk s) = currentChunk s"
  by (simp_all add: updateProgress_def addCompressed_def new_chunk_def recordError_def failChunk_def Let_def)

lemma clean_bodies:
  assumes "writer s = Some w" and "Write io w e = (None, w')"
  shows "encode io (config s) d = Inr e \<Longrightarrow>
      \<exists>s'. direct_chunk io k d s = (False, s') \<and> tally s' = (Some w', errors s, FailedChunks (stats s),
        wrap64 (TransferredBytes (progress s) + int (length d)), wrap64 (currentChunk s + 1), currentChunk s)"
    and "decode io (config s) d = Inr e \<Longrightarrow>
      \<exists>s'. receive_direct_chunk io k d s = (False, s') \<and> tally s' = (Some w', errors s, FailedChunks (stats s),
        wrap64 (TransferredBytes (progress s) + int (length d)), wrap64 (currentChunk s + 1), currentChunk s)"
    and "encode io (config s) d = Inr e \<Longrightarrow>
      \<exists>s'. chunked_chunk io k d s = (False, s') \<and> tally s' = (Some w', errors s, FailedChunks (stats s),
        wrap64 (TransferredBytes (progress s) + int (length d)), currentChunk s, currentChunk s)"
    and "decode io (config s) d = Inr e \<Longrightarrow>
      \<exists>s'. receive_chunked_chunk io k d s = (False, s') \<and> tally s' = (Some w', errors s, FailedChunks (stats s),
        wrap64 (TransferredBytes (progress s) + int (length d)), currentChunk s, currentChunk s)"
  using assms
  by (cases "compressing s"; simp add: clean_defs tally_parts tally_changes; simp add: tally_intro)+

interpretation direct: clean_handler "direct_chunk io" io "encode io" True for io
  by unfold_locales (use clean_bodies(1) in simp)

interpretation receive_direct: clean_handler "receive_direct_chunk io" io "decode io" True for io
  by unfold_locales (use clean_bodies(2) in simp)

interpretation chunked: clean_handler "chunked_chunk io" io "encode io" False for io
  by unfold_locales (use clean_bodies(3) in simp)

interpretation receive_chunked: clean_handler "receive_chunked_chunk io" io "decode io" False for io
  by unfold_locales (use clean_bodies(4) in simp)

section \<open>Chunks with failures\<close>

text \<open>In the direct strategy a failure skips the chunk.\<close>

locale skipping_handler = chunk_handler step
  for step :: "int \<Rightarrow> bytes \<Rightarrow> ('r, 'w) StreamingWrapper \<Rightarrow> bool \<times> ('r, 'w) StreamingWrapper" +
  assumes skips: "step k d s = (True, s') \<Longrightarrow> length (errors s') = length (errors s) + 1 \<and>
      TransferredBytes (progress s') = TransferredBytes (progress s) \<and> currentChunk s' = currentChunk s"
    and keeps: "step k d s = (False, s') \<Longrightarrow> errors s' = errors s \<and>
      TransferredBytes (progress s') = wrap64 (TransferredBytes (progress s) + int (length d)) \<and>
      currentChunk s' = wrap64 (currentChunk s + 1)"
begin

lemma session_accounts:
  assumes "in_int64 (currentChunk s)" and "in_int64 (TransferredBytes (progress s))"
  shows "\<exists>oks. subseq oks cs \<and>
    length (errors (session step k s cs)) = length (errors s) + (length cs - length oks) \<and>
    TransferredBytes (progress (session step k s cs)) = wrap64 (TransferredBytes (progress s) + int (length (concat oks))) \<and>
    currentChunk (session step k s cs) = wrap64 (currentChunk s + int (length oks))"
  using assms
proof (induction cs arbitrary: k s)
  case (Cons c cs)
  obtain skip s1 where st: "step k c s = (skip, s1)" by (cases "step k c s")
  have i: "in_int64 (currentChunk s1)" "in_int64 (TransferredBytes (progress s1))"
    using st skips [of k c s s1] keeps [of k c s s1] Cons.prems by (cases skip; auto)+
  let ?k = "if skip then k else wrap64 (k + 1)"
  from Cons.IH [OF i, of ?k] obtain oks where oks: "subseq oks cs"
    "length (errors (session step ?k s1 cs)) = length (errors s1) + (length cs - length oks)"
    "TransferredBytes (progress (session step ?k s1 cs)) = wrap64 (TransferredBytes (progress s1) + int (length (concat oks)))"
    "currentChunk (session step ?k s1 cs) = wrap64 (currentChunk s1 + int (length oks))" by blast
  have le: "length oks \<le> length cs" using oks(1) by (rule list_emb_length)
  show ?case
  proof (cases skip)
    case True
    with st oks le skips [of k c s s1] show ?thesis by (intro exI [of _ oks]) auto
  next
    case False
    with st oks le keeps [of k c s s1] show ?thesis
      by (intro exI [of _ "c # oks"]) (auto simp: wrap64_add wrap64_add_right algebra_simps)
  qed
qed (auto intro!: exI [of _ "[]"])

lemma run_accounts:
  assumes "ready io cs s" and "\<forall>i. ctx i = None"
  shows "\<exists>s' oks. run_loop io ctx step s = Some (None, s') \<and> subseq oks cs \<and>
    length (errors s') = length (errors s) + (length cs - length oks) \<and>
    TransferredBytes (progress s') = wrap64 (TransferredBytes (progress s) + int (length (concat oks))) \<and>
    currentChunk s' = wrap64 (currentChunk s + int (length oks))"
proof -
  from assms(1) have i: "in_int64 (currentChunk (set_start io s))" "in_int64 (TransferredBytes (progress (set_start io s)))"
    by (auto simp: ready_def)
  from run_ready [OF assms] obtain r' m where
    run: "run_loop io ctx step s = Some (None, at_read (Some r') m (set_end io (session step 0 (set_start io s) cs)))" by blast
  from session_accounts [OF i, of cs 0] obtain oks where "subseq oks cs \<and>
    length (errors (session step 0 (set_start io s) cs)) = length (errors s) + (length cs - length oks) \<and>
    TransferredBytes (progress (session step 0 (set_start io s) cs)) = wrap64 (TransferredBytes (progress s) + int (length (concat oks))) \<and>
    currentChunk (session step 0 (set_start io s) cs) = wrap64 (currentChunk s + int (length oks))" by auto
  with run show ?thesis by (auto simp: set_end_def)
qed

end

text \<open>In the chunked strategy a failure is noted, and the chunk counts as transferred.\<close>

definition marked :: "bytes \<Rightarrow> ('r, 'w) StreamingWrapper \<Rightarrow> bool \<times> ('r, 'w) StreamingWrapper \<Rightarrow> bool" where
  "marked d s r \<longleftrightarrow> (\<exists>es s'. r = (False, s') \<and> errors s' = errors s @ es \<and>
      FailedChunks (stats s') = wrap64 (FailedChunks (stats s) + int (length es)) \<and>
      TransferredBytes (progress s') = wrap64 (TransferredBytes (progress s) + int (length d)) \<and>
      currentChunk s' = currentChunk s)"

locale marking_handler = chunk_handler step
  for step :: "int \<Rightarrow> bytes \<Rightarrow> ('r, 'w) StreamingWrapper \<Rightarrow> bool \<times> ('r, 'w) StreamingWrapper" +
  assumes marks: "in_int64 (FailedChunks (stats s)) \<Longrightarrow> marked d s (step k d s)"
begin

lemma session_marks:
  assumes "in_int64 (FailedChunks (stats s))" and "in_int64 (TransferredBytes (progress s))"
  shows "\<exists>es. errors (session step k s cs) = errors s @ es \<and>
    FailedChunks (stats (session step k s cs)) = wrap64 (FailedChunks (stats s) + int (length es)) \<and>
    TransferredBytes (progress (session step k s cs)) = wrap64 (TransferredBytes (progress s) + int (length (concat cs))) \<and>
    currentChunk (session step k s cs) = currentChunk s"
  using assms
proof (induction cs arbitrary: k s)
  case (Cons c cs)
  from marks [OF Cons.prems(1), of c k] obtain es s1 where st: "step k c s = (False, s1)" and e: "errors s1 = errors s @ es"
    "FailedChunks (stats s1) = wrap64 (FailedChunks (stats s) + int (length es))"
    "TransferredBytes (progress s1) = wrap64 (TransferredBytes (progress s) + int (length c))"
    "currentChunk s1 = currentChunk s" by (auto simp: marked_def)
  then have "in_int64 (FailedChunks (stats s1))" "in_int64 (TransferredBytes (progress s1))" by auto
  from Cons.IH [OF this, of "wrap64 (k + 1)"] obtain es' where
    "errors (session step (wrap64 (k + 1)) s1 cs) = errors s1 @ es'"
    "FailedChunks (stats (session step (wrap64 (k + 1)) s1 cs)) = wrap64 (FailedChunks (stats s1) + int (length es'))"
    "TransferredBytes (progress (session step (wrap64 (k + 1)) s1 cs)) =
      wrap64 (TransferredBytes (progress s1) + int (length (concat cs)))"
    "currentChunk (session step (wrap64 (k + 1)) s1 cs) = currentChunk s1" by blast
  with st e show ?case
    by (intro exI [of _ "es @ es'"]) (simp add: wrap64_add, simp add: add.assoc)
qed auto

lemma run_marks:
  assumes "ready io cs s" and "\<forall>i. ctx i = None" and "in_int64 (FailedChunks (stats s))"
  shows "\<exists>s' es. run_loop io ctx step s = Some (None, s') \<and> errors s' = errors s @ es \<and>
    FailedChunks (stats s') = wrap64 (FailedChunks (stats s) + int (length es)) \<and>
    TransferredBytes (progress s') = wrap64 (TransferredBytes (progress s) + int (length (concat cs)))"
proof -
  from assms have i: "in_int64 (FailedChunks (stats (set_start io s)))" "in_int64 (TransferredBytes (progress (set_start io s)))"
    by (auto simp: ready_def)
  from run_ready [OF assms(1,2)] obtain r' m where
    run: "run_loop io ctx step s = Some (None, at_read (Some r') m (set_end io (session step 0 (set_start io s) cs)))" by blast
  from session_marks [OF i, of 0 cs] obtain es where "errors (session step 0 (set_start io s) cs) = errors s @ es \<and>
    FailedChunks (stats (session step 0 (set_start io s) cs)) = wrap64 (FailedChunks (stats s) + int (length es)) \<and>
    TransferredBytes (progress (session step 0 (set_start io s) cs)) =
      wrap64 (TransferredBytes (progress s) + int (length (concat cs)))" by auto
  with run show ?thesis by (auto simp: set_end_def)
qed

end

lemma errors_parts [simp]:
  "errors (snd (new_chunk io i d s)) = errors s" "errors (addCompressed m s) = errors s" "errors (throttle s) = errors s"
  "errors (failChunk s) = errors s" "errors (recordError e s) = errors s @ [e]" "errors (updateProgress io c s) = errors s"
  "errors (snd (write_data io d s)) = errors s" "currentChunk (snd (write_data io d s)) = currentChunk s"
  "currentChunk (throttle s) = currentChunk s"
  by (simp_all add: new_chunk_def addCompressed_def throttle_def failChunk_def recordError_def updateProgress_def
      write_data_def Let_def split: option.split prod.split)

lemma transferred_parts [simp]:
  "progress (snd (new_chunk io i d s)) = progress s" "progress (addCompressed m s) = progress s"
  "progress (throttle s) = progress s" "progress (failChunk s) = progress s" "progress (recordError e s) = progress s"
  "progress (snd (write_data io d s)) = progress s"
  "TransferredBytes (progress (updateProgress io c s)) = wrap64 (TransferredBytes (progress s) + Size c)"
  by (simp_all add: new_chunk_def addCompressed_def throttle_def failChunk_def recordError_def updateProgress_def
      write_data_def Let_def split: option.split prod.split)

lemma failed_parts [simp]:
  "FailedChunks (stats (snd (new_chunk io i d s))) = FailedChunks (stats s)"
  "FailedChunks (stats (addCompressed m s)) = FailedChunks (stats s)"
  "FailedChunks (stats (failChunk s)) = wrap64 (FailedChunks (stats s) + 1)"
  "FailedChunks (stats (recordError e s)) = FailedChunks (stats s)"
  "FailedChunks (stats (updateProgress io c s)) = FailedChunks (stats s)"
  "FailedChunks (stats (snd (write_data io d s))) = FailedChunks (stats s)"
  by (simp_all add: new_chunk_def addCompressed_def failChunk_def recordError_def updateProgress_def
      write_data_def Let_def split: option.split prod.split)

interpretation direct: skipping_handler "direct_chunk io" for io
  by unfold_locales (auto simp: direct_chunk_def case_prod_beta Let_def split: option.splits sum.splits if_splits)

interpretation receive_direct: skipping_handler "receive_direct_chunk io" for io
  by unfold_locales (auto simp: receive_direct_chunk_def case_prod_beta Let_def split: option.splits sum.splits if_splits)

lemma marked_write:
  assumes "Size c = int (length d)" and "in_int64 (FailedChunks (stats s))"
  shows "marked d s (write_and_count io c s)" and "marked d s (write_and_count io c (addCompressed m s))"
    and "marked d s (write_and_count io c (failChunk (recordError e s)))"
proof -
  show "marked d s (write_and_count io c s)" "marked d s (write_and_count io c (addCompressed m s))"
    using assms by (auto simp: marked_def write_and_count_def case_prod_beta Let_def split: option.split)
  show "marked d s (write_and_count io c (failChunk (recordError e s)))"
    using assms by (auto simp: marked_def write_and_count_def case_prod_beta Let_def wrap64_add wrap64_add_right
      add.commute split: option.split)
qed

lemma marked_new: "marked d (snd (new_chunk io k d s)) r \<Longrightarrow> marked d s r"
  by (simp add: marked_def)

interpretation chunked: marking_handler "chunked_chunk io" for io
  by unfold_locales (auto simp: chunked_chunk_def case_prod_beta Let_def split: sum.split
      intro!: marked_write [THEN marked_new])

interpretation receive_chunked: marking_handler "receive_chunked_chunk io" for io
  by unfold_locales (auto simp: receive_chunked_chunk_def case_prod_beta Let_def split: sum.split
      intro!: marked_write [THEN marked_new])

section \<open>Endless loops\<close>

lemma read_loop_stuck:
  assumes "ChunkSize (config s) = 0" and "reader s = Some r" and "Read io r 0 = ([], None, r)" and "\<And>i. ctx i = None"
  shows "read_loop io ctx step k s = None"
proof (rule ccontr)
  assume "read_loop io ctx step k s \<noteq> None"
  then obtain res where "read_loop io ctx step k s = Some res" by blast
  then have "\<not> (ChunkSize (config s) = 0 \<and> reader s = Some r \<and> Read io r 0 = ([], None, r) \<and> (\<forall>i. ctx i = None))"
    by (rule read_loop.raw_induct
        [where P = "\<lambda>io ctx step k s res. \<not> (ChunkSize (config s) = 0 \<and> reader s = Some r \<and>
            Read io r 0 = ([], None, r) \<and> (\<forall>i. ctx i = None))", rotated])
      (auto simp: Let_def split: option.splits)
  with assms show False by blast
qed

section \<open>Chunks that cannot be decoded\<close>

lemma undecodable_bodies:
  assumes "decode io (config s) d = Inl x"
  shows "\<exists>s'. receive_direct_chunk io k d s = (True, s') \<and> tally s' =
      (writer s, errors s @ [x], wrap64 (FailedChunks (stats s) + 1), TransferredBytes (progress s), currentChunk s, sTotalChunks (stats s))"
    and "writer s = Some w \<Longrightarrow> Write io w d = (None, w') \<Longrightarrow>
      \<exists>s'. receive_chunked_chunk io k d s = (False, s') \<and> tally s' =
      (Some w', errors s @ [x], wrap64 (FailedChunks (stats s) + 1),
       wrap64 (TransferredBytes (progress s) + int (length d)), currentChunk s, currentChunk s)"
proof -
  have c: "compressing s" using assms no_code(2) [of s io d] by (cases "compressing s") auto
  then show "\<exists>s'. receive_direct_chunk io k d s = (True, s') \<and> tally s' =
      (writer s, errors s @ [x], wrap64 (FailedChunks (stats s) + 1), TransferredBytes (progress s), currentChunk s, sTotalChunks (stats s))"
    using assms by (simp add: receive_direct_chunk_def case_prod_beta Let_def chunk_codes tally_parts tally_changes)
      (simp add: tally_intro)
  assume "writer s = Some w" "Write io w d = (None, w')"
  then show "\<exists>s'. receive_chunked_chunk io k d s = (False, s') \<and> tally s' =
      (Some w', errors s @ [x], wrap64 (FailedChunks (stats s) + 1),
       wrap64 (TransferredBytes (progress s) + int (length d)), currentChunk s, currentChunk s)"
    using c assms
    by (simp add: receive_chunked_chunk_def write_and_count_def case_prod_beta Let_def chunk_codes write_ok tally_parts tally_changes)
      (simp add: tally_intro)
qed

lemma undecodable_direct:
  assumes "list_all (\<lambda>e. \<exists>x. decode io (config s) e = Inl x) es" and "in_int64 (FailedChunks (stats s))"
  shows "\<exists>xs n. length xs = length es \<and> tally (session (receive_direct_chunk io) k s es) =
      (writer s, errors s @ xs, wrap64 (FailedChunks (stats s) + int (length es)), TransferredBytes (progress s), currentChunk s, n)"
  using assms
proof (induction es arbitrary: k s)
  case (Cons e es)
  then obtain x where x: "decode io (config s) e = Inl x" by auto
  from undecodable_bodies(1) [OF x, of k] obtain s1 where s1: "receive_direct_chunk io k e s = (True, s1)"
    and t: "tally s1 = (writer s, errors s @ [x], wrap64 (FailedChunks (stats s) + 1), TransferredBytes (progress s),
      currentChunk s, sTotalChunks (stats s))" by blast
  have cfg: "config s1 = config s" using receive_direct.step_config [of io k e s] s1 by simp
  have "list_all (\<lambda>e. \<exists>x. decode io (config s1) e = Inl x) es" "in_int64 (FailedChunks (stats s1))"
    using Cons.prems cfg t by (auto simp: tally_def)
  from Cons.IH [OF this, of k] obtain xs n where "length xs = length es" "tally (session (receive_direct_chunk io) k s1 es) =
      (writer s1, errors s1 @ xs, wrap64 (FailedChunks (stats s1) + int (length es)), TransferredBytes (progress s1), currentChunk s1, n)"
    by blast
  with s1 t show ?case by (intro exI [of _ "x # xs"]) (auto simp: tally_def wrap64_add wrap64_add_right algebra_simps)
qed (auto simp: tally_def)

lemma undecodable_chunked:
  assumes "list_all (\<lambda>e. \<exists>x. decode io (config s) e = Inl x) es" and "in_int64 (FailedChunks (stats s))"
    and "writer s = Some w" and "appends io sink"
  shows "\<exists>xs w' t n. length xs = length es \<and> sink w' = sink w @ concat es \<and> tally (session (receive_chunked_chunk io) k s es) =
      (Some w', errors s @ xs, wrap64 (FailedChunks (stats s) + int (length es)), t, currentChunk s, n)"
  using assms(1-3)
proof (induction es arbitrary: k s w)
  case (Cons e es)
  then obtain x where x: "decode io (config s) e = Inl x" by auto
  obtain w1 where w1: "Write io w e = (None, w1)" "sink w1 = sink w @ e" using assms(4) by (auto simp: appends_def)
  from undecodable_bodies(2) [OF x Cons.prems(3) w1(1), of k] obtain s1 where s1: "receive_chunked_chunk io k e s = (False, s1)"
    and t: "tally s1 = (Some w1, errors s @ [x], wrap64 (FailedChunks (stats s) + 1),
       wrap64 (TransferredBytes (progress s) + int (length e)), currentChunk s, currentChunk s)" by blast
  have cfg: "config s1 = config s" using receive_chunked.step_config [of io k e s] s1 by simp
  have "list_all (\<lambda>e. \<exists>x. decode io (config s1) e = Inl x) es" "in_int64 (FailedChunks (stats s1))" "writer s1 = Some w1"
    using Cons.prems cfg t by (auto simp: tally_def)
  from Cons.IH [OF this, of "wrap64 (k + 1)"] obtain xs w' u n where "length xs = length es" "sink w' = sink w1 @ concat es"
    "tally (session (receive_chunked_chunk io) (wrap64 (k + 1)) s1 es) =
      (Some w', errors s1 @ xs, wrap64 (FailedChunks (stats s1) + int (length es)), u, currentChunk s1, n)"
    by blast
  with s1 t w1(2) show ?case
    by (intro exI [of _ "x # xs"] exI [of _ w'] exI [of _ u] exI [of _ n]) (auto simp: tally_def wrap64_add wrap64_add_right algebra_simps)
qed (auto simp: tally_def)

end
