(* ===== verification/StreamingProps.thy ===== *)
theory StreamingProps
  imports StreamingLoop
begin

text \<open>
  The properties of the sequential strategies and of \<open>Start\<close> (\<open>stream.go\<close>): what arrives at
  the writer, the counters, failures, and what \<open>Start\<close> reports.
\<close>

section \<open>The strategies together\<close>

text \<open>The sequential strategies, with what they make of a chunk and whether they count chunks.\<close>

definition strategies ::
    "('r, 'w) io \<Rightarrow> (('r, 'w) strategy \<times> (StreamConfig \<Rightarrow> bytes \<Rightarrow> goerr + bytes) \<times> bool) list" where
  "strategies io =
    [(streamDirect io, encode io, True), (streamReceiveDirect io, decode io, True),
     (streamChunked io, encode io, False), (streamReceiveChunked io, decode io, False)]"

lemmas strategy_defs = streamDirect_def streamReceiveDirect_def streamChunked_def streamReceiveChunked_def

lemma strategies_cases:
  assumes "(f, code, counts) \<in> set (strategies io)"
  obtains "f = streamDirect io" "code = encode io" "counts = True"
    | "f = streamReceiveDirect io" "code = decode io" "counts = True"
    | "f = streamChunked io" "code = encode io" "counts = False"
    | "f = streamReceiveChunked io" "code = decode io" "counts = False"
  using assms by (auto simp: strategies_def)

lemma clean_run:
  assumes "(f, code, counts) \<in> set (strategies io)" and "ready io cs s" and "\<forall>i. ctx i = None"
    and "writer s = Some w" and "appends io sink" and "list_all2 (\<lambda>c e. code (config s) c = Inr e) cs es"
  shows "\<exists>s' w'. f ctx s = Some (None, s') \<and> sink w' = sink w @ concat es \<and> tally s' = after_clean counts cs w' s"
  using assms(1)
proof (cases rule: strategies_cases)
  case 1
  with direct.run_clean [of io cs s ctx w sink es] assms(2-6) show ?thesis by (simp add: streamDirect_def)
next
  case 2
  with receive_direct.run_clean [of io cs s ctx w sink es] assms(2-6) show ?thesis by (simp add: streamReceiveDirect_def)
next
  case 3
  with chunked.run_clean [of io cs s ctx w sink es] assms(2-6) show ?thesis by (simp add: streamChunked_def)
next
  case 4
  with receive_chunked.run_clean [of io cs s ctx w sink es] assms(2-6) show ?thesis by (simp add: streamReceiveChunked_def)
qed

text \<open>Whatever fails, a strategy returns nil once the reader has ended.\<close>

lemma strategy_returns:
  assumes "(f, code, counts) \<in> set (strategies io)" and "ready io cs s" and "\<forall>i. ctx i = None"
  shows "\<exists>s'. f ctx s = Some (None, s')"
  using assms(1) by (cases rule: strategies_cases)
    (use direct.run_ready [OF assms(2,3)] receive_direct.run_ready [OF assms(2,3)]
       chunked.run_ready [OF assms(2,3)] receive_chunked.run_ready [OF assms(2,3)] in \<open>fastforce simp: strategy_defs\<close>)+

section \<open>Concrete readers and writers\<close>

text \<open>A reader is the list of the chunks to come, a writer the bytes written; a codec puts a mark
  in front of a chunk and refuses data without it.\<close>

definition unmark :: "byte \<Rightarrow> bytes \<Rightarrow> goerr + bytes" where
  "unmark m d = (case d of [] \<Rightarrow> Inl (foreign 0 ''unexpected EOF'')
     | c # e \<Rightarrow> if c = m then Inr e else Inl (foreign 0 ''invalid header''))"

definition list_io :: "(bytes list, bytes) io" where
  "list_io = \<lparr> Read = (\<lambda>r n. case r of [] \<Rightarrow> ([], Some EOF, []) | c # cs \<Rightarrow> (c, None, cs)),
     Write = (\<lambda>w d. (None, w @ d)),
     gzip = (\<lambda>d. Inr (CHR ''z'' # d)), gunzip = unmark (CHR ''z''),
     deflate = (\<lambda>d. Inr (CHR ''f'' # d)), inflate = unmark (CHR ''f''),
     clock = (\<lambda>n. int n * Second), own_ctx = (\<lambda>_. None), rate_of = (\<lambda>_ _. 0), remaining_of = (\<lambda>_ _. 0) \<rparr>"

text \<open>The same with a writer that always fails.\<close>

definition broken_io :: "(bytes list, bytes) io" where
  "broken_io = list_io \<lparr> Write := \<lambda>w d. (Some (foreign 0 ''broken pipe''), w) \<rparr>"

definition stream_of :: "gostring \<Rightarrow> gostring \<Rightarrow> bytes list \<Rightarrow> (bytes list, bytes) StreamingWrapper" where
  "stream_of strat alg r =
    \<lparr> wrap = zero_wrapper, config = NewStreamConfig \<lparr> Strategy := strat, Compression := alg \<rparr>,
      reader = Some r, writer = Some [], progress = zero_progress,
      stats = \<lparr> StartTime = 0, EndTime = zero_time, sTotalBytes = 0, CompressedBytes = 0,
        CompressionRatio = 0, AverageChunkSize = 0, sTotalChunks = 0, FailedChunks = 0,
        AverageBandwidth = 0, sErrors = [] \<rparr>,
      currentChunk = 0, errors = [], isStreaming = False, bufferPool = None, cancelled = False,
      ticks = 0, polls = 0, next_addr = 1 \<rparr>"

lemma stream_of_simps [simp]:
  "writer (stream_of strat alg r) = Some []" "errors (stream_of strat alg r) = []"
  "FailedChunks (stats (stream_of strat alg r)) = 0" "TransferredBytes (progress (stream_of strat alg r)) = 0"
  "currentChunk (stream_of strat alg r) = 0" "reader (stream_of strat alg r) = Some r"
  "isStreaming (stream_of strat alg r) = False" "Compression (config (stream_of strat alg r)) = alg"
  "Strategy (config (stream_of strat alg r)) = strat" "ChunkSize (config (stream_of strat alg r)) = 65536"
  "IsReceiving (config (stream_of strat alg r)) = False"
  by (simp_all add: stream_of_def zero_progress_def NewStreamConfig_def)

lemma list_codes:
  "encode list_io cfg d = (if Compression cfg = CompressGzip then Inr (CHR ''z'' # d)
     else if Compression cfg = CompressFlate then Inr (CHR ''f'' # d) else Inr d)"
  "decode list_io cfg d = (if Compression cfg = CompressGzip then unmark (CHR ''z'') d
     else if Compression cfg = CompressFlate then unmark (CHR ''f'') d else Inr d)"
  by (simp_all add: encode_def decode_def list_io_def)

lemma list_delivers: "list_all (\<lambda>c. c \<noteq> []) cs \<Longrightarrow> delivers list_io n cs cs"
proof (induction cs)
  case Nil
  show ?case by (rule delivers.ends) (simp add: list_io_def)
next
  case (Cons c cs)
  show ?case by (rule delivers.more [where r' = cs]) (use Cons in \<open>auto simp: list_io_def\<close>)
qed

lemma broken_delivers: "delivers broken_io n r cs \<longleftrightarrow> delivers list_io n r cs"
proof
  have r: "Read broken_io = Read list_io" by (simp add: broken_io_def)
  show "delivers list_io n r cs" if "delivers broken_io n r cs"
    using that by (induction) (auto simp: r intro: delivers.intros)
  show "delivers broken_io n r cs" if "delivers list_io n r cs"
    using that by (induction) (auto simp: r intro: delivers.intros)
qed

lemma list_ready: "list_all (\<lambda>c. c \<noteq> []) cs \<Longrightarrow> ready list_io cs (stream_of strat alg cs)"
  by (simp add: ready_def list_delivers in_int64_def)

lemma list_appends: "appends list_io id"
  by (simp add: appends_def list_io_def)

section \<open>Properties\<close>

text \<open>C20: when nothing fails, a sequential strategy, in either direction, returns nil with all the
  reader's chunks, coded one by one, appended to the writer in their order, no error or failed
  chunk noted, and the bytes read added to the progress.\<close>

theorem stream_delivers:
  assumes "(f, code, counts) \<in> set (strategies io)" and "ready io cs s" and "\<forall>i. ctx i = None"
    and "writer s = Some w" and "appends io sink" and "list_all2 (\<lambda>c e. code (config s) c = Inr e) cs es"
  shows "\<exists>s' w'. f ctx s = Some (None, s') \<and> writer s' = Some w' \<and> sink w' = sink w @ concat es \<and>
    errors s' = errors s \<and> FailedChunks (stats s') = FailedChunks (stats s) \<and>
    TransferredBytes (progress s') = wrap64 (TransferredBytes (progress s) + int (length (concat cs)))"
proof -
  from clean_run [OF assms] obtain s' w' where r: "f ctx s = Some (None, s')" "sink w' = sink w @ concat es"
    "tally s' = after_clean counts cs w' s" by blast
  then show ?thesis by (intro exI [of _ s'] exI [of _ w']) (simp add: tally_def after_clean_def)
qed

theorem stream_delivers_witness:
  "\<exists>s' w'. streamDirect list_io (\<lambda>_. None) (stream_of StrategyDirect CompressGzip [''ab'', ''cd'']) = Some (None, s') \<and>
    writer s' = Some w' \<and> id w' = ''zabzcd''"
proof -
  have "(streamDirect list_io, encode list_io, True) \<in> set (strategies list_io)" by (simp add: strategies_def)
  from stream_delivers [OF this list_ready, of "[''ab'', ''cd'']" "\<lambda>_. None" StrategyDirect CompressGzip "[]" id "[''zab'', ''zcd'']"]
  show ?thesis by (simp add: list_appends list_codes) blast
qed

text \<open>after a run without failures over at least one chunk the statistics do not give the number
  of chunks: the direct strategies are one short, because the count is copied before it is
  raised, and the chunked strategies never raise it.\<close>

theorem total_chunks_wrong:
  assumes "(f, code, counts) \<in> set (strategies io)" and "ready io cs s" and "\<forall>i. ctx i = None"
    and "writer s = Some w" and "appends io sink" and "list_all2 (\<lambda>c e. code (config s) c = Inr e) cs es"
    and "cs \<noteq> []" and "currentChunk s = 0" and "in_int64 (int (length cs))"
  shows "\<exists>s'. f ctx s = Some (None, s') \<and>
    sTotalChunks (stats s') = (if counts then int (length cs) - 1 else 0)"
proof -
  from clean_run [OF assms(1-6)] obtain s' w' where r: "f ctx s = Some (None, s')" "tally s' = after_clean counts cs w' s" by blast
  have "0 < length cs" using assms(7) by simp
  then have "in_int64 (int (length cs) - 1)" using assms(9) unfolding in_int64_def by linarith
  then have "wrap64 (int (length cs) - 1) = int (length cs) - 1" by (rule wrap64_id)
  with r assms(7,8) show ?thesis by (intro exI [of _ s']) (simp add: tally_def after_clean_def)
qed

theorem total_chunks_wrong_witness:
  "\<exists>s'. streamChunked list_io (\<lambda>_. None) (stream_of StrategyChunked CompressNone [''ab'', ''cd'']) = Some (None, s') \<and>
    sTotalChunks (stats s') = 0"
proof -
  have "(streamChunked list_io, encode list_io, False) \<in> set (strategies list_io)" by (simp add: strategies_def)
  from total_chunks_wrong [OF this list_ready, of "[''ab'', ''cd'']" "\<lambda>_. None" StrategyChunked CompressNone "[]" id "[''ab'', ''cd'']"]
  show ?thesis by (simp add: list_appends list_codes in_int64_def stream_names)
qed



text \<open>a strategy of either direction with a buffer of no bytes never returns, once the reader
  answers such a \<open>Read\<close> with no bytes and no error.\<close>

theorem zero_chunk_hangs:
  assumes "(f, code, counts) \<in> set (strategies io)" and "ChunkSize (config s) = 0" and "reader s = Some r"
    and "Read io r 0 = ([], None, r)" and "\<forall>i. ctx i = None"
  shows "f ctx s = None"
proof -
  have "read_loop io ctx step 0 (set_start io s) = None" for step
    by (rule read_loop_stuck [where r = r]) (use assms in simp_all)
  with assms(2) have "run_loop io ctx step s = None" for step by (simp add: run_loop_def)
  with assms(1) show ?thesis by (auto simp: strategies_def strategy_defs)
qed

definition whole_io :: "(bytes list, bytes) io" where
  "whole_io = list_io \<lparr> Read := \<lambda>r n. if n = 0 then ([], None, r) else (concat r, Some EOF, []) \<rparr>"

theorem zero_chunk_hangs_witness:
  "streamDirect whole_io (\<lambda>_. None)
     (stream_of StrategyDirect CompressNone [''ab''] \<lparr> config := NewStreamConfig \<lparr> ChunkSize := 0 \<rparr> \<rparr>) = None"
proof -
  have "(streamDirect whole_io, encode whole_io, True) \<in> set (strategies whole_io)" by (simp add: strategies_def)
  then show ?thesis by (rule zero_chunk_hangs [where r = "[''ab'']"]) (simp_all add: whole_io_def)
qed

section \<open>Start\<close>

lemma wrap_kv [simp]: "wStatus (WithDebuggingKV k v w) = wStatus w" "wMessage (WithDebuggingKV k v w) = wMessage w"
  by (simp_all add: WithDebuggingKV_def Let_def)

lemma status_set [simp]:
  "100 \<le> c \<Longrightarrow> c \<le> 599 \<Longrightarrow> wStatus (WithStatusCode c w) = c" "wStatus (WithMessage m w) = wStatus w"
  "wStatus (BindCause a w) = wStatus w" "wMessage (WithMessage m w) = m"
  by (simp_all add: WithStatusCode_def WithMessage_def BindCause_def Let_def)

lemma start_answers:
  "wStatus (wrap (refuse 400 m s)) = 400" "wStatus (wrap (refuse 409 m s)) = 409"
  "isStreaming (refuse c m s) = isStreaming s"
  "wStatus (wrap (start_succeeded io s)) = 200" "Percentage (progress (start_succeeded io s)) = 100"
  "wMessage (wrap (start_succeeded io s)) = ''Streaming completed successfully''"
  "isStreaming (start_succeeded io s) = isStreaming s"
  "wStatus (wrap (start_failed io e s)) = 500" "errors (start_failed io e s) \<noteq> []"
  "isStreaming (start_failed io e s) = isStreaming s"
  by (simp_all add: refuse_def start_succeeded_def start_failed_def Let_def note_kv_def on_wrap_def set_end_def recordError_def)

text \<open>a receiver none of whose chunks can be decoded reports no failure: the direct strategy
  returns nil and has written nothing, and the chunked strategy returns nil and has written the
  coded bytes themselves.\<close>

theorem undecodable_stream:
  assumes "ready io es s" and "\<forall>i. ctx i = None" and "in_int64 (FailedChunks (stats s))"
    and "list_all (\<lambda>e. \<exists>x. decode io (config s) e = Inl x) es" and "writer s = Some w" and "appends io sink"
  shows "(\<exists>s'. streamReceiveDirect io ctx s = Some (None, s') \<and> writer s' = Some w \<and>
      FailedChunks (stats s') = wrap64 (FailedChunks (stats s) + int (length es))) \<and>
    (\<exists>s' w'. streamReceiveChunked io ctx s = Some (None, s') \<and> writer s' = Some w' \<and> sink w' = sink w @ concat es \<and>
      FailedChunks (stats s') = wrap64 (FailedChunks (stats s) + int (length es)))"
proof
  have s0: "list_all (\<lambda>e. \<exists>x. decode io (config (set_start io s)) e = Inl x) es"
    "in_int64 (FailedChunks (stats (set_start io s)))" "writer (set_start io s) = Some w" using assms by simp_all
  from receive_direct.run_ready [OF assms(1,2)] obtain r m where "streamReceiveDirect io ctx s =
    Some (None, at_read (Some r) m (set_end io (session (receive_direct_chunk io) 0 (set_start io s) es)))"
    unfolding streamReceiveDirect_def by blast
  moreover from undecodable_direct [OF s0(1,2), of 0] obtain xs n where
    "tally (session (receive_direct_chunk io) 0 (set_start io s) es) = (Some w, errors s @ xs,
      wrap64 (FailedChunks (stats s) + int (length es)), TransferredBytes (progress s), currentChunk s, n)"
    using assms(5) by auto
  ultimately show "\<exists>s'. streamReceiveDirect io ctx s = Some (None, s') \<and> writer s' = Some w \<and>
      FailedChunks (stats s') = wrap64 (FailedChunks (stats s) + int (length es))"
    by (auto simp: tally_def set_end_def)
  from receive_chunked.run_ready [OF assms(1,2)] obtain r m where "streamReceiveChunked io ctx s =
    Some (None, at_read (Some r) m (set_end io (session (receive_chunked_chunk io) 0 (set_start io s) es)))"
    unfolding streamReceiveChunked_def by blast
  moreover from undecodable_chunked [OF s0 assms(6), of 0] obtain xs w' t n where "sink w' = sink w @ concat es"
    "tally (session (receive_chunked_chunk io) 0 (set_start io s) es) = (Some w', errors s @ xs,
      wrap64 (FailedChunks (stats s) + int (length es)), t, currentChunk s, n)"
    by auto
  ultimately show "\<exists>s' w'. streamReceiveChunked io ctx s = Some (None, s') \<and> writer s' = Some w' \<and> sink w' = sink w @ concat es \<and>
      FailedChunks (stats s') = wrap64 (FailedChunks (stats s) + int (length es))"
    by (auto simp: tally_def set_end_def)
qed

theorem undecodable_stream_witness:
  "\<exists>s' w'. streamReceiveChunked list_io (\<lambda>_. None) (stream_of StrategyChunked CompressGzip [''ab'']) = Some (None, s') \<and>
    writer s' = Some w' \<and> id w' = ''ab'' \<and> FailedChunks (stats s') = 1"
proof -
  have "list_all (\<lambda>c. c \<noteq> []) [''ab'']" by simp
  from undecodable_stream [OF list_ready [OF this], of "\<lambda>_. None" StrategyChunked CompressGzip "[]" id]
  show ?thesis by (simp add: list_appends list_codes unmark_def in_int64_def)
qed

text \<open>The state and the context that \<open>Start\<close> hands to the strategy.\<close>

definition started :: "('r, 'w) io \<Rightarrow> ('r, 'w) StreamingWrapper \<Rightarrow> ('r, 'w) StreamingWrapper" where
  "started io s =
    (note_kv ''started_at_ms'' (GInt (millis (clock io (ticks s))))
      (on_wrap (WithMessage ''Streaming started'') (s \<lparr> isStreaming := True \<rparr>))) \<lparr> ticks := ticks s + 1 \<rparr>"

definition start_ctx :: "('r, 'w) io \<Rightarrow> ctx option \<Rightarrow> ('r, 'w) StreamingWrapper \<Rightarrow> ctx" where
  "start_ctx io ctx0 s = (case ctx0 of Some c \<Rightarrow> c | None \<Rightarrow> \<lambda>n. if cancelled s then Some Canceled else own_ctx io n)"

lemma start_kept:
  "errors (start_succeeded io s) = errors s" "writer (start_succeeded io s) = writer s" "reader (start_succeeded io s) = reader s"
  "errors (start_failed io e s) = errors s @ [e]" "writer (start_failed io e s) = writer s" "reader (start_failed io e s) = reader s"
  "progress (start_failed io e s) = progress s" "wErrors (wrap (start_failed io e s)) = Some (underlyingStack (next_addr s) e)"
  by (simp_all add: start_succeeded_def start_failed_def Let_def note_kv_def on_wrap_def set_end_def recordError_def
      WithStatusCode_def WithErrorAck_def NewErrorAck_def WithDebuggingKV_def)

lemma refuse_kept: "errors (refuse c m s) = errors s" "progress (refuse c m s) = progress s" "reader (refuse c m s) = reader s"
  by (simp_all add: refuse_def on_wrap_def)

text \<open>C40: the answer of \<open>Start\<close>, whatever the strategy does.  Without a reader it is 400 and during a run 409,
  and nothing is run.  Otherwise it is that of the strategy, run with the flag set and the caller's or
  the wrapper's context: it returns exactly when the strategy does, clears the flag, and leaves the
  writer to the strategy.  When that returns nil the answer is 200 with the progress at 100 percent and no
  error noted; when it returns an error the answer is 500, the error is the last one noted and the
  error of the answer, and the progress stays what it was.\<close>

theorem Start_outcome:
  "if reader s = None then
     \<exists>s'. Start io buffered ctx s = Some s' \<and> wStatus (wrap s') = 400 \<and> isStreaming s' = isStreaming s \<and>
       errors s' = errors s \<and> progress s' = progress s
   else if isStreaming s then
     \<exists>s'. Start io buffered ctx s = Some s' \<and> wStatus (wrap s') = 409 \<and> isStreaming s' \<and>
       errors s' = errors s \<and> progress s' = progress s \<and> reader s' = reader s
   else
     (case run_strategy io buffered (start_ctx io ctx s) (started io s) of
        None \<Rightarrow> Start io buffered ctx s = None
      | Some (None, t) \<Rightarrow>
          \<exists>s'. Start io buffered ctx s = Some s' \<and> \<not> isStreaming s' \<and> writer s' = writer t \<and> reader s' = reader t \<and>
            wStatus (wrap s') = 200 \<and> Percentage (progress s') = 100 \<and> errors s' = errors t
      | Some (Some e, t) \<Rightarrow>
          \<exists>s'. Start io buffered ctx s = Some s' \<and> \<not> isStreaming s' \<and> writer s' = writer t \<and> reader s' = reader t \<and>
            wStatus (wrap s') = 500 \<and> progress s' = progress t \<and> errors s' = errors t @ [e] \<and>
            wErrors (wrap s') = Some (underlyingStack (next_addr t) e))"
  by (auto simp: Start_def started_def start_ctx_def Let_def start_answers start_kept refuse_kept split: option.split)

text \<open>\<open>Start\<close> with the caller's context answers 200, as soon as the reader ends normally and
  that context is not done, whatever chunks have failed and even after \<open>Cancel\<close>.\<close>

theorem Start_completes:
  assumes "ready io cs s" and "\<not> isStreaming s" and "Strategy (config s) = StrategyDirect \<or> Strategy (config s) = StrategyChunked"
    and "\<forall>i. ctx i = None"
  shows "\<exists>s'. Start io buffered (Some ctx) (Cancel io s) = Some s' \<and> wStatus (wrap s') = 200 \<and>
    wMessage (wrap s') = ''Streaming completed successfully'' \<and> Percentage (progress s') = 100"
proof -
  define t where "t = started io (Cancel io s)"
  have c: "config (Cancel io s) = config s" "reader (Cancel io s) = reader s" "isStreaming (Cancel io s) = isStreaming s"
    "progress (Cancel io s) = progress s" "currentChunk (Cancel io s) = currentChunk s"
    by (simp_all add: Cancel_def Let_def note_kv_def on_wrap_def)
  have t: "config t = config s" "reader t = reader s" "progress t = progress s" "currentChunk t = currentChunk s"
    by (simp_all add: t_def started_def note_kv_def on_wrap_def c)
  then have "ready io cs t" using assms(1) by (simp add: ready_def)
  from strategy_returns [OF _ this assms(4)] have run: "(f, code, counts) \<in> set (strategies io) \<Longrightarrow> \<exists>s'. f ctx t = Some (None, s')" for f code counts
    by blast
  have "\<exists>s'. run_strategy io buffered ctx t = Some (None, s')"
    using run assms(3) t(1) by (auto simp: run_strategy_def Let_def strategies_def stream_names)
  then obtain s1 where "run_strategy io buffered ctx t = Some (None, s1)" by blast
  moreover obtain r where "reader s = Some r" using assms(1) by (auto simp: ready_def)
  ultimately have "Start io buffered (Some ctx) (Cancel io s) = Some (start_succeeded io (s1 \<lparr> isStreaming := False \<rparr>))"
    using assms(2) by (simp add: Start_def c Let_def t_def started_def)
  then show ?thesis by (simp add: start_answers)
qed

theorem Start_completes_witness:
  "\<exists>s'. Start broken_io (\<lambda>_ _ _. None) (Some (\<lambda>_. None)) (Cancel broken_io (stream_of StrategyChunked CompressNone [''ab''])) = Some s' \<and>
    wStatus (wrap s') = 200"
proof -
  have "ready broken_io [''ab''] (stream_of StrategyChunked CompressNone [''ab''])"
    using list_ready [of "[''ab'']" StrategyChunked CompressNone] by (simp add: ready_def broken_delivers)
  from Start_completes [OF this, of "\<lambda>_. None" "\<lambda>_ _ _. None"] show ?thesis by auto
qed

end
