(* ===== verification/StreamBuffered.thy ===== *)
theory StreamBuffered
  imports StreamingProps "HOL-Library.Multiset"
begin

text \<open>
  The buffered strategies of \<open>stream.go\<close> (\<open>streamBuffered\<close>, \<open>streamReceiveBuffered\<close>): a reader
  goroutine feeds a channel, a pool of workers empties it, and the caller waits for the
  workers.  The goroutines interleave step by step; the body of a worker for one chunk is one
  step, although Go does not order its updates of the statistics.
\<close>

section \<open>The pool of buffers\<close>

record BufferPool =
  pool_buffers :: "bytes list"
  pool_cap :: nat
  pool_size :: int

definition NewBufferPool :: "int \<Rightarrow> nat \<Rightarrow> BufferPool" where
  "NewBufferPool bufferSize poolSize = \<lparr> pool_buffers = [], pool_cap = poolSize, pool_size = bufferSize \<rparr>"

definition Pool_Get :: "BufferPool \<Rightarrow> bytes \<times> BufferPool" where
  "Pool_Get bp = (case pool_buffers bp of
      buf # rest \<Rightarrow> (buf, bp \<lparr> pool_buffers := rest \<rparr>)
    | [] \<Rightarrow> (replicate (nat (pool_size bp)) (CHR 0x00), bp))"

definition Pool_Put :: "bytes option \<Rightarrow> BufferPool \<Rightarrow> BufferPool" where
  "Pool_Put buf bp = (case buf of
      None \<Rightarrow> bp
    | Some b \<Rightarrow> if length (pool_buffers bp) < pool_cap bp then bp \<lparr> pool_buffers := pool_buffers bp @ [b] \<rparr> else bp)"

text \<open>Every buffer of the pool has the size of the pool, which \<open>NewStreaming\<close> fixed; a later
  \<open>WithChunkSize\<close> does not change it.\<close>

definition buffer_size :: "('r, 'w) StreamingWrapper \<Rightarrow> int" where
  "buffer_size s = (case bufferPool s of Some n \<Rightarrow> n | None \<Rightarrow> ChunkSize (config s))"

section \<open>State of the goroutines\<close>

datatype pipe_error = CtxErr ctx_error | ReadErr goerr

datatype reader_pc = Top | Sending StreamChunk "read_error option" | AfterRead "read_error option" | Stopped
datatype worker_pc = Idle | Taken StreamChunk | Exited

text \<open>\<open>sent\<close>, \<open>processed\<close> and \<open>dropped\<close> record the chunks that entered the channel, those that a
  worker has gone through and those that a worker took and left, in the order of the steps.\<close>

record ('r, 'w) pipe =
  shared :: "('r, 'w) StreamingWrapper"
  chunkChan :: "StreamChunk list"
  chan_closed :: bool
  errChan :: "pipe_error option"
  reader_at :: reader_pc
  workers_at :: "worker_pc list"
  ctx_state :: "ctx_error option"
  sent :: "StreamChunk list"
  processed :: "StreamChunk list"
  dropped :: "StreamChunk list"

definition pipe_start :: "('r, 'w) io \<Rightarrow> ('r, 'w) StreamingWrapper \<Rightarrow> ('r, 'w) pipe" where
  "pipe_start io s = \<lparr> shared = set_start io s, chunkChan = [], chan_closed = False, errChan = None,
     reader_at = Top, workers_at = replicate (nat (MaxConcurrentChunks (config s))) Idle,
     ctx_state = None, sent = [], processed = [], dropped = [] \<rparr>"

text \<open>A send into \<open>errChan\<close>, which holds one error, with \<open>default\<close>.\<close>

definition offer_err :: "pipe_error \<Rightarrow> ('r, 'w) pipe \<Rightarrow> ('r, 'w) pipe" where
  "offer_err e p = (case errChan p of None \<Rightarrow> p \<lparr> errChan := Some e \<rparr> | Some _ \<Rightarrow> p)"

definition stop_reader :: "('r, 'w) pipe \<Rightarrow> ('r, 'w) pipe" where
  "stop_reader p = p \<lparr> reader_at := Stopped, chan_closed := True \<rparr>"

text \<open>What a worker does with a chunk: code it, or note the failure and keep its data; write it;
  count it.\<close>

definition send_code :: "('r, 'w) io \<Rightarrow> StreamChunk \<Rightarrow> ('r, 'w) StreamingWrapper \<Rightarrow> StreamChunk \<times> ('r, 'w) StreamingWrapper" where
  "send_code io chunk s =
    (if compressing s
     then (case compressChunk io (config s) chunk of
         Inl compErr \<Rightarrow> (chunk \<lparr> chunkError := Some compErr \<rparr>, failChunk (recordError compErr s))
       | Inr d \<Rightarrow> (chunk \<lparr> Data := d, Compressed := True \<rparr>, addCompressed (int (length d)) s))
     else (chunk, s))"

definition receive_code :: "('r, 'w) io \<Rightarrow> StreamChunk \<Rightarrow> ('r, 'w) StreamingWrapper \<Rightarrow> StreamChunk \<times> ('r, 'w) StreamingWrapper" where
  "receive_code io chunk s =
    (if compressing s
     then (case decompressChunk io chunk of
         Inl decErr \<Rightarrow> (chunk \<lparr> chunkError := Some decErr \<rparr>, failChunk (recordError decErr s))
       | Inr d \<Rightarrow> (chunk \<lparr> Data := d, Compressed := False \<rparr>, s))
     else (chunk, s))"

definition process :: "('r, 'w) io \<Rightarrow> bool \<Rightarrow> StreamChunk \<Rightarrow> ('r, 'w) StreamingWrapper \<Rightarrow> ('r, 'w) StreamingWrapper" where
  "process io receiving chunk s =
    (let (chunk1, s1) = (if receiving then receive_code io chunk s else send_code io chunk s)
     in throttle (snd (write_and_count io chunk1 s1)))"

section \<open>Steps\<close>

inductive pipe_step :: "('r, 'w) io \<Rightarrow> bool \<Rightarrow> ('r, 'w) pipe \<Rightarrow> ('r, 'w) pipe \<Rightarrow> bool" for io receiving where
  ctx_done: "ctx_state p = None \<Longrightarrow> pipe_step io receiving p (p \<lparr> ctx_state := Some e \<rparr>)"
| reader_ctx: "reader_at p = Top \<Longrightarrow> ctx_state p = Some e \<Longrightarrow>
    pipe_step io receiving p (stop_reader (offer_err (CtxErr e) p))"
| reader_idle: "reader_at p = Top \<Longrightarrow> ctx_state p = None \<Longrightarrow> reader (shared p) = Some r \<Longrightarrow>
    Read io r (buffer_size (shared p)) = ([], err, r') \<Longrightarrow>
    pipe_step io receiving p (p \<lparr> shared := (shared p) \<lparr> reader := Some r' \<rparr>, reader_at := AfterRead err \<rparr>)"
| reader_data: "reader_at p = Top \<Longrightarrow> ctx_state p = None \<Longrightarrow> reader (shared p) = Some r \<Longrightarrow>
    Read io r (buffer_size (shared p)) = (data, err, r') \<Longrightarrow> data \<noteq> [] \<Longrightarrow>
    new_chunk io (currentChunk (shared p)) data ((shared p) \<lparr> reader := Some r' \<rparr>) = (chunk, s) \<Longrightarrow>
    pipe_step io receiving p (p \<lparr> shared := s, reader_at := Sending chunk err \<rparr>)"
| reader_send: "reader_at p = Sending chunk err \<Longrightarrow>
    length (chunkChan p) < nat (MaxConcurrentChunks (config (shared p))) \<Longrightarrow>
    pipe_step io receiving p (p \<lparr> chunkChan := chunkChan p @ [chunk],
      shared := (shared p) \<lparr> currentChunk := wrap64 (currentChunk (shared p) + 1) \<rparr>,
      reader_at := AfterRead err, sent := sent p @ [chunk] \<rparr>)"
| reader_gives_up: "reader_at p = Sending chunk err \<Longrightarrow> ctx_state p = Some e \<Longrightarrow>
    pipe_step io receiving p (stop_reader p)"
| reader_again: "reader_at p = AfterRead None \<Longrightarrow> pipe_step io receiving p (p \<lparr> reader_at := Top \<rparr>)"
| reader_eof: "reader_at p = AfterRead (Some EOF) \<Longrightarrow> pipe_step io receiving p (stop_reader p)"
| reader_error: "reader_at p = AfterRead (Some (ReadError e)) \<Longrightarrow>
    pipe_step io receiving p (stop_reader (offer_err (ReadErr e) p))"
| worker_take: "i < length (workers_at p) \<Longrightarrow> workers_at p ! i = Idle \<Longrightarrow> chunkChan p = chunk # rest \<Longrightarrow>
    ctx_state p = None \<Longrightarrow>
    pipe_step io receiving p (p \<lparr> chunkChan := rest, workers_at := (workers_at p) [i := Taken chunk] \<rparr>)"
| worker_leaves: "i < length (workers_at p) \<Longrightarrow> workers_at p ! i = Idle \<Longrightarrow> chunkChan p = chunk # rest \<Longrightarrow>
    ctx_state p = Some e \<Longrightarrow>
    pipe_step io receiving p (p \<lparr> chunkChan := rest, workers_at := (workers_at p) [i := Exited],
      dropped := dropped p @ [chunk] \<rparr>)"
| worker_process: "i < length (workers_at p) \<Longrightarrow> workers_at p ! i = Taken chunk \<Longrightarrow>
    pipe_step io receiving p (p \<lparr> shared := process io receiving chunk (shared p),
      workers_at := (workers_at p) [i := Idle], processed := processed p @ [chunk] \<rparr>)"
| worker_exit: "i < length (workers_at p) \<Longrightarrow> workers_at p ! i = Idle \<Longrightarrow> chunkChan p = [] \<Longrightarrow> chan_closed p \<Longrightarrow>
    pipe_step io receiving p (p \<lparr> workers_at := (workers_at p) [i := Exited] \<rparr>)"

inductive pipe_run :: "('r, 'w) io \<Rightarrow> bool \<Rightarrow> ('r, 'w) pipe \<Rightarrow> ('r, 'w) pipe \<Rightarrow> bool" for io receiving where
  run_refl: "pipe_run io receiving p p"
| run_step: "pipe_run io receiving p q \<Longrightarrow> pipe_step io receiving q q' \<Longrightarrow> pipe_run io receiving p q'"

text \<open>\<open>wg.Wait()\<close> returns when every worker has returned; then the caller looks for an error,
  and a cancellation is not one.\<close>

definition pipe_finished :: "('r, 'w) pipe \<Rightarrow> bool" where
  "pipe_finished p \<longleftrightarrow> list_all (\<lambda>w. w = Exited) (workers_at p)"

fun pipe_text :: "pipe_error \<Rightarrow> gostring" where
  "pipe_text (CtxErr e) = ctx_text e"
| "pipe_text (ReadErr e) = Error_text e"

definition pipe_return :: "('r, 'w) io \<Rightarrow> ('r, 'w) pipe \<Rightarrow> goerr option \<times> ('r, 'w) StreamingWrapper" where
  "pipe_return io p =
    (if errChan p \<noteq> None \<and> errChan p \<noteq> Some (CtxErr Canceled)
     then Errorf (''streaming error: '' @ pipe_text (the (errChan p))) (shared p)
     else (None, set_end io (shared p)))"

lemma run_trans: "pipe_run io receiving q q' \<Longrightarrow> pipe_run io receiving p q \<Longrightarrow> pipe_run io receiving p q'"
  by (induction rule: pipe_run.induct) (auto intro: pipe_run.intros)

end
