(* ===== verification/StreamBufferedProps.thy ===== *)
theory StreamBufferedProps
  imports StreamBuffered
begin

text \<open>
  The properties of the buffered strategies: chunks are conserved under every interleaving, a
  run without cancellation delivers them all and can always be completed, and what goes
  wrong with several workers and with a cancelled context.
\<close>

section \<open>Worker lists\<close>

fun in_hand :: "worker_pc \<Rightarrow> StreamChunk list" where
  "in_hand (Taken c) = [c]"
| "in_hand _ = []"

definition held :: "('r, 'w) pipe \<Rightarrow> StreamChunk list" where
  "held p = concat (map in_hand (workers_at p))"

lemma mset_concat_update:
  "i < length xs \<Longrightarrow> mset (concat (map f (xs [i := x]))) + mset (f (xs ! i)) = mset (concat (map f xs)) + mset (f x)"
proof (induction xs arbitrary: i)
  case (Cons a xs)
  then show ?case by (cases i) (auto simp: ac_simps)
qed simp

section \<open>Conservation\<close>

text \<open>No chunk is lost or taken twice.\<close>

definition conserved :: "('r, 'w) pipe \<Rightarrow> bool" where
  "conserved p \<longleftrightarrow> mset (sent p) = mset (processed p) + mset (chunkChan p) + mset (held p) + mset (dropped p)"

lemma pipe_step_conserved: "pipe_step io receiving p q \<Longrightarrow> conserved p \<Longrightarrow> conserved q"
proof (induction rule: pipe_step.induct)
  case (worker_take i p chunk rest)
  then show ?case using mset_concat_update [OF worker_take(1), of in_hand "Taken chunk"]
    by (auto simp: conserved_def held_def)
next
  case (worker_leaves i p chunk rest e)
  then show ?case using mset_concat_update [OF worker_leaves(1), of in_hand Exited]
    by (auto simp: conserved_def held_def)
next
  case (worker_process i p chunk)
  then show ?case using mset_concat_update [OF worker_process(1), of in_hand Idle]
    by (auto simp: conserved_def held_def)
next
  case (worker_exit i p)
  then show ?case using mset_concat_update [OF worker_exit(1), of in_hand Exited]
    by (auto simp: conserved_def held_def)
qed (auto simp: conserved_def held_def stop_reader_def offer_err_def split: option.split)

section \<open>The work on a chunk\<close>

lemma process_kept [simp]:
  "config (process io receiving c s) = config s" "reader (process io receiving c s) = reader s"
  "bufferPool (process io receiving c s) = bufferPool s" "currentChunk (process io receiving c s) = currentChunk s"
proof -
  have p: "config (updateProgress io c s) = config s \<and> reader (updateProgress io c s) = reader s \<and>
      bufferPool (updateProgress io c s) = bufferPool s" for c and s :: "('a, 'b) StreamingWrapper"
    by (simp add: updateProgress_def Let_def)
  have w: "reader (snd (write_data io d s)) = reader s \<and> bufferPool (snd (write_data io d s)) = bufferPool s"
    for d and s :: "('a, 'b) StreamingWrapper"
    by (simp add: write_data_def split: option.split prod.split)
  have k: "config (snd (write_and_count io c s)) = config s \<and> reader (snd (write_and_count io c s)) = reader s \<and>
      bufferPool (snd (write_and_count io c s)) = bufferPool s \<and> currentChunk (snd (write_and_count io c s)) = currentChunk s"
    for c and s :: "('a, 'b) StreamingWrapper"
    using w [of "Data c" s]
    by (auto simp: write_and_count_def case_prod_beta Let_def p failChunk_def recordError_def split: option.split)
  have t: "config (throttle s) = config s \<and> reader (throttle s) = reader s \<and> bufferPool (throttle s) = bufferPool s"
    for s :: "('a, 'b) StreamingWrapper" by (simp add: throttle_def)
  have c: "config (snd (send_code io c s)) = config s \<and> reader (snd (send_code io c s)) = reader s \<and>
      bufferPool (snd (send_code io c s)) = bufferPool s \<and> currentChunk (snd (send_code io c s)) = currentChunk s"
    "config (snd (receive_code io c s)) = config s \<and> reader (snd (receive_code io c s)) = reader s \<and>
      bufferPool (snd (receive_code io c s)) = bufferPool s \<and> currentChunk (snd (receive_code io c s)) = currentChunk s"
    by (auto simp: send_code_def receive_code_def failChunk_def recordError_def addCompressed_def split: sum.split)
  show "config (process io receiving c s) = config s" "reader (process io receiving c s) = reader s"
    "bufferPool (process io receiving c s) = bufferPool s" "currentChunk (process io receiving c s) = currentChunk s"
    by (simp_all add: process_def case_prod_beta k t c)
qed

definition pipe_code :: "('r, 'w) io \<Rightarrow> bool \<Rightarrow> StreamConfig \<Rightarrow> bytes \<Rightarrow> goerr + bytes" where
  "pipe_code io receiving = (if receiving then decode io else encode io)"

definition chunk_ok :: "StreamConfig \<Rightarrow> StreamChunk \<Rightarrow> bool" where
  "chunk_ok cfg c \<longleftrightarrow> CompressionType c = Compression cfg \<and> Size c = int (length (Data c))"

lemma process_clean:
  assumes "pipe_code io receiving (config s) (Data c) = Inr e" and "chunk_ok (config s) c"
    and "writer s = Some w" and "Write io w e = (None, w')"
  shows "tally (process io receiving c s) =
    (Some w', errors s, FailedChunks (stats s), wrap64 (TransferredBytes (progress s) + int (length (Data c))),
     currentChunk s, currentChunk s)"
proof -
  have "compressChunk io (config s) c = encode io (config s) (Data c)"
    by (simp add: compressChunk_def encode_def)
  moreover have "decompressChunk io c = decode io (config s) (Data c)"
    using assms(2) by (simp add: decompressChunk_def decode_def chunk_ok_def)
  ultimately show ?thesis
    using assms
    by (cases receiving; cases "compressing s";
      simp add: process_def pipe_code_def send_code_def receive_code_def no_code chunk_ok_def write_and_count_def write_ok
        case_prod_beta Let_def tally_parts tally_changes; simp add: tally_intro)
qed

section \<open>Runs without cancellation\<close>

definition after_read :: "('r, 'w) io \<Rightarrow> int \<Rightarrow> 'r \<Rightarrow> read_error option \<Rightarrow> bytes list \<Rightarrow> bool" where
  "after_read io n r err rest \<longleftrightarrow> (case err of
      None \<Rightarrow> delivers io n r rest | Some EOF \<Rightarrow> rest = [] | Some (ReadError e) \<Rightarrow> False)"

lemma delivers_read:
  assumes "delivers io n r cs" and "Read io r n = (data, err, r')"
  shows "if data = [] then after_read io n r' err cs else \<exists>rest. cs = data # rest \<and> after_read io n r' err rest"
  using assms by (cases rule: delivers.cases) (auto simp: after_read_def)

text \<open>The reader has sent a beginning of what the source delivers, and the rest is to come.\<close>

definition reader_ok ::
    "('r, 'w) io \<Rightarrow> ('r, 'w) StreamingWrapper \<Rightarrow> bytes list \<Rightarrow> 'r \<Rightarrow> reader_pc \<Rightarrow> bytes list \<Rightarrow> bool" where
  "reader_ok io s0 cs r pc ds \<longleftrightarrow> (\<exists>rest. case pc of
        Top \<Rightarrow> cs = ds @ rest \<and> delivers io (buffer_size s0) r rest
      | Sending c err \<Rightarrow> cs = ds @ Data c # rest \<and> chunk_ok (config s0) c \<and> after_read io (buffer_size s0) r err rest
      | AfterRead err \<Rightarrow> cs = ds @ rest \<and> after_read io (buffer_size s0) r err rest
      | Stopped \<Rightarrow> cs = ds)"

definition reader_inv :: "('r, 'w) io \<Rightarrow> ('r, 'w) StreamingWrapper \<Rightarrow> bytes list \<Rightarrow> ('r, 'w) pipe \<Rightarrow> bool" where
  "reader_inv io s0 cs p \<longleftrightarrow> (\<exists>r. reader (shared p) = Some r \<and> reader_ok io s0 cs r (reader_at p) (map Data (sent p)))"

lemma reader_ok_subset: "reader_ok io s0 cs r pc ds \<Longrightarrow> set ds \<subseteq> set cs"
  by (cases pc) (auto simp: reader_ok_def)

lemma offer_err_simps [simp]:
  "ctx_state (offer_err e p) = ctx_state p" "shared (offer_err e p) = shared p" "sent (offer_err e p) = sent p"
  "reader_at (offer_err e p) = reader_at p" "workers_at (offer_err e p) = workers_at p"
  "chunkChan (offer_err e p) = chunkChan p" "dropped (offer_err e p) = dropped p" "processed (offer_err e p) = processed p"
  "chan_closed (offer_err e p) = chan_closed p"
  by (simp_all add: offer_err_def split: option.split)

definition same_settings :: "('r, 'w) StreamingWrapper \<Rightarrow> ('r, 'w) pipe \<Rightarrow> bool" where
  "same_settings s0 p \<longleftrightarrow> config (shared p) = config s0 \<and> bufferPool (shared p) = bufferPool s0"

lemma new_chunk_facts:
  assumes "new_chunk io i data s = (chunk, s')"
  shows "config s' = config s" "bufferPool s' = bufferPool s" "reader s' = reader s" "tally s' = tally s"
    "Data chunk = data" "chunk_ok (config s) chunk"
  using assms by (auto simp: new_chunk_def chunk_ok_def tally_def)

lemma step_settings: "pipe_step io receiving p q \<Longrightarrow> same_settings s0 p \<Longrightarrow> same_settings s0 q"
  by (induction rule: pipe_step.induct)
    (auto simp: same_settings_def stop_reader_def dest: new_chunk_facts(1,2))

lemma step_ctx: "pipe_step io receiving p q \<Longrightarrow> ctx_state q = None \<Longrightarrow> ctx_state p = None"
  by (induction rule: pipe_step.induct) (auto simp: stop_reader_def)

lemma buffer_size_settings: "same_settings s0 p \<Longrightarrow> buffer_size (shared p) = buffer_size s0"
  by (simp add: same_settings_def buffer_size_def split: option.split)

lemma step_reader:
  "pipe_step io receiving p q \<Longrightarrow> ctx_state q = None \<Longrightarrow> same_settings s0 p \<Longrightarrow> reader_inv io s0 cs p \<Longrightarrow> reader_inv io s0 cs q"
proof (induction rule: pipe_step.induct)
  case (reader_idle p r err r')
  note b = buffer_size_settings [OF reader_idle.prems(2)]
  from reader_idle obtain rest where "cs = map Data (sent p) @ rest" "delivers io (buffer_size s0) r rest"
    by (auto simp: reader_inv_def reader_ok_def)
  with delivers_read [of io "buffer_size s0" r rest "[]" err r'] reader_idle(4) b show ?case
    by (auto simp: reader_inv_def reader_ok_def)
next
  case (reader_data p r data err r' chunk s)
  note b = buffer_size_settings [OF reader_data.prems(2)]
  note n = new_chunk_facts [OF reader_data(6)]
  from reader_data obtain rest0 where "cs = map Data (sent p) @ rest0" "delivers io (buffer_size s0) r rest0"
    by (auto simp: reader_inv_def reader_ok_def)
  with delivers_read [of io "buffer_size s0" r rest0 data err r'] reader_data(4,5) b obtain rest where
    "cs = map Data (sent p) @ data # rest" "after_read io (buffer_size s0) r' err rest" by auto
  with n reader_data.prems show ?case by (auto simp: reader_inv_def reader_ok_def same_settings_def)
qed (auto simp: reader_inv_def stop_reader_def reader_ok_def after_read_def)

text \<open>Nothing is given up, the channel is closed by the reader, and workers leave only then.\<close>

definition quiet :: "('r, 'w) pipe \<Rightarrow> bool" where
  "quiet p \<longleftrightarrow> errChan p = None \<and> dropped p = [] \<and> (chan_closed p \<longleftrightarrow> reader_at p = Stopped) \<and>
    (Exited \<in> set (workers_at p) \<longrightarrow> chan_closed p \<and> chunkChan p = [])"

lemma in_update: "x \<in> set (xs [i := y]) \<Longrightarrow> x \<noteq> y \<Longrightarrow> x \<in> set xs"
  using set_update_subset_insert by fastforce

lemma step_quiet:
  "pipe_step io receiving p q \<Longrightarrow> ctx_state q = None \<Longrightarrow> reader_inv io s0 cs p \<Longrightarrow> quiet p \<Longrightarrow> quiet q"
  by (induction rule: pipe_step.induct)
    (auto simp: quiet_def stop_reader_def reader_inv_def reader_ok_def after_read_def dest!: in_update)

text \<open>With one worker the chunks keep their order.\<close>

definition in_order :: "('r, 'w) pipe \<Rightarrow> bool" where
  "in_order p \<longleftrightarrow> length (workers_at p) = 1 \<and> sent p = processed p @ held p @ chunkChan p"

lemma step_in_order:
  "pipe_step io receiving p q \<Longrightarrow> ctx_state q = None \<Longrightarrow> in_order p \<Longrightarrow> in_order q"
proof (induction rule: pipe_step.induct)
  case (worker_take i p chunk rest)
  then obtain w where "workers_at p = [w]" by (auto simp: in_order_def length_Suc_conv)
  with worker_take show ?case by (auto simp: in_order_def held_def)
next
  case (worker_process i p chunk)
  then obtain w where "workers_at p = [w]" by (auto simp: in_order_def length_Suc_conv)
  with worker_process show ?case by (auto simp: in_order_def held_def)
next
  case (worker_exit i p)
  then obtain w where "workers_at p = [w]" by (auto simp: in_order_def length_Suc_conv)
  with worker_exit show ?case by (auto simp: in_order_def held_def)
qed (auto simp: in_order_def held_def stop_reader_def offer_err_def split: option.split)

text \<open>The chunks under way are well formed.\<close>

definition chunks_ok :: "('r, 'w) StreamingWrapper \<Rightarrow> ('r, 'w) pipe \<Rightarrow> bool" where
  "chunks_ok s0 p \<longleftrightarrow> list_all (chunk_ok (config s0)) (sent p)"

lemma step_chunks:
  "pipe_step io receiving p q \<Longrightarrow> ctx_state q = None \<Longrightarrow> reader_inv io s0 cs p \<Longrightarrow> chunks_ok s0 p \<Longrightarrow> chunks_ok s0 q"
  by (induction rule: pipe_step.induct)
    (auto simp: chunks_ok_def stop_reader_def reader_inv_def reader_ok_def)

text \<open>What the writer holds.\<close>

definition output_inv ::
    "('w \<Rightarrow> bytes) \<Rightarrow> (bytes \<Rightarrow> bytes) \<Rightarrow> 'w \<Rightarrow> ('r, 'w) StreamingWrapper \<Rightarrow> ('r, 'w) pipe \<Rightarrow> bool" where
  "output_inv sink enc w0 s0 p \<longleftrightarrow> (\<exists>w. writer (shared p) = Some w \<and>
     sink w = sink w0 @ concat (map (\<lambda>c. enc (Data c)) (processed p)) \<and>
     errors (shared p) = errors s0 \<and> FailedChunks (stats (shared p)) = FailedChunks (stats s0) \<and>
     TransferredBytes (progress (shared p)) =
       wrap64 (TransferredBytes (progress s0) + int (length (concat (map Data (processed p))))))"

lemma output_inv_cong:
  assumes "tally (shared q) = (writer (shared p), errors (shared p), FailedChunks (stats (shared p)),
      TransferredBytes (progress (shared p)), c, n)" and "processed q = processed p" and "output_inv sink enc w0 s0 p"
  shows "output_inv sink enc w0 s0 q"
  using assms by (auto simp: output_inv_def tally_def)

lemma step_output:
  assumes "pipe_step io receiving p q" and "ctx_state q = None" and "same_settings s0 p" and "reader_inv io s0 cs p"
    and "chunks_ok s0 p" and "conserved p"
    and "appends io sink" and "\<forall>d \<in> set cs. pipe_code io receiving (config s0) d = Inr (enc d)"
    and "output_inv sink enc w0 s0 p"
  shows "output_inv sink enc w0 s0 q"
  using assms(1-6,9)
proof (induction rule: pipe_step.induct)
  case (reader_data p r data err r' chunk s)
  then show ?case using new_chunk_facts(4) [OF reader_data(6)] by (auto simp: output_inv_def tally_def)
next
  case (worker_process i p chunk)
  have "chunk \<in> set (held p)"
    using nth_mem [OF worker_process(1)] worker_process(2) by (force simp: held_def)
  then have "chunk \<in># mset (sent p)" using worker_process.prems(5) by (auto simp: conserved_def)
  then have sent: "chunk \<in> set (sent p)" by simp
  have "set (map Data (sent p)) \<subseteq> set cs"
    using worker_process.prems(3) reader_ok_subset unfolding reader_inv_def by metis
  with sent have "Data chunk \<in> set cs" by auto
  then have code: "pipe_code io receiving (config (shared p)) (Data chunk) = Inr (enc (Data chunk))"
    using assms(8) worker_process.prems(2) by (simp add: same_settings_def)
  have ok: "chunk_ok (config (shared p)) chunk"
    using sent worker_process.prems(2,4) by (auto simp: chunks_ok_def list_all_iff same_settings_def)
  obtain w where w: "writer (shared p) = Some w" using worker_process.prems(6) by (auto simp: output_inv_def)
  obtain w' where w': "Write io w (enc (Data chunk)) = (None, w')" "sink w' = sink w @ enc (Data chunk)"
    using assms(7) by (auto simp: appends_def)
  from process_clean [OF code ok w w'(1)] worker_process.prems(6) w w'(2) show ?case
    by (auto simp: output_inv_def tally_def wrap64_add wrap64_add_right algebra_simps)
qed (auto simp: output_inv_def stop_reader_def)

section \<open>The invariant\<close>

definition pipe_inv ::
    "('r, 'w) io \<Rightarrow> ('w \<Rightarrow> bytes) \<Rightarrow> (bytes \<Rightarrow> bytes) \<Rightarrow> 'w \<Rightarrow> ('r, 'w) StreamingWrapper \<Rightarrow> bytes list \<Rightarrow> ('r, 'w) pipe \<Rightarrow> bool" where
  "pipe_inv io sink enc w0 s0 cs p \<longleftrightarrow> same_settings s0 p \<and> conserved p \<and>
    length (workers_at p) = nat (MaxConcurrentChunks (config s0)) \<and>
    (if ctx_state p = None
     then reader_inv io s0 cs p \<and> quiet p \<and> chunks_ok s0 p \<and> output_inv sink enc w0 s0 p \<and>
       (MaxConcurrentChunks (config s0) = 1 \<longrightarrow> in_order p)
     else True)"

lemma step_workers: "pipe_step io receiving p q \<Longrightarrow> length (workers_at q) = length (workers_at p)"
  by (induction rule: pipe_step.induct) (auto simp: stop_reader_def)

lemma run_workers: "pipe_run io receiving p q \<Longrightarrow> length (workers_at q) = length (workers_at p)"
  by (induction rule: pipe_run.induct) (auto dest: step_workers)

lemma pipe_run_inv:
  assumes "pipe_run io receiving p q" and "pipe_inv io sink enc w0 s0 cs p"
    and "appends io sink" and "\<forall>d \<in> set cs. pipe_code io receiving (config s0) d = Inr (enc d)"
  shows "pipe_inv io sink enc w0 s0 cs q"
  using assms(1,2)
proof (induction rule: pipe_run.induct)
  case (run_step p q q')
  then have q: "pipe_inv io sink enc w0 s0 cs q" by simp
  note st = run_step.hyps(2)
  have "ctx_state q' = None \<Longrightarrow> ctx_state q = None" using step_ctx [OF st] .
  then show ?case
    using q step_settings [OF st, of s0] pipe_step_conserved [OF st] step_workers [OF st]
      step_reader [OF st, of s0 cs] step_quiet [OF st, of s0 cs] step_chunks [OF st, of s0 cs]
      step_output [OF st, of s0 cs sink enc w0] step_in_order [OF st] assms(3,4)
    by (auto simp: pipe_inv_def)
qed

lemma pipe_start_inv:
  assumes "reader s = Some r" and "delivers io (buffer_size s) r cs" and "writer s = Some w0"
    and "in_int64 (TransferredBytes (progress s))"
  shows "pipe_inv io sink enc w0 s cs (pipe_start io s)"
proof -
  have "reader (set_start io s) = Some r" "writer (set_start io s) = Some w0" "bufferPool (set_start io s) = bufferPool s"
    using assms by (simp_all add: set_start_def)
  then show ?thesis
    using assms
    by (auto simp: pipe_inv_def pipe_start_def same_settings_def conserved_def held_def reader_inv_def reader_ok_def
        quiet_def chunks_ok_def output_inv_def in_order_def)
qed

lemma mset_concat_length: "mset xs = mset ys \<Longrightarrow> length (concat xs) = length (concat ys)"
  by (simp add: length_concat) (metis mset_map sum_mset_sum_list)

lemma finished_inv:
  assumes "pipe_inv io sink enc w0 s0 cs p" and "pipe_finished p" and "ctx_state p = None" and "0 < MaxConcurrentChunks (config s0)"
  shows "mset (map Data (processed p)) = mset cs" and "MaxConcurrentChunks (config s0) = 1 \<Longrightarrow> map Data (processed p) = cs"
    and "errChan p = None" and "output_inv sink enc w0 s0 p"
proof -
  from assms have len: "workers_at p \<noteq> []" by (auto simp: pipe_inv_def)
  then have "Exited \<in> set (workers_at p)" using assms(2) by (cases "workers_at p") (auto simp: pipe_finished_def)
  with assms have q: "reader_at p = Stopped" "chunkChan p = []" "errChan p = None" "dropped p = []"
    and cs: "cs = map Data (sent p)" and c: "mset (sent p) = mset (processed p) + mset (held p)"
    and ord: "MaxConcurrentChunks (config s0) = 1 \<longrightarrow> in_order p" and "output_inv sink enc w0 s0 p"
    by (auto simp: pipe_inv_def quiet_def reader_inv_def reader_ok_def conserved_def)
  then show "errChan p = None" "output_inv sink enc w0 s0 p" by simp_all
  have h: "held p = []" using assms(2) by (auto simp: held_def pipe_finished_def list_all_iff)
  with c cs show "mset (map Data (processed p)) = mset cs" by simp
  show "map Data (processed p) = cs" if "MaxConcurrentChunks (config s0) = 1"
    using ord that h q(2) cs by (simp add: in_order_def)
qed

lemma buffer_size_cong: "config s = config t \<Longrightarrow> bufferPool s = bufferPool t \<Longrightarrow> buffer_size s = buffer_size t"
  by (simp add: buffer_size_def split: option.split)

lemma buffer_size_simps: "buffer_size (s \<lparr> reader := r \<rparr>) = buffer_size s" "buffer_size (s \<lparr> currentChunk := i \<rparr>) = buffer_size s"
  by (rule buffer_size_cong; simp)+

lemma step_stopped: "pipe_step io receiving p q \<Longrightarrow> reader_at p = Stopped \<Longrightarrow> reader_at q = Stopped"
  by (induction rule: pipe_step.induct) (auto simp: stop_reader_def)

lemma run_stopped: "pipe_run io receiving p q \<Longrightarrow> reader_at p = Stopped \<Longrightarrow> reader_at q = Stopped"
  by (induction rule: pipe_run.induct) (auto dest: step_stopped)

lemma step_closed: "pipe_step io receiving p q \<Longrightarrow> chan_closed p = (reader_at p = Stopped) \<Longrightarrow> chan_closed q = (reader_at q = Stopped)"
  by (induction rule: pipe_step.induct) (auto simp: stop_reader_def)

lemma run_closed: "pipe_run io receiving p q \<Longrightarrow> chan_closed p = (reader_at p = Stopped) \<Longrightarrow> chan_closed q = (reader_at q = Stopped)"
  by (induction rule: pipe_run.induct) (auto dest: step_closed)

text \<open>When an uncancelled pipe is finished, its reader is gone.\<close>

lemma run_quit_late:
  "pipe_run io receiving p q \<Longrightarrow> ctx_state q = None \<Longrightarrow> (Exited \<in> set (workers_at p) \<longrightarrow> chan_closed p) \<Longrightarrow>
    Exited \<in> set (workers_at q) \<longrightarrow> chan_closed q"
proof (induction rule: pipe_run.induct)
  case (run_step p q q')
  then have "Exited \<in> set (workers_at q) \<longrightarrow> chan_closed q" using step_ctx by metis
  with run_step.hyps(2) run_step.prems(1) show ?case
    by (induction rule: pipe_step.induct) (auto simp: stop_reader_def dest!: in_update)
qed

lemma finished_stopped:
  assumes "pipe_run io receiving (pipe_start io s) q" and "0 < MaxConcurrentChunks (config s)" and "pipe_finished q" and "ctx_state q = None"
  shows "reader_at q = Stopped"
proof -
  have "length (workers_at q) = nat (MaxConcurrentChunks (config s))" using run_workers [OF assms(1)] by (simp add: pipe_start_def)
  with assms(2) have "workers_at q \<noteq> []" by auto
  then have "Exited \<in> set (workers_at q)" using assms(3) by (cases "workers_at q") (auto simp: pipe_finished_def)
  then have "chan_closed q" using run_quit_late [OF assms(1,4)] by (simp add: pipe_start_def)
  with run_closed [OF assms(1)] show ?thesis by (simp add: pipe_start_def)
qed

section \<open>Completion\<close>

definition completes :: "('r, 'w) io \<Rightarrow> bool \<Rightarrow> ('r, 'w) pipe \<Rightarrow> bool" where
  "completes io receiving p \<longleftrightarrow> (\<exists>q. pipe_run io receiving p q \<and> pipe_finished q \<and> ctx_state q = None)"

lemma completes_step: "pipe_step io receiving p q \<Longrightarrow> completes io receiving q \<Longrightarrow> completes io receiving p"
  unfolding completes_def by (meson run_refl run_step run_trans)

lemma completes_run: "pipe_run io receiving p q \<Longrightarrow> completes io receiving q \<Longrightarrow> completes io receiving p"
  unfolding completes_def by (meson run_trans)

lemma filter_nth: "Suc k = length (filter P xs) \<Longrightarrow> \<exists>i < length xs. P (xs ! i)"
  by (metis Zero_neq_Suc filter_False in_set_conv_nth list.size(3))

text \<open>The workers leave one after the other.\<close>

lemma workers_leave:
  assumes "chan_closed p" and "chunkChan p = []" and "\<forall>w \<in> set (workers_at p). w = Idle \<or> w = Exited"
  shows "\<exists>q. pipe_run io receiving p q \<and> pipe_finished q \<and> ctx_state q = ctx_state p \<and> shared q = shared p \<and> errChan q = errChan p"
  using assms
proof (induction "length (filter (\<lambda>w. w = Idle) (workers_at p))" arbitrary: p)
  case 0
  then have "pipe_finished p" by (auto simp: pipe_finished_def list_all_iff filter_empty_conv)
  then show ?case by (auto intro: run_refl)
next
  case (Suc k)
  from filter_nth [OF Suc.hyps(2)] obtain i where i: "i < length (workers_at p)" "workers_at p ! i = Idle" by blast
  let ?q = "p \<lparr> workers_at := (workers_at p) [i := Exited] \<rparr>"
  have st: "pipe_step io receiving p ?q" using i Suc.prems by (intro worker_exit)
  have "num (\<lambda>w. w = Idle) ((workers_at p) [i := Exited]) = num (\<lambda>w. w = Idle) (workers_at p) - 1"
    using i by (simp add: num_update)
  then have "k = length (filter (\<lambda>w. w = Idle) (workers_at ?q))" using Suc.hyps(2) by (simp add: num_def)
  moreover have "\<forall>w \<in> set (workers_at ?q). w = Idle \<or> w = Exited"
    using Suc.prems(3) set_update_subset_insert [of "workers_at p" i Exited] by auto
  ultimately obtain q where q: "pipe_run io receiving ?q q" "pipe_finished q" "ctx_state q = ctx_state p"
    "shared q = shared p" "errChan q = errChan p" using Suc.hyps(1) [of ?q] Suc.prems(1,2) by auto
  with run_trans [OF q(1) run_step [OF run_refl st]] show ?case by blast
qed

lemma workers_exit:
  assumes "chan_closed p" and "chunkChan p = []" and "ctx_state p = None" and "\<forall>w \<in> set (workers_at p). w = Idle \<or> w = Exited"
  shows "completes io receiving p"
  using workers_leave [OF assms(1,2,4), of io receiving] assms(3) by (auto simp: completes_def)

text \<open>The workers finish their chunks, and the first one empties the channel.\<close>

definition settled :: "('r, 'w) pipe \<Rightarrow> ('r, 'w) pipe \<Rightarrow> bool" where
  "settled p q \<longleftrightarrow> ctx_state q = ctx_state p \<and> chan_closed q = chan_closed p \<and> reader_at q = reader_at p \<and>
    reader (shared q) = reader (shared p) \<and> config (shared q) = config (shared p) \<and>
    bufferPool (shared q) = bufferPool (shared p) \<and> length (workers_at q) = length (workers_at p) \<and>
    (Exited \<in> set (workers_at q) \<longrightarrow> Exited \<in> set (workers_at p))"

lemma settled_trans: "settled p q \<Longrightarrow> settled q q' \<Longrightarrow> settled p q'"
  by (auto simp: settled_def)

lemma workers_finish:
  "\<exists>q. pipe_run io receiving p q \<and> settled p q \<and> chunkChan q = chunkChan p \<and> (\<forall>w \<in> set (workers_at q). w = Idle \<or> w = Exited)"
proof (induction "length (filter (\<lambda>w. w \<noteq> Idle \<and> w \<noteq> Exited) (workers_at p))" arbitrary: p)
  case 0
  then have "\<forall>w \<in> set (workers_at p). w = Idle \<or> w = Exited" by (auto simp: filter_empty_conv)
  then show ?case by (auto simp: settled_def intro: run_refl)
next
  case (Suc k)
  from filter_nth [OF Suc.hyps(2)] obtain i where
    i: "i < length (workers_at p)" "workers_at p ! i \<noteq> Idle" "workers_at p ! i \<noteq> Exited" by blast
  then obtain c where c: "workers_at p ! i = Taken c" by (cases "workers_at p ! i") auto
  let ?q = "p \<lparr> shared := process io receiving c (shared p),
      workers_at := (workers_at p) [i := Idle], processed := processed p @ [c] \<rparr>"
  have st: "pipe_step io receiving p ?q" using i(1) c by (rule worker_process)
  have "num (\<lambda>w. w \<noteq> Idle \<and> w \<noteq> Exited) ((workers_at p) [i := Idle]) = num (\<lambda>w. w \<noteq> Idle \<and> w \<noteq> Exited) (workers_at p) - 1"
    using i by (simp add: num_update)
  then have "k = length (filter (\<lambda>w. w \<noteq> Idle \<and> w \<noteq> Exited) (workers_at ?q))" using Suc.hyps(2) by (simp add: num_def)
  from Suc.hyps(1) [OF this] obtain q where q: "pipe_run io receiving ?q q" "settled ?q q" "chunkChan q = chunkChan p"
    "\<forall>w \<in> set (workers_at q). w = Idle \<or> w = Exited" by auto
  have "settled p ?q" by (auto simp: settled_def dest: in_update)
  then have "settled p q" using q(2) by (rule settled_trans)
  moreover have "pipe_run io receiving p q" by (rule run_trans [OF q(1) run_step [OF run_refl st]])
  ultimately show ?case using q(3,4) by blast
qed

lemma channel_emptied:
  assumes "ctx_state p = None" and "Exited \<notin> set (workers_at p)" and "workers_at p \<noteq> []"
    and "\<forall>w \<in> set (workers_at p). w = Idle \<or> w = Exited"
  shows "\<exists>q. pipe_run io receiving p q \<and> settled p q \<and> chunkChan q = [] \<and> (\<forall>w \<in> set (workers_at q). w = Idle)"
  using assms
proof (induction "chunkChan p" arbitrary: p)
  case Nil
  then have "\<forall>w \<in> set (workers_at p). w = Idle" by auto
  with Nil show ?case by (auto simp: settled_def intro!: exI [of _ p] intro: run_refl)
next
  case (Cons c cs)
  have w: "0 < length (workers_at p)" using Cons.prems(3) by simp
  then have "workers_at p ! 0 \<in> set (workers_at p)" by (rule nth_mem)
  then have w: "0 < length (workers_at p)" "workers_at p ! 0 = Idle" using Cons.prems(2,4) w by metis+
  let ?p1 = "p \<lparr> chunkChan := cs, workers_at := (workers_at p) [0 := Taken c] \<rparr>"
  let ?p2 = "?p1 \<lparr> shared := process io receiving c (shared ?p1),
      workers_at := (workers_at ?p1) [0 := Idle], processed := processed ?p1 @ [c] \<rparr>"
  have "pipe_step io receiving p ?p1" using w Cons.hyps(2) [symmetric] Cons.prems(1) by (rule worker_take)
  moreover have "pipe_step io receiving ?p1 ?p2" by (rule worker_process) (use w in simp_all)
  ultimately have r: "pipe_run io receiving p ?p2" by (meson run_refl run_step)
  have same: "workers_at ?p2 = workers_at p" using w by (simp add: list_update_same_conv)
  have "cs = chunkChan ?p2" by simp
  from Cons.hyps(1) [OF this] Cons.prems same obtain q where q: "pipe_run io receiving ?p2 q" "settled ?p2 q" "chunkChan q = []"
    "\<forall>w \<in> set (workers_at q). w = Idle" by auto
  have "settled p ?p2" using same by (simp add: settled_def)
  then have "settled p q" using q(2) by (rule settled_trans)
  with q r show ?case by (meson run_trans)
qed

text \<open>A state in which the workers wait and the reader is about to read.\<close>

definition calm :: "('r, 'w) io \<Rightarrow> int \<Rightarrow> ('r, 'w) pipe \<Rightarrow> bool" where
  "calm io n p \<longleftrightarrow> ctx_state p = None \<and> chunkChan p = [] \<and> workers_at p \<noteq> [] \<and> (\<forall>w \<in> set (workers_at p). w = Idle) \<and>
    buffer_size (shared p) = n \<and> 0 < MaxConcurrentChunks (config (shared p))"

lemma calm_settles:
  assumes "ctx_state p = None" and "Exited \<notin> set (workers_at p)" and "workers_at p \<noteq> []"
    and "buffer_size (shared p) = n" and "0 < MaxConcurrentChunks (config (shared p))"
  shows "\<exists>q. pipe_run io receiving p q \<and> settled p q \<and> calm io n q"
proof -
  from workers_finish [of io receiving p] obtain q1 where q1: "pipe_run io receiving p q1" "settled p q1"
    "\<forall>w \<in> set (workers_at q1). w = Idle \<or> w = Exited" by blast
  then have "ctx_state q1 = None" "Exited \<notin> set (workers_at q1)" "workers_at q1 \<noteq> []"
    using assms by (auto simp: settled_def)
  from channel_emptied [OF this q1(3), of io receiving] obtain q2 where q2: "pipe_run io receiving q1 q2" "settled q1 q2"
    "chunkChan q2 = []" "\<forall>w \<in> set (workers_at q2). w = Idle" by blast
  have st: "settled p q2" using q1(2) q2(2) by (rule settled_trans)
  then have "calm io n q2" using assms q2(3,4) buffer_size_cong [of "shared q2" "shared p"]
    by (auto simp: settled_def calm_def)
  with st run_trans [OF q2(1) q1(1)] show ?thesis by blast
qed

lemma ending_completes:
  assumes "calm io n p" and "reader_at p = AfterRead (Some EOF)"
  shows "completes io receiving p"
proof (rule completes_step)
  show "pipe_step io receiving p (stop_reader p)" using assms(2) by (rule reader_eof)
  show "completes io receiving (stop_reader p)"
    by (rule workers_exit) (use assms(1) in \<open>auto simp: calm_def stop_reader_def\<close>)
qed

text \<open>One chunk goes through: it is sent, taken and processed.\<close>

lemma chunk_goes_through:
  assumes "calm io n p" and "reader_at p = Sending c err"
  shows "\<exists>q. pipe_run io receiving p q \<and> calm io n q \<and> reader_at q = AfterRead err \<and> reader (shared q) = reader (shared p)"
proof -
  let ?p = "p \<lparr> chunkChan := chunkChan p @ [c],
      shared := (shared p) \<lparr> currentChunk := wrap64 (currentChunk (shared p) + 1) \<rparr>,
      reader_at := AfterRead err, sent := sent p @ [c] \<rparr>"
  have st: "pipe_step io receiving p ?p"
    using assms(2) by (rule reader_send) (use assms(1) in \<open>simp add: calm_def\<close>)
  have "\<exists>q. pipe_run io receiving ?p q \<and> settled ?p q \<and> calm io n q"
    by (rule calm_settles) (use assms(1) in \<open>auto simp: calm_def buffer_size_simps\<close>)
  then obtain q where "pipe_run io receiving ?p q" "settled ?p q" "calm io n q" by blast
  with run_trans [OF this(1) run_step [OF run_refl st]] show ?thesis by (auto simp: settled_def)
qed

lemma reading_completes:
  assumes "delivers io n r cs" and "calm io n p" and "reader_at p = Top" and "reader (shared p) = Some r"
  shows "completes io receiving p"
  using assms
proof (induction arbitrary: p rule: delivers.induct)
  case (ends r r')
  let ?q = "p \<lparr> shared := (shared p) \<lparr> reader := Some r' \<rparr>, reader_at := AfterRead (Some EOF) \<rparr>"
  have "pipe_step io receiving p ?q"
    by (rule reader_idle [where r = r]) (use ends in \<open>auto simp: calm_def\<close>)
  moreover have "completes io receiving ?q"
    by (rule ending_completes [where n = n]) (use ends in \<open>auto simp: calm_def buffer_size_simps\<close>)
  ultimately show ?case by (rule completes_step)
next
  case (idle r r' cs)
  let ?q = "p \<lparr> shared := (shared p) \<lparr> reader := Some r' \<rparr>, reader_at := AfterRead None \<rparr>"
  have "pipe_step io receiving p ?q"
    by (rule reader_idle [where r = r]) (use idle in \<open>auto simp: calm_def\<close>)
  moreover have "pipe_step io receiving ?q (?q \<lparr> reader_at := Top \<rparr>)" by (rule reader_again) simp
  moreover have "completes io receiving (?q \<lparr> reader_at := Top \<rparr>)"
    by (rule idle.IH) (use idle.prems in \<open>auto simp: calm_def buffer_size_simps\<close>)
  ultimately show ?case by (meson completes_step)
next
  case (more r c r' cs)
  obtain chunk s where n: "new_chunk io (currentChunk (shared p)) c ((shared p) \<lparr> reader := Some r' \<rparr>) = (chunk, s)"
    by (cases "new_chunk io (currentChunk (shared p)) c ((shared p) \<lparr> reader := Some r' \<rparr>)")
  let ?q = "p \<lparr> shared := s, reader_at := Sending chunk None \<rparr>"
  have st: "pipe_step io receiving p ?q"
    by (rule reader_data [where r = r and r' = r' and data = c]) (use more n in \<open>auto simp: calm_def\<close>)
  have "calm io n ?q" using more.prems(1) new_chunk_facts(1,2) [OF n] buffer_size_cong [of s "shared p"] by (auto simp: calm_def)
  from chunk_goes_through [OF this, of chunk None receiving] obtain q where q: "pipe_run io receiving ?q q" "calm io n q"
    "reader_at q = AfterRead None" "reader (shared q) = Some r'" using new_chunk_facts(3) [OF n] by auto
  have "pipe_step io receiving q (q \<lparr> reader_at := Top \<rparr>)" using q(3) by (rule reader_again)
  moreover have "completes io receiving (q \<lparr> reader_at := Top \<rparr>)"
    by (rule more.IH) (use q in \<open>auto simp: calm_def\<close>)
  ultimately show ?case using completes_step completes_run [OF q(1)] st by blast
next
  case (last r c r')
  obtain chunk s where n: "new_chunk io (currentChunk (shared p)) c ((shared p) \<lparr> reader := Some r' \<rparr>) = (chunk, s)"
    by (cases "new_chunk io (currentChunk (shared p)) c ((shared p) \<lparr> reader := Some r' \<rparr>)")
  let ?q = "p \<lparr> shared := s, reader_at := Sending chunk (Some EOF) \<rparr>"
  have st: "pipe_step io receiving p ?q"
    by (rule reader_data [where r = r and r' = r' and data = c]) (use last n in \<open>auto simp: calm_def\<close>)
  have "calm io n ?q" using last.prems(1) new_chunk_facts(1,2) [OF n] buffer_size_cong [of s "shared p"] by (auto simp: calm_def)
  from chunk_goes_through [OF this, of chunk "Some EOF" receiving] obtain q where q: "pipe_run io receiving ?q q" "calm io n q"
    "reader_at q = AfterRead (Some EOF)" by auto
  then show ?case using completes_step [OF st completes_run [OF q(1) ending_completes [OF q(2,3)]]] by blast
qed

lemma reader_completes:
  assumes "calm io n p" and "reader_inv io s cs p" and "n = buffer_size s" and "reader_at p \<noteq> Stopped"
  shows "completes io receiving p"
proof -
  from assms(2) obtain r where r: "reader (shared p) = Some r" "reader_ok io s cs r (reader_at p) (map Data (sent p))"
    by (auto simp: reader_inv_def)
  have after: "completes io receiving q" if "calm io n q" "reader_at q = AfterRead err" "reader (shared q) = Some r"
    and "after_read io n r err rest" for q err rest
  proof (cases err)
    case None
    have "pipe_step io receiving q (q \<lparr> reader_at := Top \<rparr>)" by (rule reader_again) (use that None in simp)
    moreover have "completes io receiving (q \<lparr> reader_at := Top \<rparr>)"
      by (rule reading_completes [of io n r rest]) (use that None in \<open>auto simp: after_read_def calm_def\<close>)
    ultimately show ?thesis by (rule completes_step)
  next
    case (Some e)
    then have "e = EOF" using that(4) by (auto simp: after_read_def split: read_error.splits)
    with ending_completes that(1,2) Some show ?thesis by blast
  qed
  show ?thesis
  proof (cases "reader_at p")
    case Top
    with r assms(3) reading_completes [OF _ assms(1)] show ?thesis by (auto simp: reader_ok_def)
  next
    case (Sending c err)
    from chunk_goes_through [OF assms(1) Sending, of receiving] obtain q where q: "pipe_run io receiving p q" "calm io n q"
      "reader_at q = AfterRead err" "reader (shared q) = reader (shared p)" by blast
    with r assms(3) Sending after completes_run [OF q(1)] show ?thesis by (auto simp: reader_ok_def)
  next
    case (AfterRead err)
    with r assms(1,3) after show ?thesis by (auto simp: reader_ok_def)
  next
    case Stopped
    with assms(4) show ?thesis by simp
  qed
qed

text \<open>The part of the invariant that does not depend on the writer.\<close>

lemma run_progress:
  assumes "pipe_run io receiving p q" and "ctx_state q = None"
    and "same_settings s0 p" and "reader_inv io s0 cs p" and "quiet p" and "workers_at p \<noteq> []"
  shows "same_settings s0 q \<and> reader_inv io s0 cs q \<and> quiet q \<and> workers_at q \<noteq> []"
  using assms
proof (induction rule: pipe_run.induct)
  case (run_step p q q')
  note st = run_step.hyps(2)
  have "ctx_state q = None" using step_ctx [OF st] run_step.prems(1) .
  with run_step have "same_settings s0 q" "reader_inv io s0 cs q" "quiet q" "workers_at q \<noteq> []" by auto
  then show ?case
    using step_settings [OF st, of s0] step_reader [OF st, of s0 cs] step_quiet [OF st, of s0 cs] step_workers [OF st] run_step.prems(1)
    by auto
qed simp

lemma runs_complete:
  assumes "pipe_run io receiving (pipe_start io s) p" and "ctx_state p = None"
    and "reader s = Some r" and "delivers io (buffer_size s) r cs" and "0 < MaxConcurrentChunks (config s)"
  shows "\<exists>q. pipe_run io receiving p q \<and> pipe_finished q \<and> ctx_state q = None"
proof -
  have "reader (set_start io s) = Some r" "bufferPool (set_start io s) = bufferPool s" using assms(3) by (simp_all add: set_start_def)
  then have "same_settings s (pipe_start io s)" "reader_inv io s cs (pipe_start io s)" "quiet (pipe_start io s)"
    "workers_at (pipe_start io s) \<noteq> []"
    using assms(4,5) by (auto simp: pipe_start_def same_settings_def reader_inv_def reader_ok_def quiet_def)
  note i = run_progress [OF assms(1,2) this]
  have size: "buffer_size (shared p) = buffer_size s" "0 < MaxConcurrentChunks (config (shared p))"
    using i assms(5) buffer_size_settings [of s p] by (auto simp: same_settings_def)
  show ?thesis unfolding completes_def [symmetric]
  proof (cases "Exited \<in> set (workers_at p)")
    case True
    then have c: "chan_closed p" "chunkChan p = []" using i by (auto simp: quiet_def)
    from workers_finish [of io receiving p] obtain q where q: "pipe_run io receiving p q" "settled p q"
      "chunkChan q = chunkChan p" "\<forall>w \<in> set (workers_at q). w = Idle \<or> w = Exited" by blast
    have "completes io receiving q" by (rule workers_exit) (use q c assms(2) in \<open>auto simp: settled_def\<close>)
    with q(1) show "completes io receiving p" by (rule completes_run)
  next
    case False
    have "workers_at p \<noteq> []" using i by simp
    from calm_settles [OF assms(2) False this size, of io receiving] obtain q where q: "pipe_run io receiving p q"
      "settled p q" "calm io (buffer_size s) q" by blast
    have "ctx_state q = None" using q(3) by (simp add: calm_def)
    note j = run_progress [OF q(1) this, of s cs]
    have "completes io receiving q"
    proof (cases "reader_at q = Stopped")
      case True
      then have "chan_closed q" using j i by (auto simp: quiet_def)
      then show ?thesis by (rule workers_exit) (use q(3) in \<open>auto simp: calm_def\<close>)
    next
      case False
      with reader_completes [OF q(3) _ refl] j i show ?thesis by blast
    qed
    with q(1) show "completes io receiving p" by (rule completes_run)
  qed
qed

text \<open>A cancelled run: the reader leaves at its next step, and so do the workers.\<close>

lemma reader_leaves:
  assumes "ctx_state p = Some e" and "reader_at p \<noteq> Stopped"
  shows "\<exists>q. pipe_run io receiving p q \<and> ctx_state q = Some e \<and> reader_at q = Stopped \<and> chan_closed q"
proof -
  have now: "\<exists>q. pipe_run io receiving p q \<and> ctx_state q = Some e \<and> reader_at q = Stopped \<and> chan_closed q"
    if "pipe_step io receiving p (stop_reader q)" "ctx_state q = Some e" for p q
    using that run_step [OF run_refl that(1)] by (intro exI [of _ "stop_reader q"]) (simp add: stop_reader_def)
  show ?thesis
  proof (cases "reader_at p")
    case Top
    from now [OF reader_ctx [OF Top assms(1)]] assms(1) show ?thesis by simp
  next
    case (Sending c err)
    from now [OF reader_gives_up [OF Sending assms(1)] assms(1)] show ?thesis .
  next
    case (AfterRead err)
    show ?thesis
    proof (cases err)
      case None
      let ?q = "p \<lparr> reader_at := Top \<rparr>"
      have "pipe_step io receiving p ?q" using AfterRead None by (simp add: reader_again)
      moreover have "pipe_step io receiving ?q (stop_reader (offer_err (CtxErr e) ?q))"
        by (rule reader_ctx) (use assms in simp_all)
      from now [OF this] obtain q where "pipe_run io receiving ?q q" "ctx_state q = Some e" "reader_at q = Stopped" "chan_closed q"
        using assms by auto
      ultimately show ?thesis using run_trans run_step [OF run_refl] by blast
    next
      case (Some x)
      show ?thesis
      proof (cases x)
        case EOF
        from now [OF reader_eof assms(1)] AfterRead Some EOF show ?thesis by simp
      next
        case (ReadError err')
        from now [OF reader_error [of p err']] AfterRead Some ReadError assms(1) show ?thesis by simp
      qed
    qed
  qed (use assms in simp)
qed

lemma workers_quit:
  assumes "ctx_state p = Some e" and "reader_at p = Stopped" and "chan_closed p" and "\<forall>w \<in> set (workers_at p). w = Idle \<or> w = Exited"
  shows "\<exists>q. pipe_run io receiving p q \<and> pipe_finished q \<and> ctx_state q = Some e \<and> reader_at q = Stopped"
  using assms
proof (induction "chunkChan p" arbitrary: p)
  case Nil
  from workers_leave [OF Nil(4) Nil(1) [symmetric] Nil(5), of io receiving] obtain q where q: "pipe_run io receiving p q"
    "pipe_finished q" "ctx_state q = Some e" using Nil(2) by auto
  with run_stopped [OF q(1) Nil(3)] show ?case by blast
next
  case (Cons c cs)
  show ?case
  proof (cases "pipe_finished p")
    case True
    with Cons.prems show ?thesis by (auto intro: run_refl)
  next
    case False
    then have "Idle \<in> set (workers_at p)" using Cons.prems(4) by (auto simp: pipe_finished_def list_all_iff)
    then obtain i where i: "i < length (workers_at p)" "workers_at p ! i = Idle" by (auto simp: in_set_conv_nth)
    let ?q = "p \<lparr> chunkChan := cs, workers_at := (workers_at p) [i := Exited], dropped := dropped p @ [c] \<rparr>"
    have st: "pipe_step io receiving p ?q" using i Cons.hyps(2) [symmetric] Cons.prems(1) by (rule worker_leaves)
    have "\<forall>w \<in> set (workers_at ?q). w = Idle \<or> w = Exited" using Cons.prems(4) by (auto dest: in_update)
    with Cons.hyps(1) [of ?q] Cons.prems(1-3) obtain q where "pipe_run io receiving ?q q" "pipe_finished q" "ctx_state q = Some e"
      "reader_at q = Stopped" by auto
    then show ?thesis using run_trans run_step [OF run_refl st] by blast
  qed
qed

lemma cancelled_completes:
  assumes "pipe_run io receiving (pipe_start io s) p" and "ctx_state p = Some e"
  shows "\<exists>q. pipe_run io receiving p q \<and> pipe_finished q \<and> ctx_state q = Some e \<and> reader_at q = Stopped"
proof -
  obtain p1 where p1: "pipe_run io receiving p p1" "ctx_state p1 = Some e" "reader_at p1 = Stopped" "chan_closed p1"
  proof (cases "reader_at p = Stopped")
    case True
    with run_closed [OF assms(1)] assms(2) that [OF run_refl] show ?thesis by (simp add: pipe_start_def)
  next
    case False
    with reader_leaves [OF assms(2)] that show ?thesis by blast
  qed
  from workers_finish [of io receiving p1] obtain p2 where p2: "pipe_run io receiving p1 p2" "settled p1 p2"
    "\<forall>w \<in> set (workers_at p2). w = Idle \<or> w = Exited" by blast
  with p1 workers_quit [of p2 e io receiving] obtain q where "pipe_run io receiving p2 q" "pipe_finished q" "ctx_state q = Some e"
    "reader_at q = Stopped" by (auto simp: settled_def)
  with run_trans [OF _ run_trans [OF p2(1) p1(1)]] show ?thesis by blast
qed

section \<open>Particular schedules\<close>

lemma reads_and_sends:
  assumes "reader_at p = Top" and "ctx_state p = None" and "reader (shared p) = Some r"
    and "Read io r (buffer_size (shared p)) = (d, None, r')" and "d \<noteq> []"
    and "length (chunkChan p) < nat (MaxConcurrentChunks (config (shared p)))"
  shows "\<exists>q c. pipe_run io receiving p q \<and> reader_at q = Top \<and> ctx_state q = None \<and> errChan q = errChan p \<and>
    workers_at q = workers_at p \<and> chunkChan q = chunkChan p @ [c] \<and> Data c = d \<and> chunk_ok (config (shared p)) c \<and>
    config (shared q) = config (shared p) \<and> buffer_size (shared q) = buffer_size (shared p) \<and>
    writer (shared q) = writer (shared p) \<and> reader (shared q) = Some r'"
proof -
  obtain c s where n: "new_chunk io (currentChunk (shared p)) d ((shared p) \<lparr> reader := Some r' \<rparr>) = (c, s)"
    by (cases "new_chunk io (currentChunk (shared p)) d ((shared p) \<lparr> reader := Some r' \<rparr>)")
  note f = new_chunk_facts [OF n]
  let ?p1 = "p \<lparr> shared := s, reader_at := Sending c None \<rparr>"
  let ?p2 = "?p1 \<lparr> chunkChan := chunkChan ?p1 @ [c],
    shared := (shared ?p1) \<lparr> currentChunk := wrap64 (currentChunk (shared ?p1) + 1) \<rparr>,
    reader_at := AfterRead None, sent := sent ?p1 @ [c] \<rparr>"
  have "pipe_step io receiving p ?p1" using assms(1-5) n by (rule reader_data)
  moreover have "pipe_step io receiving ?p1 ?p2" by (rule reader_send) (use assms(6) f(1) in simp_all)
  moreover have "pipe_step io receiving ?p2 (?p2 \<lparr> reader_at := Top \<rparr>)" by (rule reader_again) simp
  ultimately have "pipe_run io receiving p (?p2 \<lparr> reader_at := Top \<rparr>)" by (meson run_refl run_step)
  moreover have "writer s = writer (shared p)" using f(4) by (simp add: tally_def)
  moreover have "buffer_size s = buffer_size (shared p)" by (rule buffer_size_cong) (simp_all add: f)
  ultimately show ?thesis
    using f assms(2) by (intro exI [of _ "?p2 \<lparr> reader_at := Top \<rparr>"] exI [of _ c]) (auto simp: buffer_size_simps)
qed

lemma reads_end:
  assumes "reader_at p = Top" and "ctx_state p = None" and "reader (shared p) = Some r"
    and "Read io r (buffer_size (shared p)) = ([], Some EOF, r')"
  shows "\<exists>q. pipe_run io receiving p q \<and> chan_closed q \<and> ctx_state q = None \<and> errChan q = errChan p \<and>
    workers_at q = workers_at p \<and> chunkChan q = chunkChan p \<and>
    config (shared q) = config (shared p) \<and> writer (shared q) = writer (shared p)"
proof -
  let ?q = "p \<lparr> shared := (shared p) \<lparr> reader := Some r' \<rparr>, reader_at := AfterRead (Some EOF) \<rparr>"
  have "pipe_step io receiving p ?q" using assms by (rule reader_idle)
  moreover have "pipe_step io receiving ?q (stop_reader ?q)" by (rule reader_eof) simp
  ultimately have "pipe_run io receiving p (stop_reader ?q)" by (meson run_refl run_step)
  with assms(2) show ?thesis by (intro exI [of _ "stop_reader ?q"]) (simp add: stop_reader_def)
qed

lemma process_writes:
  assumes "pipe_code io receiving (config s) (Data c) = Inr e" and "chunk_ok (config s) c"
    and "writer s = Some w" and "appends io sink"
  shows "\<exists>w'. writer (process io receiving c s) = Some w' \<and> sink w' = sink w @ e"
proof -
  obtain w' where "Write io w e = (None, w')" "sink w' = sink w @ e" using assms(4) by (auto simp: appends_def)
  with process_clean [OF assms(1-3)] show ?thesis by (auto simp: tally_def)
qed

text \<open>Two workers take the two chunks of the channel, and the second one is the first to write.\<close>

lemma second_writes_first:
  assumes "workers_at p = Idle # Idle # ws" and "chunkChan p = [c, d]" and "ctx_state p = None" and "errChan p = None"
    and "chan_closed p" and "\<forall>x \<in> set ws. x = Idle" and "writer (shared p) = Some w" and "appends io sink"
    and "chunk_ok (config (shared p)) c" and "chunk_ok (config (shared p)) d"
    and "pipe_code io receiving (config (shared p)) (Data c) = Inr c'" and "pipe_code io receiving (config (shared p)) (Data d) = Inr d'"
  shows "\<exists>q w'. pipe_run io receiving p q \<and> pipe_finished q \<and> ctx_state q = None \<and> errChan q = None \<and>
    writer (shared q) = Some w' \<and> sink w' = sink w @ d' @ c'"
proof -
  let ?p1 = "p \<lparr> chunkChan := [d], workers_at := (workers_at p) [0 := Taken c] \<rparr>"
  let ?p2 = "?p1 \<lparr> chunkChan := [], workers_at := (workers_at ?p1) [1 := Taken d] \<rparr>"
  let ?p3 = "?p2 \<lparr> shared := process io receiving d (shared ?p2), workers_at := (workers_at ?p2) [1 := Idle],
      processed := processed ?p2 @ [d] \<rparr>"
  let ?p4 = "?p3 \<lparr> shared := process io receiving c (shared ?p3), workers_at := (workers_at ?p3) [0 := Idle],
      processed := processed ?p3 @ [c] \<rparr>"
  have "pipe_step io receiving p ?p1" by (rule worker_take) (use assms in simp_all)
  moreover have "pipe_step io receiving ?p1 ?p2" by (rule worker_take) (use assms in simp_all)
  moreover have "pipe_step io receiving ?p2 ?p3" by (rule worker_process) (use assms in simp_all)
  moreover have "pipe_step io receiving ?p3 ?p4" by (rule worker_process) (use assms in simp_all)
  ultimately have r: "pipe_run io receiving p ?p4" by (meson run_refl run_step)
  have "chan_closed ?p4" "chunkChan ?p4 = []" "\<forall>x \<in> set (workers_at ?p4). x = Idle \<or> x = Exited" using assms by auto
  from workers_leave [OF this, of io receiving] obtain q where q: "pipe_run io receiving ?p4 q" "pipe_finished q"
    "ctx_state q = None" "errChan q = None" "shared q = process io receiving c (process io receiving d (shared p))"
    using assms(3,4) by auto
  from process_writes [OF assms(12,10,7,8)] obtain v where v: "writer (process io receiving d (shared p)) = Some v" "sink v = sink w @ d'"
    by blast
  from process_writes [of io receiving "process io receiving d (shared p)" c c' v sink] assms(8,9,11) v
  obtain w' where "writer (shared q) = Some w'" "sink w' = sink v @ c'" using q(5) by auto
  with q run_trans [OF q(1) r] v(2) show ?thesis by auto
qed

lemma two_workers_schedule:
  assumes "2 \<le> MaxConcurrentChunks (config s)" and "reader s = Some r" and "writer s = Some w" and "appends io sink"
    and "Read io r (buffer_size s) = (c, None, r1)" and "c \<noteq> []"
    and "Read io r1 (buffer_size s) = (d, None, r2)" and "d \<noteq> []"
    and "Read io r2 (buffer_size s) = ([], Some EOF, r3)"
    and "pipe_code io receiving (config s) c = Inr c'" and "pipe_code io receiving (config s) d = Inr d'"
  shows "\<exists>q w'. pipe_run io receiving (pipe_start io s) q \<and> pipe_finished q \<and> ctx_state q = None \<and> errChan q = None \<and>
    writer (shared q) = Some w' \<and> sink w' = sink w @ d' @ c'"
proof -
  let ?p = "pipe_start io s"
  have b: "buffer_size (shared ?p) = buffer_size s" by (rule buffer_size_cong) (simp_all add: pipe_start_def set_start_def)
  obtain k where k: "nat (MaxConcurrentChunks (config s)) = Suc (Suc k)"
    using assms(1) by (metis One_nat_def Suc_1 Suc_le_D add_2_eq_Suc' le_Suc_ex nat_2 nat_le_iff nat_mono plus_nat.simps(2))
  have p: "workers_at ?p = Idle # Idle # replicate k Idle" "reader_at ?p = Top" "ctx_state ?p = None" "errChan ?p = None"
    "chunkChan ?p = []" "reader (shared ?p) = Some r" "writer (shared ?p) = Some w" "config (shared ?p) = config s"
    using assms(2,3) k by (simp_all add: pipe_start_def set_start_def)
  from reads_and_sends [OF p(2,3,6) assms(5) [folded b] assms(6), of receiving] obtain p1 x where p1:
    "pipe_run io receiving ?p p1" "reader_at p1 = Top" "ctx_state p1 = None" "errChan p1 = None"
    "workers_at p1 = workers_at ?p" "chunkChan p1 = [x]" "Data x = c" "chunk_ok (config s) x"
    "config (shared p1) = config s" "buffer_size (shared p1) = buffer_size s" "writer (shared p1) = Some w" "reader (shared p1) = Some r1"
    using p b k by auto
  from reads_and_sends [OF p1(2,3,12) assms(7) [folded p1(10)] assms(8), of receiving] obtain p2 y where p2:
    "pipe_run io receiving p1 p2" "reader_at p2 = Top" "ctx_state p2 = None" "errChan p2 = None"
    "workers_at p2 = workers_at ?p" "chunkChan p2 = [x, y]" "Data y = d" "chunk_ok (config s) y"
    "config (shared p2) = config s" "buffer_size (shared p2) = buffer_size s" "writer (shared p2) = Some w" "reader (shared p2) = Some r2"
    using p1 k by auto
  from reads_end [OF p2(2,3,12) assms(9) [folded p2(10)], of receiving] obtain p3 where p3:
    "pipe_run io receiving p2 p3" "chan_closed p3" "ctx_state p3 = None" "errChan p3 = None" "workers_at p3 = workers_at ?p"
    "chunkChan p3 = [x, y]" "config (shared p3) = config s" "writer (shared p3) = Some w"
    using p2 by auto
  have "\<exists>q w'. pipe_run io receiving p3 q \<and> pipe_finished q \<and> ctx_state q = None \<and> errChan q = None \<and>
      writer (shared q) = Some w' \<and> sink w' = sink w @ d' @ c'"
    by (rule second_writes_first [OF _ p3(6,3,4,2) _ p3(8) assms(4)]) (use p p1 p2 p3 assms(10,11) in auto)
  with run_trans [OF _ run_trans [OF p3(1) run_trans [OF p2(1) p1(1)]]] show ?thesis by blast
qed

lemma cancelled_schedule:
  "\<exists>q. pipe_run io receiving (pipe_start io s) q \<and> pipe_finished q \<and> shared q = set_start io s \<and> errChan q = Some (CtxErr Canceled)"
proof -
  let ?p = "(pipe_start io s) \<lparr> ctx_state := Some Canceled \<rparr>"
  have "pipe_step io receiving (pipe_start io s) ?p" by (rule ctx_done) (simp add: pipe_start_def)
  moreover have "pipe_step io receiving ?p (stop_reader (offer_err (CtxErr Canceled) ?p))"
    by (rule reader_ctx) (simp_all add: pipe_start_def)
  ultimately have r: "pipe_run io receiving (pipe_start io s) (stop_reader (offer_err (CtxErr Canceled) ?p))"
    by (meson run_refl run_step)
  have "\<exists>q. pipe_run io receiving (stop_reader (offer_err (CtxErr Canceled) ?p)) q \<and> pipe_finished q \<and>
      ctx_state q = ctx_state (stop_reader (offer_err (CtxErr Canceled) ?p)) \<and>
      shared q = shared (stop_reader (offer_err (CtxErr Canceled) ?p)) \<and>
      errChan q = errChan (stop_reader (offer_err (CtxErr Canceled) ?p))"
    by (rule workers_leave) (auto simp: stop_reader_def pipe_start_def offer_err_def)
  then obtain q where "pipe_run io receiving (stop_reader (offer_err (CtxErr Canceled) ?p)) q" "pipe_finished q"
    "shared q = set_start io s" "errChan q = Some (CtxErr Canceled)"
    by (auto simp: stop_reader_def offer_err_def pipe_start_def)
  with run_trans [OF _ r] show ?thesis by blast
qed

text \<open>The transfer of two chunks by a given number of workers.\<close>

definition two_chunks :: "int \<Rightarrow> (bytes list, bytes) StreamingWrapper" where
  "two_chunks n = stream_of StrategyBuffered CompressNone [''ab'', ''cd'']
     \<lparr> config := NewStreamConfig \<lparr> MaxConcurrentChunks := n \<rparr> \<rparr>"

lemma two_chunks_simps [simp]:
  "config (two_chunks n) = NewStreamConfig \<lparr> MaxConcurrentChunks := n \<rparr>" "writer (two_chunks n) = Some []"
  "reader (two_chunks n) = Some [''ab'', ''cd'']" "errors (two_chunks n) = []"
  "TransferredBytes (progress (two_chunks n)) = 0"
  by (simp_all add: two_chunks_def)

lemma two_chunks_delivers: "delivers list_io (buffer_size (two_chunks n)) [''ab'', ''cd''] [''ab'', ''cd'']"
  by (rule list_delivers) simp

section \<open>Properties\<close>

text \<open>C21: when a buffered strategy with at least one worker ends without a cancellation and nothing fails, it
  returns nil, and the writer has got every chunk of the reader exactly once, coded one by one, in some
  order, and with one worker in the order of the reader.  This holds for the runs in which a worker's work
  on a chunk (code, write, count) is not interrupted by that of another one; the code takes no lock for it.\<close>

theorem buffered_delivers:
  assumes "pipe_run io receiving (pipe_start io s) p" and "pipe_finished p" and "ctx_state p = None"
    and "reader s = Some r" and "delivers io (buffer_size s) r cs" and "0 < MaxConcurrentChunks (config s)"
    and "writer s = Some w" and "appends io sink" and "in_int64 (TransferredBytes (progress s))"
    and "\<forall>d \<in> set cs. pipe_code io receiving (config s) d = Inr (enc d)"
  shows "\<exists>s' w' order. pipe_return io p = (None, s') \<and> mset order = mset cs \<and>
    (MaxConcurrentChunks (config s) = 1 \<longrightarrow> order = cs) \<and> writer s' = Some w' \<and>
    sink w' = sink w @ concat (map enc order) \<and> errors s' = errors s \<and> FailedChunks (stats s') = FailedChunks (stats s) \<and>
    TransferredBytes (progress s') = wrap64 (TransferredBytes (progress s) + int (length (concat cs)))"
proof -
  have "pipe_inv io sink enc w s cs p"
    using pipe_run_inv [OF assms(1) pipe_start_inv [OF assms(4,5,7,9)] assms(8,10)] .
  note f = finished_inv [OF this assms(2,3,6)]
  from f(4) obtain w' where w': "writer (shared p) = Some w'"
    "sink w' = sink w @ concat (map (\<lambda>c. enc (Data c)) (processed p))"
    "errors (shared p) = errors s" "FailedChunks (stats (shared p)) = FailedChunks (stats s)"
    "TransferredBytes (progress (shared p)) =
      wrap64 (TransferredBytes (progress s) + int (length (concat (map Data (processed p)))))"
    by (auto simp: output_inv_def)
  have "pipe_return io p = (None, set_end io (shared p))" using f(3) by (simp add: pipe_return_def)
  moreover have "map (\<lambda>c. enc (Data c)) (processed p) = map enc (map Data (processed p))" by simp
  ultimately show ?thesis
    using w' f(1,2) mset_concat_length [OF f(1)]
    by (intro exI [of _ "set_end io (shared p)"] exI [of _ w'] exI [of _ "map Data (processed p)"])
      (auto simp: set_end_def comp_def)
qed

theorem buffered_delivers_witness:
  "\<exists>p s'. pipe_run list_io False (pipe_start list_io (two_chunks 1)) p \<and> pipe_finished p \<and>
    pipe_return list_io p = (None, s') \<and> writer s' = Some ''abcd''"
proof -
  have "ctx_state (pipe_start list_io (two_chunks 1)) = None" by (simp add: pipe_start_def)
  from runs_complete [OF run_refl this _ two_chunks_delivers] obtain p where p:
    "pipe_run list_io False (pipe_start list_io (two_chunks 1)) p" "pipe_finished p" "ctx_state p = None" by auto
  from buffered_delivers [OF p _ two_chunks_delivers _ _ list_appends, of "[]" id] p(1,2) show ?thesis
    by (auto simp: pipe_code_def list_codes NewStreamConfig_def stream_names in_int64_def)
qed



text \<open>two workers can change the order: a buffered strategy may end without an error, cancellation
  or failed chunk, and return nil, with the second chunk of the reader written before the first.\<close>

theorem buffered_reorders:
  assumes "2 \<le> MaxConcurrentChunks (config s)" and "reader s = Some r" and "writer s = Some w" and "appends io sink"
    and "Read io r (buffer_size s) = (c, None, r1)" and "c \<noteq> []"
    and "Read io r1 (buffer_size s) = (d, None, r2)" and "d \<noteq> []"
    and "Read io r2 (buffer_size s) = ([], Some EOF, r3)"
    and "pipe_code io receiving (config s) c = Inr c'" and "pipe_code io receiving (config s) d = Inr d'"
  shows "\<exists>p s' w'. pipe_run io receiving (pipe_start io s) p \<and> pipe_finished p \<and> ctx_state p = None \<and>
    pipe_return io p = (None, s') \<and> writer s' = Some w' \<and> sink w' = sink w @ d' @ c'"
proof -
  from two_workers_schedule [OF assms] obtain p w' where "pipe_run io receiving (pipe_start io s) p" "pipe_finished p"
    "ctx_state p = None" "errChan p = None" "writer (shared p) = Some w'" "sink w' = sink w @ d' @ c'" by blast
  then show ?thesis by (intro exI [of _ p] exI [of _ "set_end io (shared p)"] exI [of _ w']) (simp add: pipe_return_def set_end_def)
qed

theorem buffered_reorders_witness:
  "\<exists>p s'. pipe_run list_io False (pipe_start list_io (two_chunks 2)) p \<and> pipe_finished p \<and>
    pipe_return list_io p = (None, s') \<and> writer s' = Some ''cdab''"
proof -
  have r: "Read list_io [''ab'', ''cd''] n = (''ab'', None, [''cd''])" "Read list_io [''cd''] n = (''cd'', None, [])"
    "Read list_io [] n = ([], Some EOF, [])" for n by (simp_all add: list_io_def)
  from buffered_reorders [OF _ _ _ list_appends r(1) _ r(2) _ r(3), of "two_chunks 2" "[]" False "''ab''" "''cd''"]
  show ?thesis by (auto simp: pipe_code_def list_codes NewStreamConfig_def stream_names)
qed

text \<open>a cancellation is reported as a success: a buffered strategy whose context is cancelled
  before the first read may read and write nothing and return nil, as after a whole transfer.\<close>

theorem buffered_cancel_succeeds:
  "\<exists>p s'. pipe_run io receiving (pipe_start io s) p \<and> pipe_finished p \<and> pipe_return io p = (None, s') \<and>
    reader s' = reader s \<and> writer s' = writer s"
proof -
  from cancelled_schedule [of io receiving s] obtain p where "pipe_run io receiving (pipe_start io s) p" "pipe_finished p"
    "shared p = set_start io s" "errChan p = Some (CtxErr Canceled)" by blast
  then show ?thesis by (intro exI [of _ p] exI [of _ "set_end io (shared p)"]) (simp add: pipe_return_def set_end_def set_start_def)
qed

end
