(* ===== verification/GoUtf8.thy ===== *)
theory GoUtf8
  imports GoPrelude
begin

text \<open>
  What the libraries use of Go's \<open>unicode/utf8\<close>: decoding the first and the last rune of a byte
  string and encoding a rune.  A rune is a code point, as a natural number.
\<close>

section \<open>Encoding\<close>

definition RuneError :: nat where
  "RuneError = 0xFFFD"

definition is_surrogate :: "nat \<Rightarrow> bool" where
  "is_surrogate r \<longleftrightarrow> 0xD800 \<le> r \<and> r < 0xE000"

definition valid_rune :: "nat \<Rightarrow> bool" where
  "valid_rune r \<longleftrightarrow> r \<le> 0x10FFFF \<and> \<not> is_surrogate r"

abbreviation byte_of :: "nat \<Rightarrow> byte" where
  "byte_of n \<equiv> char_of n"

text \<open>\<open>utf8.EncodeRune\<close>; a code point that is not one is encoded as the replacement character.\<close>

definition encode_rune :: "nat \<Rightarrow> gostring" where
  "encode_rune r0 =
    (let r = (if valid_rune r0 then r0 else RuneError)
     in if r < 0x80 then [byte_of r]
        else if r < 0x800 then [byte_of (0xC0 + r div 0x40), byte_of (0x80 + r mod 0x40)]
        else if r < 0x10000 then
          [byte_of (0xE0 + r div 0x1000), byte_of (0x80 + r div 0x40 mod 0x40), byte_of (0x80 + r mod 0x40)]
        else [byte_of (0xF0 + r div 0x40000), byte_of (0x80 + r div 0x1000 mod 0x40),
          byte_of (0x80 + r div 0x40 mod 0x40), byte_of (0x80 + r mod 0x40)])"

section \<open>Decoding\<close>

definition in_range :: "nat \<Rightarrow> nat \<Rightarrow> byte \<Rightarrow> bool" where
  "in_range lo hi c \<longleftrightarrow> lo \<le> byte_val c \<and> byte_val c \<le> hi"

abbreviation cont :: "byte \<Rightarrow> bool" where
  "cont \<equiv> in_range 0x80 0xBF"

text \<open>The first rune and its size: a byte that does not start an encoding is an error of size 1, the
  empty string one of size 0.\<close>

definition decode2 :: "byte \<Rightarrow> gostring \<Rightarrow> nat \<times> nat" where
  "decode2 a s = (case s of
      b # _ \<Rightarrow> if cont b then ((byte_val a - 0xC0) * 0x40 + (byte_val b - 0x80), 2) else (RuneError, 1)
    | _ \<Rightarrow> (RuneError, 1))"

definition decode3 :: "nat \<Rightarrow> nat \<Rightarrow> byte \<Rightarrow> gostring \<Rightarrow> nat \<times> nat" where
  "decode3 lo hi a s = (case s of
      b # c # _ \<Rightarrow> if in_range lo hi b \<and> cont c
        then ((byte_val a - 0xE0) * 0x1000 + (byte_val b - 0x80) * 0x40 + (byte_val c - 0x80), 3) else (RuneError, 1)
    | _ \<Rightarrow> (RuneError, 1))"

definition decode4 :: "nat \<Rightarrow> nat \<Rightarrow> byte \<Rightarrow> gostring \<Rightarrow> nat \<times> nat" where
  "decode4 lo hi a s = (case s of
      b # c # d # _ \<Rightarrow> if in_range lo hi b \<and> cont c \<and> cont d
        then ((byte_val a - 0xF0) * 0x40000 + (byte_val b - 0x80) * 0x1000 + (byte_val c - 0x80) * 0x40 +
          (byte_val d - 0x80), 4) else (RuneError, 1)
    | _ \<Rightarrow> (RuneError, 1))"

definition decode_rune :: "gostring \<Rightarrow> nat \<times> nat" where
  "decode_rune s = (case s of
      [] \<Rightarrow> (RuneError, 0)
    | a # t \<Rightarrow>
        if byte_val a < 0x80 then (byte_val a, 1)
        else if in_range 0xC2 0xDF a then decode2 a t
        else if byte_val a = 0xE0 then decode3 0xA0 0xBF a t
        else if byte_val a = 0xED then decode3 0x80 0x9F a t
        else if in_range 0xE1 0xEF a then decode3 0x80 0xBF a t
        else if byte_val a = 0xF0 then decode4 0x90 0xBF a t
        else if byte_val a = 0xF4 then decode4 0x80 0x8F a t
        else if in_range 0xF1 0xF3 a then decode4 0x80 0xBF a t
        else (RuneError, 1))"

text \<open>\<open>utf8.DecodeLastRuneInString\<close> looks for the start of a rune in the last four bytes.\<close>

definition rune_start :: "byte \<Rightarrow> bool" where
  "rune_start c \<longleftrightarrow> \<not> cont c"

definition last_start :: "gostring \<Rightarrow> nat" where
  "last_start s = (case filter (\<lambda>k. k < length s \<and> rune_start (s ! (length s - 1 - k))) [1, 2, 3] of
      k # _ \<Rightarrow> length s - 1 - k
    | [] \<Rightarrow> length s - 5)"

definition decode_last_rune :: "gostring \<Rightarrow> nat \<times> nat" where
  "decode_last_rune s =
    (if s = [] then (RuneError, 0)
     else if byte_val (last s) < 0x80 then (byte_val (last s), 1)
     else
       let start = last_start s;
           (r, size) = decode_rune (drop start s)
       in if start + size = length s then (r, size) else (RuneError, 1))"

section \<open>Facts\<close>

lemma decode_rune_size: "s \<noteq> [] \<Longrightarrow> decode_rune s = (r, n) \<Longrightarrow> 0 < n \<and> n \<le> length s"
  by (cases s) (auto simp: decode_rune_def decode2_def decode3_def decode4_def split: if_splits list.splits)

lemma decode_rune_ascii [simp]: "byte_val a < 0x80 \<Longrightarrow> decode_rune (a # t) = (byte_val a, 1)"
  by (simp add: decode_rune_def)

lemma decode_last_rune_ascii [simp]: "byte_val a < 0x80 \<Longrightarrow> decode_last_rune (s @ [a]) = (byte_val a, 1)"
  by (simp add: decode_last_rune_def)

text \<open>A decoded rune is valid and its encoding is what was read.\<close>

lemma byte_of_val [simp]: "byte_of (byte_val c) = c"
  by simp

lemma digit_split: "(w::nat) < m \<Longrightarrow> (q * m + w) div m = q" "(w::nat) < m \<Longrightarrow> (q * m + w) mod m = w"
  by simp_all

lemma digits3:
  assumes "y < 64" and "z < (64::nat)"
  shows "(x * 0x1000 + y * 0x40 + z) div 0x1000 = x" "(x * 0x1000 + y * 0x40 + z) div 0x40 mod 0x40 = y"
    "(x * 0x1000 + y * 0x40 + z) mod 0x40 = z"
proof -
  have r: "x * 0x1000 + y * 0x40 + z = (x * 64 + y) * 64 + z" by simp
  show "(x * 0x1000 + y * 0x40 + z) mod 0x40 = z" unfolding r using assms(2) by (rule digit_split)
  show "(x * 0x1000 + y * 0x40 + z) div 0x40 mod 0x40 = y"
    unfolding r digit_split(1) [OF assms(2)] using assms(1) by (rule digit_split)
  have "y * 0x40 + z < 0x1000" using assms by simp
  from digit_split(1) [OF this] show "(x * 0x1000 + y * 0x40 + z) div 0x1000 = x" by (simp add: add.assoc)
qed

lemma digits4:
  assumes "y < 64" and "z < 64" and "u < (64::nat)"
  shows "(x * 0x40000 + y * 0x1000 + z * 0x40 + u) div 0x40000 = x"
    "(x * 0x40000 + y * 0x1000 + z * 0x40 + u) div 0x1000 mod 0x40 = y"
    "(x * 0x40000 + y * 0x1000 + z * 0x40 + u) div 0x40 mod 0x40 = z"
    "(x * 0x40000 + y * 0x1000 + z * 0x40 + u) mod 0x40 = u"
proof -
  have r: "x * 0x40000 + y * 0x1000 + z * 0x40 + u = (x * 64 + y) * 0x1000 + z * 0x40 + u" by simp
  note d = digits3 [OF assms(2,3), of "x * 64 + y"]
  show "(x * 0x40000 + y * 0x1000 + z * 0x40 + u) div 0x1000 mod 0x40 = y"
    unfolding r d(1) using assms(1) by (rule digit_split)
  show "(x * 0x40000 + y * 0x1000 + z * 0x40 + u) div 0x40 mod 0x40 = z"
    "(x * 0x40000 + y * 0x1000 + z * 0x40 + u) mod 0x40 = u" unfolding r by (rule d)+
  have "y * 0x1000 + z * 0x40 + u < 0x40000" using assms by simp
  from digit_split(1) [OF this] show "(x * 0x40000 + y * 0x1000 + z * 0x40 + u) div 0x40000 = x" by (simp add: add.assoc)
qed

lemma byte_val_cont: "cont c \<Longrightarrow> \<exists>y < 64. byte_val c = 0x80 + y"
  by (rule exI [of _ "byte_val c - 0x80"]) (auto simp: in_range_def)

lemma encode2:
  assumes "in_range 0xC2 0xDF a" and "cont b"
  shows "valid_rune ((byte_val a - 0xC0) * 0x40 + (byte_val b - 0x80)) \<and>
    encode_rune ((byte_val a - 0xC0) * 0x40 + (byte_val b - 0x80)) = [a, b]"
proof -
  define x where "x = byte_val a - 0xC0"
  have x: "byte_val a = 0xC0 + x" "2 \<le> x" "x \<le> 31" using assms(1) by (auto simp: in_range_def x_def)
  obtain y where y: "byte_val b = 0x80 + y" "y < 64" using byte_val_cont [OF assms(2)] by blast
  have "x * 64 + y < 0x800" "0x80 \<le> x * 64 + y" using x y by simp_all
  moreover have "byte_of (0xC0 + x) = a" "byte_of (0x80 + y) = b" using x y byte_of_val by metis+
  ultimately show ?thesis using x y by (simp add: encode_rune_def valid_rune_def is_surrogate_def)
qed

lemma encode3:
  assumes "in_range 0xE0 0xEF a" and "cont b" and "cont c" and "byte_val a = 0xE0 \<Longrightarrow> 0xA0 \<le> byte_val b"
    and "byte_val a = 0xED \<Longrightarrow> byte_val b \<le> 0x9F"
  shows "valid_rune ((byte_val a - 0xE0) * 0x1000 + (byte_val b - 0x80) * 0x40 + (byte_val c - 0x80)) \<and>
    encode_rune ((byte_val a - 0xE0) * 0x1000 + (byte_val b - 0x80) * 0x40 + (byte_val c - 0x80)) = [a, b, c]"
proof -
  define x where "x = byte_val a - 0xE0"
  have x: "byte_val a = 0xE0 + x" "x \<le> 15" using assms(1) by (auto simp: in_range_def x_def)
  obtain y where y: "byte_val b = 0x80 + y" "y < 64" using byte_val_cont [OF assms(2)] by blast
  obtain z where z: "byte_val c = 0x80 + z" "z < 64" using byte_val_cont [OF assms(3)] by blast
  let ?r = "x * 0x1000 + y * 0x40 + z"
  have "0x800 \<le> ?r" using assms(4) x y z by (cases "x = 0") simp_all
  moreover have "?r < 0x10000" using x y z by simp
  moreover have "\<not> is_surrogate ?r"
  proof (cases "x = 13")
    case True
    then have "y < 32" using assms(5) x y by simp
    with True z show ?thesis by (simp add: is_surrogate_def)
  next
    case False
    then have "x \<le> 12 \<or> 14 \<le> x" by linarith
    with y z show ?thesis by (auto simp: is_surrogate_def)
  qed
  moreover have "?r div 0x1000 = x" "?r div 0x40 mod 0x40 = y" "?r mod 0x40 = z"
    using digits3 [OF y(2) z(2)] by simp_all
  moreover have "byte_of (0xE0 + x) = a" "byte_of (0x80 + y) = b" "byte_of (0x80 + z) = c" using x y z byte_of_val by metis+
  ultimately show ?thesis using x y z by (simp add: encode_rune_def valid_rune_def)
qed

lemma encode4:
  assumes "in_range 0xF0 0xF4 a" and "cont b" and "cont c" and "cont d" and "byte_val a = 0xF0 \<Longrightarrow> 0x90 \<le> byte_val b"
    and "byte_val a = 0xF4 \<Longrightarrow> byte_val b \<le> 0x8F"
  shows "valid_rune ((byte_val a - 0xF0) * 0x40000 + (byte_val b - 0x80) * 0x1000 + (byte_val c - 0x80) * 0x40 + (byte_val d - 0x80)) \<and>
    encode_rune ((byte_val a - 0xF0) * 0x40000 + (byte_val b - 0x80) * 0x1000 + (byte_val c - 0x80) * 0x40 + (byte_val d - 0x80)) =
      [a, b, c, d]"
proof -
  define x where "x = byte_val a - 0xF0"
  have x: "byte_val a = 0xF0 + x" "x \<le> 4" using assms(1) by (auto simp: in_range_def x_def)
  obtain y where y: "byte_val b = 0x80 + y" "y < 64" using byte_val_cont [OF assms(2)] by blast
  obtain z where z: "byte_val c = 0x80 + z" "z < 64" using byte_val_cont [OF assms(3)] by blast
  obtain u where u: "byte_val d = 0x80 + u" "u < 64" using byte_val_cont [OF assms(4)] by blast
  let ?r = "x * 0x40000 + y * 0x1000 + z * 0x40 + u"
  have low: "0x10000 \<le> ?r" using assms(5) x y z u by (cases "x = 0") simp_all
  have "?r \<le> 0x10FFFF" using assms(6) x y z u by (cases "x = 4") simp_all
  moreover have "\<not> is_surrogate ?r" using low by (simp add: is_surrogate_def)
  moreover have "?r div 0x40000 = x" "?r div 0x1000 mod 0x40 = y" "?r div 0x40 mod 0x40 = z" "?r mod 0x40 = u"
    using digits4 [OF y(2) z(2) u(2)] by simp_all
  moreover have "byte_of (0xF0 + x) = a" "byte_of (0x80 + y) = b" "byte_of (0x80 + z) = c" "byte_of (0x80 + u) = d"
    using x y z u byte_of_val by metis+
  ultimately show ?thesis using x y z u low by (simp add: encode_rune_def valid_rune_def)
qed

lemma encode_decode_rune:
  assumes "decode_rune s = (r, n)" and "\<not> (r = RuneError \<and> n \<le> 1)"
  shows "valid_rune r \<and> encode_rune r = take n s"
proof (cases s)
  case Nil
  with assms show ?thesis by (simp add: decode_rune_def)
next
  case (Cons a t)
  consider (one) "byte_val a < 0x80" "r = byte_val a" "n = 1"
    | (two) b u where "t = b # u" "in_range 0xC2 0xDF a" "cont b" "n = 2" "r = (byte_val a - 0xC0) * 0x40 + (byte_val b - 0x80)"
    | (three) b c u where "t = b # c # u" "in_range 0xE0 0xEF a" "cont b" "cont c" "n = 3"
      "byte_val a = 0xE0 \<Longrightarrow> 0xA0 \<le> byte_val b" "byte_val a = 0xED \<Longrightarrow> byte_val b \<le> 0x9F"
      "r = (byte_val a - 0xE0) * 0x1000 + (byte_val b - 0x80) * 0x40 + (byte_val c - 0x80)"
    | (four) b c d u where "t = b # c # d # u" "in_range 0xF0 0xF4 a" "cont b" "cont c" "cont d" "n = 4"
      "byte_val a = 0xF0 \<Longrightarrow> 0x90 \<le> byte_val b" "byte_val a = 0xF4 \<Longrightarrow> byte_val b \<le> 0x8F"
      "r = (byte_val a - 0xF0) * 0x40000 + (byte_val b - 0x80) * 0x1000 + (byte_val c - 0x80) * 0x40 + (byte_val d - 0x80)"
    using assms Cons
    by (auto simp: decode_rune_def decode2_def decode3_def decode4_def in_range_def split: if_splits list.splits)
  then show ?thesis
  proof cases
    case one
    with Cons show ?thesis by (simp add: valid_rune_def is_surrogate_def encode_rune_def)
  next
    case two
    with encode2 [of a b] Cons show ?thesis by simp
  next
    case three
    with encode3 [of a b c] Cons show ?thesis by simp
  next
    case four
    with encode4 [of a b c d] Cons show ?thesis by simp
  qed
qed

lemma decode_rune_high:
  assumes "decode_rune s = (r, n)" and "s \<noteq> []" and "0x80 \<le> byte_val (hd s)"
  shows "list_all (\<lambda>c. 0x80 \<le> byte_val c) (take n s)"
  using assms
  by (cases s) (auto simp: decode_rune_def decode2_def decode3_def decode4_def in_range_def split: if_splits list.splits)

end
