(* ===== verification/Glob.thy ===== *)
theory Glob
  imports GoUtf8
begin

text \<open>
  The wildcard matcher of \<open>pkg/match\<close> (\<open>match.go\<close>), on bytes with their UTF-8 decoding, with its
  counter of recursive calls; and, on ASCII, the meaning of a pattern that it implements.
\<close>

section \<open>The matcher\<close>

datatype result = rightNoMatch | rightMatch | rightStop

definition chr :: "byte \<Rightarrow> nat" where
  "chr c = byte_val c"

text \<open>\<open>wildcardSuffixMatch\<close> trims the characters behind the last star that match.\<close>

function wildcardSuffixMatch :: "gostring \<Rightarrow> gostring \<Rightarrow> gostring \<times> gostring \<times> bool" where
  "wildcardSuffixMatch str pattern =
    (if 0 < length str \<and> 1 < length pattern then
       (let (pc, ps0) = decode_last_rune pattern;
            esc = odd (trailing (take (length pattern - ps0) pattern));
            ps = (if esc then ps0 + 1 else ps0)
        in if pc = chr (CHR ''*'') \<and> \<not> esc then (str, pattern, True)
           else
             let (sc, ss) = decode_last_rune str
             in if \<not> (pc = chr (CHR ''?'') \<and> \<not> esc \<or> pc = sc) then (str, pattern, False)
                else wildcardSuffixMatch (take (length str - ss) str) (take (length pattern - ps) pattern))
     else (str, pattern, True))"
  by pat_completeness auto

lemma last_start_less: "s \<noteq> [] \<Longrightarrow> last_start s < length s"
  unfolding last_start_def by (cases "filter (\<lambda>k. k < length s \<and> rune_start (s ! (length s - 1 - k))) [1, 2, 3]") auto

lemma decode_last_rune_size:
  assumes "s \<noteq> []" and "decode_last_rune s = (r, n)"
  shows "0 < n"
proof (cases "byte_val (last s) < 0x80")
  case True
  with assms show ?thesis by (simp add: decode_last_rune_def)
next
  case False
  obtain r' n' where d: "decode_rune (drop (last_start s) s) = (r', n')" by (cases "decode_rune (drop (last_start s) s)")
  have "0 < n'" using decode_rune_size [OF _ d] last_start_less [OF assms(1)] by simp
  with assms False d show ?thesis by (simp add: decode_last_rune_def split: if_splits)
qed

termination wildcardSuffixMatch
proof (relation "measure (\<lambda>(str, pattern). length str)")
  fix str pattern :: gostring and x pc ps0 esc ps y sc ss
  assume "0 < length str \<and> 1 < length pattern" and "y = decode_last_rune str" and "(sc, ss) = y"
  then have "0 < ss" using decode_last_rune_size [of str sc ss] by auto
  with \<open>0 < length str \<and> 1 < length pattern\<close>
  show "((take (length str - ss) str, take (length pattern - ps) pattern), str, pattern) \<in> measure (\<lambda>(str, pattern). length str)"
    by auto
qed simp

declare wildcardSuffixMatch.simps [simp del]

lemma wildcardSuffixMatch_shorter:
  "wildcardSuffixMatch str pattern = (t, p, b) \<Longrightarrow> length t \<le> length str \<and> length p \<le> length pattern"
proof (induction str pattern rule: wildcardSuffixMatch.induct)
  case (1 str pattern)
  obtain pc ps0 where p: "decode_last_rune pattern = (pc, ps0)" by (cases "decode_last_rune pattern")
  obtain sc ss where s: "decode_last_rune str = (sc, ss)" by (cases "decode_last_rune str")
  let ?esc = "odd (trailing (take (length pattern - ps0) pattern))"
  let ?ps = "if ?esc then ps0 + 1 else ps0"
  show ?case
  proof (cases "0 < length str \<and> 1 < length pattern \<and> \<not> (pc = chr (CHR ''*'') \<and> \<not> ?esc) \<and>
      (pc = chr (CHR ''?'') \<and> \<not> ?esc \<or> pc = sc)")
    case True
    then have "wildcardSuffixMatch (take (length str - ss) str) (take (length pattern - ?ps) pattern) = (t, p, b)"
      using "1.prems" p s by (subst (asm) wildcardSuffixMatch.simps) (auto simp: Let_def split: if_splits)
    with "1.IH" [OF _ p [symmetric] refl refl refl _ s [symmetric] refl] True show ?thesis by fastforce
  next
    case False
    then show ?thesis using "1.prems" p s by (subst (asm) wildcardSuffixMatch.simps) (auto simp: Let_def split: if_splits)
  qed
qed

fun skip_stars :: "gostring \<Rightarrow> gostring" where
  "skip_stars (a # b # p) = (if b = CHR ''*'' then skip_stars (b # p) else a # b # p)"
| "skip_stars p = p"

lemma skip_stars_shorter: "length (skip_stars p) \<le> length p"
  by (induction p rule: skip_stars.induct) auto

lemma skip_stars_Nil [simp]: "skip_stars p = [] \<longleftrightarrow> p = []"
  by (induction p rule: skip_stars.induct) auto

text \<open>The body of \<open>match\<close>: \<open>enter\<close> is the call, with the test of the counter, and \<open>loop\<close> the loop over
  the pattern.  \<open>limit\<close> is \<open>lenString * maxComplexity\<close>, or \<^const>\<open>None\<close> for no limit.\<close>

function enter :: "int option \<Rightarrow> gostring \<Rightarrow> gostring \<Rightarrow> int \<Rightarrow> result \<times> int"
  and loop :: "int option \<Rightarrow> gostring \<Rightarrow> gostring \<Rightarrow> int \<Rightarrow> result \<times> int" where
  "enter limit str pattern counter =
    (case limit of
       None \<Rightarrow> loop limit str pattern counter
     | Some m \<Rightarrow> if m < counter then (rightStop, counter) else loop limit str pattern (counter + 1))"
| "loop limit str pattern counter =
    (if pattern = [] then (if str = [] then rightMatch else rightNoMatch, counter)
     else
       let (pc, ps) = decode_rune pattern;
           (sc, ss) = (if str = [] then (0, 0) else decode_rune str)
       in if pc = chr (CHR ''?'') then
            (if ss = 0 then (rightNoMatch, counter) else loop limit (drop ss str) (drop ps pattern) counter)
          else if pc = chr (CHR ''*'') then
            (let p1 = skip_stars pattern in
             if length p1 = 1 then (rightMatch, counter)
             else
               let (t2, p2, ok) = wildcardSuffixMatch str p1
               in if \<not> ok then (rightNoMatch, counter)
                  else if length p2 = 1 then (rightMatch, counter)
                  else
                    let (r, counter') = enter limit t2 (tl p2) counter
                    in if r \<noteq> rightNoMatch then (r, counter')
                       else if t2 = [] then (rightNoMatch, counter')
                       else loop limit (drop ss t2) p2 counter')
          else if ss = 0 then (rightNoMatch, counter)
          else
            let p1 = (if pc = chr (CHR 0x5C) then drop ps pattern else pattern);
                (pc', ps') = (if pc = chr (CHR 0x5C) then decode_rune p1 else (pc, ps))
            in if ps' = 0 then (rightNoMatch, counter)
               else if sc \<noteq> pc' then (rightNoMatch, counter)
               else loop limit (drop ss str) (drop ps' p1) counter)"
  by pat_completeness auto


lemma first_rune_size:
  assumes "(sc, ss) = (if str = [] then (0, 0) else decode_rune str)" and "ss \<noteq> 0"
  shows "str \<noteq> []" "0 < ss"
  using assms by (auto split: if_splits)

lemma drop_decreases: "s \<noteq> [] \<Longrightarrow> 0 < n \<Longrightarrow> length (drop n s) < length (s :: 'a list)"
  by (cases s) auto

termination enter
proof (relation "measure (\<lambda>x. case x of Inl (limit, s, p, c) \<Rightarrow> 2 * (length s + length p) + 1
      | Inr (limit, s, p, c) \<Rightarrow> 2 * (length s + length p))", goal_cases)
  case 1
  show ?case by simp
next
  case 2
  then show ?case by simp
next
  case 3
  then show ?case by simp
next
  case (4 limit str pattern counter x pc ps y sc ss)
  then show ?case using first_rune_size [of sc ss str] drop_decreases [of str ss] by (auto intro: add_less_le_mono)
next
  case (5 limit str pattern counter x pc ps y sc ss p1 z t2 w p2 ok)
  then have l: "length t2 \<le> length str" "length p2 \<le> length pattern"
    using wildcardSuffixMatch_shorter [of str p1 t2 p2 ok] skip_stars_shorter [of pattern] by auto
  have "length (tl p2) < length pattern" using l(2) 5(1) by (cases p2) auto
  with l(1) show ?case by simp
next
  case (6 limit str pattern counter x pc ps y sc ss p1 z t2 w p2 ok v r counter')
  then have l: "length t2 \<le> length str" "length p2 \<le> length pattern"
    using wildcardSuffixMatch_shorter [of str p1 t2 p2 ok] skip_stars_shorter [of pattern] by auto
  have "str \<noteq> []" using 6 l(1) by auto
  then have "0 < ss" using 6 decode_rune_size [of str sc ss] by auto
  then have "length (drop ss t2) < length t2" using 6 drop_decreases by blast
  with l show ?case by simp
next
  case (7 limit str pattern counter x pc ps y sc ss p1 z pc' ps')
  then have "length (drop ss str) < length str" using first_rune_size [of sc ss str] drop_decreases [of str ss] by auto
  moreover have "length (drop ps' p1) \<le> length pattern" using 7 by auto
  ultimately show ?case by simp
qed

declare enter.simps [simp del] loop.simps [simp del]

definition Match :: "gostring \<Rightarrow> gostring \<Rightarrow> bool" where
  "Match str pattern = (pattern = ''*'' \<or> fst (enter None str pattern 0) = rightMatch)"

definition MatchLimit :: "gostring \<Rightarrow> gostring \<Rightarrow> int \<Rightarrow> bool \<times> bool" where
  "MatchLimit str pattern maxComplexity =
    (if pattern = ''*'' then (True, False)
     else
       let limit = (if - 1 < maxComplexity then Some (int (length str) * maxComplexity) else None);
           r = fst (enter limit str pattern 0)
       in if r = rightStop then (False, True) else (r = rightMatch, False))"

section \<open>What a pattern means\<close>

datatype tok = Star | Any | Lit byte | Never

fun toks :: "gostring \<Rightarrow> tok list" where
  "toks [] = []"
| "toks (c # p) =
    (if c = CHR ''*'' then Star # toks p
     else if c = CHR ''?'' then Any # toks p
     else if c = CHR 0x5C then (case p of [] \<Rightarrow> [Never] | d # q \<Rightarrow> Lit d # toks q)
     else Lit c # toks p)"

fun one :: "tok \<Rightarrow> byte \<Rightarrow> bool" where
  "one Any c \<longleftrightarrow> True"
| "one (Lit d) c \<longleftrightarrow> c = d"
| "one _ c \<longleftrightarrow> False"

fun glob :: "tok list \<Rightarrow> gostring \<Rightarrow> bool" where
  "glob [] s \<longleftrightarrow> s = []"
| "glob (Star # p) [] \<longleftrightarrow> glob p []"
| "glob (Star # p) (c # s) \<longleftrightarrow> glob p (c # s) \<or> glob (Star # p) s"
| "glob (t # p) [] \<longleftrightarrow> False"
| "glob (t # p) (c # s) \<longleftrightarrow> one t c \<and> glob p s"

lemma glob_Star_all [simp]: "glob [Star] s"
  by (induction s) auto

lemma glob_Star_Star: "glob (Star # Star # p) s \<longleftrightarrow> glob (Star # p) s"
  by (induction s) auto

lemma glob_one: "t \<noteq> Star \<Longrightarrow> glob (t # p) s \<longleftrightarrow> s \<noteq> [] \<and> one t (hd s) \<and> glob p (tl s)"
  by (cases t; cases s) auto

lemma glob_last_Nil: "t \<noteq> Star \<Longrightarrow> \<not> glob (p @ [t]) []"
proof (induction p)
  case Nil
  then show ?case by (simp add: glob_one)
next
  case (Cons u p)
  then show ?case by (cases "u = Star") (simp_all add: glob_one)
qed

lemma glob_last: "t \<noteq> Star \<Longrightarrow> glob (p @ [t]) (s @ [c]) \<longleftrightarrow> one t c \<and> glob p s"
proof (induction p s rule: glob.induct)
  case (1 s)
  then show ?case by (cases s) (auto simp: glob_one)
next
  case (2 p)
  then show ?case using glob_last_Nil [of t "Star # p"] by simp
next
  case (3 p d s)
  then show ?case by auto
qed (auto simp: glob_one glob_last_Nil)

lemma toks_append: "even (trailing q) \<Longrightarrow> toks (q @ r) = toks q @ toks r"
proof (induction q rule: toks.induct)
  case (2 c p)
  have plain: "trailing (c # p) = trailing p" if "c \<noteq> CHR 0x5C" using trailing_plain [OF that, of "[]" p] by simp
  show ?case
  proof (cases "c = CHR 0x5C")
    case True
    with "2.prems" obtain d q where p: "p = d # q" by (cases p) (auto simp: trailing_def)
    with True "2.prems" "2.IH"(3) [of d q] show ?thesis by (simp add: trailing_pair)
  next
    case False
    with 2 plain show ?thesis by auto
  qed
qed simp

text \<open>The last token of a pattern, and the pattern without it.\<close>

lemma last_tok:
  assumes "even (trailing (q @ [c]))"
  shows "if odd (trailing q)
    then toks (q @ [c]) = toks (butlast q) @ [Lit c] \<and> even (trailing (butlast q)) \<and> q \<noteq> [] \<and> last q = CHR 0x5C
    else c \<noteq> CHR 0x5C \<and> toks (q @ [c]) = toks q @ [if c = CHR ''*'' then Star else if c = CHR ''?'' then Any else Lit c]"
proof (cases "odd (trailing q)")
  case True
  then obtain q' where q: "q = q' @ [CHR 0x5C]" by (cases q rule: rev_cases) (auto simp: trailing_snoc split: if_splits)
  with True have "even (trailing q')" by (simp add: trailing_snoc)
  with toks_append [OF this, of "[CHR 0x5C, c]"] q True show ?thesis by simp
next
  case False
  with assms have "c \<noteq> CHR 0x5C" by (auto simp: trailing_snoc)
  with False toks_append [of q "[c]"] show ?thesis by auto
qed

definition ascii :: "gostring \<Rightarrow> bool" where
  "ascii s \<longleftrightarrow> list_all (\<lambda>c. byte_val c < 0x80) s"

lemma chr_inject [simp]: "chr c = chr d \<longleftrightarrow> c = d"
  by (simp add: chr_def)

lemma suffix_step:
  assumes "ascii (s @ [x])" and "ascii (q @ [c])" and "q \<noteq> []"
  shows "wildcardSuffixMatch (s @ [x]) (q @ [c]) =
    (if c = CHR ''*'' \<and> even (trailing q) then (s @ [x], q @ [c], True)
     else if \<not> (c = CHR ''?'' \<and> even (trailing q) \<or> c = x) then (s @ [x], q @ [c], False)
     else wildcardSuffixMatch s (if odd (trailing q) then butlast q else q))"
proof -
  have d: "decode_last_rune (s @ [x]) = (chr x, 1)" "decode_last_rune (q @ [c]) = (chr c, 1)"
    using assms by (simp_all add: ascii_def chr_def)
  have "1 < length (q @ [c])" using assms(3) by (cases q) auto
  then show ?thesis
    by (subst wildcardSuffixMatch.simps) (simp only: d Let_def prod.case chr_inject, simp add: butlast_conv_take)
qed

lemma wildcardSuffixMatch_correct:
  assumes "wildcardSuffixMatch s p = (s2, p2, ok)" and "ascii s" and "ascii p" and "even (trailing p)"
    and "p \<noteq> []" and "hd p = CHR ''*''"
  shows "p2 \<noteq> [] \<and> hd p2 = CHR ''*'' \<and> even (trailing p2) \<and> ascii s2 \<and> ascii p2 \<and>
    (if ok then glob (toks p) s \<longleftrightarrow> glob (toks p2) s2 else \<not> glob (toks p) s)"
  using assms
proof (induction "length s" arbitrary: s p)
  case 0
  then show ?case by (subst (asm) wildcardSuffixMatch.simps) auto
next
  case (Suc n)
  obtain s' x where s: "s = s' @ [x]" using Suc.hyps(2) by (cases s rule: rev_cases) auto
  obtain q c where p: "p = q @ [c]" using Suc.prems(5) by (cases p rule: rev_cases) auto
  show ?case
  proof (cases "q = []")
    case True
    then show ?thesis using Suc.prems p by (subst (asm) wildcardSuffixMatch.simps) auto
  next
    case False
    note step = suffix_step [OF Suc.prems(2) [unfolded s] Suc.prems(3) [unfolded p] False]
    have q: "hd q = CHR ''*''" "ascii q" "ascii s'" using Suc.prems(2,3,6) False p s by (auto simp: ascii_def)
    note last = last_tok [OF Suc.prems(4) [unfolded p]]
    let ?q = "if odd (trailing q) then butlast q else q"
    have q': "even (trailing ?q)" "ascii ?q" "?q \<noteq> [] \<and> hd ?q = CHR ''*''"
    proof -
      show "even (trailing ?q)" using last by (auto split: if_splits)
      show "ascii ?q" using q(2) by (auto simp: ascii_def list_all_iff dest: in_set_butlastD)
      show "?q \<noteq> [] \<and> hd ?q = CHR ''*''"
      proof (cases "odd (trailing q)")
        case True
        with last have "last q = CHR 0x5C" by simp
        with q(1) False have "butlast q \<noteq> []" by (cases q rule: rev_cases; cases "butlast q") auto
        with True q(1) show ?thesis by (cases q) auto
      qed (use q(1) False in simp)
    qed
    let ?t = "if odd (trailing q) then Lit c else if c = CHR ''*'' then Star else if c = CHR ''?'' then Any else Lit c"
    have toks: "toks p = toks ?q @ [?t]" using last p by auto
    show ?thesis
    proof (cases "c = CHR ''*'' \<and> even (trailing q)")
      case True
      with step Suc.prems s p show ?thesis by auto
    next
      case nostar: False
      then have t: "?t \<noteq> Star" by auto
      have g: "glob (toks p) s \<longleftrightarrow> one ?t x \<and> glob (toks ?q) s'"
        unfolding toks s using glob_last [OF t] by blast
      show ?thesis
      proof (cases "c = CHR ''?'' \<and> even (trailing q) \<or> c = x")
        case True
        then have "wildcardSuffixMatch s' ?q = (s2, p2, ok)" using step nostar Suc.prems(1) s p by auto
        from Suc.hyps(1) [OF _ this q(3) q'(2,1)] q'(3) Suc.hyps(2) s
        have "p2 \<noteq> [] \<and> hd p2 = CHR ''*'' \<and> even (trailing p2) \<and> ascii s2 \<and> ascii p2 \<and>
          (if ok then glob (toks ?q) s' \<longleftrightarrow> glob (toks p2) s2 else \<not> glob (toks ?q) s')" by simp
        moreover have "one ?t x" using True nostar by auto
        ultimately show ?thesis using g by simp
      next
        case False
        then have "wildcardSuffixMatch s p = (s, p, False)" using step nostar s p by auto
        moreover have "\<not> one ?t x" using False nostar by auto
        ultimately show ?thesis using g Suc.prems by auto
      qed
    qed
  qed
qed

lemma skip_stars_toks:
  assumes "p \<noteq> []" and "hd p = CHR ''*''"
  shows "hd (skip_stars p) = CHR ''*'' \<and> (glob (toks (skip_stars p)) s \<longleftrightarrow> glob (toks p) s) \<and>
    (even (trailing p) \<longrightarrow> even (trailing (skip_stars p))) \<and> (ascii p \<longrightarrow> ascii (skip_stars p))"
  using assms
proof (induction p rule: skip_stars.induct)
  case (1 a b p)
  have "trailing (a # b # p) = trailing (b # p)" using 1 trailing_plain [of a "[]" "b # p"] by simp
  with 1 show ?case by (auto simp: glob_Star_Star ascii_def)
qed auto

text \<open>Without a limit the matcher decides the meaning of the pattern.\<close>

lemma decode_first: "ascii (c # s) \<Longrightarrow> decode_rune (c # s) = (chr c, 1)"
  by (simp add: ascii_def chr_def)

definition answer :: "bool \<Rightarrow> result" where
  "answer b = (if b then rightMatch else rightNoMatch)"

lemma glob_StarI: "glob p s \<Longrightarrow> glob (Star # p) s"
  by (cases s) auto

lemma toks_simps:
  "toks (CHR ''*'' # p) = Star # toks p" "toks (CHR ''?'' # p) = Any # toks p"
  "toks (CHR 0x5C # d # p) = Lit d # toks p"
  "c \<notin> {CHR ''*'', CHR ''?'', CHR 0x5C} \<Longrightarrow> toks (c # p) = Lit c # toks p"
  by simp_all

lemma trailing_Cons: "c \<noteq> CHR 0x5C \<Longrightarrow> trailing (c # p) = trailing p"
  using trailing_plain [of c "[]" p] by simp

lemma enter_None: "enter None s p n = loop None s p n"
  by (subst enter.simps) simp

lemma loop_star:
  assumes "p \<noteq> []" and "decode_rune p = (chr (CHR ''*''), ps)" and "(if s = [] then (0, 0) else decode_rune s) = (sc, ss)"
    and "wildcardSuffixMatch s (skip_stars p) = (t2, p2, ok)" and "enter lim t2 (tl p2) k = (r, k')"
  shows "fst (loop lim s p k) = (if length (skip_stars p) = 1 then rightMatch
    else if \<not> ok then rightNoMatch else if length p2 = 1 then rightMatch
    else if r \<noteq> rightNoMatch then r else if t2 = [] then rightNoMatch
    else fst (loop lim (drop ss t2) p2 k'))"
  using assms by (subst loop.simps) (simp add: Let_def chr_def)

lemma loop_correct: "ascii s \<Longrightarrow> ascii p \<Longrightarrow> even (trailing p) \<Longrightarrow> fst (loop None s p n) = answer (glob (toks p) s)"
proof (induction "length s + length p" arbitrary: s p n rule: less_induct)
  case less
  note IH = less.hyps [OF _ _ _ _]
  show ?case
  proof (cases p)
    case Nil
    then show ?thesis by (subst loop.simps) (simp add: answer_def)
  next
    case (Cons c q)
    have q: "ascii q" using less.prems(2) Cons by (simp add: ascii_def)
    have d: "decode_rune p = (chr c, 1)" using decode_first less.prems(2) Cons by simp
    have ds: "(if s = [] then (0, 0) else decode_rune s) = (if s = [] then (0, 0) else (chr (hd s), 1))"
      using decode_first [of "hd s" "tl s"] less.prems(1) by (cases s) auto
    then have ds': "(if s = [] then (0, 0) else decode_rune s) = (if s = [] then 0 else chr (hd s), if s = [] then 0 else 1)"
      by simp
    have tl: "ascii (tl s)" using less.prems(1) by (cases s) (auto simp: ascii_def)
    consider (any) "c = CHR ''?''" | (star) "c = CHR ''*''" | (esc) "c = CHR 0x5C"
      | (lit) "c \<notin> {CHR ''*'', CHR ''?'', CHR 0x5C}" by blast
    then show ?thesis
    proof cases
      case any
      with less.prems(3) Cons have "even (trailing q)" by (simp add: trailing_Cons)
      with less.hyps [of "tl s" q] q tl Cons have "s \<noteq> [] \<Longrightarrow> fst (loop None (tl s) q n) = answer (glob (toks q) (tl s))"
        by (cases s) auto
      with any Cons d ds show ?thesis
        by (subst loop.simps) (cases s, simp_all add: answer_def Let_def toks_simps del: toks.simps)
    next
      case esc
      with less.prems(3) Cons obtain e r where r: "q = e # r" by (cases q) (auto simp: trailing_def)
      with esc less.prems(3) Cons q have r': "even (trailing r)" "ascii r" by (simp_all add: trailing_pair ascii_def)
      have "decode_rune q = (chr e, 1)" using decode_first q r by simp
      with less.hyps [of "tl s" r] r' tl Cons r have "s \<noteq> [] \<Longrightarrow> fst (loop None (tl s) r n) = answer (glob (toks r) (tl s))"
        by (cases s) auto
      with esc Cons d ds r \<open>decode_rune q = (chr e, 1)\<close> show ?thesis
        by (subst loop.simps) (cases s, simp_all add: answer_def Let_def toks_simps del: toks.simps decode_rune_ascii)
    next
      case lit
      with less.prems(3) Cons have "even (trailing q)" by (simp add: trailing_Cons)
      with less.hyps [of "tl s" q] q tl Cons have "s \<noteq> [] \<Longrightarrow> fst (loop None (tl s) q n) = answer (glob (toks q) (tl s))"
        by (cases s) auto
      with lit Cons d ds show ?thesis
        by (subst loop.simps) (cases s, simp_all add: answer_def Let_def toks_simps del: toks.simps)
    next
      case star
      have p: "p \<noteq> []" "hd p = CHR ''*''" using Cons star by simp_all
      note sk = skip_stars_toks [OF p]
      have ne: "skip_stars p \<noteq> []" using p(1) by simp
      show ?thesis
      proof (cases "length (skip_stars p) = 1")
        case True
        then have "skip_stars p = ''*''" using sk by (cases "skip_stars p") auto
        then have "glob (toks p) s" using sk [of s] by simp
        with star Cons d ds True show ?thesis
          by (subst loop.simps) (simp add: answer_def Let_def del: decode_rune_ascii)
      next
        case False
        obtain t2 p2 ok where w: "wildcardSuffixMatch s (skip_stars p) = (t2, p2, ok)"
          by (cases "wildcardSuffixMatch s (skip_stars p)") auto
        have "ascii (skip_stars p)" "even (trailing (skip_stars p))" "hd (skip_stars p) = CHR ''*''" using sk less.prems by auto
        note wc = wildcardSuffixMatch_correct [OF w less.prems(1) this(1,2) ne this(3)]
        have len: "length t2 \<le> length s" "length p2 \<le> length p"
          using wildcardSuffixMatch_shorter [OF w] skip_stars_shorter [of p] by auto
        obtain p2' where p2: "p2 = CHR ''*'' # p2'" using wc by (cases p2) auto
        have small: "ascii p2'" "even (trailing p2')" "ascii t2" "ascii (drop 1 t2)"
          using wc p2 by (auto simp: ascii_def trailing_Cons list_all_iff dest: in_set_dropD)
        have g: "ok \<Longrightarrow> glob (toks p) s \<longleftrightarrow> glob (Star # toks p2') t2" "\<not> ok \<Longrightarrow> \<not> glob (toks p) s"
          using wc sk [of s] p2 by (simp_all add: toks_simps del: toks.simps)
        have I1: "fst (loop None t2 p2' m) = answer (glob (toks p2') t2)" for m
          using less.hyps [of t2 p2' m] small len p2 by simp
        have I2: "fst (loop None (drop 1 t2) p2 m) = answer (glob (Star # toks p2') (tl t2))" if "t2 \<noteq> []" for m
          using less.hyps [of "drop 1 t2" p2 m] small len p2 wc that by (cases t2) (auto simp: toks_simps simp del: toks.simps)
        have s: "t2 \<noteq> [] \<Longrightarrow> s \<noteq> []" using len(1) by auto
        obtain r m where r: "loop None t2 p2' n = (r, m)" by (cases "loop None t2 p2' n")
        then have r': "r = answer (glob (toks p2') t2)" using I1 [of n] by simp
        have "enter None t2 (tl p2) n = (r, m)" using r p2 by (simp add: enter_None)
        from loop_star [OF p(1) d [unfolded star] ds' w this]
        have "fst (loop None s p n) =
            (if \<not> ok then rightNoMatch else if p2' = [] then rightMatch
             else if r \<noteq> rightNoMatch then r else if t2 = [] then rightNoMatch
             else fst (loop None (drop 1 t2) p2 m))"
          using False p2 s by auto
        also have "\<dots> = answer (glob (toks p) s)"
        proof (cases ok)
          case True
          show ?thesis
          proof (cases "p2' = [] \<or> glob (toks p2') t2")
            case True
            then have "glob (Star # toks p2') t2" by (auto intro: glob_StarI)
            with True \<open>ok\<close> g r' show ?thesis by (auto simp: answer_def)
          next
            case False
            with \<open>ok\<close> g r' I2 [of m] show ?thesis by (cases t2) (auto simp: answer_def)
          qed
        qed (use g in \<open>simp add: answer_def\<close>)
        finally show ?thesis .
      qed
    qed
  qed
qed

text \<open>A limit only decides whether an answer comes: an answer does not depend on it.\<close>

lemma limited: "fst (loop (Some l) s p n) \<noteq> rightStop \<Longrightarrow> fst (loop None s p m) = fst (loop (Some l) s p n)"
proof (induction "length s + length p" arbitrary: s p n m rule: less_induct)
  case less
  show ?case
  proof (cases "p = []")
    case True
    then show ?thesis by (simp add: loop.simps)
  next
    case False
    obtain pc ps where d: "decode_rune p = (pc, ps)" by (cases "decode_rune p")
    obtain sc ss where ds: "(if s = [] then (0, 0) else decode_rune s) = (sc, ss)" by fastforce
    have ss: "0 < ss" if "s \<noteq> []" using ds decode_rune_size [OF that] that by simp
    have s0: "s \<noteq> []" if "ss \<noteq> 0" using ds that by auto
    have dec: "length (drop ss t) < length t" if "t \<noteq> []" "ss \<noteq> 0" for t :: gostring
      using drop_decreases [of t ss] that by simp
    show ?thesis
    proof (cases "pc = chr (CHR ''*'')")
      case False
      then have star: "pc \<noteq> chr (CHR ''*'')" .
      have IH: "fst (loop None (drop ss s) q m) = fst (loop (Some l) (drop ss s) q n)"
        if "ss \<noteq> 0" "length q \<le> length p" "fst (loop (Some l) (drop ss s) q n) \<noteq> rightStop" for q
      proof (rule less.hyps)
        show "length (drop ss s) + length q < length s + length p" using dec [of s] s0 that(1,2) by linarith
      qed (rule that(3))
      show ?thesis
      proof (cases "pc = chr (CHR ''?'')")
        case True
        with less.prems IH [of "drop ps p"] star d ds \<open>p \<noteq> []\<close> show ?thesis
          by (cases "ss = 0") (simp_all add: loop.simps [of _ s p])
      next
        case False
        let ?p1 = "if pc = chr (CHR 0x5C) then drop ps p else p"
        obtain pc' ps' where d': "(if pc = chr (CHR 0x5C) then decode_rune ?p1 else (pc, ps)) = (pc', ps')" by fastforce
        have len: "length (drop ps' ?p1) \<le> length p" by simp
        have eq: "fst (loop lim s p k) = (if ss = 0 \<or> ps' = 0 \<or> sc \<noteq> pc' then rightNoMatch
            else fst (loop lim (drop ss s) (drop ps' ?p1) k))" for lim k
          using d ds d' star False \<open>p \<noteq> []\<close> by (subst loop.simps) (simp add: Let_def)
        show ?thesis using less.prems IH [OF _ len] unfolding eq by auto
      qed
    next
      case True
      obtain t2 p2 ok where w: "wildcardSuffixMatch s (skip_stars p) = (t2, p2, ok)"
        by (cases "wildcardSuffixMatch s (skip_stars p)") auto
      have len: "length t2 \<le> length s" "length p2 \<le> length p"
        using wildcardSuffixMatch_shorter [OF w] skip_stars_shorter [of p] by auto
      have tl: "length (tl p2) < length p" using len(2) False by (cases p2) auto
      have ss2: "t2 \<noteq> [] \<Longrightarrow> ss \<noteq> 0" using ss len(1) by (cases "s = []") auto
      obtain r1 k1 where r1: "enter (Some l) t2 (tl p2) n = (r1, k1)" by fastforce
      obtain r2 k2 where r2: "enter None t2 (tl p2) m = (r2, k2)" by fastforce
      note eq = loop_star [OF \<open>p \<noteq> []\<close> d [unfolded True] ds w]
      have "r1 \<noteq> rightStop \<Longrightarrow> r2 = r1"
        using r1 r2 less.hyps [of t2 "tl p2" "n + 1" m] len(1) tl
        by (auto simp: enter.simps [of "Some l"] enter_None split: if_splits)
      moreover have "fst (loop None (drop ss t2) p2 k2) = fst (loop (Some l) (drop ss t2) p2 k1)"
        if "t2 \<noteq> []" "fst (loop (Some l) (drop ss t2) p2 k1) \<noteq> rightStop"
        using less.hyps [of "drop ss t2" p2 k1 k2] dec [OF that(1) ss2 [OF that(1)]] len that by simp
      ultimately show ?thesis using less.prems eq [OF r1] eq [OF r2] by (auto split: if_splits)
    qed
  qed
qed

section \<open>Properties\<close>

text \<open>C14: on ASCII strings, for a pattern that does not end in a lone backslash, \<open>Match\<close> decides the
  meaning of the pattern: a star stands for any string, a question mark for any character, a
  backslash takes the next character literally, everything else for itself.\<close>

theorem Match_iff_glob:
  assumes "ascii s" and "ascii p" and "even (trailing p)"
  shows "Match s p \<longleftrightarrow> glob (toks p) s"
proof (cases "p = ''*''")
  case True
  then show ?thesis by (simp add: Match_def)
next
  case False
  with loop_correct [OF assms, of 0] show ?thesis by (simp add: Match_def enter_None answer_def)
qed

theorem Match_iff_glob_witness:
  "Match ''report.json'' ''re*.j?on'' \<and> \<not> Match ''ab'' (''a'' @ [CHR 0x5C] @ ''*'')"
proof -
  have a: "ascii ''report.json''" "ascii ''re*.j?on''" "even (trailing ''re*.j?on'')"
    "ascii ''ab''" "ascii (''a'' @ [CHR 0x5C] @ ''*'')" "even (trailing (''a'' @ [CHR 0x5C] @ ''*''))"
    by (simp_all add: ascii_def trailing_def)
  show ?thesis using Match_iff_glob [OF a(1-3)] Match_iff_glob [OF a(4-6)] by simp
qed

text \<open>\<open>MatchLimit\<close> gives the answer of \<open>Match\<close> or says that it has stopped.\<close>

theorem MatchLimit_sound:
  "MatchLimit s p m = (Match s p, False) \<or> MatchLimit s p m = (False, True)"
proof (cases "p = ''*''")
  case False
  then have "Match s p \<longleftrightarrow> fst (loop None s p 0) = rightMatch" by (simp add: Match_def enter_None)
  moreover have "fst (loop None s p 0) = fst (enter (Some l) s p 0)" if "fst (enter (Some l) s p 0) \<noteq> rightStop" for l
    using that limited [of l s p 1 0] by (auto simp: enter.simps [of "Some l"] split: if_splits)
  ultimately show ?thesis using False by (auto simp: MatchLimit_def Let_def enter_None)
qed (simp add: Match_def MatchLimit_def)

end
