(* ===== verification/FjText.thy ===== *)
theory FjText
  imports FjGrammar GoUtf8 Conv
begin

text \<open>
  Writing and reading JSON strings in \<open>pkg/fj\<close> (\<open>utilities.go\<close>): \<open>appendJSONString\<close>,
  \<open>unescape\<close>, \<open>hexToRune\<close>, and the tests and escapes of path components.  The index loops
  that only look ahead are recursions on the rest of the string.
\<close>

section \<open>Escapes\<close>

definition hex_value :: "byte \<Rightarrow> nat option" where
  "hex_value c =
    (if CHR ''0'' \<le> c \<and> c \<le> CHR ''9'' then Some (byte_val c - byte_val (CHR ''0''))
     else if CHR ''a'' \<le> c \<and> c \<le> CHR ''f'' then Some (byte_val c - byte_val (CHR ''a'') + 10)
     else if CHR ''A'' \<le> c \<and> c \<le> CHR ''F'' then Some (byte_val c - byte_val (CHR ''A'') + 10)
     else None)"

text \<open>\<open>strconv.ParseUint(s, 16, 32)\<close> for four characters.\<close>

definition parse_hex :: "gostring \<Rightarrow> nat option" where
  "parse_hex s = fold (\<lambda>c acc. case (acc, hex_value c) of (Some n, Some v) \<Rightarrow> Some (n * 16 + v) | _ \<Rightarrow> None) s (Some 0)"

definition hexToRune :: "gostring \<Rightarrow> nat" where
  "hexToRune s =
    (if IsEmpty s \<or> length s < 4 then RuneError
     else case parse_hex (take 4 s) of None \<Rightarrow> RuneError | Some n \<Rightarrow> n)"

text \<open>\<open>utf16.DecodeRune\<close>.\<close>

definition decode_surrogates :: "nat \<Rightarrow> nat \<Rightarrow> nat" where
  "decode_surrogates r1 r2 =
    (if 0xD800 \<le> r1 \<and> r1 < 0xDC00 \<and> 0xDC00 \<le> r2 \<and> r2 < 0xE000
     then (r1 - 0xD800) * 0x400 + (r2 - 0xDC00) + 0x10000 else RuneError)"

definition simple_escape :: "byte \<Rightarrow> byte option" where
  "simple_escape c =
    (if c = CHR 0x5C then Some (CHR 0x5C)
     else if c = CHR ''/'' then Some (CHR ''/'')
     else if c = CHR ''b'' then Some (CHR 0x08)
     else if c = CHR ''f'' then Some (CHR 0x0C)
     else if c = CHR ''n'' then Some (CHR 0x0A)
     else if c = CHR ''r'' then Some (CHR 0x0D)
     else if c = CHR ''t'' then Some (CHR 0x09)
     else if c = CHR 0x22 then Some (CHR 0x22)
     else None)"

function unescape :: "gostring \<Rightarrow> gostring" where
  "unescape [] = []"
| "unescape (c # s) =
    (if c < CHR '' '' then []
     else if c = CHR 0x5C then
       (case s of
          [] \<Rightarrow> []
        | e # t \<Rightarrow>
           (case simple_escape e of
              Some b \<Rightarrow> b # unescape t
            | None \<Rightarrow>
               if e = CHR ''u'' then
                 (if length t < 4 then []
                  else
                    let r = hexToRune t; t1 = drop 4 t
                    in if is_surrogate r \<and> 6 \<le> length t1 \<and> t1 ! 0 = CHR 0x5C \<and> t1 ! 1 = CHR ''u''
                       then encode_rune (decode_surrogates r (hexToRune (drop 2 t1))) @ unescape (drop 6 t1)
                       else encode_rune r @ unescape t1)
               else []))
     else c # unescape s)"
  by pat_completeness auto
termination
  by (relation "measure length") auto

definition hexDigit :: "nat \<Rightarrow> byte" where
  "hexDigit n = ''0123456789abcdef'' ! n"

definition appendHex :: "gostring \<Rightarrow> nat \<Rightarrow> gostring" where
  "appendHex bytes x =
    bytes @ [hexDigit (x div 0x1000 mod 16), hexDigit (x div 0x100 mod 16), hexDigit (x div 0x10 mod 16), hexDigit (x mod 16)]"

text \<open>The escape of the first character, or of the first rune, and what is left.\<close>

definition escape_head :: "byte \<Rightarrow> gostring \<Rightarrow> gostring \<times> gostring" where
  "escape_head c s =
    (if c < CHR '' '' then
       (if c = CHR 0x0A then (CHR 0x5C # ''n'', s)
        else if c = CHR 0x0D then (CHR 0x5C # ''r'', s)
        else if c = CHR 0x09 then (CHR 0x5C # ''t'', s)
        else (appendHex (CHR 0x5C # ''u'') (byte_val c), s))
     else if c = CHR ''>'' \<or> c = CHR ''<'' \<or> c = CHR ''&'' then (appendHex (CHR 0x5C # ''u'') (byte_val c), s)
     else if c = CHR 0x5C then ([CHR 0x5C, CHR 0x5C], s)
     else if c = CHR 0x22 then ([CHR 0x5C, CHR 0x22], s)
     else if 127 < byte_val c then
       (let (r, n) = decode_rune (c # s)
        in (if r = RuneError \<and> n = 1 then CHR 0x5C # ''ufffd''
            else if r = 0x2028 \<or> r = 0x2029 then CHR 0x5C # ''u202'' @ [hexDigit (r mod 16)]
            else take n (c # s), drop n (c # s)))
     else ([c], s))"

lemma escape_head_shorter: "escape_head c s = (e, t) \<Longrightarrow> length t \<le> length s"
proof -
  assume e: "escape_head c s = (e, t)"
  show ?thesis
  proof (cases "127 < byte_val c")
    case True
    obtain r n where d: "decode_rune (c # s) = (r, n)" by (cases "decode_rune (c # s)")
    from decode_rune_size [OF _ d] e d show ?thesis
      by (auto simp: escape_head_def Let_def drop_Cons' split: if_splits)
  qed (use e in \<open>auto simp: escape_head_def Let_def split: if_splits\<close>)
qed

function escape_body :: "gostring \<Rightarrow> gostring" where
  "escape_body [] = []"
| "escape_body (c # s) = (case escape_head c s of (e, t) \<Rightarrow> e @ escape_body t)"
  by pat_completeness auto
termination
  by (relation "measure length") (auto simp: le_imp_less_Suc dest: sym [THEN escape_head_shorter])

definition appendJSONString :: "gostring \<Rightarrow> gostring \<Rightarrow> gostring" where
  "appendJSONString target s = target @ CHR 0x22 # escape_body s @ [CHR 0x22]"

section \<open>Path components\<close>

definition isSafePathKeyByte :: "byte \<Rightarrow> bool" where
  "isSafePathKeyByte c \<longleftrightarrow> c \<le> CHR '' '' \<or> c > CHR ''~'' \<or> c = CHR ''_'' \<or> c = CHR ''-'' \<or> c = CHR '':'' \<or>
     (c \<ge> CHR ''a'' \<and> c \<le> CHR ''z'') \<or> (c \<ge> CHR ''A'' \<and> c \<le> CHR ''Z'') \<or>
     (c \<ge> CHR ''0'' \<and> c \<le> CHR ''9'')"

fun escapeUnsafeChars :: "gostring \<Rightarrow> gostring" where
  "escapeUnsafeChars [] = []"
| "escapeUnsafeChars (c # s) =
    (if isSafePathKeyByte c then c # escapeUnsafeChars s else CHR 0x5C # c # escapeUnsafeChars s)"

definition isValidName :: "gostring \<Rightarrow> bool" where
  "isValidName component \<longleftrightarrow> \<not> IsEmpty component \<and> CHR '' '' \<notin> set component \<and>
     list_all (\<lambda>c. \<not> c < CHR '' '' \<and> c \<notin> set ''[]{}()#|!'') component"

text \<open>\<open>lastSegment\<close> looks back for the last \<open>|\<close> or \<open>.\<close> without a backslash in front.\<close>

fun last_segment_from :: "gostring \<Rightarrow> nat \<Rightarrow> gostring" where
  "last_segment_from path 0 = path"
| "last_segment_from path (Suc i) =
    (if (path ! i = CHR ''|'' \<or> path ! i = CHR ''.'') \<and> \<not> (0 < i \<and> path ! (i - 1) = CHR 0x5C)
     then drop (Suc i) path else last_segment_from path i)"

definition lastSegment :: "gostring \<Rightarrow> gostring" where
  "lastSegment path = last_segment_from path (length path)"

text \<open>\<open>strutil.Trim\<close> returns a blank string as it is.\<close>

definition str_Trim :: "gostring \<Rightarrow> gostring" where
  "str_Trim s =
    (if IsEmpty s then s
     else rev (dropWhile (\<lambda>c. c \<le> CHR '' '') (rev (dropWhile (\<lambda>c. c \<le> CHR '' '') s))))"

definition trimOuterBrackets :: "gostring \<Rightarrow> gostring" where
  "trimOuterBrackets json0 =
    (let json = str_Trim json0
     in if 2 \<le> length json \<and> (json ! 0 = CHR ''['' \<or> json ! 0 = CHR ''{'') then butlast (tl json) else json)"

section \<open>What the escapes are good for\<close>

text \<open>A string with every byte that is not part of a valid encoding replaced.\<close>

function to_valid :: "gostring \<Rightarrow> gostring" where
  "to_valid [] = []"
| "to_valid (c # s) =
    (case decode_rune (c # s) of (r, n) \<Rightarrow>
      (if r = RuneError \<and> n = 1 then encode_rune RuneError else take n (c # s)) @ to_valid (drop n (c # s)))"
  by pat_completeness auto
termination
proof (relation "measure length")
  show "((drop n (c # s)), c # s) \<in> measure length" if "(r, n) = decode_rune (c # s)" for c s r n
    using decode_rune_size [OF _ that [symmetric]] by simp
qed simp

lemma unescape_plain: "list_all (\<lambda>c. \<not> c < CHR '' '' \<and> c \<noteq> CHR 0x5C) xs \<Longrightarrow> unescape (xs @ t) = xs @ unescape t"
  by (induction xs) auto

lemma below_16: "n < 16 \<Longrightarrow> n \<in> {0, 1, 2, 3, 4, 5, 6, 7} \<union> {8, 9, 10, 11, 12, 13, 14, 15 :: nat}"
proof (cases "n < 8")
  case True
  then have "n \<in> {0, 1, 2, 3, 4, 5, 6, 7}" by auto
  then show ?thesis by blast
next
  case False
  moreover assume "n < 16"
  ultimately have "n \<in> {8, 9, 10, 11, 12, 13, 14, 15}" by auto
  then show ?thesis by blast
qed

lemma hexDigit_vals:
  "hexDigit 0 = CHR ''0''"
  "hexDigit 1 = CHR ''1''"
  "hexDigit 2 = CHR ''2''"
  "hexDigit 3 = CHR ''3''"
  "hexDigit 4 = CHR ''4''"
  "hexDigit 5 = CHR ''5''"
  "hexDigit 6 = CHR ''6''"
  "hexDigit 7 = CHR ''7''"
  "hexDigit 8 = CHR ''8''"
  "hexDigit 9 = CHR ''9''"
  "hexDigit 10 = CHR ''a''"
  "hexDigit 11 = CHR ''b''"
  "hexDigit 12 = CHR ''c''"
  "hexDigit 13 = CHR ''d''"
  "hexDigit 14 = CHR ''e''"
  "hexDigit 15 = CHR ''f''"
  by (simp_all add: hexDigit_def)

lemma hexDigit_facts:
  assumes "n < 16"
  shows "hex_value (hexDigit n) = Some n" "is_hex (hexDigit n)" "visible (hexDigit n)" "hexDigit n \<noteq> CHR 0x5C"
  using below_16 [OF assms]
  by (elim UnE insertE emptyE; simp only: hexDigit_vals; simp add: hex_value_def is_hex_def visible_def)+

lemma IsEmpty_visible_Cons: "visible c \<Longrightarrow> \<not> IsEmpty (c # s)"
  by (simp add: IsEmpty_def TrimLeftSpace_id drop_space_visible del: drop_space.simps)

lemma parse_hex4:
  assumes "a < 16" "b < 16" "c < 16" "d < 16"
  shows "parse_hex [hexDigit a, hexDigit b, hexDigit c, hexDigit d] = Some (((a * 16 + b) * 16 + c) * 16 + d)"
  using assms by (simp add: parse_hex_def hexDigit_facts(1))

lemma hexToRune_appendHex:
  assumes "x < 0x10000"
  shows "hexToRune (appendHex [] x @ s) = x"
proof -
  have step: "y div 16 * 16 + y mod 16 = y" for y :: nat by simp
  have d: "x div 0x100 = x div 16 div 16" "x div 0x1000 = x div 16 div 16 div 16"
    by (simp_all add: div_mult2_eq [symmetric])
  have "x div 16 div 16 div 16 < 16" using assms by (simp add: div_mult2_eq [symmetric] less_mult_imp_div_less)
  then have x: "((x div 0x1000 mod 16 * 16 + x div 0x100 mod 16) * 16 + x div 0x10 mod 16) * 16 + x mod 16 = x"
    unfolding d by (simp only: step mod_less)
  have small: "y mod 16 < 16" for y :: nat by simp
  from parse_hex4 [OF small small small small, of "x div 0x1000" "x div 0x100" "x div 0x10" x]
  have p: "parse_hex (appendHex [] x) = Some x" unfolding x by (simp only: appendHex_def append_Nil)
  have "take 4 (appendHex [] x @ s) = appendHex [] x" by (simp add: appendHex_def)
  moreover have "\<not> IsEmpty (appendHex [] x @ s)"
    unfolding appendHex_def append_Nil append_Cons using IsEmpty_visible_Cons hexDigit_facts(3) [OF small] by blast
  moreover have "\<not> length (appendHex [] x @ s) < 4" by (simp add: appendHex_def)
  ultimately show ?thesis using p by (simp only: hexToRune_def) simp
qed

lemma appendHex_target: "appendHex bytes x = bytes @ appendHex [] x"
  by (simp add: appendHex_def)

lemma appendHex_length: "length (appendHex [] x) = 4"
  by (simp add: appendHex_def)

lemma unescape_hex:
  assumes "x < 0x10000" and "\<not> is_surrogate x"
  shows "unescape (CHR 0x5C # CHR ''u'' # appendHex [] x @ t) = encode_rune x @ unescape t"
  using assms hexToRune_appendHex [OF assms(1), of t] appendHex_length [of x]
  by (simp add: simple_escape_def Let_def)

lemma encode_ascii: "byte_val c < 0x80 \<Longrightarrow> encode_rune (byte_val c) = [c]"
  by (simp add: encode_rune_def valid_rune_def is_surrogate_def)

lemma special_escapes:
  "CHR 0x5C # ''ufffd'' = CHR 0x5C # CHR ''u'' # appendHex [] RuneError"
  "r = 0x2028 \<or> r = 0x2029 \<Longrightarrow> CHR 0x5C # ''u202'' @ [hexDigit (r mod 16)] = CHR 0x5C # CHR ''u'' # appendHex [] r"
  by (auto simp: appendHex_def hexDigit_def RuneError_def)

text \<open>The escape of a character or rune is undone by \<^const>\<open>unescape\<close>, and it is made of whole
  characters of the grammar.\<close>

lemma escape_head_kinds:
  assumes "escape_head c s = (e, t)"
  obtains (simple) d where "e = [CHR 0x5C, d]" "simple_escape d = Some c" "t = s" "byte_val c < 0x80"
    | (hex) x where "e = CHR 0x5C # CHR ''u'' # appendHex [] x" "x < 0x10000" "\<not> is_surrogate x"
        "to_valid (c # s) = encode_rune x @ to_valid t"
    | (plain) "list_all (\<lambda>c. \<not> c < CHR '' '' \<and> c \<noteq> CHR 0x5C \<and> c \<noteq> CHR 0x22) e" "to_valid (c # s) = e @ to_valid t"
proof -
  have low: "to_valid (c # s) = [c] @ to_valid s" if "byte_val c < 0x80"
    using that by (simp add: RuneError_def)
  show thesis
  proof (cases "127 < byte_val c")
    case True
    then have big: "\<not> c < CHR '' ''" "c \<notin> {CHR ''>'', CHR ''<'', CHR ''&'', CHR 0x5C, CHR 0x22}"
      by (auto simp: less_char_def)
    obtain r n where d: "decode_rune (c # s) = (r, n)" by (cases "decode_rune (c # s)")
    have n: "t = drop n (c # s)" using assms True big d by (auto simp: escape_head_def split: if_splits)
    show thesis
    proof (cases "r = RuneError \<and> n = 1")
      case bad: True
      with assms True big d have "e = CHR 0x5C # CHR ''u'' # appendHex [] RuneError"
        by (auto simp: escape_head_def special_escapes(1) [symmetric] split: if_splits)
      then show thesis by (rule hex) (use bad d n in \<open>simp_all add: RuneError_def is_surrogate_def\<close>)
    next
      case False
      have "0 < n" using decode_rune_size [OF _ d] by simp
      with False have "\<not> (r = RuneError \<and> n \<le> 1)" by auto
      note enc = encode_decode_rune [OF d this]
      have v: "to_valid (c # s) = take n (c # s) @ to_valid t" using d False n by auto
      show thesis
      proof (cases "r = 0x2028 \<or> r = 0x2029")
        case sep: True
        with assms True big d False have "e = CHR 0x5C # ''u202'' @ [hexDigit (r mod 16)]"
          by (auto simp: escape_head_def split: if_splits)
        then have "e = CHR 0x5C # CHR ''u'' # appendHex [] r" using special_escapes(2) [OF sep] by simp
        then show thesis by (rule hex) (use sep enc v in \<open>auto simp: is_surrogate_def\<close>)
      next
        case no: False
        with assms True big d False have "e = take n (c # s)" by (auto simp: escape_head_def)
        moreover have "list_all (\<lambda>c. 0x80 \<le> byte_val c) (take n (c # s))"
          using decode_rune_high [OF d] True by simp
        ultimately show thesis using v by (intro plain) (auto simp: list_all_iff less_char_def)
      qed
    qed
  next
    case False
    then have lo: "byte_val c < 0x80" by simp
    show thesis
    proof (cases "c \<in> {CHR 0x0A, CHR 0x0D, CHR 0x09, CHR 0x5C, CHR 0x22}")
      case True
      then show thesis using assms
        by (elim insertE emptyE) (auto intro: simple simp: escape_head_def simple_escape_def less_char_def split: if_splits)
    next
      case no: False
      show thesis
      proof (cases "c < CHR '' '' \<or> c \<in> {CHR ''>'', CHR ''<'', CHR ''&''}")
        case True
        with assms no have "e = CHR 0x5C # CHR ''u'' # appendHex [] (byte_val c)" "t = s"
          by (auto simp: escape_head_def appendHex_target [of "_ # _"] split: if_splits)
        then show thesis using lo low by (intro hex [of "byte_val c"]) (auto simp: is_surrogate_def encode_ascii)
      next
        case plain': False
        with assms no lo have "e = [c]" "t = s" by (auto simp: escape_head_def split: if_splits)
        then show thesis using plain' no lo low by (intro plain) auto
      qed
    qed
  qed
qed

lemma unescape_escape_body: "unescape (escape_body s @ x) = to_valid s @ unescape x"
proof (induction s rule: escape_body.induct)
  case (2 c s)
  obtain e t where h: "escape_head c s = (e, t)" by (cases "escape_head c s")
  have IH: "unescape (escape_body t @ x) = to_valid t @ unescape x" using 2 h by auto
  from h show ?case
  proof (cases rule: escape_head_kinds)
    case (simple d)
    with IH h show ?thesis by (simp add: RuneError_def)
  next
    case (hex r)
    with IH h unescape_hex [OF hex(2,3), of "escape_body t @ x"] show ?thesis
      by (simp del: unescape.simps to_valid.simps)
  next
    case plain
    then have "list_all (\<lambda>c. \<not> c < CHR '' '' \<and> c \<noteq> CHR 0x5C) e" by (auto simp: list_all_iff)
    from unescape_plain [OF this, of "escape_body t @ x"] plain IH h show ?thesis by simp
  qed
qed simp

lemma json_chars_plain: "list_all (\<lambda>c. \<not> c < CHR '' '' \<and> c \<noteq> CHR 0x5C \<and> c \<noteq> CHR 0x22) e \<Longrightarrow> json_chars x \<Longrightarrow> json_chars (e @ x)"
  by (induction e) (auto intro: chars_plain)

lemma json_chars_hex: "json_chars x \<Longrightarrow> json_chars (CHR 0x5C # CHR ''u'' # appendHex [] r @ x)"
  using chars_hex [of "hexDigit (r div 0x1000 mod 16)" "hexDigit (r div 0x100 mod 16)" "hexDigit (r div 0x10 mod 16)" "hexDigit (r mod 16)" x]
  by (simp add: appendHex_def hexDigit_facts)

lemma simple_escape_is: "simple_escape d = Some c \<Longrightarrow> is_simple_escape d"
  by (auto simp: simple_escape_def is_simple_escape_def split: if_splits)

lemma json_chars_escape_body: "json_chars (escape_body s)"
proof (induction s rule: escape_body.induct)
  case (2 c s)
  obtain e t where h: "escape_head c s = (e, t)" by (cases "escape_head c s")
  have IH: "json_chars (escape_body t)" using 2 h by auto
  from h show ?case
  proof (cases rule: escape_head_kinds)
    case (simple d)
    with IH h chars_simple [OF simple_escape_is [OF simple(2)], of "escape_body t"] show ?thesis by simp
  next
    case (hex r)
    with json_chars_hex [OF IH, of r] h show ?thesis by simp
  next
    case plain
    with json_chars_plain [OF _ IH, of e] h show ?thesis by simp
  qed
qed (simp add: chars_nil)

lemma unescape_escaped: "unescape (escape_body s) = to_valid s"
  using unescape_escape_body [of s "[]"] by simp

text \<open>Strings that are valid UTF-8 come back unchanged.\<close>

definition valid_utf8 :: "gostring \<Rightarrow> bool" where
  "valid_utf8 s \<longleftrightarrow> to_valid s = s"

lemma valid_utf8_ascii: "list_all (\<lambda>c. byte_val c < 0x80) s \<Longrightarrow> valid_utf8 s"
  by (induction s) (simp_all add: valid_utf8_def RuneError_def)

lemma unescape_no_escape:
  assumes "json_chars s" and "CHR 0x5C \<notin> set s"
  shows "unescape s = s"
  using assms by (induction rule: json_chars.induct) auto

end
