(* ===== verification/FjScan.thy ===== *)
theory FjScan
  imports FjText
begin

text \<open>
  The scanners of \<open>pkg/fj\<close> (\<open>utilities.go\<close>, \<open>fj.go\<close>, \<open>context.go\<close>): they take a text and an
  index and cut out the string, number, literal, object or array there without validating it.
  \<open>Context\<close> holds what was found; its positions \<open>idx\<close> and \<open>idxs\<close>, computed from addresses, and its
  error are not modelled.  Floating-point numbers are abstract.
\<close>

section \<open>Values found\<close>

datatype Type = KNull | KFalse | KNumber | KString | KTrue | KJSON

record 'f Context =
  kind :: Type
  raw :: gostring
  str :: gostring
  num :: 'f

text \<open>The operations on floating-point numbers, the registered transformers and the switch
  \<open>DisableTransformers\<close>.\<close>

record 'f fj_env =
  parse_float :: "gostring \<Rightarrow> 'f"
  float_zero :: 'f
  float_eq :: "'f \<Rightarrow> 'f \<Rightarrow> bool"
  float_less :: "'f \<Rightarrow> 'f \<Rightarrow> bool"
  float_of :: "int \<Rightarrow> 'f"
  format_float :: "'f \<Rightarrow> gostring"
  conv_floats :: "'f float_ops"
  transformers :: "gostring \<Rightarrow> (gostring \<Rightarrow> gostring \<Rightarrow> gostring) option"
  DisableTransformers :: bool

definition no_value :: "'f fj_env \<Rightarrow> 'f Context" where
  "no_value env = \<lparr> kind = KNull, raw = [], str = [], num = float_zero env \<rparr>"

definition Exists :: "'f Context \<Rightarrow> bool" where
  "Exists ctx \<longleftrightarrow> kind ctx \<noteq> KNull \<or> length (raw ctx) \<noteq> 0"

definition Context_String :: "'f fj_env \<Rightarrow> 'f Context \<Rightarrow> gostring" where
  "Context_String env ctx = (case kind ctx of
      KNull \<Rightarrow> []
    | KTrue \<Rightarrow> ''true''
    | KFalse \<Rightarrow> ''false''
    | KString \<Rightarrow> str ctx
    | KJSON \<Rightarrow> raw ctx
    | KNumber \<Rightarrow>
       if length (raw ctx) = 0 then format_float env (num ctx)
       else
         let i = (if raw ctx ! 0 = CHR ''-'' then 1 else 0)
         in if list_all is_digit (drop i (raw ctx)) then raw ctx else format_float env (num ctx))"

text \<open>\<open>json[i:j]\<close>.\<close>

definition slice :: "'a list \<Rightarrow> nat \<Rightarrow> nat \<Rightarrow> 'a list" where
  "slice s i j = take (j - i) (drop i s)"

section \<open>Strings\<close>

text \<open>\<open>for j := n-1; j >= lo; j-- { if json[j] != '\\' { break }; count++ }\<close>\<close>

fun backslashes :: "gostring \<Rightarrow> nat \<Rightarrow> nat \<Rightarrow> nat" where
  "backslashes json lo 0 = 0"
| "backslashes json lo (Suc n) =
    (if lo \<le> n \<and> json ! n = CHR 0x5C then Suc (backslashes json lo n) else 0)"

definition escaped :: "gostring \<Rightarrow> nat \<Rightarrow> nat \<Rightarrow> bool" where
  "escaped json lo i \<longleftrightarrow> json ! (i - 1) = CHR 0x5C \<and> even (backslashes json lo (i - 1))"

text \<open>The index of the first quote at or after \<open>i\<close> that is not escaped, or the length.\<close>

function closing_quote :: "gostring \<Rightarrow> nat \<Rightarrow> nat \<Rightarrow> nat" where
  "closing_quote json lo i =
    (if i < length json then
       (if CHR 0x5C < json ! i then closing_quote json lo (Suc i)
        else if json ! i = CHR 0x22 \<and> \<not> escaped json lo i then i
        else closing_quote json lo (Suc i))
     else i)"
  by pat_completeness auto
termination
  by (relation "measure (\<lambda>(json, lo, i). length json - i)") auto

declare closing_quote.simps [simp del]

text \<open>The index of the quote that ends the string whose contents start at \<open>i\<close>, or the length; whether the
  string has an escape, and whether it is complete.\<close>

definition string_end :: "gostring \<Rightarrow> nat \<Rightarrow> nat \<times> bool \<times> bool" where
  "string_end json i =
    (let p = skip_while (\<lambda>c. c \<noteq> CHR 0x22 \<and> c \<noteq> CHR 0x5C) json i
     in if p < length json \<and> json ! p = CHR 0x22 then (p, False, True)
        else if p < length json then
          (let q = closing_quote json 1 (p + 1) in if q < length json then (q, True, True) else (q, False, False))
        else (p, False, False))"

text \<open>The new index, the quoted text, whether it has an escape, and whether it is complete.  \<open>i\<close> is the
  index after the opening quote.\<close>

definition extractJSONString :: "gostring \<Rightarrow> nat \<Rightarrow> nat \<times> gostring \<times> bool \<times> bool" where
  "extractJSONString json i =
    (if IsEmpty json then (i, json, False, False)
     else case string_end json i of
         (q, esc, True) \<Rightarrow> (q + 1, slice json (i - 1) (q + 1), esc, True)
       | (q, esc, False) \<Rightarrow> (q, drop (i - 1) json, esc, False))"

text \<open>The same for a text that starts with the quote: the quoted text and its contents.\<close>

definition extractAndUnescapeJSONString :: "gostring \<Rightarrow> gostring \<times> gostring" where
  "extractAndUnescapeJSONString json =
    (let p = skip_while (\<lambda>c. c \<noteq> CHR 0x22 \<and> c \<noteq> CHR 0x5C) json 1
     in if p < length json \<and> json ! p = CHR 0x22 then (take (p + 1) json, slice json 1 p)
        else if p < length json then
          (let q = closing_quote json 1 (p + 1)
           in if q < length json then (take (q + 1) json, unescape (slice json 1 q))
              else (if q + 1 < length json then take (q + 1) json else take q json, unescape (slice json 1 q)))
        else (json, tl json))"

section \<open>Numbers and literals\<close>

definition ends_number :: "byte \<Rightarrow> bool" where
  "ends_number c \<longleftrightarrow> c \<le> CHR '' '' \<or> c = CHR '','' \<or> c = CHR '']'' \<or> c = CHR ''}''"

definition extractJSONNumber :: "gostring \<Rightarrow> nat \<Rightarrow> nat \<times> gostring" where
  "extractJSONNumber json i =
    (if IsEmpty json then (i, json)
     else let j = skip_while (\<lambda>c. \<not> ends_number c) json (i + 1) in (j, slice json i j))"

definition is_lower :: "byte \<Rightarrow> bool" where
  "is_lower c \<longleftrightarrow> CHR ''a'' \<le> c \<and> c \<le> CHR ''z''"

definition extractJSONLowerLiteral :: "gostring \<Rightarrow> nat \<Rightarrow> nat \<times> gostring" where
  "extractJSONLowerLiteral json i =
    (if IsEmpty json then (i, json)
     else let j = skip_while is_lower json (i + 1) in (j, slice json i j))"

definition tokenizeNumber :: "'f fj_env \<Rightarrow> gostring \<Rightarrow> gostring \<times> 'f" where
  "tokenizeNumber env json =
    (let r = take (skip_while (\<lambda>c. \<not> (if c \<le> CHR ''-'' then c \<le> CHR '' '' \<or> c = CHR '',''
           else c = CHR '']'' \<or> c = CHR ''}'')) json 1) json
     in (r, parse_float env r))"

definition leadingLowercase :: "gostring \<Rightarrow> gostring" where
  "leadingLowercase json = take (skip_while is_lower json 1) json"

section \<open>Objects and arrays\<close>

text \<open>The index behind the bracket that closes the value, and whether there is one.\<close>

lemma closing_quote_ge [simp]: "i \<le> closing_quote json lo i"
proof (induction json lo i rule: closing_quote.induct)
  case (1 json lo i)
  then show ?case by (subst closing_quote.simps) (auto intro: Suc_leD)
qed

function value_end :: "gostring \<Rightarrow> nat \<Rightarrow> nat \<Rightarrow> nat \<times> bool" where
  "value_end json i depth =
    (if i < length json then
       (let c = json ! i in
        if c = CHR 0x22 then value_end json (Suc (closing_quote json (Suc i) (Suc i))) depth
        else if c = CHR ''{'' \<or> c = CHR ''['' \<or> c = CHR ''('' then value_end json (Suc i) (Suc depth)
        else if c = CHR ''}'' \<or> c = CHR '']'' \<or> c = CHR '')'' then
          (if depth = 1 then (Suc i, True) else value_end json (Suc i) (depth - 1))
        else value_end json (Suc i) depth)
     else (i, False))"
  by pat_completeness auto
termination
proof (relation "measure (\<lambda>(json, i, depth). length json - i)")
  fix json :: gostring and i depth
  assume "i < length json"
  then show "((json, Suc (closing_quote json (Suc i) (Suc i)), depth), json, i, depth)
      \<in> measure (\<lambda>(json, i, depth). length json - i)"
    using closing_quote_ge [of "Suc i" json "Suc i"] by (simp del: closing_quote_ge)
qed auto

declare value_end.simps [simp del]

definition extractJSONValue :: "gostring \<Rightarrow> nat \<Rightarrow> nat \<times> gostring" where
  "extractJSONValue json i =
    (if IsEmpty json then (i, [])
     else case value_end json (i + 1) 1 of
         (j, True) \<Rightarrow> (j, slice json i j)
       | (j, False) \<Rightarrow> (j, drop i json))"

text \<open>\<open>compactJSON\<close> cuts out the value that a text starts with; a text of no bytes, on which the code
  panics, is never passed to it.\<close>

definition compactJSON :: "gostring \<Rightarrow> gostring" where
  "compactJSON json =
    (if json = [] then []
     else if json ! 0 = CHR 0x22 then
       (let i = closing_quote json 1 1 in if length json \<le> i then json else take (i + 1) json)
     else case value_end json 1 1 of
         (j, True) \<Rightarrow> take j json
       | (j, False) \<Rightarrow> json)"

section \<open>The value at an index\<close>

text \<open>\<open>json[i] == 'n'\<close> starts \<open>nan\<close>, a number, unless a \<open>u\<close> or the end of the text follows.\<close>

definition starts_nan :: "gostring \<Rightarrow> nat \<Rightarrow> bool" where
  "starts_nan json i \<longleftrightarrow> json ! i = CHR ''n'' \<and> i + 1 < length json \<and> json ! (i + 1) \<noteq> CHR ''u''"

definition starts_number :: "byte \<Rightarrow> bool" where
  "starts_number c \<longleftrightarrow> c \<in> set ''+-0123456789iIN''"

text \<open>\<open>put_*\<close> are the assignments to the fields of a \<open>Context\<close>; a literal \<open>null\<close> leaves the kind as
  it is.\<close>

definition put_string :: "gostring \<Rightarrow> bool \<Rightarrow> 'f Context \<Rightarrow> 'f Context" where
  "put_string v esc ctx =
    ctx \<lparr> str := (if esc then unescape (butlast (tl v)) else butlast (tl v)), raw := v, kind := KString \<rparr>"

definition put_number :: "'f fj_env \<Rightarrow> gostring \<Rightarrow> 'f Context \<Rightarrow> 'f Context" where
  "put_number env v ctx = ctx \<lparr> raw := v, kind := KNumber, num := parse_float env v \<rparr>"

definition put_literal :: "byte \<Rightarrow> gostring \<Rightarrow> 'f Context \<Rightarrow> 'f Context" where
  "put_literal c v ctx =
    (let ctx1 = ctx \<lparr> raw := v \<rparr>
     in if c = CHR ''t'' then ctx1 \<lparr> kind := KTrue \<rparr> else if c = CHR ''f'' then ctx1 \<lparr> kind := KFalse \<rparr> else ctx1)"

definition put_json :: "gostring \<Rightarrow> 'f Context \<Rightarrow> 'f Context" where
  "put_json v ctx = ctx \<lparr> raw := v, kind := KJSON \<rparr>"

definition string_value :: "'f fj_env \<Rightarrow> gostring \<Rightarrow> bool \<Rightarrow> 'f Context" where
  "string_value env v esc = put_string v esc (no_value env)"

definition number_value :: "'f fj_env \<Rightarrow> gostring \<Rightarrow> 'f Context" where
  "number_value env v = put_number env v (no_value env)"

definition literal_value :: "'f fj_env \<Rightarrow> byte \<Rightarrow> gostring \<Rightarrow> 'f Context" where
  "literal_value env c v = put_literal c v (no_value env)"

definition json_value_of :: "'f fj_env \<Rightarrow> gostring \<Rightarrow> 'f Context" where
  "json_value_of env v = put_json v (no_value env)"

lemma extractJSONLowerLiteral_ge: "extractJSONLowerLiteral json i = (j, v) \<Longrightarrow> i \<le> j"
  by (auto simp: extractJSONLowerLiteral_def Let_def split: if_splits)

function extractJSONValueAt :: "'f fj_env \<Rightarrow> gostring \<Rightarrow> nat \<Rightarrow> bool \<Rightarrow> nat \<times> 'f Context \<times> bool" where
  "extractJSONValueAt env json i hit =
    (if i < length json then
       (let c = json ! i; found = (\<lambda>v. if hit then v else no_value env) in
        if c = CHR ''{'' \<or> c = CHR ''['' then
          (case extractJSONValue json i of (j, v) \<Rightarrow> (j, found (json_value_of env v), True))
        else if c \<le> CHR '' '' then extractJSONValueAt env json (Suc i) hit
        else if c = CHR 0x22 then
          (case extractJSONString json (i + 1) of (j, v, esc, ok) \<Rightarrow>
             if \<not> ok then (j, no_value env, False) else (j, found (string_value env v esc), True))
        else if starts_nan json i \<or> starts_number c then
          (case extractJSONNumber json i of (j, v) \<Rightarrow> (j, found (number_value env v), True))
        else if c = CHR ''n'' \<or> c = CHR ''t'' \<or> c = CHR ''f'' then
          (case extractJSONLowerLiteral json i of (j, v) \<Rightarrow>
             if hit then (j, literal_value env c v, True)
             else extractJSONValueAt env json (Suc j) hit)
        else extractJSONValueAt env json (Suc i) hit)
     else (i, no_value env, False))"
  by pat_completeness auto
termination
  by (relation "measure (\<lambda>(env, json, i, hit). length json - i)")
    (auto dest!: sym [THEN extractJSONLowerLiteral_ge])

declare extractJSONValueAt.simps [simp del]

text \<open>\<open>Parse\<close>: the value that a text starts with, after white space; an object or array is not cut off.\<close>

definition Parse :: "'f fj_env \<Rightarrow> gostring \<Rightarrow> 'f Context" where
  "Parse env json =
    (let i = skip_while (\<lambda>c. c \<le> CHR '' '') json 0; rest = drop i json in
     case rest of
       [] \<Rightarrow> no_value env
     | c # _ \<Rightarrow>
        if c = CHR ''{'' \<or> c = CHR ''['' then json_value_of env rest
        else if starts_number c \<or> starts_nan json i then
          (case tokenizeNumber env rest of (r, n) \<Rightarrow> (no_value env) \<lparr> kind := KNumber, raw := r, num := n \<rparr>)
        else if c = CHR ''n'' \<or> c = CHR ''t'' \<or> c = CHR ''f'' then literal_value env c (leadingLowercase rest)
        else if c = CHR 0x22 then
          (case extractAndUnescapeJSONString rest of (r, s) \<Rightarrow>
             (no_value env) \<lparr> kind := KString, raw := r, str := s \<rparr>)
        else no_value env)"

end
