(* ===== verification/FjTree.thy ===== *)
theory FjTree
  imports FjScan
begin

text \<open>
  Documents as trees, with the white space and the spelling of every leaf, and their texts; the
  trees are the values of the grammar of \<open>FjGrammar\<close>.  The scanners of \<open>FjScan\<close> cut exactly the
  text of a tree out of a document.
\<close>

section \<open>Trees\<close>

datatype jval =
    JNum gostring
  | JStr gostring
  | JTrue
  | JFalse
  | JNull
  | JArr gostring jelems
  | JObj gostring jmembers
and jelems =
    ENil
  | ECons gostring jval gostring jelems
and jmembers =
    MNil
  | MCons gostring gostring gostring gostring jval gostring jmembers

definition comma_before :: "bool \<Rightarrow> gostring \<Rightarrow> gostring" where
  "comma_before atEnd s = (if atEnd then [] else CHR '','' # s)"

fun render :: "jval \<Rightarrow> gostring"
  and render_elems :: "jelems \<Rightarrow> gostring"
  and render_members :: "jmembers \<Rightarrow> gostring" where
  "render (JNum s) = s"
| "render (JStr s) = CHR 0x22 # s @ [CHR 0x22]"
| "render JTrue = ''true''"
| "render JFalse = ''false''"
| "render JNull = ''null''"
| "render (JArr w es) = CHR ''['' # w @ render_elems es @ '']''"
| "render (JObj w ms) = CHR ''{'' # w @ render_members ms @ ''}''"
| "render_elems ENil = []"
| "render_elems (ECons w1 v w2 es) = w1 @ render v @ w2 @ comma_before (es = ENil) (render_elems es)"
| "render_members MNil = []"
| "render_members (MCons w1 k w2 w3 v w4 ms) =
    w1 @ CHR 0x22 # k @ CHR 0x22 # w2 @ CHR '':'' # w3 @ render v @ w4 @ comma_before (ms = MNil) (render_members ms)"

fun wf_val :: "jval \<Rightarrow> bool"
  and wf_elems :: "jelems \<Rightarrow> bool"
  and wf_members :: "jmembers \<Rightarrow> bool" where
  "wf_val (JNum s) \<longleftrightarrow> json_number s"
| "wf_val (JStr s) \<longleftrightarrow> json_chars s"
| "wf_val JTrue \<longleftrightarrow> True"
| "wf_val JFalse \<longleftrightarrow> True"
| "wf_val JNull \<longleftrightarrow> True"
| "wf_val (JArr w es) \<longleftrightarrow> json_ws w \<and> wf_elems es \<and> (es = ENil \<or> w = [])"
| "wf_val (JObj w ms) \<longleftrightarrow> json_ws w \<and> wf_members ms \<and> (ms = MNil \<or> w = [])"
| "wf_elems ENil \<longleftrightarrow> True"
| "wf_elems (ECons w1 v w2 es) \<longleftrightarrow> json_ws w1 \<and> wf_val v \<and> json_ws w2 \<and> wf_elems es"
| "wf_members MNil \<longleftrightarrow> True"
| "wf_members (MCons w1 k w2 w3 v w4 ms) \<longleftrightarrow>
    json_ws w1 \<and> json_chars k \<and> json_ws w2 \<and> json_ws w3 \<and> wf_val v \<and> json_ws w4 \<and> wf_members ms"

text \<open>The texts of the well-formed trees are the values of the grammar.\<close>

lemma render_value:
  "wf_val v \<Longrightarrow> json_value (render v)"
  "wf_elems es \<Longrightarrow> es \<noteq> ENil \<Longrightarrow> json_elements (render_elems es)"
  "wf_members ms \<Longrightarrow> ms \<noteq> MNil \<Longrightarrow> json_members (render_members ms)"
proof (induction v and es and ms)
  case (JArr w es)
  then show ?case by (cases "es = ENil") (auto intro: value_array value_array_empty)
next
  case (JObj w ms)
  then show ?case by (cases "ms = MNil") (auto intro: value_object value_object_empty)
next
  case (ECons w1 v w2 es)
  then show ?case using elements_one [of w1 "render v" w2] elements_more [of w1 "render v" w2 "render_elems es"]
    by (cases "es = ENil") (auto simp: comma_before_def)
next
  case (MCons w1 k w2 w3 v w4 ms)
  then show ?case using members_one [of w1 k w2 w3 "render v" w4] members_more [of w1 k w2 w3 "render v" w4 "render_members ms"]
    by (cases "ms = MNil") (auto simp: comma_before_def)
qed (auto intro: json_value_json_elements_json_members.intros)

lemma value_tree:
  "json_value s \<Longrightarrow> \<exists>v. wf_val v \<and> render v = s"
  "json_elements t \<Longrightarrow> \<exists>es. wf_elems es \<and> es \<noteq> ENil \<and> render_elems es = t"
  "json_members u \<Longrightarrow> \<exists>ms. wf_members ms \<and> ms \<noteq> MNil \<and> render_members ms = u"
proof (induction rule: json_value_json_elements_json_members.inducts)
  case (value_number s)
  then show ?case by (intro exI [of _ "JNum s"]) simp
next
  case (value_string s)
  then show ?case by (intro exI [of _ "JStr s"]) simp
next
  case value_true
  show ?case by (intro exI [of _ JTrue]) simp
next
  case value_false
  show ?case by (intro exI [of _ JFalse]) simp
next
  case value_null
  show ?case by (intro exI [of _ JNull]) simp
next
  case (value_array_empty w)
  then show ?case by (intro exI [of _ "JArr w ENil"]) simp
next
  case (value_array es)
  then obtain t where "wf_elems t" "render_elems t = es" by blast
  then show ?case by (intro exI [of _ "JArr [] t"]) (simp add: json_ws_def)
next
  case (value_object_empty w)
  then show ?case by (intro exI [of _ "JObj w MNil"]) simp
next
  case (value_object ms)
  then obtain t where "wf_members t" "render_members t = ms" by blast
  then show ?case by (intro exI [of _ "JObj [] t"]) (simp add: json_ws_def)
next
  case (elements_one w1 v w2)
  then obtain t where "wf_val t" "render t = v" by blast
  with elements_one show ?case by (intro exI [of _ "ECons w1 t w2 ENil"]) (simp add: comma_before_def)
next
  case (elements_more w1 v w2 es)
  then obtain t u where "wf_val t" "render t = v" "wf_elems u" "u \<noteq> ENil" "render_elems u = es" by blast
  with elements_more show ?case by (intro exI [of _ "ECons w1 t w2 u"]) (simp add: comma_before_def)
next
  case (members_one w1 k w2 w3 v w4)
  then obtain t where "wf_val t" "render t = v" by blast
  with members_one show ?case by (intro exI [of _ "MCons w1 k w2 w3 t w4 MNil"]) (simp add: comma_before_def)
next
  case (members_more w1 k w2 w3 v w4 ms)
  then obtain t u where "wf_val t" "render t = v" "wf_members u" "u \<noteq> MNil" "render_members u = ms" by blast
  with members_more show ?case by (intro exI [of _ "MCons w1 k w2 w3 t w4 u"]) (simp add: comma_before_def)
qed

theorem json_value_iff_tree: "json_value s \<longleftrightarrow> (\<exists>v. wf_val v \<and> render v = s)"
  using render_value(1) value_tree(1) by blast

section \<open>Quotes\<close>

text \<open>In the contents of a string a quote follows an odd number of backslashes, and the end an even one.\<close>

lemma json_chars_quotes:
  assumes "json_chars s"
  shows "even (trailing s) \<and> (\<forall>m < length s. s ! m = CHR 0x22 \<longrightarrow> odd (trailing (take m s)))"
  using assms
proof (induction rule: json_chars.induct)
  case (chars_plain c s)
  have "trailing (c # t) = trailing t" for t using trailing_plain [OF chars_plain(3), of "[]"] by simp
  with chars_plain show ?case by (auto simp: nth_Cons take_Cons split: nat.splits)
next
  case (chars_simple c s)
  have "odd (trailing (take m (CHR 0x5C # c # s)))"
    if "m < length (CHR 0x5C # c # s)" "(CHR 0x5C # c # s) ! m = CHR 0x22" for m
  proof (cases m)
    case 0
    with that show ?thesis by simp
  next
    case (Suc k)
    show ?thesis
    proof (cases k)
      case 0
      with Suc show ?thesis by (simp add: trailing_def)
    next
      case (Suc l)
      with \<open>m = Suc k\<close> that chars_simple show ?thesis by (simp add: trailing_pair)
    qed
  qed
  with chars_simple show ?case by (simp add: trailing_pair)
next
  case (chars_hex a b c d s)
  then have q: "CHR 0x22 \<notin> {a, b, c, d}" "d \<noteq> CHR 0x5C" by (auto simp: is_hex_def)
  have h: "trailing (CHR 0x5C # CHR ''u'' # a # b # c # d # t) = trailing t" for t
    using trailing_plain [OF q(2), of "[CHR 0x5C, CHR ''u'', a, b, c]" t] by simp
  have "odd (trailing (take m (CHR 0x5C # CHR ''u'' # a # b # c # d # s)))"
    if "m < length (CHR 0x5C # CHR ''u'' # a # b # c # d # s)" "(CHR 0x5C # CHR ''u'' # a # b # c # d # s) ! m = CHR 0x22" for m
  proof -
    have "6 \<le> m" using that(2) q(1) by (auto simp: nth_Cons numeral_eq_Suc not_less_eq_eq split: nat.splits)
    then obtain l where "m = 6 + l" using le_Suc_ex by blast
    with that chars_hex h show ?thesis by (simp add: numeral_eq_Suc)
  qed
  with chars_hex h show ?case by simp
qed simp

text \<open>The code counts the backslashes in the whole text, which gives the same as in the string.\<close>

lemma drop_nth:
  assumes "drop i xs = s @ t" and "m < length s"
  shows "xs ! (i + m) = s ! m" and "i + m < length xs"
proof -
  have i: "i \<le> length xs" using assms by (cases "i \<le> length xs") auto
  then have "xs ! (i + m) = drop i xs ! m" by simp
  then show "xs ! (i + m) = s ! m" using assms by (simp add: nth_append)
  have "length xs - i = length s + length t" using arg_cong [OF assms(1), of length] by simp
  with assms(2) i show "i + m < length xs" by linarith
qed

lemma backslashes_trailing:
  assumes "drop i json = s @ t" and "lo \<le> i" and "lo = i \<or> 0 < i \<and> json ! (i - 1) \<noteq> CHR 0x5C" and "m \<le> length s"
  shows "backslashes json lo (i + m) = trailing (take m s)"
  using assms(4)
proof (induction m)
  case 0
  then show ?case using assms(2,3) by (cases i) auto
next
  case (Suc m)
  with drop_nth(1) [OF assms(1), of m] trailing_take_Suc [of m s] assms(2) show ?case by simp
qed

text \<open>The opening quote of the string \<open>s\<close> is at \<open>i - 1\<close>, and the closing one behind \<open>s\<close>.\<close>

definition quoted_at :: "gostring \<Rightarrow> nat \<Rightarrow> gostring \<Rightarrow> gostring \<Rightarrow> bool" where
  "quoted_at json i s t \<longleftrightarrow> 0 < i \<and> json ! (i - 1) = CHR 0x22 \<and> drop i json = s @ CHR 0x22 # t \<and> json_chars s"

lemma escaped_in_string:
  assumes "quoted_at json i s t" and "lo \<le> i" and "m \<le> length s"
  shows "escaped json lo (i + m) \<longleftrightarrow> odd (trailing (take m s))"
proof (cases m)
  case 0
  with assms show ?thesis by (simp add: escaped_def quoted_at_def)
next
  case (Suc k)
  have d: "drop i json = s @ CHR 0x22 # t" "0 < i" "json ! (i - 1) \<noteq> CHR 0x5C" using assms(1) by (auto simp: quoted_at_def)
  have k: "k < length s" using Suc assms(3) by simp
  have "backslashes json lo (i + k) = trailing (take k s)"
    using backslashes_trailing [OF d(1) assms(2)] d k by simp
  with drop_nth(1) [OF d(1), of k] k trailing_take_Suc [OF k] Suc show ?thesis
    by (simp add: escaped_def)
qed

lemma closing_quote_found:
  assumes "quoted_at json i s t" and "lo \<le> i" and "i \<le> k" and "k \<le> i + length s"
  shows "closing_quote json lo k = i + length s"
  using assms(3,4)
proof (induction "i + length s - k" arbitrary: k)
  case 0
  then have k: "k = i + length s" by simp
  have "json ! (i + length s) = CHR 0x22 \<and> i + length s < length json"
    using drop_nth [of i json "s @ [CHR 0x22]" t "length s"] assms(1) by (simp add: quoted_at_def nth_append)
  moreover have "\<not> escaped json lo (i + length s)"
    using escaped_in_string [OF assms(1,2), of "length s"] json_chars_quotes [of s] assms(1) by (simp add: quoted_at_def)
  ultimately show ?case unfolding k by (subst closing_quote.simps) simp
next
  case (Suc n)
  define m where "m = k - i"
  have m: "k = i + m" "m < length s" using Suc by (auto simp: m_def)
  have d: "drop i json = s @ CHR 0x22 # t" using assms(1) by (simp add: quoted_at_def)
  have j: "json ! k = s ! m" "k < length json" using drop_nth [OF d m(2)] m(1) by auto
  have "\<not> (json ! k = CHR 0x22 \<and> \<not> escaped json lo k)"
    using escaped_in_string [OF assms(1,2), of m] json_chars_quotes [of s] assms(1) m j by (auto simp: quoted_at_def)
  then have "closing_quote json lo k = closing_quote json lo (Suc k)"
    using j(2) by (subst closing_quote.simps) auto
  also have "\<dots> = i + length s" using Suc by simp
  finally show ?case .
qed

text \<open>A text with a visible character is not blank.\<close>

lemma drop_space_visible_kept: "drop_space s = Some t \<Longrightarrow> c \<in> set s \<Longrightarrow> visible c \<Longrightarrow> c \<in> set t"
  by (cases s) (auto simp: visible_def byte_is_def split: if_splits list.splits)

lemma TrimLeftSpace_visible_kept: "visible c \<Longrightarrow> c \<in> set s \<Longrightarrow> c \<in> set (TrimLeftSpace s)"
proof (induction s rule: TrimLeftSpace.induct)
  case (1 s)
  then show ?case
    by (cases "drop_space s") (subst TrimLeftSpace.simps, auto dest: drop_space_visible_kept)+
qed

lemma IsEmpty_no_visible: "visible c \<Longrightarrow> c \<in> set s \<Longrightarrow> \<not> IsEmpty s"
  using TrimLeftSpace_visible_kept by (fastforce simp: IsEmpty_def)

text \<open>\<open>extractJSONString\<close> returns the string with its quotes.\<close>

lemma quoted_at_positions:
  assumes "quoted_at json i s t"
  shows "drop (i - 1) json = CHR 0x22 # s @ CHR 0x22 # t" "json ! (i + length s) = CHR 0x22" "i + length s < length json"
    "\<not> IsEmpty json"
proof -
  have d: "drop i json = s @ CHR 0x22 # t" "0 < i" "json ! (i - 1) = CHR 0x22" using assms by (auto simp: quoted_at_def)
  have len: "i - 1 < length json" using arg_cong [OF d(1), of length] by (cases "i \<le> length json") auto
  show "drop (i - 1) json = CHR 0x22 # s @ CHR 0x22 # t" using Cons_nth_drop_Suc [OF len] d by simp
  show "json ! (i + length s) = CHR 0x22" "i + length s < length json"
    using drop_nth [of i json "s @ [CHR 0x22]" t "length s"] d(1) by (simp_all add: nth_append)
  then have "CHR 0x22 \<in> set json" by (metis nth_mem)
  then show "\<not> IsEmpty json" by (rule IsEmpty_no_visible [rotated]) (simp add: visible_def)
qed

lemma first_special:
  assumes "json_chars s"
  defines "u \<equiv> takeWhile (\<lambda>c. c \<noteq> CHR 0x22 \<and> c \<noteq> CHR 0x5C) s"
  shows "if CHR 0x5C \<in> set s then length u < length s \<and> s ! length u = CHR 0x5C else u = s"
proof (cases "length u < length s")
  case False
  then have "u = s" unfolding u_def by (metis le_antisym length_takeWhile_le linorder_not_le takeWhile_eq_take take_all)
  moreover have "CHR 0x5C \<notin> set u" unfolding u_def by (auto dest: set_takeWhileD)
  ultimately show ?thesis by simp
next
  case True
  then have c: "s ! length u = CHR 0x22 \<or> s ! length u = CHR 0x5C" unfolding u_def using nth_length_takeWhile by fastforce
  have "take (length u) s = u" unfolding u_def by (metis takeWhile_eq_take)
  moreover have "CHR 0x5C \<notin> set u" unfolding u_def by (auto dest: set_takeWhileD)
  then have "trailing u = 0" by (cases u rule: rev_cases) (auto simp: trailing_snoc)
  ultimately have "s ! length u \<noteq> CHR 0x22" using json_chars_quotes [OF assms(1)] True by auto
  with c True show ?thesis by (metis nth_mem)
qed

lemma string_end_found:
  assumes "quoted_at json i s t"
  shows "string_end json i = (i + length s, CHR 0x5C \<in> set s, True)"
proof -
  have d: "drop i json = s @ CHR 0x22 # t" "0 < i" "json_chars s" using assms by (auto simp: quoted_at_def)
  note pos = quoted_at_positions [OF assms]
  define u where "u = takeWhile (\<lambda>c. c \<noteq> CHR 0x22 \<and> c \<noteq> CHR 0x5C) s"
  have "takeWhile (\<lambda>c. c \<noteq> CHR 0x22 \<and> c \<noteq> CHR 0x5C) (s @ CHR 0x22 # t) = u"
    unfolding u_def by (induction s) auto
  then have p: "skip_while (\<lambda>c. c \<noteq> CHR 0x22 \<and> c \<noteq> CHR 0x5C) json i = i + length u"
    using d(1) by (simp add: skip_while_takeWhile)
  note f = first_special [OF d(3), folded u_def]
  show ?thesis
  proof (cases "CHR 0x5C \<in> set s")
    case True
    with f have u: "length u < length s" "s ! length u = CHR 0x5C" by simp_all
    have j: "json ! (i + length u) = CHR 0x5C" "i + length u < length json"
      using drop_nth [OF d(1) u(1)] u(2) by simp_all
    have "closing_quote json 1 (i + length u + 1) = i + length s"
      by (rule closing_quote_found [OF assms]) (use d(2) u(1) in simp_all)
    with True p j pos show ?thesis unfolding string_end_def by (simp add: Let_def)
  next
    case False
    with f p pos show ?thesis unfolding string_end_def by (simp add: Let_def)
  qed
qed

lemma extractJSONString_found:
  assumes "quoted_at json i s t"
  shows "extractJSONString json i = (i + length s + 1, CHR 0x22 # s @ [CHR 0x22], CHR 0x5C \<in> set s, True)"
proof -
  have "0 < i" using assms by (auto simp: quoted_at_def)
  then have "slice json (i - 1) (i + length s + 1) = CHR 0x22 # s @ [CHR 0x22]"
    using quoted_at_positions(1) [OF assms] by (simp add: slice_def Suc_diff_le)
  with string_end_found [OF assms] quoted_at_positions(4) [OF assms] show ?thesis
    by (simp add: extractJSONString_def)
qed

section \<open>Values\<close>

text \<open>What is behind a value in a document.\<close>

definition value_follows :: "gostring \<Rightarrow> bool" where
  "value_follows t \<longleftrightarrow> t = [] \<or> is_ws (hd t) \<or> hd t \<in> set '',}]''"

definition text_at :: "gostring \<Rightarrow> nat \<Rightarrow> gostring \<Rightarrow> gostring \<Rightarrow> bool" where
  "text_at json i s t \<longleftrightarrow> drop i json = s @ t"

lemma text_at_append: "text_at json i (s @ u) t \<Longrightarrow> text_at json (i + length s) u t"
  by (simp add: text_at_def) (metis add.commute append_eq_conv_conj drop_drop)

lemma text_at_left: "text_at json i (s @ u) t \<Longrightarrow> text_at json i s (u @ t)"
  by (simp add: text_at_def)

lemma text_at_Cons: "text_at json i (c # s) t \<longleftrightarrow> i < length json \<and> json ! i = c \<and> text_at json (Suc i) s t"
  unfolding text_at_def by (auto dest: drop_ConsD simp: Cons_nth_drop_Suc [symmetric])

lemma at_quoted: "text_at json i (CHR 0x22 # s @ CHR 0x22 # u) t \<Longrightarrow> json_chars s \<Longrightarrow> quoted_at json (Suc i) s (u @ t)"
  by (simp add: quoted_at_def text_at_Cons) (simp add: text_at_def)

text \<open>A text that the loop of \<^const>\<open>value_end\<close> passes over at the same depth.\<close>

definition skipped :: "gostring \<Rightarrow> bool" where
  "skipped s \<longleftrightarrow> (\<forall>json i t d. text_at json i s t \<longrightarrow> value_end json i (Suc d) = value_end json (i + length s) (Suc d))"

lemma skippedD: "skipped s \<Longrightarrow> text_at json i s t \<Longrightarrow> value_end json i (Suc d) = value_end json (i + length s) (Suc d)"
  unfolding skipped_def by blast

lemma skipped_Nil [simp]: "skipped []"
  by (simp add: skipped_def)

lemma skippedI: "(\<And>json i t d. text_at json i s t \<Longrightarrow> value_end json i (Suc d) = value_end json (i + length s) (Suc d)) \<Longrightarrow> skipped s"
  unfolding skipped_def by blast

lemma skipped_append: "skipped s \<Longrightarrow> skipped u \<Longrightarrow> skipped (s @ u)"
proof (rule skippedI)
  fix json i t d
  assume "skipped s" "skipped u" and a: "text_at json i (s @ u) t"
  with skippedD [OF _ text_at_left [OF a]] skippedD [OF _ text_at_append [OF a]]
  show "value_end json i (Suc d) = value_end json (i + length (s @ u)) (Suc d)" by (metis add.assoc length_append)
qed

definition neutral :: "byte \<Rightarrow> bool" where
  "neutral c \<longleftrightarrow> c \<notin> set ''{}[]()'' \<and> c \<noteq> CHR 0x22"

lemma skipped_neutral_Cons: "neutral c \<Longrightarrow> skipped s \<Longrightarrow> skipped (c # s)"
proof (rule skippedI)
  fix json i t d
  assume n: "neutral c" and s: "skipped s" and "text_at json i (c # s) t"
  then have i: "i < length json" "json ! i = c" "text_at json (Suc i) s t" by (auto simp: text_at_Cons)
  then have "value_end json i (Suc d) = value_end json (Suc i) (Suc d)"
    using n by (subst value_end.simps) (auto simp: neutral_def Let_def)
  also have "\<dots> = value_end json (Suc i + length s) (Suc d)" using s i(3) by (rule skippedD)
  finally show "value_end json i (Suc d) = value_end json (i + length (c # s)) (Suc d)" by simp
qed

lemma skipped_neutral: "list_all neutral s \<Longrightarrow> skipped s"
  by (induction s) (auto intro: skipped_neutral_Cons)

lemma skipped_string: "json_chars s \<Longrightarrow> skipped (CHR 0x22 # s @ [CHR 0x22])"
proof (rule skippedI)
  fix json i t d
  assume s: "json_chars s" and a: "text_at json i (CHR 0x22 # s @ [CHR 0x22]) t"
  have "closing_quote json (Suc i) (Suc i) = Suc i + length s"
    by (rule closing_quote_found [OF at_quoted]) (use s a in simp_all)
  with a show "value_end json i (Suc d) = value_end json (i + length (CHR 0x22 # s @ [CHR 0x22])) (Suc d)"
    by (subst value_end.simps) (simp add: text_at_Cons Let_def)
qed

lemma skipped_brackets:
  assumes "c \<in> set ''{[''" and "e \<in> set ''}]''" and "skipped s"
  shows "skipped (c # s @ [e])"
proof (rule skippedI)
  fix json i t d
  assume a: "text_at json i (c # s @ [e]) t"
  then have i: "i < length json" "json ! i = c" "text_at json (Suc i) (s @ [e]) t" by (auto simp: text_at_Cons)
  have e: "Suc i + length s < length json \<and> json ! (Suc i + length s) = e"
    using text_at_append [OF i(3)] by (simp add: text_at_Cons)
  have "value_end json i (Suc d) = value_end json (Suc i) (Suc (Suc d))"
    using assms(1) i by (subst value_end.simps) (auto simp: Let_def)
  also have "\<dots> = value_end json (Suc i + length s) (Suc (Suc d))"
    using skippedD [OF assms(3) text_at_left [OF i(3)]] by simp
  also have "\<dots> = value_end json (Suc (Suc i + length s)) (Suc d)"
    using assms(2) e by (subst value_end.simps) (auto simp: Let_def)
  finally show "value_end json i (Suc d) = value_end json (i + length (c # s @ [e])) (Suc d)" by simp
qed

lemma ws_char_neutral: "is_ws c \<Longrightarrow> neutral c"
  by (auto simp: is_ws_def neutral_def)

lemma ws_neutral: "json_ws w \<Longrightarrow> list_all neutral w"
  unfolding json_ws_def list_all_iff using ws_char_neutral by blast

definition number_char :: "byte \<Rightarrow> bool" where
  "number_char c \<longleftrightarrow> is_digit c \<or> c \<in> set ''+-.eE''"

lemma digits_number_chars: "digits1 ds \<Longrightarrow> list_all number_char ds"
  by (auto simp: digits1_def number_char_def list_all_iff)

lemma number_chars:
  assumes "json_number s"
  shows "list_all number_char s"
proof -
  from assms obtain m ip fp ep where s: "s = m @ ip @ fp @ ep" and p: "m = [] \<or> m = ''-''" "json_int ip" "json_frac fp" "json_exp ep"
    unfolding json_number_def by blast
  have "list_all number_char m" using p(1) by (auto simp: number_char_def)
  moreover have "list_all number_char ip" using p(2) by (simp add: json_int_def digits_number_chars)
  moreover have "list_all number_char fp"
    using p(3) digits_number_chars unfolding json_frac_def by (auto simp: number_char_def)
  moreover have "list_all number_char ep"
    using p(4) digits_number_chars unfolding json_exp_def by (auto simp: number_char_def)
  ultimately show ?thesis by (simp add: s)
qed

lemma number_char_neutral: "number_char c \<Longrightarrow> neutral c"
  by (auto simp: number_char_def neutral_def is_digit_def)

lemma skipped_number: "json_number s \<Longrightarrow> skipped s"
  using number_chars by (intro skipped_neutral) (auto simp: list_all_iff number_char_neutral)

lemma skipped_ws: "json_ws w \<Longrightarrow> skipped w"
  by (intro skipped_neutral ws_neutral)

lemma skipped_value:
  "wf_val v \<Longrightarrow> skipped (render v)"
  "wf_elems es \<Longrightarrow> skipped (render_elems es)"
  "wf_members ms \<Longrightarrow> skipped (render_members ms)"
proof (induction v and es and ms)
  case (JArr w es)
  then have "skipped (w @ render_elems es)" by (simp add: skipped_append skipped_ws)
  from skipped_brackets [OF _ _ this, of "CHR ''[''" "CHR '']''"] show ?case by simp
next
  case (JObj w ms)
  then have "skipped (w @ render_members ms)" by (simp add: skipped_append skipped_ws)
  from skipped_brackets [OF _ _ this, of "CHR ''{''" "CHR ''}''"] show ?case by simp
next
  case (ECons w1 v w2 es)
  have c: "skipped (comma_before (es = ENil) (render_elems es))"
    using ECons by (auto simp: comma_before_def neutral_def intro: skipped_neutral_Cons)
  have "skipped w1" "skipped w2" "skipped (render v)" using ECons by (simp_all add: skipped_ws)
  with c show ?case by (simp add: skipped_append)
next
  case (MCons w1 k w2 w3 v w4 ms)
  have c: "skipped (comma_before (ms = MNil) (render_members ms))"
    using MCons by (auto simp: comma_before_def neutral_def intro: skipped_neutral_Cons)
  have "skipped w1" "skipped w2" "skipped w3" "skipped w4" "skipped (render v)" "skipped (CHR 0x22 # k @ [CHR 0x22])"
    using MCons by (simp_all add: skipped_ws skipped_string)
  then have "skipped (w1 @ (CHR 0x22 # k @ [CHR 0x22]) @ w2 @ [CHR '':''] @ w3 @ render v @ w4 @ comma_before (ms = MNil) (render_members ms))"
    using c by (intro skipped_append) (simp_all add: skipped_neutral neutral_def)
  then show ?case by simp
qed (simp_all add: skipped_number skipped_string, simp_all add: skipped_neutral neutral_def)

end
