(* ===== verification/FjPath.thy ===== *)
theory FjPath
  imports FjScan Glob
begin

text \<open>
  The parts of a path in \<open>pkg/fj\<close> (\<open>utilities.go\<close>): its segments, filter queries, pipes,
  sub-selectors, static values and transformer calls, and the test of a filter condition.
\<close>

section \<open>Segments\<close>

text \<open>Whether the rest of a path goes on with a sub-selector or a registered transformer, as after a
  pipe.\<close>

definition looksLikeJSONOrTransformer :: "'f fj_env \<Rightarrow> gostring \<Rightarrow> bool" where
  "looksLikeJSONOrTransformer env s =
    (if DisableTransformers env then False
     else
       let c = s ! 0
       in if c = CHR ''@''
          then transformers env (takeWhile (\<lambda>c. c \<notin> set ''.|:'') (tl s)) \<noteq> None
          else c = CHR ''['' \<or> c = CHR ''{'')"

record wildcard =
  w_part :: gostring
  w_path :: gostring
  w_pipe :: gostring
  w_piped :: bool
  w_wild :: bool
  w_more :: bool

text \<open>\<open>part\<close> is what has been read of the segment, without escapes; the two loops of the code, before
  and after the first escape, do the same to it.\<close>

fun split_segment :: "'f fj_env \<Rightarrow> gostring \<Rightarrow> bool \<Rightarrow> gostring \<Rightarrow> wildcard" where
  "split_segment env part wild [] =
    \<lparr> w_part = part, w_path = [], w_pipe = [], w_piped = False, w_wild = wild, w_more = False \<rparr>"
| "split_segment env part wild (c # rest) =
    (if c = CHR ''|'' then
       \<lparr> w_part = part, w_path = [], w_pipe = rest, w_piped = True, w_wild = wild, w_more = False \<rparr>
     else if c = CHR ''.'' then
       (if rest \<noteq> [] \<and> looksLikeJSONOrTransformer env rest
        then \<lparr> w_part = part, w_path = [], w_pipe = rest, w_piped = True, w_wild = wild, w_more = False \<rparr>
        else \<lparr> w_part = part, w_path = rest, w_pipe = [], w_piped = False, w_wild = wild, w_more = True \<rparr>)
     else if c = CHR 0x5C then
       (case rest of
          [] \<Rightarrow> \<lparr> w_part = part, w_path = [], w_pipe = [], w_piped = False, w_wild = wild, w_more = False \<rparr>
        | d # rest' \<Rightarrow> split_segment env (part @ [d]) wild rest')
     else split_segment env (part @ [c]) (wild \<or> c = CHR ''*'' \<or> c = CHR ''?'') rest)"

definition splitPathSegment :: "'f fj_env \<Rightarrow> gostring \<Rightarrow> wildcard" where
  "splitPathSegment env path = split_segment env [] False path"

definition matchesGlob :: "gostring \<Rightarrow> gostring \<Rightarrow> bool" where
  "matchesGlob s pattern = fst (MatchLimit s pattern 10000)"

section \<open>Filter queries\<close>

text \<open>The index of the quote that ends a string in a query, past escapes, and whether one was seen.\<close>

function query_string_end :: "gostring \<Rightarrow> nat \<Rightarrow> bool \<Rightarrow> nat \<times> bool" where
  "query_string_end query k esc =
    (if k < length query then
       (if query ! k = CHR 0x5C then query_string_end query (k + 2) True
        else if query ! k = CHR 0x22 then (k, esc)
        else query_string_end query (k + 1) esc)
     else (k, esc))"
  by pat_completeness auto
termination
  by (relation "measure (\<lambda>(query, k, esc). length query - k)") auto

declare query_string_end.simps [simp del]

lemma query_string_end_ge: "query_string_end query k esc = (j, e) \<Longrightarrow> k \<le> j"
proof (induction query k esc rule: query_string_end.induct)
  case (1 query k esc)
  then show ?case by (subst (asm) query_string_end.simps) (fastforce split: if_splits)
qed

text \<open>The end of the brackets, the index of the operator (0 for none), the depth left and the escapes.\<close>

function query_end :: "gostring \<Rightarrow> nat \<Rightarrow> nat \<Rightarrow> nat \<Rightarrow> bool \<Rightarrow> nat \<times> nat \<times> nat \<times> bool" where
  "query_end query e j depth esc =
    (if e < length query then
       (let c = query ! e in
        if depth = 1 \<and> j = 0 \<and> c \<in> set ''!=<>%'' then query_end query (e + 1) e depth esc
        else if c = CHR 0x5C then query_end query (e + 2) j depth esc
        else if c = CHR ''['' \<or> c = CHR ''('' then query_end query (e + 1) j (depth + 1) esc
        else if c = CHR '']'' \<or> c = CHR '')'' then
          (if depth = 1 then (e, j, 0, esc) else query_end query (e + 1) j (depth - 1) esc)
        else if c = CHR 0x22 then
          (case query_string_end query (e + 1) esc of (k, esc') \<Rightarrow> query_end query (k + 1) j depth esc')
        else query_end query (e + 1) j depth esc)
     else (e, j, depth, esc))"
  by pat_completeness auto
termination
  by (relation "measure (\<lambda>(query, e, j, depth, esc). length query - e)")
    (auto dest!: sym [THEN query_string_end_ge])

declare query_end.simps [simp del]

definition operator_length :: "gostring \<Rightarrow> nat" where
  "operator_length value =
    (if length value = 1 then 1
     else if take 2 value \<in> {''!='', ''!%'', ''<='', ''>=''} then 2
     else if value ! 0 \<in> set ''<>=%'' then 1
     else 0)"

definition parseFilterQuery ::
    "gostring \<Rightarrow> gostring \<times> gostring \<times> gostring \<times> gostring \<times> nat \<times> bool \<times> bool" where
  "parseFilterQuery query =
    (if length query < 2 \<or> query ! 0 \<noteq> CHR ''#'' \<or> query ! 1 \<noteq> CHR ''('' \<and> query ! 1 \<noteq> CHR ''[''
     then ([], [], [], [], 0, False, False)
     else
       let (e, j, depth, esc) = query_end query 2 0 1 False
       in if 0 < depth then ([], [], [], [], e, False, False)
          else if 0 < j then
            (let path = str_Trim (slice query 2 j);
                 value0 = str_Trim (slice query j e);
                 value = (if take 2 value0 = ''=='' then tl value0 else value0);
                 trail = (if take 2 value0 = ''=='' then 1 else operator_length value0)
             in (path, take trail value, str_Trim (drop trail value), drop (e + 1) query, e + 1, esc, True))
          else (str_Trim (slice query 2 e), [], [], drop (e + 1) query, e + 1, esc, True))"

section \<open>Segments for arrays\<close>

record meta =
  m_part :: gostring
  m_path :: gostring
  m_pipe :: gostring
  m_piped :: bool
  m_more :: bool
  m_arch :: bool
  m_logOk :: bool
  m_logKey :: gostring
  q_on :: bool
  q_all :: bool
  q_path :: gostring
  q_opt :: gostring
  q_val :: gostring

definition no_meta :: meta where
  "no_meta = \<lparr> m_part = [], m_path = [], m_pipe = [], m_piped = False, m_more = False, m_arch = False,
     m_logOk = False, m_logKey = [], q_on = False, q_all = False, q_path = [], q_opt = [], q_val = [] \<rparr>"

text \<open>The quotes around the value of a query are removed.\<close>

definition unquote_value :: "gostring \<Rightarrow> bool \<Rightarrow> gostring" where
  "unquote_value value esc =
    (if 2 \<le> length value \<and> value ! 0 = CHR 0x22 \<and> value ! (length value - 1) = CHR 0x22
     then (if esc then unescape (butlast (tl value)) else butlast (tl value))
     else value)"

text \<open>The \<open>#\<close> at the start of a segment; the new index and the new state, or nothing when the query is
  malformed.\<close>

definition classify_hash :: "gostring \<Rightarrow> meta \<Rightarrow> (nat \<times> meta) option" where
  "classify_hash path r =
    (if 1 < length path \<and> path ! 1 = CHR ''.'' then
       Some (1, r \<lparr> m_logOk := True, m_logKey := drop 2 path, m_path := take 1 path \<rparr>)
     else if 1 < length path \<and> (path ! 1 = CHR ''['' \<or> path ! 1 = CHR ''('') then
       (case parseFilterQuery path of
          (queryPath, op, value, _, fi, escVal, ok) \<Rightarrow>
            if \<not> ok then None
            else Some (fi, r \<lparr> q_path := queryPath, q_opt := op, q_val := unquote_value value escVal,
              q_all := (fi < length path \<and> path ! fi = CHR ''#'' \<or> q_all r) \<rparr>))
     else Some (1, r))"

lemma classify_hash_ge: "classify_hash path r = Some (i, r') \<Longrightarrow> 0 < i"
  by (auto simp: classify_hash_def parseFilterQuery_def Let_def split: if_splits prod.splits)

function classify :: "'f fj_env \<Rightarrow> gostring \<Rightarrow> nat \<Rightarrow> meta \<Rightarrow> meta" where
  "classify env path i r =
    (if i < length path then
       (let c = path ! i; rest = drop (i + 1) path in
        if c = CHR ''|'' then r \<lparr> m_part := take i path, m_pipe := rest, m_piped := True \<rparr>
        else if c = CHR ''.'' then
          (if \<not> m_arch r \<and> rest \<noteq> [] \<and> looksLikeJSONOrTransformer env rest
           then r \<lparr> m_part := take i path, m_pipe := rest, m_piped := True \<rparr>
           else r \<lparr> m_part := take i path, m_path := rest, m_more := True \<rparr>)
        else if c = CHR ''#'' then
          (let r1 = r \<lparr> m_arch := True \<rparr> in
           if i = 0 then
             (let r2 = r1 \<lparr> q_on := (1 < length path \<and> (path ! 1 = CHR ''['' \<or> path ! 1 = CHR ''('')) \<rparr> in
              case classify_hash path r2 of
                None \<Rightarrow> r2 \<lparr> m_part := path, m_path := [] \<rparr>
              | Some (j, r') \<Rightarrow> classify env path j r')
           else classify env path (i + 1) r1)
        else classify env path (i + 1) r)
     else r \<lparr> m_part := path, m_path := [] \<rparr>)"
  by pat_completeness auto
termination
  by (relation "measure (\<lambda>(env, path, i, r). length path - i)")
    (auto dest!: classify_hash_ge, linarith?)

declare classify.simps [simp del]

definition classifyPathSegment :: "'f fj_env \<Rightarrow> gostring \<Rightarrow> meta" where
  "classifyPathSegment env path = classify env path 0 no_meta"

definition parseUint64 :: "'f fj_env \<Rightarrow> gostring \<Rightarrow> int option" where
  "parseUint64 env s = (case Uint64 (conv_floats env) NewConverter (AString s :: 'f any) of Inl _ \<Rightarrow> None | Inr n \<Rightarrow> Some n)"

section \<open>Conditions\<close>

text \<open>The order of Go strings.\<close>

fun string_less :: "gostring \<Rightarrow> gostring \<Rightarrow> bool" where
  "string_less _ [] = False"
| "string_less [] (d # t) = True"
| "string_less (c # s) (d # t) = (c < d \<or> c = d \<and> string_less s t)"

definition bool_of_text :: "'f fj_env \<Rightarrow> gostring \<Rightarrow> bool" where
  "bool_of_text env s = (case conv_Bool (conv_floats env) NewConverter (AString s) of Inr b \<Rightarrow> b | Inl _ \<Rightarrow> False)"

definition isNull :: "'f Context \<Rightarrow> bool" where
  "isNull t \<longleftrightarrow> kind t = KNull"

definition isFalsy :: "'f fj_env \<Rightarrow> 'f Context \<Rightarrow> bool" where
  "isFalsy env t = (case kind t of
      KNull \<Rightarrow> True | KFalse \<Rightarrow> True
    | KString \<Rightarrow> \<not> bool_of_text env (str t)
    | KNumber \<Rightarrow> float_eq env (num t) (float_zero env)
    | _ \<Rightarrow> False)"

definition isTruthy :: "'f fj_env \<Rightarrow> 'f Context \<Rightarrow> bool" where
  "isTruthy env t = (case kind t of
      KTrue \<Rightarrow> True
    | KString \<Rightarrow> bool_of_text env (str t)
    | KNumber \<Rightarrow> \<not> float_eq env (num t) (float_zero env)
    | _ \<Rightarrow> False)"

text \<open>A value \<open>~\<close> with one of four words tests the kind: the word and the value become booleans.\<close>

definition tilde :: "'f fj_env \<Rightarrow> gostring \<Rightarrow> 'f Context \<Rightarrow> gostring \<times> 'f Context" where
  "tilde env word v =
    (let truth = (\<lambda>b. (''true'', (no_value env) \<lparr> kind := (if b then KTrue else KFalse) \<rparr>))
     in if word = ''*'' then truth (Exists v)
        else if word = ''null'' then truth (isNull v)
        else if word = ''true'' then truth (isTruthy env v)
        else if word = ''false'' then truth (isFalsy env v)
        else ([], no_value env))"

definition compare_strings :: "gostring \<Rightarrow> gostring \<Rightarrow> gostring \<Rightarrow> bool" where
  "compare_strings op s t =
    (if op = ''='' then s = t
     else if op = ''!='' then s \<noteq> t
     else if op = ''<'' then string_less s t
     else if op = ''<='' then \<not> string_less t s
     else if op = ''>'' then string_less t s
     else if op = ''>='' then \<not> string_less s t
     else if op = ''%'' then matchesGlob s t
     else if op = ''!%'' then \<not> matchesGlob s t
     else False)"

definition compare_numbers :: "'f fj_env \<Rightarrow> gostring \<Rightarrow> 'f \<Rightarrow> 'f \<Rightarrow> bool" where
  "compare_numbers env op a b =
    (if op = ''='' then float_eq env a b
     else if op = ''!='' then \<not> float_eq env a b
     else if op = ''<'' then float_less env a b
     else if op = ''<='' then float_less env a b \<or> float_eq env a b
     else if op = ''>'' then float_less env b a
     else if op = ''>='' then float_less env b a \<or> float_eq env a b
     else False)"

definition matchesQueryCondition :: "'f fj_env \<Rightarrow> meta \<Rightarrow> 'f Context \<Rightarrow> bool" where
  "matchesQueryCondition env dp value0 =
    (let (mt, value) = (if 0 < length (q_val dp) \<and> q_val dp ! 0 = CHR ''~'' then tilde env (tl (q_val dp)) value0
           else (q_val dp, value0));
         op = q_opt dp
     in if \<not> Exists value then False
        else if op = [] then True
        else case kind value of
            KString \<Rightarrow> compare_strings op (str value) mt
          | KNumber \<Rightarrow> compare_numbers env op (num value) (parse_float env mt)
          | KTrue \<Rightarrow> (if op = ''='' then mt = ''true'' else if op = ''!='' then mt \<noteq> ''true''
               else if op = ''>'' then mt = ''false'' else op = ''>='')
          | KFalse \<Rightarrow> (if op = ''='' then mt = ''false'' else if op = ''!='' then mt \<noteq> ''false''
               else if op = ''<'' then mt = ''true'' else op = ''<='')
          | _ \<Rightarrow> False)"

section \<open>Pipes\<close>

text \<open>In a selector behind \<open>.#\<close> the brackets of its kind are balanced: the index of the last one, or
  the end.\<close>

function selector_end :: "gostring \<Rightarrow> byte \<Rightarrow> byte \<Rightarrow> nat \<Rightarrow> nat \<Rightarrow> nat" where
  "selector_end path left right i depth =
    (if i < length path then
       (let c = path ! i in
        if c = CHR 0x5C then selector_end path left right (i + 2) depth
        else if c = left then selector_end path left right (i + 1) (depth + 1)
        else if c = right then (if depth = 1 then i else selector_end path left right (i + 1) (depth - 1))
        else if c = CHR 0x22 then
          selector_end path left right (fst (query_string_end path (i + 1) False) + 1) depth
        else selector_end path left right (i + 1) depth)
     else i)"
  by pat_completeness auto
termination
proof (relation "measure (\<lambda>(path, left, right, i, depth). length path - i)")
  fix path :: gostring and left' right' :: byte and i depth :: nat
  assume "i < length path"
  then show "((path, left', right', fst (query_string_end path (i + 1) False) + 1, depth), path, left', right', i, depth)
      \<in> measure (\<lambda>(path, left, right, i, depth). length path - i)"
    using query_string_end_ge [of path "i + 1" False] by (cases "query_string_end path (i + 1) False") fastforce
qed auto

declare selector_end.simps [simp del]

lemma selector_end_ge: "i \<le> selector_end path left right i depth"
proof (induction "length path - i" arbitrary: i depth rule: less_induct)
  case less
  have q: "i < Suc (fst (query_string_end path (Suc i) False))"
    using query_string_end_ge [of path "Suc i" False] by (cases "query_string_end path (Suc i) False") fastforce
  have s: "i \<le> selector_end path left right j d" if "i < length path" "i < j" for j d
    using less [of j d] that by (meson diff_less_mono2 le_trans less_imp_le_nat)
  show ?case
    by (subst selector_end.simps) (simp add: Let_def s q)
qed

function split_pipe :: "gostring \<Rightarrow> nat \<Rightarrow> (gostring \<times> gostring) option" where
  "split_pipe path i =
    (if i < length path then
       (if path ! i = CHR 0x5C then split_pipe path (i + 2)
        else if path ! i = CHR ''.'' then
          (if i + 1 = length path then None
           else if path ! (i + 1) = CHR ''#'' then
             (let k = i + 2 in
              if k = length path then None
              else if path ! k = CHR ''['' then split_pipe path (selector_end path (CHR ''['') (CHR '']'') (k + 1) 1 + 1)
              else if path ! k = CHR ''('' then split_pipe path (selector_end path (CHR ''('') (CHR '')'') (k + 1) 1 + 1)
              else split_pipe path (k + 1))
           else split_pipe path (i + 1))
        else if path ! i = CHR ''|'' then Some (take i path, drop (i + 1) path)
        else split_pipe path (i + 1))
     else None)"
  by pat_completeness auto
termination
proof (relation "measure (\<lambda>(path, i). length path - i)")
  fix path :: gostring and i k
  assume "i < length path" "k = i + 2"
  then show "((path, selector_end path (CHR ''['') (CHR '']'') (k + 1) 1 + 1), path, i) \<in> measure (\<lambda>(path, i). length path - i)"
    "((path, selector_end path (CHR ''('') (CHR '')'') (k + 1) 1 + 1), path, i) \<in> measure (\<lambda>(path, i). length path - i)"
    using selector_end_ge [of "k + 1" path "CHR ''[''" "CHR '']''" 1] selector_end_ge [of "k + 1" path "CHR ''(''" "CHR '')''" 1]
    by auto
qed auto

declare split_pipe.simps [simp del]

definition splitAtUnescapedPipe :: "gostring \<Rightarrow> (gostring \<times> gostring) option" where
  "splitAtUnescapedPipe path =
    (if CHR ''|'' \<notin> set path then None
     else if path ! 0 = CHR ''{'' then
       (let squashed = compactJSON (tl path) in
        if length squashed < length path - 1 then
          (let n = length squashed + 1
           in if path ! n = CHR ''|'' then Some (take n path, drop (n + 1) path) else None)
        else None)
     else split_pipe path 0)"

section \<open>Sub-selectors, static values and transformers\<close>

type_synonym sel = "gostring \<times> gostring"

text \<open>\<open>pushSelectors\<close>: a name before a colon, and a path; \<open>colon\<close> is 0 when there is none.\<close>

definition selector_at :: "gostring \<Rightarrow> nat \<Rightarrow> nat \<Rightarrow> nat \<Rightarrow> sel" where
  "selector_at path start colon i =
    (if colon = 0 then ([], slice path start i) else (slice path start colon, slice path (colon + 1) i))"

function sub_selectors ::
    "gostring \<Rightarrow> nat \<Rightarrow> nat \<Rightarrow> nat \<Rightarrow> nat \<Rightarrow> nat \<Rightarrow> sel list \<Rightarrow> (sel list \<times> gostring) option" where
  "sub_selectors path i depth colon start transformer sels =
    (if i < length path then
       (let c = path ! i in
        if c = CHR 0x5C then sub_selectors path (i + 2) depth colon start transformer sels
        else if c = CHR ''@'' then
          sub_selectors path (i + 1) depth colon start
            (if transformer = 0 \<and> 0 < i \<and> (path ! (i - 1) = CHR ''.'' \<or> path ! (i - 1) = CHR ''|'') then i else transformer) sels
        else if c = CHR '':'' then
          sub_selectors path (i + 1) depth (if transformer = 0 \<and> colon = 0 \<and> depth = 1 then i else colon) start transformer sels
        else if c = CHR '','' then
          (if depth = 1 then sub_selectors path (i + 1) depth 0 (i + 1) 0 (sels @ [selector_at path start colon i])
           else sub_selectors path (i + 1) depth colon start transformer sels)
        else if c = CHR 0x22 then
          sub_selectors path (fst (query_string_end path (i + 1) False) + 1) depth colon start transformer sels
        else if c \<in> set ''[({'' then sub_selectors path (i + 1) (depth + 1) colon start transformer sels
        else if c \<in> set '')]}'' then
          (if depth = 1 then Some (sels @ [selector_at path start colon i], drop (i + 1) path)
           else sub_selectors path (i + 1) (depth - 1) colon start transformer sels)
        else sub_selectors path (i + 1) depth colon start transformer sels)
     else None)"
  by pat_completeness auto

lemma query_string_end_fst [simp]: "k \<le> fst (query_string_end query k esc)"
  by (cases "query_string_end query k esc") (auto dest: query_string_end_ge)

lemma query_string_end_less: "i < length path \<Longrightarrow> length path - Suc (fst (query_string_end path (Suc i) esc)) < length path - i"
  using query_string_end_fst [of "Suc i" path esc] by linarith

termination sub_selectors
  by (relation "measure (\<lambda>(path, i, depth, colon, start, transformer, sels). length path - i)")
    (simp_all add: query_string_end_less)

declare sub_selectors.simps [simp del]

text \<open>\<open>parseSubSelectors\<close> on a path that starts with a bracket; without the closing bracket the rest of
  the path it returns is empty.\<close>

definition parseSubSelectors :: "gostring \<Rightarrow> (sel list \<times> gostring) option" where
  "parseSubSelectors path = sub_selectors path 1 1 0 1 0 []"

text \<open>\<open>!\<close> and a JSON value or one of five words: the rest of the path, and the value.\<close>

definition splitStaticAndLiteral :: "gostring \<Rightarrow> (gostring \<times> gostring) option" where
  "splitStaticAndLiteral path =
    (let name = tl path in
     if name \<noteq> [] \<and> (hd name \<in> set ''{[+-0123456789'' \<or> hd name = CHR 0x22)
     then (let v = snd (extractJSONValue name 0) in Some (drop (length v) name, v))
     else
       let i = skip_while (\<lambda>c. c \<noteq> CHR ''|'' \<and> c \<noteq> CHR ''.'') path 1; word = slice path 1 i
       in if ToLower word \<in> {''true'', ''false'', ''null'', ''nan'', ''inf''} then Some (drop i path, word) else None)"

lemma closing_quote_le: "i \<le> length json \<Longrightarrow> closing_quote json lo i \<le> length json"
proof (induction json lo i rule: closing_quote.induct)
  case (1 json lo i)
  then show ?case by (subst closing_quote.simps) auto
qed

lemma value_end_bounds: "value_end json i depth = (j, ok) \<Longrightarrow> i \<le> j \<and> (ok \<longrightarrow> j \<le> length json)"
proof (induction "length json - i" arbitrary: i depth rule: less_induct)
  case less
  have q: "Suc i \<le> closing_quote json (Suc i) (Suc i)" by simp
  have IH: "i \<le> j \<and> (ok \<longrightarrow> j \<le> length json)" if "value_end json k d = (j, ok)" "i < k" "i < length json" for k d
    using less(1) [of k d] that by (meson diff_less_mono2 le_trans less_imp_le_nat)
  have q': "i < Suc (closing_quote json (Suc i) (Suc i))" using q by linarith
  from less(2) show ?case
    by (subst (asm) value_end.simps) (auto simp: Let_def split: if_splits dest: IH [OF _ q'] IH)
qed

lemma compactJSON_length: "length (compactJSON json) \<le> length json" "json \<noteq> [] \<Longrightarrow> 0 < length (compactJSON json)"
  by (auto simp: compactJSON_def Let_def split: prod.splits bool.splits dest: value_end_bounds)

text \<open>The end of a transformer's argument that is not JSON.\<close>

function args_end :: "gostring \<Rightarrow> nat \<Rightarrow> nat" where
  "args_end s i =
    (if i < length s \<and> s ! i \<noteq> CHR ''|'' then
       (if s ! i \<in> set ''{[('' \<or> s ! i = CHR 0x22 then args_end s (i + length (compactJSON (drop i s)))
        else args_end s (i + 1))
     else i)"
  by pat_completeness auto
termination
proof (relation "measure (\<lambda>(s, i). length s - i)")
  fix s :: gostring and i
  assume "i < length s \<and> s ! i \<noteq> CHR ''|''"
  then show "((s, i + length (compactJSON (drop i s))), s, i) \<in> measure (\<lambda>(s, i). length s - i)"
    using compactJSON_length(2) [of "drop i s"] by (auto intro!: diff_less_mono2)
qed auto

declare args_end.simps [simp del]

text \<open>The argument at the start of the rest of the path, and what is left of it.\<close>

definition transformer_args :: "'f fj_env \<Rightarrow> gostring \<Rightarrow> gostring \<times> gostring" where
  "transformer_args env rest =
    (if (rest ! 0 \<in> set ''{['' \<or> rest ! 0 = CHR 0x22) \<and> Exists (Parse env rest)
     then (let args = compactJSON rest in (args, drop (length args) rest))
     else let i = args_end rest 0 in (take i rest, drop i rest))"

text \<open>\<open>@name\<close> or \<open>@name:args\<close>: the rest of the path, and the transformed text.\<close>

definition applyTransformerAt :: "'f fj_env \<Rightarrow> gostring \<Rightarrow> gostring \<Rightarrow> (gostring \<times> gostring) option" where
  "applyTransformerAt env json path =
    (let i = skip_while (\<lambda>c. c \<notin> set '':|.'') path 1;
         name = slice path 1 i;
         colon = (i < length path \<and> path ! i = CHR '':'');
         rest = (if colon then drop (i + 1) path else drop i path)
     in case transformers env name of
          None \<Rightarrow> None
        | Some t \<Rightarrow>
            (case if colon \<and> rest \<noteq> [] then transformer_args env rest else ([], rest) of
               (args, rest') \<Rightarrow> Some (rest', t json args)))"

end
