(* ===== verification/FjGet.thy ===== *)
theory FjGet
  imports FjPath
begin

text \<open>
  \<open>Get\<close> of \<open>pkg/fj\<close> (\<open>fj.go\<close>) and the matchers of objects and arrays it calls
  (\<open>utilities.go\<close>).  The matchers descend along the segments of the path, \<open>Get\<close> starts again on the
  part behind a pipe, on the queries and on the sub-selectors, which are all shorter paths: the
  number of nested calls is bounded by twice the length of the path, and this bound is the fuel.  The
  loops over the text are partial functions.
\<close>

section \<open>State and results\<close>

text \<open>The state of the code's parser: the value found, and the path behind a pipe.\<close>

record 'f parser =
  p_val :: "'f Context"
  p_pipe :: gostring
  p_piped :: bool

text \<open>The new index, whether the value was found, and the new state; no result stands for a loop that
  does not end.\<close>

type_synonym 'f matched = "(nat \<times> bool \<times> 'f parser) option"

type_synonym 'f matcher = "gostring \<Rightarrow> nat \<Rightarrow> gostring \<Rightarrow> 'f parser \<Rightarrow> 'f matched"

type_synonym 'f getter = "gostring \<Rightarrow> gostring \<Rightarrow> 'f Context option"

definition set_pipe :: "gostring \<Rightarrow> 'f parser \<Rightarrow> 'f parser" where
  "set_pipe pipe c = c \<lparr> p_pipe := pipe, p_piped := True \<rparr>"

definition starts_value :: "byte \<Rightarrow> bool" where
  "starts_value c \<longleftrightarrow> c = CHR 0x22 \<or> c \<in> set ''{[ntf'' \<or> starts_number c"

text \<open>The value at an index: the index behind it, what it assigns to a \<open>Context\<close>, and whether a string is
  complete.\<close>

definition scan_value :: "'f fj_env \<Rightarrow> gostring \<Rightarrow> nat \<Rightarrow> nat \<times> ('f Context \<Rightarrow> 'f Context) \<times> bool" where
  "scan_value env json i =
    (let c = json ! i in
     if c = CHR 0x22 then
       (case extractJSONString json (i + 1) of (j, v, esc, ok) \<Rightarrow> (j, put_string v esc, ok))
     else if c = CHR ''{'' \<or> c = CHR ''['' then
       (case extractJSONValue json i of (j, v) \<Rightarrow> (j, put_json v, True))
     else if starts_nan json i \<or> starts_number c then
       (case extractJSONNumber json i of (j, v) \<Rightarrow> (j, put_number env v, True))
     else (case extractJSONLowerLiteral json i of (j, v) \<Rightarrow> (j, put_literal c v, True)))"

text \<open>One turn of a loop returns from the function or goes on at an index with a new state.\<close>

datatype ('f, 's) turn =
    Finish nat bool "'f parser"
  | Again nat 's

partial_function (option) turns ::
    "(nat \<Rightarrow> 's \<Rightarrow> ('f, 's) turn option) \<Rightarrow> nat \<Rightarrow> 's \<Rightarrow> 'f matched" where
  "turns step i s =
    Option.bind (step i s)
      (\<lambda>r. case r of Finish j hit c \<Rightarrow> Some (j, hit, c) | Again j s' \<Rightarrow> turns step j s')"

section \<open>Objects\<close>

definition key_matches :: "wildcard \<Rightarrow> gostring \<Rightarrow> bool \<Rightarrow> bool" where
  "key_matches sp key esc =
    (let k = (if esc then unescape key else key)
     in if w_wild sp then matchesGlob k (w_part sp) else w_part sp = k)"

text \<open>One turn of the loop over the members; \<open>obj\<close> and \<open>arr\<close> match the rest of the path in the
  value of a member.\<close>

definition object_step ::
    "'f fj_env \<Rightarrow> 'f matcher \<Rightarrow> 'f matcher \<Rightarrow> gostring \<Rightarrow> wildcard \<Rightarrow> nat \<Rightarrow> 'f parser
      \<Rightarrow> ('f, 'f parser) turn option" where
  "object_step env obj arr json sp i c =
    (let k = skip_while (\<lambda>c. c \<noteq> CHR 0x22 \<and> c \<noteq> CHR ''}'') json i
     in if length json \<le> k then Some (Finish k False c)
        else if json ! k = CHR ''}'' then Some (Finish (k + 1) False c)
        else
          let (q, esc, ok) = string_end json (k + 1)
          in if \<not> ok then Some (Finish q False c)
             else
               let found = key_matches sp (slice json (k + 1) q) esc;
                   hit = (found \<and> \<not> w_more sp);
                   v = skip_while (\<lambda>c. \<not> starts_value c) json (q + 1)
               in if length json \<le> v then Some (Finish v False c)
                  else if found \<and> \<not> hit \<and> (json ! v = CHR ''{'' \<or> json ! v = CHR ''['') then
                    map_option (\<lambda>(j, hit, c'). if hit then Finish j True c' else Again j c')
                      ((if json ! v = CHR ''{'' then obj else arr) json (v + 1) (w_path sp) c)
                  else
                    let (j, put, ok) = scan_value env json v
                    in if \<not> ok then Some (Finish j False c)
                       else if hit then Some (Finish j True (c \<lparr> p_val := put (p_val c) \<rparr>))
                       else Some (Again j c))"

section \<open>Arrays\<close>

text \<open>The variables of \<open>matchJSONArrayAt\<close> that its loop changes: the parser, the segment, the number of
  elements, the indices logged behind \<open>#.\<close>, and the text collected by a query for all elements.\<close>

record 'f array_state =
  a_parser :: "'f parser"
  a_meta :: meta
  a_count :: nat
  a_log :: "nat list"
  a_all :: gostring

definition raw_or_string :: "'f fj_env \<Rightarrow> 'f Context \<Rightarrow> gostring" where
  "raw_or_string env v = (if length (raw v) = 0 then Context_String env v else raw v)"

definition append_match :: "gostring \<Rightarrow> gostring \<Rightarrow> gostring" where
  "append_match collected text =
    (if text = [] then collected
     else (if 1 < length collected then collected @ '','' else collected) @ text)"

text \<open>What a matching element yields: itself, or the rest of the path in it; a pipe in the rest is taken
  off once.\<close>

definition matched_value :: "'f getter \<Rightarrow> 'f Context \<Rightarrow> 'f array_state \<Rightarrow> ('f Context \<times> 'f array_state) option" where
  "matched_value get v st =
    (if m_more (a_meta st) then
       (let st1 = (case splitAtUnescapedPipe (m_path (a_meta st)) of
              Some (left, right) \<Rightarrow> st \<lparr> a_meta := (a_meta st) \<lparr> m_path := left \<rparr>, a_parser := set_pipe right (a_parser st) \<rparr>
            | None \<Rightarrow> st)
        in Option.bind (get (raw v) (m_path (a_meta st1))) (\<lambda>res. Some (res, st1)))
     else Some (v, st))"

definition executeQuery ::
    "'f fj_env \<Rightarrow> 'f getter \<Rightarrow> 'f Context \<Rightarrow> 'f array_state \<Rightarrow> (bool \<times> 'f array_state) option" where
  "executeQuery env get v st0 =
    (let an = a_meta st0;
         st = (if q_all an \<and> a_all st0 = [] then st0 \<lparr> a_all := ''['' \<rparr> else st0)
     in if kind v \<noteq> KJSON \<and> q_path an \<noteq> [] then Some (False, st)
        else Option.bind (if kind v = KJSON then get (raw v) (q_path an) else Some v)
          (\<lambda>res. if \<not> matchesQueryCondition env an res then Some (False, st)
             else Option.bind (matched_value get v st)
               (\<lambda>(res, st). if q_all an then Some (False, st \<lparr> a_all := append_match (a_all st) (raw_or_string env res) \<rparr>)
                  else Some (True, st \<lparr> a_parser := (a_parser st) \<lparr> p_val := res \<rparr> \<rparr>))))"

text \<open>The values behind \<open>#.\<close>: \<open>k\<close> counts those written.\<close>

fun log_values ::
    "'f fj_env \<Rightarrow> 'f getter \<Rightarrow> gostring \<Rightarrow> gostring \<Rightarrow> nat list \<Rightarrow> nat \<Rightarrow> gostring \<Rightarrow> gostring option" where
  "log_values env get json key [] k acc = Some acc"
| "log_values env get json key (i # is) k acc =
    (let i' = skip_while is_ws json i
     in if i' < length json \<and> json ! i' \<noteq> CHR '']'' then
          (case extractJSONValueAt env json i' True of
             (_, v, ok) \<Rightarrow>
               if ok then
                 Option.bind (get (raw v) key)
                   (\<lambda>res. if Exists res
                      then log_values env get json key is (k + 1) (acc @ (if 0 < k then '','' else []) @ raw_or_string env res)
                      else log_values env get json key is k acc)
               else log_values env get json key is k acc)
        else log_values env get json key is k acc)"

text \<open>The bracket that closes the array.\<close>

definition close_array :: "'f fj_env \<Rightarrow> 'f getter \<Rightarrow> gostring \<Rightarrow> 'f array_state \<Rightarrow> (bool \<times> 'f parser) option" where
  "close_array env get json st =
    (let an = a_meta st; c = a_parser st in
     if m_arch an \<and> m_part an = ''#'' then
       (if m_logOk an then
          (let (key, c1) = (case splitAtUnescapedPipe (m_logKey an) of
                 Some (left, right) \<Rightarrow> (left, set_pipe right c)
               | None \<Rightarrow> (m_logKey an, c))
           in Option.bind (log_values env get json key (a_log st) 0 ''['')
                (\<lambda>text. Some (True, c1 \<lparr> p_val := (p_val c1) \<lparr> kind := KJSON, raw := text @ '']'' \<rparr> \<rparr>)))
        else
          Some (True, c \<lparr> p_val := (p_val c) \<lparr> kind := KNumber, num := float_of env (int (a_count st)),
            raw := itoa (int (a_count st)) \<rparr> \<rparr>))
     else if \<not> Exists (p_val c) \<and> a_all st \<noteq> [] then
       Some (False, c \<lparr> p_val := json_value_of env (a_all st @ '']'') \<rparr>)
     else if \<not> Exists (p_val c) \<and> q_all an then
       Some (False, c \<lparr> p_val := json_value_of env ''[]'' \<rparr>)
     else Some (False, c))"

text \<open>The index in a segment that is a number: a \<open>uint64\<close> converted to \<open>int\<close>.\<close>

definition part_index :: "'f fj_env \<Rightarrow> meta \<Rightarrow> int" where
  "part_index env an =
    (case parseUint64 env (m_part an) of None \<Rightarrow> - 1 | Some n \<Rightarrow> if n < 2 ^ 63 then n else n - 2 ^ 64)"

definition array_step ::
    "'f fj_env \<Rightarrow> 'f matcher \<Rightarrow> 'f matcher \<Rightarrow> 'f getter \<Rightarrow> gostring \<Rightarrow> int \<Rightarrow> nat \<Rightarrow> 'f array_state
      \<Rightarrow> ('f, 'f array_state) turn option" where
  "array_step env obj arr get json partIdx i st0 =
    (if length json < i then Some (Finish i False (a_parser st0))
     else
       let an = a_meta st0;
           found = (\<not> m_arch an \<and> partIdx = int (a_count st0));
           hit = (found \<and> \<not> m_more an);
           st = (if m_logOk an then st0 \<lparr> a_log := a_log st0 @ [i] \<rparr> else st0);
           counted = (\<lambda>st. st \<lparr> a_count := a_count st + 1 \<rparr>);
           v = skip_while (\<lambda>c. c \<noteq> CHR '']'' \<and> \<not> starts_value c) json i
       in if v = length json \<or> json ! v = CHR '']'' then
            map_option (\<lambda>(hit, c). Finish (v + 1) hit c) (close_array env get json st)
          else if found \<and> \<not> hit \<and> (json ! v = CHR ''{'' \<or> json ! v = CHR ''['') then
            map_option (\<lambda>(j, hit, c). if hit \<and> \<not> m_logOk an then Finish j True c else Again j (counted (st \<lparr> a_parser := c \<rparr>)))
              ((if json ! v = CHR ''{'' then obj else arr) json (v + 1) (m_path an) (a_parser st))
          else
            let (j, put, ok) = scan_value env json v
            in if \<not> ok then Some (Finish j False (a_parser st))
               else if q_on an then
                 map_option (\<lambda>(found, st'). if found then Finish j True (a_parser st') else Again j (counted st'))
                   (executeQuery env get (put (no_value env)) st)
               else if hit \<and> \<not> m_logOk an then
                 Some (Finish j True ((a_parser st) \<lparr> p_val := put (p_val (a_parser st)) \<rparr>))
               else Some (Again j (counted st)))"

section \<open>Get\<close>

text \<open>A transformer or a static value at the start of the path: the rest of the path, and a new text.\<close>

definition redirect :: "'f fj_env \<Rightarrow> gostring \<Rightarrow> gostring \<Rightarrow> (gostring \<times> gostring) option" where
  "redirect env json path =
    (if path ! 0 = CHR ''@'' \<and> \<not> DisableTransformers env then applyTransformerAt env json path
     else if path ! 0 = CHR ''!'' then splitStaticAndLiteral path
     else None)"

text \<open>The key under which a selected value is written in an object.\<close>

definition selector_key :: "sel \<Rightarrow> gostring" where
  "selector_key sub =
    (case sub of (name, path) \<Rightarrow>
       if 0 < length name then
         (if name ! 0 = CHR 0x22 \<and> IsValidJSON name then name else appendJSONString [] name)
       else let last = lastSegment path in appendJSONString [] (if isValidName last then last else ''_''))"

fun selected_values ::
    "'f fj_env \<Rightarrow> 'f getter \<Rightarrow> gostring \<Rightarrow> bool \<Rightarrow> sel list \<Rightarrow> nat \<Rightarrow> gostring \<Rightarrow> gostring option" where
  "selected_values env get json keys [] i b = Some b"
| "selected_values env get json keys (sub # subs) i b =
    Option.bind (get json (snd sub))
      (\<lambda>res. if Exists res then
           (let text = raw_or_string env res
            in selected_values env get json keys subs (i + 1)
                 (b @ (if 0 < i then '','' else []) @ (if keys then selector_key sub @ '':'' else [])
                    @ (if text = [] then ''null'' else text)))
         else selected_values env get json keys subs i b)"

definition no_parser :: "'f fj_env \<Rightarrow> 'f parser" where
  "no_parser env = \<lparr> p_val = no_value env, p_pipe = [], p_piped = False \<rparr>"

text \<open>The search in the first object or array of the text, or in its lines; then the pipe.\<close>

definition search ::
    "'f fj_env \<Rightarrow> 'f matcher \<Rightarrow> 'f matcher \<Rightarrow> 'f getter \<Rightarrow> gostring \<Rightarrow> gostring \<Rightarrow> 'f Context option" where
  "search env obj arr get json path =
    Option.bind
      (if take 2 path = ''..'' then arr json 0 (drop 2 path) (no_parser env)
       else
         let i = skip_while (\<lambda>c. c \<noteq> CHR ''{'' \<and> c \<noteq> CHR ''['') json 0
         in if length json \<le> i then Some (i, False, no_parser env)
            else if json ! i = CHR ''{'' then obj json (i + 1) path (no_parser env)
            else arr json (i + 1) path (no_parser env))
      (\<lambda>(_, _, c). if p_piped c then get (raw (p_val c)) (p_pipe c) else Some (p_val c))"

text \<open>A path that starts with a sub-selector.\<close>

definition select ::
    "'f fj_env \<Rightarrow> 'f matcher \<Rightarrow> 'f matcher \<Rightarrow> 'f getter \<Rightarrow> gostring \<Rightarrow> gostring \<Rightarrow> 'f Context option" where
  "select env obj arr get json path =
    (let keys = (path ! 0 = CHR ''{'') in
     case parseSubSelectors path of
       None \<Rightarrow> search env obj arr get json []
     | Some (subs, rest) \<Rightarrow>
         if rest = [] \<or> rest ! 0 = CHR ''|'' \<or> rest ! 0 = CHR ''.'' then
           Option.bind (selected_values env get json keys subs 0 [path ! 0])
             (\<lambda>b. let res = json_value_of env (b @ (if keys then ''}'' else '']''))
                 in if rest = [] then Some res else get (raw res) (tl rest))
         else search env obj arr get json rest)"

definition get_body ::
    "'f fj_env \<Rightarrow> 'f matcher \<Rightarrow> 'f matcher \<Rightarrow> 'f getter \<Rightarrow> gostring \<Rightarrow> gostring \<Rightarrow> 'f Context option" where
  "get_body env obj arr get json path =
    (case if 1 < length path then redirect env json path else None of
       Some (rest, json') \<Rightarrow>
         if rest \<noteq> [] \<and> (rest ! 0 = CHR ''|'' \<or> rest ! 0 = CHR ''.'') then get json' (tl rest)
         else Some (Parse env json')
     | None \<Rightarrow>
         if 1 < length path \<and> (path ! 0 = CHR ''['' \<or> path ! 0 = CHR ''{'') then select env obj arr get json path
         else search env obj arr get json path)"

text \<open>The functions that call each other, with a bound on the number of nested calls.\<close>

function matchJSONObjectAt :: "'f fj_env \<Rightarrow> nat \<Rightarrow> 'f matcher"
  and matchJSONArrayAt :: "'f fj_env \<Rightarrow> nat \<Rightarrow> 'f matcher"
  and Get_within :: "'f fj_env \<Rightarrow> nat \<Rightarrow> 'f getter" where
  "matchJSONObjectAt env 0 json i path c = None"
| "matchJSONObjectAt env (Suc n) json i path c =
    (let sp = splitPathSegment env path;
         c1 = (if \<not> w_more sp \<and> w_piped sp then set_pipe (w_pipe sp) c else c)
     in turns (object_step env (\<lambda>json i path c. matchJSONObjectAt env n json i path c)
          (\<lambda>json i path c. matchJSONArrayAt env n json i path c) json sp) i c1)"
| "matchJSONArrayAt env 0 json i path c = None"
| "matchJSONArrayAt env (Suc n) json i path c =
    (let an = classifyPathSegment env path;
         c1 = (if \<not> m_more an \<and> m_piped an then set_pipe (m_pipe an) c else c)
     in turns (array_step env (\<lambda>json i path c. matchJSONObjectAt env n json i path c)
          (\<lambda>json i path c. matchJSONArrayAt env n json i path c) (\<lambda>json path. Get_within env n json path)
          json (part_index env an))
          i \<lparr> a_parser = c1, a_meta = an, a_count = 0, a_log = [], a_all = [] \<rparr>)"
| "Get_within env 0 json path = None"
| "Get_within env (Suc n) json path =
    get_body env (\<lambda>json i path c. matchJSONObjectAt env n json i path c)
      (\<lambda>json i path c. matchJSONArrayAt env n json i path c) (\<lambda>json path. Get_within env n json path) json path"
  by pat_completeness auto
termination
  by (relation "measure (\<lambda>x. case x of Inl (env, n, _) \<Rightarrow> n | Inr (Inl (env, n, _)) \<Rightarrow> n | Inr (Inr (env, n, _)) \<Rightarrow> n)") auto

text \<open>A path needs at most two calls for each of its bytes.\<close>

definition Get :: "'f fj_env \<Rightarrow> gostring \<Rightarrow> gostring \<Rightarrow> 'f Context option" where
  "Get env json path = Get_within env (2 * length path + 2) json path"

definition GetMulti :: "'f fj_env \<Rightarrow> gostring \<Rightarrow> gostring list \<Rightarrow> 'f Context option list" where
  "GetMulti env json paths = map (Get env json) paths"

end
