(* ===== verification/FjTotal.thy ===== *)
theory FjTotal
  imports FjGet FjTree
begin

text \<open>
  \<open>Get\<close> always returns: the loops over the text make progress, and every nested call is on a
  shorter path, so that the fuel is enough.
\<close>

section \<open>Shorter paths\<close>

definition segment_within :: "nat \<Rightarrow> wildcard \<Rightarrow> bool" where
  "segment_within n r \<longleftrightarrow> (w_more r \<longrightarrow> length (w_path r) < n) \<and> (w_piped r \<longrightarrow> length (w_pipe r) < n)"

lemma segment_within_le: "segment_within m r \<Longrightarrow> m \<le> n \<Longrightarrow> segment_within n r"
  by (auto simp: segment_within_def)

lemma split_segment_within: "segment_within (length s) (split_segment env part wild s)"
proof (induction env part wild s rule: split_segment.induct)
  case (2 env part wild c rest)
  have "segment_within (length (c # rest)) (split_segment env p w t)"
    if "segment_within (length t) (split_segment env p w t)" "length t \<le> length rest" for p w t
    using that by (auto intro: segment_within_le)
  with 2 show ?case by (auto simp: segment_within_def split: list.split)
qed (simp add: segment_within_def)

lemma splitPathSegment_shorter:
  "w_more (splitPathSegment env path) \<Longrightarrow> length (w_path (splitPathSegment env path)) < length path"
  "w_piped (splitPathSegment env path) \<Longrightarrow> length (w_pipe (splitPathSegment env path)) < length path"
  using split_segment_within [of path env "[]" False] by (auto simp: splitPathSegment_def segment_within_def)

lemma slice_length: "length (slice s i j) \<le> j - i"
  by (simp add: slice_def)

lemma slice_length_le: "length (slice s i j) \<le> length s - i"
  by (simp add: slice_def)

lemma str_Trim_length: "length (str_Trim s) \<le> length s"
proof -
  have "length (dropWhile p (rev (dropWhile p s))) \<le> length s" for p
    by (metis length_dropWhile_le length_rev order_trans)
  then show ?thesis by (simp add: str_Trim_def)
qed

definition meta_within :: "nat \<Rightarrow> meta \<Rightarrow> bool" where
  "meta_within n r \<longleftrightarrow> (m_more r \<longrightarrow> length (m_path r) < n) \<and> (m_piped r \<longrightarrow> length (m_pipe r) < n)
    \<and> (m_logOk r \<longrightarrow> length (m_logKey r) < n) \<and> length (q_path r) < n"

lemma parseFilterQuery_path:
  "parseFilterQuery query = (p, op, v, rest, e, esc, ok) \<Longrightarrow> query \<noteq> [] \<Longrightarrow> length p < length query"
proof -
  assume "parseFilterQuery query = (p, op, v, rest, e, esc, ok)" "query \<noteq> []"
  moreover have "length (str_Trim (slice query 2 j)) \<le> length query - 2" for j
    using str_Trim_length slice_length_le order_trans by blast
  ultimately show ?thesis
    by (fastforce simp: parseFilterQuery_def Let_def split: if_splits prod.splits intro: le_less_trans)
qed

lemma classify_hash_within:
  "classify_hash path r = Some (i, r') \<Longrightarrow> path \<noteq> [] \<Longrightarrow> meta_within (length path) r \<Longrightarrow>
    \<not> m_more r \<Longrightarrow> meta_within (length path) r' \<and> \<not> m_more r'"
  by (auto simp: classify_hash_def meta_within_def dest: parseFilterQuery_path split: if_splits prod.splits)

lemma meta_within_simps [simp]:
  "meta_within n (r \<lparr> m_arch := a \<rparr>) = meta_within n r"
  "meta_within n (r \<lparr> q_on := a \<rparr>) = meta_within n r"
  "meta_within n (r \<lparr> m_part := p \<rparr>) = meta_within n r"
  by (auto simp: meta_within_def)

lemma classify_within:
  "path \<noteq> [] \<Longrightarrow> meta_within (length path) r \<Longrightarrow> \<not> m_more r \<Longrightarrow> meta_within (length path) (classify env path i r)"
proof (induction "length path - i" arbitrary: i r rule: less_induct)
  case (less i r)
  have IH: "meta_within (length path) (classify env path j s)"
    if "i < j" "i < length path" "meta_within (length path) s" "\<not> m_more s" for j s
    using less.hyps [of j s] less.prems(1) that by (simp add: diff_less_mono2)
  have pipe: "meta_within (length path) (r \<lparr> m_part := p, m_pipe := drop (Suc i) path, m_piped := True \<rparr>)"
    "meta_within (length path) (r \<lparr> m_part := p, m_path := drop (Suc i) path, m_more := True \<rparr>)" if "i < length path" for p
    using less.prems(2) that by (auto simp: meta_within_def)
  have all: "meta_within (length path) (s \<lparr> m_part := p, m_path := [] \<rparr>)" if "meta_within (length path) s" for s p
    using that less.prems(1) by (auto simp: meta_within_def)
  show ?case
  proof (cases "path ! 0 = CHR ''#'' \<and> i = 0")
    case True
    define r2 where "r2 = r \<lparr> m_arch := True, q_on := (1 < length path \<and> (path ! 1 = CHR ''['' \<or> path ! 1 = CHR ''('')) \<rparr>"
    have r2: "meta_within (length path) r2" "\<not> m_more r2" using less.prems by (simp_all add: r2_def)
    have i: "i = 0" "path ! 0 = CHR ''#''" "0 < length path" using True less.prems(1) by auto
    have eq: "classify env path i r = (case classify_hash path r2 of
        None \<Rightarrow> r2 \<lparr> m_part := path, m_path := [] \<rparr> | Some (j, r') \<Rightarrow> classify env path j r')"
      unfolding i(1) r2_def
      by (subst classify.simps, subst if_P [OF i(3)]) (simp add: Let_def i(2) cong: option.case_cong)
    show ?thesis
    proof (cases "classify_hash path r2")
      case None
      then show ?thesis by (simp add: eq all r2)
    next
      case (Some jr)
      obtain j r' where jr: "jr = (j, r')" by (cases jr)
      have "meta_within (length path) (classify env path j r')"
        using classify_hash_within [OF Some [unfolded jr] less.prems(1) r2] classify_hash_ge [OF Some [unfolded jr]] i
        by (intro IH) simp_all
      then show ?thesis by (simp add: eq Some jr)
    qed
  next
    case False
    then show ?thesis
      using less.prems(2,3) pipe all [OF less.prems(2)] IH [of "Suc i" r] IH [of "Suc i" "r \<lparr> m_arch := True \<rparr>"]
      by (subst classify.simps) (auto simp add: Let_def)
  qed
qed

text \<open>The parts of a segment that nested calls get; the query only when there is one.\<close>

definition parts_within :: "nat \<Rightarrow> meta \<Rightarrow> bool" where
  "parts_within n r \<longleftrightarrow> (m_more r \<longrightarrow> length (m_path r) < n) \<and> (m_piped r \<longrightarrow> length (m_pipe r) < n)
    \<and> (m_logOk r \<longrightarrow> length (m_logKey r) < n) \<and> (q_on r \<longrightarrow> length (q_path r) < n)"

lemma classifyPathSegment_within: "parts_within (length path) (classifyPathSegment env path)"
proof (cases "path = []")
  case True
  then show ?thesis
    unfolding classifyPathSegment_def by (subst classify.simps) (simp add: no_meta_def parts_within_def)
next
  case False
  then have "meta_within (length path) (classifyPathSegment env path)"
    unfolding classifyPathSegment_def by (intro classify_within) (simp_all add: no_meta_def meta_within_def)
  then show ?thesis by (simp add: meta_within_def parts_within_def)
qed

lemma split_pipe_shorter: "split_pipe path i = Some (l, r) \<Longrightarrow> length l < length path \<and> length r < length path"
proof (induction "length path - i" arbitrary: i rule: less_induct)
  case (less i)
  have IH: "length l < length path \<and> length r < length path" if "split_pipe path j = Some (l, r)" "i < j" "i < length path" for j
    using less.hyps [of j] that by (simp add: diff_less_mono2)
  have s: "i < Suc (selector_end path a b (Suc (Suc (Suc i))) d)" for a b d
    using selector_end_ge [of "Suc (Suc (Suc i))" path a b d] by linarith
  from less.prems show ?case
    by (subst (asm) split_pipe.simps) (auto simp: Let_def split: if_splits; drule IH; simp add: s)
qed

lemma splitAtUnescapedPipe_shorter:
  "splitAtUnescapedPipe path = Some (l, r) \<Longrightarrow> length l < length path \<and> length r < length path"
  by (auto simp: splitAtUnescapedPipe_def Let_def dest: split_pipe_shorter split: if_splits)

lemma selector_at_shorter: "0 < start \<Longrightarrow> i < length path \<Longrightarrow> length (snd (selector_at path start colon i)) < length path"
  by (auto simp: selector_at_def slice_def)

lemma sub_selectors_shorter:
  "sub_selectors path i depth colon start transformer sels = Some (subs, rest) \<Longrightarrow> 0 < start \<Longrightarrow>
    list_all (\<lambda>s. length (snd s) < length path) sels \<Longrightarrow>
    list_all (\<lambda>s. length (snd s) < length path) subs \<and> length rest < length path"
proof (induction "length path - i" arbitrary: i depth colon start transformer sels rule: less_induct)
  case (less i depth colon start transformer sels)
  define ok where "ok = list_all (\<lambda>s :: sel. length (snd s) < length path)"
  have IH: "ok subs \<and> length rest < length path"
    if "sub_selectors path j d c s t ss = Some (subs, rest)" "0 < s" "ok ss" "i < j" "i < length path" for j d c s t ss
    using less.hyps [of j d c s t ss] that unfolding ok_def by (simp add: diff_less_mono2)
  have q: "i < Suc (fst (query_string_end path (Suc i) False))"
    using query_string_end_fst [of "Suc i" path False] by linarith
  have ok: "ok sels" using less.prems(3) by (simp add: ok_def)
  have sel: "ok (sels @ [selector_at path start colon i])" if "i < length path"
    using less.prems(2,3) that by (simp add: ok_def selector_at_shorter)
  from less.prems(1) show ?case
    unfolding ok_def [symmetric]
    by (subst (asm) sub_selectors.simps)
      (auto simp: Let_def sel split: if_splits; drule IH; simp add: q sel less.prems(2) ok)
qed

lemma drop_shorter: "0 < i \<Longrightarrow> s \<noteq> [] \<Longrightarrow> length (drop i s) < length s"
  by (cases s) auto

lemma redirect_shorter:
  assumes "redirect env json path = Some (rest, json')" and "path \<noteq> []"
  shows "length rest < length path"
proof -
  have i: "0 < skip_while p path 1" for p using skip_while_ge [of 1 p path] by linarith
  have "length rest < length path" if t: "applyTransformerAt env json path = Some (rest, json')"
  proof -
    define i where "i = skip_while (\<lambda>c. c \<notin> set '':|.'') path 1"
    define r where "r = (if i < length path \<and> path ! i = CHR '':'' then drop (i + 1) path else drop i path)"
    have "length r < length path" using drop_shorter [OF i assms(2)] assms(2) by (auto simp: r_def i_def)
    moreover have "length rest \<le> length r"
      using t [unfolded applyTransformerAt_def Let_def, folded i_def, folded r_def]
      by (auto simp: transformer_args_def Let_def split: option.splits if_splits)
    ultimately show ?thesis by simp
  qed
  moreover have "length rest < length path" if "splitStaticAndLiteral path = Some (rest, json')"
    using that drop_shorter [OF i assms(2)] assms(2) by (auto simp: splitStaticAndLiteral_def Let_def split: if_splits)
  ultimately show ?thesis using assms(1) by (auto simp: redirect_def split: if_splits)
qed

section \<open>Progress\<close>

lemma skip_while_greater [simp]: "i < skip_while p xs (Suc i)"
  using skip_while_ge by (rule Suc_le_lessD)

lemma closing_quote_greater [simp]: "i < closing_quote json lo (Suc i)"
  using closing_quote_ge by (rule Suc_le_lessD)

lemma string_end_ge: "string_end json i = (q, esc, ok) \<Longrightarrow> i \<le> q"
proof -
  define p where "p = skip_while (\<lambda>c. c \<noteq> CHR 0x22 \<and> c \<noteq> CHR 0x5C) json i"
  have p: "i \<le> p" by (simp add: p_def)
  moreover have "i \<le> closing_quote json (Suc 0) (Suc p)" using p closing_quote_greater [of p json "Suc 0"] by linarith
  moreover assume "string_end json i = (q, esc, ok)"
  ultimately show ?thesis by (auto simp: string_end_def Let_def p_def [symmetric] split: if_splits)
qed

lemma starts_value_visible: "starts_value c \<Longrightarrow> visible c"
  by (auto simp: starts_value_def starts_number_def visible_def)

lemma scan_value_progress:
  assumes "scan_value env json v = (j, put, ok)" and "v < length json" and "starts_value (json ! v)"
  shows "v < j"
proof -
  have e: "\<not> IsEmpty json"
    using IsEmpty_no_visible [OF starts_value_visible [OF assms(3)]] assms(2) by simp
  have "v < fst (extractJSONValue json v)"
    using e value_end_bounds [of json "Suc v" 1] by (force simp: extractJSONValue_def split: prod.splits bool.splits)
  moreover have "v < fst (extractJSONString json (v + 1))"
    using e string_end_ge [of json "Suc v"] by (force simp: extractJSONString_def split: prod.splits bool.splits)
  ultimately show ?thesis
    using assms(1) e by (auto simp: scan_value_def extractJSONNumber_def extractJSONLowerLiteral_def Let_def
        split: if_splits prod.splits)
qed

text \<open>A loop ends when every turn advances, and its state keeps what every turn keeps.\<close>

lemma turns_total:
  assumes turn: "\<And>i s. good s \<Longrightarrow> start \<le> i \<Longrightarrow>
      \<exists>r. step i s = Some r \<and> (case r of Finish j hit c \<Rightarrow> i \<le> j \<and> post c | Again j s' \<Rightarrow> i < j \<and> i \<le> bound \<and> good s')"
    and "good s" and "start \<le> i"
  shows "\<exists>j hit c. turns step i s = Some (j, hit, c) \<and> i \<le> j \<and> post c"
  using assms(2,3)
proof (induction "Suc bound - i" arbitrary: i s rule: less_induct)
  case less
  from turn [OF less.prems] obtain r where r: "step i s = Some r"
    "case r of Finish j hit c \<Rightarrow> i \<le> j \<and> post c | Again j s' \<Rightarrow> i < j \<and> i \<le> bound \<and> good s'" by blast
  show ?case
  proof (cases r)
    case (Finish j hit c)
    with r show ?thesis by (subst turns.simps) simp
  next
    case (Again j s')
    with r less.prems less.hyps [of j s'] obtain k hit c where "turns step j s' = Some (k, hit, c) \<and> j \<le> k \<and> post c"
      by (auto simp: diff_less_mono2)
    with r Again show ?thesis by (subst turns.simps) auto
  qed
qed

section \<open>Objects\<close>

definition pipe_within :: "nat \<Rightarrow> 'f parser \<Rightarrow> bool" where
  "pipe_within m c \<longleftrightarrow> (p_piped c \<longrightarrow> length (p_pipe c) < m)"

lemma pipe_within_simps [simp]:
  "pipe_within m (c \<lparr> p_val := v \<rparr>) = pipe_within m c"
  "pipe_within m (set_pipe p c) = (length p < m)"
  by (simp_all add: pipe_within_def set_pipe_def)

definition matcher_total :: "nat \<Rightarrow> nat \<Rightarrow> 'f matcher \<Rightarrow> bool" where
  "matcher_total m n f \<longleftrightarrow> (\<forall>json i path c. length path < n \<longrightarrow> pipe_within m c \<longrightarrow>
     (\<exists>j hit c'. f json i path c = Some (j, hit, c') \<and> i \<le> j \<and> pipe_within m c'))"

definition getter_total :: "nat \<Rightarrow> 'f getter \<Rightarrow> bool" where
  "getter_total n get \<longleftrightarrow> (\<forall>json path. length path < n \<longrightarrow> (\<exists>v. get json path = Some v))"

lemma matcher_totalE:
  assumes "matcher_total m n f" and "length path < n" and "pipe_within m c"
  obtains j hit c' where "f json i path c = Some (j, hit, c')" "i \<le> j" "pipe_within m c'"
  using assms unfolding matcher_total_def by blast

lemma getter_totalE:
  assumes "getter_total n get" and "length path < n"
  obtains v where "get json path = Some v"
  using assms unfolding getter_total_def by blast

lemma object_step_total:
  assumes "matcher_total m n obj" and "matcher_total m n arr" and "w_more sp \<Longrightarrow> length (w_path sp) < n"
    and "pipe_within m c"
  shows "\<exists>r. object_step env obj arr json sp i c = Some r \<and> (case r of
      Finish j hit c \<Rightarrow> i \<le> j \<and> pipe_within m c
    | Again j c \<Rightarrow> i < j \<and> i \<le> length json \<and> pipe_within m c)"
proof -
  define k where "k = skip_while (\<lambda>c. c \<noteq> CHR 0x22 \<and> c \<noteq> CHR ''}'') json i"
  have k: "i \<le> k" by (simp add: k_def)
  obtain q esc ok where q: "string_end json (Suc k) = (q, esc, ok)" by (metis prod_cases3)
  have kq: "k < q" using string_end_ge [OF q] by simp
  define v where "v = skip_while (\<lambda>c. \<not> starts_value c) json (Suc q)"
  have qv: "q < v" by (simp add: v_def)
  define found where "found = key_matches sp (slice json (Suc k) q) esc"
  note defs = object_step_def Let_def k_def [symmetric] q v_def [symmetric] found_def [symmetric]
  show ?thesis
  proof (cases "k < length json \<and> json ! k \<noteq> CHR ''}'' \<and> ok \<and> v < length json")
    case False
    with k kq qv assms(4) show ?thesis
      by (auto simp: defs)
  next
    case True
    then have v: "starts_value (json ! v)" using skip_while_stop [of "\<lambda>c. \<not> starts_value c" json "Suc q"] by (simp add: v_def)
    obtain j put ok' where s: "scan_value env json v = (j, put, ok')" by (metis prod_cases3)
    have vj: "v < j" using scan_value_progress [OF s] v True by simp
    show ?thesis
    proof (cases "found \<and> w_more sp \<and> (json ! v = CHR ''{'' \<or> json ! v = CHR ''['')")
      case descend: True
      define f where "f = (if json ! v = CHR ''{'' then obj else arr)"
      have "matcher_total m n f" using assms(1,2) by (simp add: f_def)
      then obtain j hit c' where "f json (Suc v) (w_path sp) c = Some (j, hit, c')" "Suc v \<le> j" "pipe_within m c'"
        using matcher_totalE assms(3,4) descend by blast
      with True descend k kq qv show ?thesis by (simp add: defs f_def [symmetric])
    next
      case False
      with True k kq qv vj assms(4) show ?thesis
        by (cases "found \<and> \<not> w_more sp"; cases ok') (auto simp: defs s)
    qed
  qed
qed

section \<open>Arrays\<close>

definition array_within :: "nat \<Rightarrow> nat \<Rightarrow> 'f array_state \<Rightarrow> bool" where
  "array_within m n st \<longleftrightarrow> pipe_within m (a_parser st) \<and> parts_within n (a_meta st)"

lemma array_within_simps [simp]:
  "array_within m n (st \<lparr> a_count := k \<rparr>) = array_within m n st"
  "array_within m n (st \<lparr> a_log := l \<rparr>) = array_within m n st"
  "array_within m n (st \<lparr> a_all := s \<rparr>) = array_within m n st"
  "array_within m n (st \<lparr> a_parser := c \<rparr>) = (pipe_within m c \<and> parts_within n (a_meta st))"
  by (simp_all add: array_within_def)

lemma matched_value_total:
  assumes "getter_total n get" and "array_within m n st" and "n \<le> m"
  obtains res st' where "matched_value get v st = Some (res, st')" "array_within m n st'"
proof (cases "m_more (a_meta st)")
  case False
  with that assms show thesis by (simp add: matched_value_def)
next
  case more: True
  then have path: "length (m_path (a_meta st)) < n" using assms(2) by (simp add: array_within_def parts_within_def)
  show thesis
  proof (cases "splitAtUnescapedPipe (m_path (a_meta st))")
    case None
    obtain r where "get (raw v) (m_path (a_meta st)) = Some r" using getter_totalE [OF assms(1) path] .
    with that assms(2) more None show thesis by (simp add: matched_value_def)
  next
    case (Some lr)
    obtain l r where lr: "lr = (l, r)" by (cases lr)
    note short = splitAtUnescapedPipe_shorter [OF Some [unfolded lr]]
    then obtain res where "get (raw v) l = Some res" using getter_totalE [OF assms(1), of l] path by (metis order_less_trans)
    moreover have "array_within m n (st \<lparr> a_meta := (a_meta st) \<lparr> m_path := l \<rparr>, a_parser := set_pipe r (a_parser st) \<rparr>)"
      using assms(2,3) short path by (auto simp: array_within_def parts_within_def)
    ultimately show thesis using that more Some lr by (simp add: matched_value_def)
  qed
qed

lemma executeQuery_total:
  assumes "getter_total n get" and "array_within m n st" and "n \<le> m" and "q_on (a_meta st)"
  obtains found st' where "executeQuery env get v st = Some (found, st')" "array_within m n st'"
proof -
  define an where "an = a_meta st"
  define st1 where "st1 = (if q_all an \<and> a_all st = [] then st \<lparr> a_all := ''['' \<rparr> else st)"
  have st1: "array_within m n st1" using assms(2) by (simp add: st1_def)
  have "length (q_path an) < n" using assms(2,4) by (simp add: array_within_def parts_within_def an_def)
  then obtain r where r: "(if kind v = KJSON then get (raw v) (q_path an) else Some v) = Some r"
    using getter_totalE [OF assms(1), of "q_path an"] by (metis (full_types))
  obtain res st2 where m: "matched_value get v st1 = Some (res, st2)" "array_within m n st2"
    using matched_value_total [OF assms(1) st1 assms(3)] .
  note body = executeQuery_def Let_def an_def [symmetric] st1_def [symmetric]
  have "executeQuery env get v st = Some (False, st1) \<or>
      executeQuery env get v st = Some (False, st2 \<lparr> a_all := append_match (a_all st2) (raw_or_string env res) \<rparr>) \<or>
      executeQuery env get v st = Some (True, st2 \<lparr> a_parser := (a_parser st2) \<lparr> p_val := res \<rparr> \<rparr>)"
    using r m(1) by (simp add: body)
  moreover have "array_within m n (st2 \<lparr> a_all := append_match (a_all st2) (raw_or_string env res) \<rparr>)"
    "array_within m n (st2 \<lparr> a_parser := (a_parser st2) \<lparr> p_val := res \<rparr> \<rparr>)"
    using m(2) by (simp_all add: array_within_def)
  ultimately show thesis using that st1 by blast
qed

lemma log_values_total:
  assumes "getter_total n get" and "length key < n"
  shows "\<exists>text. log_values env get json key is k acc = Some text"
proof (induction "is" arbitrary: k acc)
  case (Cons i "is")
  obtain j v ok where v: "extractJSONValueAt env json (skip_while is_ws json i) True = (j, v, ok)" by (metis prod_cases3)
  obtain res where "get (raw v) key = Some res" using getter_totalE [OF assms] .
  then show ?case by (simp add: Let_def v Cons)
qed simp

lemma close_array_total:
  assumes "getter_total n get" and "array_within m n st" and "n \<le> m"
  obtains found c where "close_array env get json st = Some (found, c)" "pipe_within m c"
proof (cases "m_arch (a_meta st) \<and> m_part (a_meta st) = ''#'' \<and> m_logOk (a_meta st)")
  case False
  then have "\<exists>found c. close_array env get json st = Some (found, c) \<and> pipe_within m c"
    using assms(2) by (auto simp: close_array_def Let_def array_within_def)
  with that show thesis by blast
next
  case log: True
  then have key: "length (m_logKey (a_meta st)) < n" using assms(2) by (simp add: array_within_def parts_within_def)
  show thesis
  proof (cases "splitAtUnescapedPipe (m_logKey (a_meta st))")
    case None
    obtain u where "log_values env get json (m_logKey (a_meta st)) (a_log st) 0 ''['' = Some u"
      using log_values_total [OF assms(1) key] by blast
    with that log None assms(2) show thesis by (simp add: close_array_def Let_def array_within_def)
  next
    case (Some lr)
    obtain l r where lr: "lr = (l, r)" by (cases lr)
    note short = splitAtUnescapedPipe_shorter [OF Some [unfolded lr]]
    then obtain u where "log_values env get json l (a_log st) 0 ''['' = Some u"
      using log_values_total [OF assms(1), of l] key by (metis order_less_trans)
    with that log Some lr short key assms(3) show thesis by (simp add: close_array_def Let_def)
  qed
qed

lemma array_step_total:
  assumes "matcher_total m n obj" and "matcher_total m n arr" and "getter_total n get" and "n \<le> m"
    and st: "array_within m n st0"
  shows "\<exists>r. array_step env obj arr get json partIdx i st0 = Some r \<and> (case r of
      Finish j hit c \<Rightarrow> i \<le> j \<and> pipe_within m c
    | Again j st \<Rightarrow> i < j \<and> i \<le> length json \<and> array_within m n st)"
proof (cases "length json < i")
  case True
  with st show ?thesis by (simp add: array_step_def array_within_def)
next
  case i: False
  define an where "an = a_meta st0"
  define found where "found = (\<not> m_arch an \<and> partIdx = int (a_count st0))"
  define st where "st = (if m_logOk an then st0 \<lparr> a_log := a_log st0 @ [i] \<rparr> else st0)"
  define v where "v = skip_while (\<lambda>c. c \<noteq> CHR '']'' \<and> \<not> starts_value c) json i"
  have v: "i \<le> v" "v \<le> length json" using i by (simp_all add: v_def skip_while_le)
  have st': "array_within m n st" "a_meta st = an" using st by (simp_all add: st_def an_def)
  note body = array_step_def [of env obj arr get json partIdx i st0, unfolded Let_def,
      folded an_def, folded found_def, folded st_def, folded v_def]
  show ?thesis
  proof (cases "v = length json \<or> json ! v = CHR '']''")
    case True
    obtain found c where "close_array env get json st = Some (found, c)" "pipe_within m c"
      using close_array_total [OF assms(3) st'(1) assms(4)] .
    with True i v show ?thesis by (simp add: body)
  next
    case False
    then have sv: "starts_value (json ! v)" "v < length json"
      using skip_while_stop [of "\<lambda>c. c \<noteq> CHR '']'' \<and> \<not> starts_value c" json i] v by (auto simp: v_def)
    obtain j put ok where s: "scan_value env json v = (j, put, ok)" by (metis prod_cases3)
    have j: "v < j" using scan_value_progress [OF s sv(2,1)] .
    show ?thesis
    proof (cases "found \<and> m_more an \<and> (json ! v = CHR ''{'' \<or> json ! v = CHR ''['')")
      case descend: True
      define f where "f = (if json ! v = CHR ''{'' then obj else arr)"
      have "matcher_total m n f" "length (m_path an) < n" "pipe_within m (a_parser st)"
        using assms(1,2) st' descend by (auto simp: f_def array_within_def parts_within_def)
      then obtain j hit c where "f json (Suc v) (m_path an) (a_parser st) = Some (j, hit, c)" "Suc v \<le> j" "pipe_within m c"
        using matcher_totalE by blast
      with False i v descend st' show ?thesis by (simp add: body f_def [symmetric] array_within_def)
    next
      case scalar: False
      show ?thesis
      proof (cases "q_on an \<and> ok")
        case True
        then obtain hit st2 where "executeQuery env get (put (no_value env)) st = Some (hit, st2)" "array_within m n st2"
          using executeQuery_total [OF assms(3) st'(1) assms(4)] st'(2) by metis
        with False i v j scalar True show ?thesis by (auto simp: body s array_within_def)
      next
        case False': False
        with False i v j scalar st' show ?thesis by (auto simp: body s array_within_def)
      qed
    qed
  qed
qed

section \<open>Get returns\<close>

lemma object_total:
  assumes "matcher_total m (length path) (matchJSONObjectAt env k)"
    and "matcher_total m (length path) (matchJSONArrayAt env k)"
    and "length path \<le> m" and "pipe_within m c"
  shows "\<exists>j hit c'. matchJSONObjectAt env (Suc k) json i path c = Some (j, hit, c') \<and> i \<le> j \<and> pipe_within m c'"
proof -
  define sp where "sp = splitPathSegment env path"
  define c1 where "c1 = (if \<not> w_more sp \<and> w_piped sp then set_pipe (w_pipe sp) c else c)"
  have more: "w_more sp \<Longrightarrow> length (w_path sp) < length path" unfolding sp_def by (rule splitPathSegment_shorter)
  have c1: "pipe_within m c1" using assms(3,4) splitPathSegment_shorter(2) [of env path] by (auto simp: c1_def sp_def)
  have "\<exists>j hit c'. turns (object_step env (matchJSONObjectAt env k) (matchJSONArrayAt env k) json sp) i c1 = Some (j, hit, c')
      \<and> i \<le> j \<and> pipe_within m c'"
    by (rule turns_total [where good = "pipe_within m" and start = i and bound = "length json"])
      (use object_step_total [OF assms(1,2) more] c1 in simp_all)
  then show ?thesis by (simp add: Let_def sp_def [symmetric] c1_def [symmetric])
qed

lemma array_total:
  assumes "matcher_total m (length path) (matchJSONObjectAt env k)"
    and "matcher_total m (length path) (matchJSONArrayAt env k)" and "getter_total (length path) (Get_within env k)"
    and "length path \<le> m" and "pipe_within m c"
  shows "\<exists>j hit c'. matchJSONArrayAt env (Suc k) json i path c = Some (j, hit, c') \<and> i \<le> j \<and> pipe_within m c'"
proof -
  define an where "an = classifyPathSegment env path"
  define c1 where "c1 = (if \<not> m_more an \<and> m_piped an then set_pipe (m_pipe an) c else c)"
  have an: "parts_within (length path) an" unfolding an_def by (rule classifyPathSegment_within)
  then have c1: "pipe_within m c1" using assms(4,5) by (auto simp: c1_def parts_within_def)
  have "\<exists>j hit c'. turns (array_step env (matchJSONObjectAt env k) (matchJSONArrayAt env k) (Get_within env k) json (part_index env an)) i
      \<lparr> a_parser = c1, a_meta = an, a_count = 0, a_log = [], a_all = [] \<rparr> = Some (j, hit, c') \<and> i \<le> j \<and> pipe_within m c'"
    by (rule turns_total [where good = "array_within m (length path)" and start = i and bound = "length json"])
      (use array_step_total [OF assms(1-4)] c1 an in \<open>simp_all add: array_within_def\<close>)
  then show ?thesis by (simp add: Let_def an_def [symmetric] c1_def [symmetric])
qed

lemma selected_values_total:
  assumes "getter_total n get" and "list_all (\<lambda>s. length (snd s) < n) subs"
  shows "\<exists>b'. selected_values env get json keys subs i b = Some b'"
  using assms(2)
proof (induction subs arbitrary: i b)
  case (Cons sub subs)
  then have "length (snd sub) < n" by simp
  then obtain res where "get json (snd sub) = Some res" using getter_totalE [OF assms(1)] by metis
  with Cons show ?case by (simp add: Let_def)
qed simp

lemma search_total:
  assumes "matcher_total m (Suc m) obj" and "matcher_total m (Suc m) arr" and "getter_total m get" and "length path \<le> m"
  shows "\<exists>v. search env obj arr get json path = Some v"
proof -
  have c: "pipe_within m (no_parser env)" by (simp add: pipe_within_def no_parser_def)
  have f: "\<exists>j hit c. f json i p (no_parser env) = Some (j, hit, c) \<and> pipe_within m c"
    if "matcher_total m (Suc m) f" "length p \<le> m" for f p i
    using that c matcher_totalE by (metis less_Suc_eq_le)
  have drop: "length (drop 2 path) \<le> m" using assms(4) by simp
  let ?s = "if take 2 path = ''..'' then arr json 0 (drop 2 path) (no_parser env)
       else let i = skip_while (\<lambda>c. c \<noteq> CHR ''{'' \<and> c \<noteq> CHR ''['') json 0
         in if length json \<le> i then Some (i, False, no_parser env)
            else if json ! i = CHR ''{'' then obj json (i + 1) path (no_parser env)
            else arr json (i + 1) path (no_parser env)"
  have "\<exists>j hit c. ?s = Some (j, hit, c) \<and> pipe_within m c"
    by (simp add: Let_def c f [OF assms(1,4)] f [OF assms(2,4)] f [OF assms(2) drop, unfolded drop_drop])
      (intro impI exI [of _ False]; simp)
  then obtain j hit c where s: "?s = Some (j, hit, c)" "pipe_within m c" by blast
  then show ?thesis
    using getter_totalE [OF assms(3), of "p_pipe c" "raw (p_val c)"] unfolding search_def s(1)
    by (cases "p_piped c") (auto simp: pipe_within_def)
qed

lemma get_total:
  assumes "matcher_total (length path) (Suc (length path)) obj" and "matcher_total (length path) (Suc (length path)) arr"
    and "getter_total (length path) get"
  shows "\<exists>v. get_body env obj arr get json path = Some v"
proof (cases "if 1 < length path then redirect env json path else None")
  case (Some rj)
  obtain rest json' where rj: "rj = (rest, json')" by (cases rj)
  have "length rest < length path" using Some rj redirect_shorter [of env json path rest json'] by (cases path) (auto split: if_splits)
  then have "length (tl rest) < length path" by simp
  then have "\<exists>v. get json' (tl rest) = Some v" using getter_totalE [OF assms(3)] by metis
  then show ?thesis unfolding get_body_def Some rj by simp
next
  case None
  have search: "\<exists>v. search env obj arr get json p = Some v" if "length p \<le> length path" for p
    using search_total [OF assms that] .
  have "\<exists>v. select env obj arr get json path = Some v" if "1 < length path"
  proof (cases "parseSubSelectors path")
    case None
    with search [of "[]"] show ?thesis by (simp add: select_def)
  next
    case (Some sr)
    obtain subs rest where sr: "sr = (subs, rest)" by (cases sr)
    have short: "list_all (\<lambda>s. length (snd s) < length path) subs" "length rest < length path"
      using sub_selectors_shorter Some unfolding sr parseSubSelectors_def by fastforce+
    obtain b where b: "selected_values env get json (path ! 0 = CHR ''{'') subs 0 [path ! 0] = Some b"
      using selected_values_total [OF assms(3) short(1)] by blast
    have "length (tl rest) < length path" using short(2) by simp
    then have "\<exists>v. get j (tl rest) = Some v" for j using getter_totalE [OF assms(3)] by metis
    with search [of rest] short(2) b Some show ?thesis by (simp add: select_def sr Let_def)
  qed
  with search [of path] None show ?thesis by (simp add: get_body_def)
qed

lemma calls_total:
  "(\<forall>m n. n \<le> Suc m \<longrightarrow> 2 * n \<le> Suc fuel \<longrightarrow>
      matcher_total m n (matchJSONObjectAt env fuel) \<and> matcher_total m n (matchJSONArrayAt env fuel))
    \<and> (\<forall>n. 2 * n \<le> fuel \<longrightarrow> getter_total n (Get_within env fuel))"
proof (induction fuel)
  case 0
  show ?case by (auto simp: matcher_total_def getter_total_def)
next
  case (Suc k)
  then have IH: "matcher_total m n (matchJSONObjectAt env k)" "matcher_total m n (matchJSONArrayAt env k)"
    if "n \<le> Suc m" "2 * n \<le> Suc k" for m n
    using that by blast+
  have IHg: "getter_total n (Get_within env k)" if "2 * n \<le> k" for n using Suc that by blast
  have "matcher_total m n (matchJSONObjectAt env (Suc k)) \<and> matcher_total m n (matchJSONArrayAt env (Suc k))"
    if "n \<le> Suc m" "2 * n \<le> Suc (Suc k)" for m n
    unfolding matcher_total_def using that by (intro conjI allI impI object_total array_total IH IHg) auto
  moreover have "getter_total n (Get_within env (Suc k))" if "2 * n \<le> Suc k" for n
    unfolding getter_total_def
  proof (intro allI impI)
    fix json path :: gostring
    assume "length path < n"
    then show "\<exists>v. Get_within env (Suc k) json path = Some v"
      unfolding Get_within.simps using that by (intro get_total IH IHg) auto
  qed
  ultimately show ?case by blast
qed


end
