(* ===== verification/FjPlain.thy ===== *)
theory FjPlain
  imports FjTotal
begin

text \<open>
  Paths of plain keys and the search of a tree (\<open>lookup\<close>) that they stand for: what the scanners
  find at a value of a document, and how the segments of such a path are read.
\<close>

section \<open>The value at an index\<close>

definition put_value :: "'f fj_env \<Rightarrow> jval \<Rightarrow> 'f Context \<Rightarrow> 'f Context" where
  "put_value env v = (case v of
      JNum s \<Rightarrow> put_number env s
    | JStr s \<Rightarrow> put_string (render v) (CHR 0x5C \<in> set s)
    | JTrue \<Rightarrow> put_literal (CHR ''t'') (render v)
    | JFalse \<Rightarrow> put_literal (CHR ''f'') (render v)
    | JNull \<Rightarrow> put_literal (CHR ''n'') (render v)
    | _ \<Rightarrow> put_json (render v))"

lemma text_at_slice: "text_at json i s t \<Longrightarrow> slice json i (i + length s) = s"
  by (simp add: text_at_def slice_def)

lemma text_at_visible: "text_at json i (c # s) t \<Longrightarrow> visible c \<Longrightarrow> \<not> IsEmpty json"
  by (rule IsEmpty_no_visible [of c]) (auto simp: text_at_Cons)

lemma skip_while_text:
  assumes "text_at json i s t" and "list_all p s" and "t = [] \<or> \<not> p (hd t)"
  shows "skip_while p json i = i + length s"
proof -
  have "takeWhile p (s @ t) = s" using assms(2,3) by (induction s) (cases t; auto)+
  with assms(1) show ?thesis by (simp add: skip_while_takeWhile text_at_def)
qed

lemma number_head: "json_number s \<Longrightarrow> \<exists>c r. s = c # r \<and> (c = CHR ''-'' \<or> is_digit c)"
  by (auto simp: json_number_def json_int_def digits1_def neq_Nil_conv)

lemma is_digit_cases: "is_digit c \<Longrightarrow> c \<in> set ''0123456789''"
proof -
  assume "is_digit c"
  then have "48 \<le> byte_val c" "byte_val c \<le> 57" by (simp_all add: is_digit_def less_eq_char_def)
  then have "byte_val c = 48 \<or> byte_val c = 49 \<or> byte_val c = 50 \<or> byte_val c = 51 \<or> byte_val c = 52 \<or>
      byte_val c = 53 \<or> byte_val c = 54 \<or> byte_val c = 55 \<or> byte_val c = 56 \<or> byte_val c = 57" by presburger
  then have "byte_val c \<in> byte_val ` set ''0123456789''" by simp
  moreover have "inj (of_char :: char \<Rightarrow> nat)" by (simp add: inj_def)
  ultimately show ?thesis by (simp only: inj_image_mem_iff)
qed

lemma starts_number_head: "c = CHR ''-'' \<or> is_digit c \<Longrightarrow> starts_number c \<and> c \<noteq> CHR ''n'' \<and> c \<notin> set ''{['' \<and> c \<noteq> CHR 0x22"
  by (auto simp: starts_number_def dest!: is_digit_cases)

lemma starts_number_value: "starts_number c \<Longrightarrow> starts_value c"
  by (simp add: starts_value_def)

lemma render_head: "wf_val v \<Longrightarrow> \<exists>c s. render v = c # s \<and> starts_value c"
  by (cases v) (auto dest!: number_head starts_number_head simp: starts_number_value, auto simp: starts_value_def)

lemma container_at:
  assumes "text_at json i (b # s @ [e]) t" and "b \<in> set ''{[''" and "e \<in> set '']}''" and "skipped s"
  shows "extractJSONValue json i = (i + length (b # s @ [e]), b # s @ [e])"
proof -
  have i: "text_at json (Suc i) (s @ [e]) t" using assms(1) by (simp add: text_at_Cons)
  have e: "text_at json (Suc i + length s) [e] t" using text_at_append [OF i] .
  have "value_end json (Suc i) (Suc 0) = value_end json (Suc i + length s) (Suc 0)"
    by (rule skippedD [OF assms(4) text_at_left [OF i]])
  also have "\<dots> = (i + length (b # s @ [e]), True)"
    using e assms(3) by (subst value_end.simps) (auto simp: text_at_Cons Let_def)
  finally show ?thesis
    using text_at_slice [OF assms(1)] text_at_visible [OF assms(1)] assms(2) by (auto simp: extractJSONValue_def visible_def)
qed

lemma number_char_goes_on: "number_char c \<Longrightarrow> \<not> ends_number c"
  by (auto simp: number_char_def ends_number_def dest!: is_digit_cases)

lemma value_follows_ends: "value_follows t \<Longrightarrow> t = [] \<or> ends_number (hd t) \<and> \<not> is_lower (hd t)"
  by (auto simp: value_follows_def ends_number_def is_lower_def is_ws_def)

lemma literal_at:
  assumes "text_at json i (c # s) t" and "visible c" and "list_all is_lower s" and "value_follows t"
  shows "extractJSONLowerLiteral json i = (i + length (c # s), c # s)"
proof -
  have "skip_while is_lower json (Suc i) = Suc i + length s"
    by (rule skip_while_text [of _ _ _ t]) (use assms(1,3) value_follows_ends [OF assms(4)] in \<open>auto simp: text_at_Cons\<close>)
  then show ?thesis
    using text_at_slice [OF assms(1)] text_at_visible [OF assms(1,2)] by (simp add: extractJSONLowerLiteral_def Let_def)
qed

lemma scan_value_found:
  assumes "wf_val v" and "text_at json i (render v) t" and "value_follows t"
  shows "scan_value env json i = (i + length (render v), put_value env v, True)"
proof (cases v)
  case (JNum s)
  then have "json_number s" using assms(1) by simp
  then obtain c r where s: "s = c # r" "c = CHR ''-'' \<or> is_digit c" using number_head by blast
  have "list_all (\<lambda>c. \<not> ends_number c) r"
    using number_chars [of s] assms(1) by (auto simp: JNum s list_all_iff number_char_goes_on)
  then have "skip_while (\<lambda>c. \<not> ends_number c) json (Suc i) = Suc i + length r"
    by (intro skip_while_text [of _ _ _ t]) (use assms(2) value_follows_ends [OF assms(3)] in \<open>auto simp: JNum s text_at_Cons\<close>)
  moreover have "json ! i = c" using assms(2) by (simp add: JNum s text_at_Cons)
  moreover have "\<not> IsEmpty json"
    by (rule text_at_visible [OF assms(2) [unfolded JNum s render.simps]])
      (use starts_number_head [OF s(2)] in \<open>auto intro: starts_value_visible starts_number_value\<close>)
  ultimately show ?thesis
    using starts_number_head [OF s(2)] text_at_slice [OF assms(2)]
    by (simp add: scan_value_def Let_def extractJSONNumber_def put_value_def JNum s)
next
  case (JStr s)
  then have "quoted_at json (Suc i) s t" using assms by (intro at_quoted [of _ _ _ "[]", simplified]) simp_all
  from extractJSONString_found [OF this] show ?thesis
    using assms(2) by (simp add: scan_value_def put_value_def JStr text_at_Cons Let_def)
next
  case JTrue
  then show ?thesis
    using literal_at [of json i "CHR ''t''" "''rue''" t] assms(2,3)
    by (simp add: scan_value_def put_value_def Let_def text_at_Cons starts_nan_def starts_number_def visible_def is_lower_def)
next
  case JFalse
  then show ?thesis
    using literal_at [of json i "CHR ''f''" "''alse''" t] assms(2,3)
    by (simp add: scan_value_def put_value_def Let_def text_at_Cons starts_nan_def starts_number_def visible_def is_lower_def)
next
  case JNull
  then show ?thesis
    using literal_at [of json i "CHR ''n''" "''ull''" t] assms(2,3)
    by (simp add: scan_value_def put_value_def Let_def text_at_Cons starts_nan_def starts_number_def visible_def is_lower_def)
next
  case (JArr w es)
  then have "skipped (w @ render_elems es)" using assms(1) by (auto intro: skipped_append skipped_ws skipped_value)
  from container_at [OF _ _ _ this, of json i "CHR ''[''" "CHR '']''" t] assms(2) show ?thesis
    by (simp add: scan_value_def put_value_def Let_def JArr text_at_Cons)
next
  case (JObj w ms)
  then have "skipped (w @ render_members ms)" using assms(1) by (auto intro: skipped_append skipped_ws skipped_value)
  from container_at [OF _ _ _ this, of json i "CHR ''{''" "CHR ''}''" t] assms(2) show ?thesis
    by (simp add: scan_value_def put_value_def Let_def JObj text_at_Cons)
qed

section \<open>The search of a tree\<close>

definition part_number :: "'f fj_env \<Rightarrow> gostring \<Rightarrow> int" where
  "part_number env s = (case parseUint64 env s of None \<Rightarrow> - 1 | Some n \<Rightarrow> if n < 2 ^ 63 then n else n - 2 ^ 64)"

text \<open>The index that a key stands for in an array; a key with one of the two signs stands for none.\<close>

definition key_index :: "'f fj_env \<Rightarrow> gostring \<Rightarrow> int" where
  "key_index env k =
    (if CHR ''.'' \<in> set k \<or> CHR ''#'' \<in> set k then - 1 else part_number env (escapeUnsafeChars k))"

text \<open>The first of the members with the key in which the rest of the path is found; the one element with
  the index.\<close>

primrec lookup :: "'f fj_env \<Rightarrow> jval \<Rightarrow> gostring list \<Rightarrow> jval option"
  and lookup_elems :: "'f fj_env \<Rightarrow> jelems \<Rightarrow> int \<Rightarrow> gostring list \<Rightarrow> jval option"
  and lookup_members :: "'f fj_env \<Rightarrow> jmembers \<Rightarrow> gostring \<Rightarrow> gostring list \<Rightarrow> jval option" where
  "lookup env (JNum s) ks = (if ks = [] then Some (JNum s) else None)"
| "lookup env (JStr s) ks = (if ks = [] then Some (JStr s) else None)"
| "lookup env JTrue ks = (if ks = [] then Some JTrue else None)"
| "lookup env JFalse ks = (if ks = [] then Some JFalse else None)"
| "lookup env JNull ks = (if ks = [] then Some JNull else None)"
| "lookup env (JArr w es) ks =
    (case ks of [] \<Rightarrow> Some (JArr w es) | k # ks' \<Rightarrow> lookup_elems env es (key_index env k) ks')"
| "lookup env (JObj w ms) ks =
    (case ks of [] \<Rightarrow> Some (JObj w ms) | k # ks' \<Rightarrow> lookup_members env ms k ks')"
| "lookup_elems env ENil n ks = None"
| "lookup_elems env (ECons w1 v w2 es) n ks = (if n = 0 then lookup env v ks else lookup_elems env es (n - 1) ks)"
| "lookup_members env MNil k ks = None"
| "lookup_members env (MCons w1 name w2 w3 v w4 ms) k ks =
    (if unescape name = k then
       (case lookup env v ks of Some u \<Rightarrow> Some u | None \<Rightarrow> lookup_members env ms k ks)
     else lookup_members env ms k ks)"

section \<open>Paths of plain keys\<close>

fun path_of :: "gostring list \<Rightarrow> gostring" where
  "path_of [] = []"
| "path_of [k] = escapeUnsafeChars k"
| "path_of (k # ks) = escapeUnsafeChars k @ CHR ''.'' # path_of ks"

definition plain_key :: "'f fj_env \<Rightarrow> gostring \<Rightarrow> bool" where
  "plain_key env k \<longleftrightarrow> k \<noteq> [] \<and> CHR ''|'' \<notin> set k \<and>
    (CHR ''.'' \<in> set k \<longrightarrow> parseUint64 env (takeWhile (\<lambda>c. c \<noteq> CHR ''.'') (escapeUnsafeChars k)) = None)"

lemma path_of_Cons: "path_of (k # ks) = escapeUnsafeChars k @ (if ks = [] then [] else CHR ''.'' # path_of ks)"
  by (cases ks) simp_all

lemma escape_head_char: "k \<noteq> [] \<Longrightarrow> \<exists>c s. escapeUnsafeChars k = c # s \<and> (c = CHR 0x5C \<or> isSafePathKeyByte c)"
  by (cases k) auto

lemma path_head:
  assumes "ks \<noteq> []" and "hd ks \<noteq> []"
  shows "\<exists>c s. path_of ks = c # s \<and> (c = CHR 0x5C \<or> isSafePathKeyByte c)"
  using assms escape_head_char [of "hd ks"] by (cases ks) (auto simp: path_of_Cons)

lemma safe_not_special: "isSafePathKeyByte c \<Longrightarrow> c \<notin> set ''.|*?#@[{!('' \<and> c \<noteq> CHR 0x5C"
  by (auto simp: isSafePathKeyByte_def)

lemma escaped_head: "c = CHR 0x5C \<or> isSafePathKeyByte c \<Longrightarrow> c \<notin> set ''.|*?#@[{!(''"
  by (elim disjE) (simp, simp only: safe_not_special not_False_eq_True)

lemma not_a_directive:
  assumes "ks \<noteq> []" and "hd ks \<noteq> []"
  shows "\<not> looksLikeJSONOrTransformer env (path_of ks)" "path_of ks ! 0 \<notin> set ''@![{''" "path_of ks ! 0 \<noteq> CHR ''.''" "path_of ks \<noteq> []"
proof -
  obtain c s where c: "path_of ks = c # s" "c = CHR 0x5C \<or> isSafePathKeyByte c" using path_head [OF assms] by blast
  note n = escaped_head [OF c(2)]
  show "\<not> looksLikeJSONOrTransformer env (path_of ks)" "path_of ks ! 0 \<notin> set ''@![{''" "path_of ks ! 0 \<noteq> CHR ''.''"
    "path_of ks \<noteq> []"
    using n by (simp_all add: c(1) looksLikeJSONOrTransformer_def)
qed

lemma split_segment_escape:
  "split_segment env part wild (escapeUnsafeChars k @ t) = split_segment env (part @ k) wild t"
  by (induction k arbitrary: part) (use safe_not_special in \<open>auto simp: Let_def\<close>)

lemma splitPathSegment_plain:
  assumes "ks \<noteq> [] \<Longrightarrow> hd ks \<noteq> []"
  shows "splitPathSegment env (path_of (k # ks)) =
    \<lparr> w_part = k, w_path = path_of ks, w_pipe = [], w_piped = False, w_wild = False, w_more = (ks \<noteq> []) \<rparr>"
  using assms not_a_directive(1) by (auto simp: splitPathSegment_def path_of_Cons split_segment_escape)

text \<open>What the segment for arrays says about a plain key: it has no query, no pipe and nothing to log.\<close>

definition quiet :: "meta \<Rightarrow> bool" where
  "quiet r \<longleftrightarrow> \<not> m_logOk r \<and> \<not> q_on r \<and> \<not> q_all r \<and> \<not> m_piped r"

definition segment_for :: "'f fj_env \<Rightarrow> gostring \<Rightarrow> gostring list \<Rightarrow> meta \<Rightarrow> bool" where
  "segment_for env k ks r \<longleftrightarrow> quiet r \<and> m_part r \<noteq> ''#''
    \<and> (if m_arch r then key_index env k = - 1 else part_index env r = key_index env k)
    \<and> (0 \<le> key_index env k \<longrightarrow> m_more r = (ks \<noteq> []) \<and> m_path r = path_of ks)"

lemma part_index_number: "part_index env r = part_number env (m_part r)"
  by (simp add: part_index_def part_number_def)

lemma quiet_simps [simp]:
  "quiet (r \<lparr> m_part := p \<rparr>) = quiet r" "quiet (r \<lparr> m_path := q \<rparr>) = quiet r" "quiet (r \<lparr> m_more := b \<rparr>) = quiet r"
  "quiet (r \<lparr> m_arch := b \<rparr>) = quiet r" "quiet no_meta"
  by (simp_all add: quiet_def no_meta_def)

lemma escape_append: "escapeUnsafeChars (a @ b) = escapeUnsafeChars a @ escapeUnsafeChars b"
  by (induction a) simp_all

lemma escape_set: "set (escapeUnsafeChars k) \<subseteq> insert (CHR 0x5C) (set k)"
  by (induction k) auto

lemma path_of_set: "set (path_of ks) \<subseteq> insert (CHR 0x5C) (insert (CHR ''.'') (\<Union> (set ` set ks)))"
proof (induction ks)
  case (Cons k ks)
  with escape_set [of k] show ?case by (auto simp: path_of_Cons)
qed simp

lemma classify_plain:
  assumes "list_all (\<lambda>c. c \<notin> set ''|.#'') s"
  shows "classify env (u @ s @ t) (length u) r = classify env (u @ s @ t) (length u + length s) r"
  using assms
proof (induction s arbitrary: u)
  case (Cons c s)
  have "classify env (u @ (c # s) @ t) (length u) r = classify env (u @ (c # s) @ t) (length (u @ [c])) r"
    using Cons.prems by (subst classify.simps) (simp add: Let_def)
  also have "\<dots> = classify env ((u @ [c]) @ s @ t) (length (u @ [c]) + length s) r"
    using Cons by (simp add: Cons.IH [of "u @ [c]", simplified])
  finally show ?case by simp
qed simp

text \<open>Behind a sign the segment goes on as one for all elements.\<close>

lemma classify_arch:
  assumes "CHR ''|'' \<notin> set p" and "0 < i" and "m_arch r" and "quiet r" and "p ! 0 \<noteq> CHR ''#''"
  shows "m_arch (classify env p i r) \<and> quiet (classify env p i r) \<and> m_part (classify env p i r) \<noteq> ''#''"
  using assms(2-4)
proof (induction "length p - i" arbitrary: i r rule: less_induct)
  case (less i r)
  have part: "take i p \<noteq> ''#''" "p \<noteq> ''#''" using assms(5) less.prems(1) by (cases p; auto simp: take_Cons' split: if_splits)+
  show ?case
  proof (cases "i < length p")
    case True
    then have "p ! i \<noteq> CHR ''|''" using assms(1) by (metis nth_mem)
    with True part less.prems less.hyps [of "Suc i" r] less.hyps [of "Suc i" "r \<lparr> m_arch := True \<rparr>"]
    show ?thesis by (subst (1 2 3) classify.simps) (simp add: Let_def diff_less_mono2)
  next
    case False
    with part less.prems show ?thesis by (subst (1 2 3) classify.simps) simp
  qed
qed

lemma escape_no_sign:
  assumes "list_all (\<lambda>c. c \<notin> set ''.#'') k" and "CHR ''|'' \<notin> set k"
  shows "list_all (\<lambda>c. c \<notin> set ''|.#'') (escapeUnsafeChars k)"
  using escape_set [of k] assms by (auto simp: list_all_iff)

lemma path_no_pipe: "list_all (plain_key env) ks \<Longrightarrow> CHR ''|'' \<notin> set (path_of ks)"
  using path_of_set [of ks] by (auto simp: list_all_iff plain_key_def)

lemma classify_end: "length p \<le> i \<Longrightarrow> classify env p i r = r \<lparr> m_part := p, m_path := [] \<rparr>"
  by (subst classify.simps) simp

lemma classify_dot:
  assumes "p = u @ CHR ''.'' # rest" and "\<not> m_arch r" and "rest = [] \<or> \<not> looksLikeJSONOrTransformer env rest"
  shows "classify env p (length u) r = r \<lparr> m_part := u, m_path := rest, m_more := True \<rparr>"
  using assms by (subst classify.simps) (auto simp: Let_def nth_append)

lemma segment_for_numeric:
  assumes "list_all (\<lambda>c. c \<notin> set ''.#'') k" and "list_all (plain_key env) (k # ks)"
  shows "segment_for env k ks (classifyPathSegment env (path_of (k # ks)))"
proof -
  define e where "e = escapeUnsafeChars k"
  define t where "t = (if ks = [] then [] else CHR ''.'' # path_of ks)"
  have p: "path_of (k # ks) = [] @ e @ t" by (simp add: path_of_Cons e_def t_def)
  have e: "list_all (\<lambda>c. c \<notin> set ''|.#'') e" using assms escape_no_sign by (simp add: e_def plain_key_def)
  have idx: "key_index env k = part_number env e" using assms(1) by (auto simp: key_index_def e_def list_all_iff)
  have e': "e \<noteq> ''#''" using e by auto
  have "classifyPathSegment env (path_of (k # ks)) = classify env (e @ t) 0 no_meta"
    by (simp add: classifyPathSegment_def p)
  also have "\<dots> = classify env (e @ t) (length e) no_meta"
    using classify_plain [OF e, where u = "[]"] by simp
  also have "\<dots> = no_meta \<lparr> m_part := e, m_path := path_of ks, m_more := (ks \<noteq> []) \<rparr>"
  proof (cases "ks = []")
    case True
    then show ?thesis by (simp add: t_def classify_end no_meta_def)
  next
    case False
    then have "\<not> looksLikeJSONOrTransformer env (path_of ks)"
      using assms(2) by (intro not_a_directive) (auto simp: plain_key_def neq_Nil_conv)
    with False show ?thesis by (subst classify_dot) (simp_all add: t_def no_meta_def)
  qed
  finally show ?thesis by (simp add: segment_for_def part_index_number idx e' no_meta_def quiet_def)
qed

lemma segment_for_signs:
  assumes "\<not> list_all (\<lambda>c. c \<notin> set ''.#'') k" and "list_all (plain_key env) (k # ks)"
  shows "segment_for env k ks (classifyPathSegment env (path_of (k # ks)))"
proof -
  obtain k1 d k2 where k: "k = k1 @ d # k2" "d \<in> set ''.#''" "list_all (\<lambda>c. c \<notin> set ''.#'') k1"
    using split_list_first_propE [of k "\<lambda>c. c \<in> set ''.#''"] assms(1) by (auto simp: list_all_iff)
  define e where "e = escapeUnsafeChars k1 @ [CHR 0x5C]"
  define rest where "rest = escapeUnsafeChars k2 @ (if ks = [] then [] else CHR ''.'' # path_of ks)"
  have d: "\<not> isSafePathKeyByte d" using k(2) by (auto simp: isSafePathKeyByte_def)
  have p: "path_of (k # ks) = [] @ e @ d # rest" by (simp add: path_of_Cons k(1) escape_append d e_def rest_def)
  have pipe: "CHR ''|'' \<notin> set (path_of (k # ks))" using path_no_pipe assms(2) by blast
  have e: "list_all (\<lambda>c. c \<notin> set ''|.#'') e"
    using k(1,3) escape_no_sign [of k1] assms(2) by (auto simp: e_def plain_key_def)
  have neg: "key_index env k = - 1" using k(1,2) by (auto simp: key_index_def)
  have eq: "classifyPathSegment env (path_of (k # ks)) = classify env (path_of (k # ks)) (length e) no_meta"
    unfolding classifyPathSegment_def p using classify_plain [OF e, where u = "[]"] by simp
  consider "d = CHR ''.''" | "d = CHR ''#''" using k(2) by auto
  then show ?thesis
  proof cases
    case 1
    have "rest = [] \<or> \<not> looksLikeJSONOrTransformer env rest"
    proof (cases "k2 = []")
      case True
      then show ?thesis by (simp add: rest_def looksLikeJSONOrTransformer_def)
    next
      case False
      then obtain c s where "escapeUnsafeChars k2 = c # s" "c = CHR 0x5C \<or> isSafePathKeyByte c" using escape_head_char by blast
      with escaped_head [of c] show ?thesis by (simp add: rest_def looksLikeJSONOrTransformer_def)
    qed
    then have c: "classifyPathSegment env (path_of (k # ks)) = no_meta \<lparr> m_part := e, m_path := rest, m_more := True \<rparr>"
      unfolding eq unfolding p 1 append_Nil by (subst classify_dot [OF refl]) (simp_all add: no_meta_def)
    have "takeWhile (\<lambda>c. c \<noteq> CHR ''.'') (escapeUnsafeChars k) = e"
      using e 1 d by (simp add: k(1) escape_append e_def takeWhile_append list_all_iff)
    then have "parseUint64 env e = None" using assms(2) 1 k(1) by (simp add: plain_key_def)
    then show ?thesis
      by (simp add: c segment_for_def part_index_number part_number_def neg) (simp add: no_meta_def e_def)
  next
    case 2
    have "path_of (k # ks) ! 0 \<noteq> CHR ''#''" proof -
      have "e \<noteq> []" by (simp add: e_def)
      with e show ?thesis by (cases e) (auto simp: p)
    qed
    with pipe have "m_arch (classify env (path_of (k # ks)) (Suc (length e)) (no_meta \<lparr> m_arch := True \<rparr>)) \<and>
        quiet (classify env (path_of (k # ks)) (Suc (length e)) (no_meta \<lparr> m_arch := True \<rparr>)) \<and>
        m_part (classify env (path_of (k # ks)) (Suc (length e)) (no_meta \<lparr> m_arch := True \<rparr>)) \<noteq> ''#''"
      by (intro classify_arch) simp_all
    moreover have "classify env (path_of (k # ks)) (length e) no_meta =
        classify env (path_of (k # ks)) (Suc (length e)) (no_meta \<lparr> m_arch := True \<rparr>)"
      unfolding p 2 by (subst classify.simps) (simp add: Let_def nth_append, simp add: e_def)
    ultimately show ?thesis by (simp add: eq segment_for_def neg)
  qed
qed

lemma segment_for_plain:
  "list_all (plain_key env) (k # ks) \<Longrightarrow> segment_for env k ks (classifyPathSegment env (path_of (k # ks)))"
  using segment_for_numeric segment_for_signs by blast

end
