(* ===== verification/FjLookup.thy ===== *)
theory FjLookup
  imports FjPlain
begin

text \<open>
  What \<open>Get\<close> finds in a valid document: for a path of plain keys, the value that the search of the
  tree finds, whatever the white space and whatever stands around the document.
\<close>

section \<open>Members\<close>

definition outcome :: "'f fj_env \<Rightarrow> 'f matched \<Rightarrow> nat \<Rightarrow> 'f parser \<Rightarrow> jval option \<Rightarrow> bool" where
  "outcome env r stop c found \<longleftrightarrow> (case found of
      None \<Rightarrow> r = Some (stop, False, c)
    | Some u \<Rightarrow> \<exists>j. r = Some (j, True, c \<lparr> p_val := put_value env u (p_val c) \<rparr>))"

fun is_container :: "jval \<Rightarrow> bool" where
  "is_container (JArr w es) = True"
| "is_container (JObj w ms) = True"
| "is_container v = False"

lemma container_head: "wf_val v \<Longrightarrow> text_at json i (render v) t \<Longrightarrow>
    (json ! i = CHR ''{'' \<or> json ! i = CHR ''['') = is_container v"
  by (cases v) (auto simp: text_at_Cons dest!: number_head starts_number_head)

lemma lookup_scalar: "\<not> is_container v \<Longrightarrow> lookup env v (k # ks) = None"
  by (cases v) simp_all

lemma lookup_all [simp]: "lookup env v [] = Some v"
  by (cases v) simp_all

definition plain_segment :: "gostring \<Rightarrow> gostring list \<Rightarrow> wildcard" where
  "plain_segment k ks =
    \<lparr> w_part = k, w_path = path_of ks, w_pipe = [], w_piped = False, w_wild = False, w_more = (ks \<noteq> []) \<rparr>"

lemma plain_segment_simps [simp]: "\<not> w_piped (plain_segment k ks)" "w_path (plain_segment k ks) = path_of ks"
    "w_more (plain_segment k ks) = (ks \<noteq> [])"
  by (simp_all add: plain_segment_def)

definition key_gap :: "byte \<Rightarrow> bool" where
  "key_gap c \<longleftrightarrow> c \<noteq> CHR 0x22 \<and> c \<noteq> CHR ''}''"

lemma key_matches_plain: "json_chars name \<Longrightarrow> key_matches (plain_segment k ks) name (CHR 0x5C \<in> set name) = (unescape name = k)"
  using unescape_no_escape [of name] by (auto simp: key_matches_def plain_segment_def Let_def)

lemma object_step_end:
  "text_at json i (x @ ''}'') t \<Longrightarrow> list_all key_gap x \<Longrightarrow>
    object_step env obj arr json sp i c = Some (Finish (i + length x + 1) False c)"
proof -
  assume a: "text_at json i (x @ ''}'') t" "list_all key_gap x"
  have "skip_while (\<lambda>c. c \<noteq> CHR 0x22 \<and> c \<noteq> CHR ''}'') json i = i + length x"
    by (rule skip_while_text [OF text_at_left [OF a(1)]]) (use a(2) in \<open>simp_all add: key_gap_def [abs_def]\<close>)
  with text_at_append [OF a(1)] show ?thesis by (simp add: object_step_def Let_def text_at_Cons)
qed

lemma object_step_member:
  assumes "text_at json i (x @ CHR 0x22 # name @ CHR 0x22 # y @ render v) t" and "list_all key_gap x"
    and "json_chars name" and "list_all (\<lambda>c. \<not> starts_value c) y" and "wf_val v" and "value_follows t"
  defines "p \<equiv> i + length x + length name + length y + 2"
  shows "object_step env obj arr json (plain_segment k ks) i c =
    (if unescape name = k \<and> ks \<noteq> [] \<and> is_container v then
       map_option (\<lambda>(j, hit, c'). if hit then Finish j True c' else Again j c')
         ((if json ! p = CHR ''{'' then obj else arr) json (Suc p) (path_of ks) c)
     else if unescape name = k \<and> ks = [] then Some (Finish (p + length (render v)) True (c \<lparr> p_val := put_value env v (p_val c) \<rparr>))
     else Some (Again (p + length (render v)) c))"
proof -
  define q where "q = i + length x"
  have k: "skip_while (\<lambda>c. c \<noteq> CHR 0x22 \<and> c \<noteq> CHR ''}'') json i = q"
    unfolding q_def by (rule skip_while_text [OF text_at_left [OF assms(1)]]) (use assms(2) in \<open>simp_all add: key_gap_def [abs_def]\<close>)
  have tq: "text_at json q (CHR 0x22 # name @ CHR 0x22 # y @ render v) t" using text_at_append [OF assms(1)] by (simp add: q_def)
  then have q: "q < length json" "json ! q = CHR 0x22" by (simp_all add: text_at_Cons)
  have s: "string_end json (Suc q) = (Suc q + length name, CHR 0x5C \<in> set name, True)"
    using string_end_found [OF at_quoted [OF tq assms(3)]] .
  have n: "slice json (Suc q) (Suc q + length name) = name"
    using text_at_slice [of json "Suc q" name] tq text_at_left by (fastforce simp: text_at_Cons)
  have ty: "text_at json (Suc q + length name + 1) (y @ render v) t"
    using text_at_append [of json "Suc q" name "CHR 0x22 # y @ render v" t] tq by (simp add: text_at_Cons)
  obtain a r where r: "render v = a # r" "starts_value a" using render_head [OF assms(5)] by blast
  have p: "p = Suc q + length name + 1 + length y" by (simp add: p_def q_def)
  have v: "skip_while (\<lambda>c. \<not> starts_value c) json (Suc (Suc q + length name)) = p"
    unfolding p using skip_while_text [OF text_at_left [OF ty]] assms(4) r by simp
  have tv: "text_at json p (render v) t" using text_at_append [OF ty] by (simp add: p)
  then have "p < length json" by (simp add: r text_at_Cons)
  with k q s n v show ?thesis
    using scan_value_found [OF assms(5) tv assms(6), of env] container_head [OF assms(5) tv] key_matches_plain [OF assms(3), of k ks]
    by (cases "unescape name = k") (simp_all add: object_step_def Let_def plain_segment_def split del: if_split cong: if_cong)
qed

section \<open>Elements\<close>

definition element_gap :: "byte \<Rightarrow> bool" where
  "element_gap c \<longleftrightarrow> c \<noteq> CHR '']'' \<and> \<not> starts_value c"

lemma array_step_end:
  assumes "text_at json i (x @ '']'') t" and "list_all element_gap x" and "segment_for env k ks (a_meta st)"
    and "a_all st = []"
  shows "array_step env obj arr get json n i st = Some (Finish (i + length x + 1) False (a_parser st))"
proof -
  have v: "skip_while (\<lambda>c. c \<noteq> CHR '']'' \<and> \<not> starts_value c) json i = i + length x"
    by (rule skip_while_text [OF text_at_left [OF assms(1)]]) (use assms(2) in \<open>simp_all add: element_gap_def [abs_def]\<close>)
  have b: "i + length x < length json" "json ! (i + length x) = CHR '']''"
    using text_at_append [OF assms(1)] by (simp_all add: text_at_Cons)
  have "close_array env get json st = Some (False, a_parser st)"
    using assms(3,4) by (simp add: close_array_def Let_def segment_for_def quiet_def)
  with v b assms(3) show ?thesis by (simp add: array_step_def Let_def segment_for_def quiet_def)
qed

lemma array_step_element:
  assumes "text_at json i (x @ render v) t" and "list_all element_gap x" and "wf_val v" and "value_follows t"
    and "segment_for env k ks (a_meta st)"
  defines "p \<equiv> i + length x"
  shows "array_step env obj arr get json (part_index env (a_meta st)) i st =
    (if key_index env k = int (a_count st) \<and> ks \<noteq> [] \<and> is_container v then
       map_option (\<lambda>(j, hit, c). if hit then Finish j True c else Again j (st \<lparr> a_parser := c, a_count := Suc (a_count st) \<rparr>))
         ((if json ! p = CHR ''{'' then obj else arr) json (Suc p) (path_of ks) (a_parser st))
     else if key_index env k = int (a_count st) \<and> ks = []
     then Some (Finish (p + length (render v)) True ((a_parser st) \<lparr> p_val := put_value env v (p_val (a_parser st)) \<rparr>))
     else Some (Again (p + length (render v)) (st \<lparr> a_count := Suc (a_count st) \<rparr>)))"
proof -
  obtain a r where r: "render v = a # r" "starts_value a" using render_head [OF assms(3)] by blast
  have v: "skip_while (\<lambda>c. c \<noteq> CHR '']'' \<and> \<not> starts_value c) json i = p"
    unfolding p_def by (rule skip_while_text [OF text_at_left [OF assms(1)]])
      (use assms(2) r in \<open>simp_all add: element_gap_def [abs_def]\<close>)
  have tv: "text_at json p (render v) t" using text_at_append [OF assms(1)] by (simp add: p_def)
  then have b: "p < length json" "json ! p = a" by (simp_all add: r text_at_Cons)
  have "a \<noteq> CHR '']''" using r(2) by (auto simp: starts_value_def starts_number_def)
  moreover have "(\<not> m_arch (a_meta st) \<and> part_index env (a_meta st) = int (a_count st)) = (key_index env k = int (a_count st))"
    using assms(5) by (auto simp: segment_for_def split: if_splits)
  moreover have "key_index env k = int (a_count st) \<Longrightarrow> m_more (a_meta st) = (ks \<noteq> []) \<and> m_path (a_meta st) = path_of ks"
    using assms(5) by (simp add: segment_for_def)
  moreover have "\<not> m_logOk (a_meta st)" "\<not> q_on (a_meta st)" using assms(5) by (simp_all add: segment_for_def quiet_def)
  ultimately show ?thesis
    using scan_value_found [OF assms(3) tv assms(4), of env] container_head [OF assms(3) tv] v b
    by (cases "key_index env k = int (a_count st)")
      (simp_all add: array_step_def Let_def p_def split del: if_split cong: if_cong, auto)
qed

section \<open>The search in the text\<close>

definition matcher_of :: "'f fj_env \<Rightarrow> nat \<Rightarrow> byte \<Rightarrow> 'f matcher" where
  "matcher_of env fuel c = (if c = CHR ''{'' then matchJSONObjectAt env fuel else matchJSONArrayAt env fuel)"

lemma value_follows_ws: "json_ws w \<Longrightarrow> value_follows t \<Longrightarrow> value_follows (w @ t)"
  by (cases w) (auto simp: value_follows_def json_ws_def)

lemma ws_gap: "is_ws c \<Longrightarrow> key_gap c \<and> element_gap c \<and> \<not> starts_value c"
  unfolding is_ws_def by (elim disjE) (simp_all add: key_gap_def element_gap_def starts_value_def starts_number_def)

lemma ws_gaps: "json_ws w \<Longrightarrow> list_all key_gap w" "json_ws w \<Longrightarrow> list_all element_gap w"
    "json_ws w \<Longrightarrow> list_all (\<lambda>c. \<not> starts_value c) w"
  using ws_gap by (auto simp: json_ws_def list_all_iff)

lemma sign_gaps [simp]: "element_gap (CHR '','')" "key_gap (CHR '','')" "\<not> starts_value (CHR '':'')"
  by (simp_all add: element_gap_def key_gap_def starts_value_def starts_number_def)

lemma path_shorter: "ks \<noteq> [] \<Longrightarrow> Suc (length (path_of ks)) \<le> length (path_of (k # ks))"
  by (simp add: path_of_Cons)

lemma turns_Finish: "step i s = Some (Finish j hit c) \<Longrightarrow> turns step i s = Some (j, hit, c)"
  by (subst turns.simps) simp

lemma turns_Again: "step i s = Some (Again j s') \<Longrightarrow> turns step i s = turns step j s'"
  by (subst turns.simps) simp

text \<open>A turn that descends into a value: it ends the loop with what is found there, or goes on behind it.\<close>

lemma outcome_descend:
  assumes "outcome env r stop c found"
  obtains "found = None" "r = Some (stop, False, c)"
  | u j where "found = Some u" "r = Some (j, True, c \<lparr> p_val := put_value env u (p_val c) \<rparr>)"
  using assms by (cases found) (auto simp: outcome_def)

lemma lookup_elems_negative: "n < 0 \<Longrightarrow> lookup_elems env es n ks = None"
proof -
  have "\<forall>n < 0. lookup_elems env es n ks = None"
    by (rule jelems.induct [of "\<lambda>_. True" "\<lambda>es. \<forall>n < 0. lookup_elems env es n ks = None" "\<lambda>_. True"]) simp_all
  then show "n < 0 \<Longrightarrow> lookup_elems env es n ks = None" by blast
qed

text \<open>The loop goes on behind a value in which nothing is found.\<close>

lemma descend_turn:
  assumes "step i s = map_option (\<lambda>(j, hit, c'). if hit then Finish j True c' else Again j (nxt c')) r"
    and "outcome env r p c found" and "found = None \<Longrightarrow> outcome env (turns step p (nxt c)) stop c later"
  shows "outcome env (turns step i s) stop c (case found of Some u \<Rightarrow> Some u | None \<Rightarrow> later)"
  using assms(2)
proof (cases rule: outcome_descend)
  case 1
  with assms(1,3) show ?thesis by (subst turns_Again [of step i s p "nxt c"]) simp_all
next
  case (2 u j)
  with assms(1) show ?thesis by (subst turns_Finish [of step i s]) (simp_all add: outcome_def)
qed

lemma search_tree:
  fixes env :: "'f fj_env"
  shows
  "wf_val v \<Longrightarrow> is_container v \<Longrightarrow> text_at json i (render v) t \<Longrightarrow> list_all (plain_key env) (k # ks) \<Longrightarrow>
    2 * length (path_of (k # ks)) < fuel \<Longrightarrow>
    outcome env (matcher_of env fuel (json ! i) json (Suc i) (path_of (k # ks)) c) (i + length (render v)) c (lookup env v (k # ks))"
  "wf_elems es \<Longrightarrow> list_all element_gap x \<Longrightarrow> text_at json i (x @ render_elems es @ '']'') t \<Longrightarrow>
    list_all (plain_key env) (k # ks) \<Longrightarrow> (ks \<noteq> [] \<longrightarrow> 2 * length (path_of ks) < n) \<Longrightarrow>
    segment_for env k ks (a_meta st) \<Longrightarrow> a_all st = [] \<Longrightarrow>
    outcome env (turns (array_step env (matchJSONObjectAt env n) (matchJSONArrayAt env n) get json (part_index env (a_meta st))) i st)
      (i + length x + length (render_elems es) + 1) (a_parser st) (lookup_elems env es (key_index env k - int (a_count st)) ks)"
  "wf_members ms \<Longrightarrow> list_all key_gap x \<Longrightarrow> text_at json i (x @ render_members ms @ ''}'') t \<Longrightarrow>
    list_all (plain_key env) (k # ks) \<Longrightarrow> (ks \<noteq> [] \<longrightarrow> 2 * length (path_of ks) < n) \<Longrightarrow>
    outcome env (turns (object_step env (matchJSONObjectAt env n) (matchJSONArrayAt env n) json (plain_segment k ks)) i c)
      (i + length x + length (render_members ms) + 1) c (lookup_members env ms k ks)"
proof (induction v and es and ms arbitrary: json i t k ks fuel c and json i x t k ks n st get and json i x t k ks n c)
  case (JObj w ms)
  then obtain n where fuel: "fuel = Suc n" by (cases fuel) auto
  have head: "json ! i = CHR ''{''" "text_at json (Suc i) (w @ render_members ms @ ''}'') t"
    using JObj.prems(3) by (simp_all add: text_at_Cons)
  have sp: "splitPathSegment env (path_of (k # ks)) = plain_segment k ks"
    unfolding plain_segment_def by (rule splitPathSegment_plain) (use JObj.prems(4) in \<open>auto simp: plain_key_def neq_Nil_conv\<close>)
  have "outcome env (turns (object_step env (matchJSONObjectAt env n) (matchJSONArrayAt env n) json (plain_segment k ks)) (Suc i) c)
      (Suc i + length w + length (render_members ms) + 1) c (lookup_members env ms k ks)"
    by (rule JObj.IH [OF _ _ head(2) JObj.prems(4)])
      (use JObj.prems fuel path_shorter [of ks k] in \<open>auto simp: ws_gaps\<close>)
  then show ?case
    using head(1) sp by (simp add: matcher_of_def fuel Let_def add.assoc)
next
  case (JArr w es)
  then obtain n where fuel: "fuel = Suc n" by (cases fuel) auto
  have head: "json ! i = CHR ''[''" "text_at json (Suc i) (w @ render_elems es @ '']'') t"
    using JArr.prems(3) by (simp_all add: text_at_Cons)
  define an where "an = classifyPathSegment env (path_of (k # ks))"
  have an: "segment_for env k ks an" unfolding an_def by (rule segment_for_plain [OF JArr.prems(4)])
  define st where "st = \<lparr> a_parser = c, a_meta = an, a_count = 0, a_log = [], a_all = [] \<rparr>"
  have "outcome env (turns (array_step env (matchJSONObjectAt env n) (matchJSONArrayAt env n) (Get_within env n) json
        (part_index env (a_meta st))) (Suc i) st)
      (Suc i + length w + length (render_elems es) + 1) (a_parser st) (lookup_elems env es (key_index env k - int (a_count st)) ks)"
    by (rule JArr.IH [OF _ _ head(2) JArr.prems(4)])
      (use JArr.prems fuel path_shorter [of ks k] an in \<open>auto simp: ws_gaps st_def\<close>)
  moreover have "\<not> m_piped an" using an by (simp add: segment_for_def quiet_def)
  ultimately show ?case
    using head(1) by (simp add: matcher_of_def fuel Let_def an_def [symmetric] st_def add.assoc)
next
  case ENil
  from ENil.prems(3) have t: "text_at json i (x @ '']'') t" by simp
  show ?case
    by (subst turns_Finish, rule array_step_end [OF t ENil.prems(2,6,7)]) (simp add: outcome_def)
next
  case MNil
  from MNil.prems(3) have t: "text_at json i (x @ ''}'') t" by simp
  show ?case by (subst turns_Finish, rule object_step_end [OF t MNil.prems(2)]) (simp add: outcome_def)
next
  case (ECons w1 v w2 es)
  define x' where "x' = w2 @ (if es = ENil then [] else '','')"
  define rest where "rest = x' @ render_elems es @ '']''"
  have here: "text_at json i ((x @ w1) @ render v) (rest @ t)"
    using ECons.prems(3) by (intro text_at_left) (simp add: rest_def x'_def comma_before_def split: if_splits)
  have rest: "text_at json (i + length (x @ w1) + length (render v)) rest t"
    using text_at_append [of json i "(x @ w1) @ render v" rest t] here by (simp add: text_at_def add.assoc)
  have f: "value_follows (rest @ t)"
    using ECons.prems(1) unfolding rest_def x'_def append_assoc
    by (intro value_follows_ws [of w2]) (auto simp: value_follows_def)
  have gaps: "list_all element_gap (x @ w1)" "list_all element_gap x'"
    using ECons.prems(1,2) by (simp_all add: ws_gaps x'_def)
  define p where "p = i + length (x @ w1)"
  note step = array_step_element [OF here gaps(1) _ f ECons.prems(6), folded p_def, where get = get and
      obj = "matchJSONObjectAt env n" and arr = "matchJSONArrayAt env n"]
  define go where "go = (\<lambda>i st. turns (array_step env (matchJSONObjectAt env n) (matchJSONArrayAt env n) get json
      (part_index env (a_meta st))) i st)"
  define m where "m = key_index env k - int (a_count st)"
  define stop where "stop = i + length x + length (render_elems (ECons w1 v w2 es)) + 1"
  have on: "outcome env (go (p + length (render v)) (st \<lparr> a_count := Suc (a_count st) \<rparr>)) stop (a_parser st)
      (lookup_elems env es (m - 1) ks)"
  proof -
    have "outcome env (go (p + length (render v)) (st \<lparr> a_count := Suc (a_count st) \<rparr>))
        (p + length (render v) + length x' + length (render_elems es) + 1) (a_parser st) (lookup_elems env es (m - 1) ks)"
      using ECons.IH(2) [OF _ gaps(2) rest [unfolded rest_def] ECons.prems(4,5), folded p_def,
          where st = "st \<lparr> a_count := Suc (a_count st) \<rparr>" and get = get] ECons.prems(1,6,7)
      by (simp add: go_def m_def diff_diff_eq add.commute)
    moreover have "p + length (render v) + length x' + length (render_elems es) + 1 = stop"
      by (simp add: stop_def p_def x'_def comma_before_def)
    ultimately show ?thesis by simp
  qed
  have "outcome env (go i st) stop (a_parser st) (lookup_elems env (ECons w1 v w2 es) m ks)"
  proof (cases "m = 0")
    case False
    then have "go i st = go (p + length (render v)) (st \<lparr> a_count := Suc (a_count st) \<rparr>)"
      unfolding go_def using step ECons.prems(1) by (subst turns_Again) (simp_all add: m_def)
    with on False show ?thesis by simp
  next
    case True
    then have last: "lookup_elems env es (m - 1) ks = None" and idx: "key_index env k = int (a_count st)"
      by (simp_all add: lookup_elems_negative m_def)
    show ?thesis
    proof (cases ks)
      case Nil
      then have "go i st = Some (p + length (render v), True, (a_parser st) \<lparr> p_val := put_value env v (p_val (a_parser st)) \<rparr>)"
        unfolding go_def using step ECons.prems(1) by (subst turns_Finish) (simp_all add: idx)
      with True Nil show ?thesis by (simp add: outcome_def)
    next
      case (Cons k2 ks2)
      show ?thesis
      proof (cases "is_container v")
        case False
        then have "go i st = go (p + length (render v)) (st \<lparr> a_count := Suc (a_count st) \<rparr>)"
          unfolding go_def using step ECons.prems(1) Cons by (subst turns_Again) simp_all
        with on True last False Cons show ?thesis by (simp add: lookup_scalar)
      next
        case c: True
        have "text_at json p (render v) (rest @ t)" using text_at_append [OF here] by (simp add: p_def)
        then have "outcome env (matcher_of env n (json ! p) json (Suc p) (path_of ks) (a_parser st)) (p + length (render v))
            (a_parser st) (lookup env v ks)"
          unfolding Cons using ECons.prems(1,4,5) c Cons by (intro ECons.IH(1)) simp_all
        note d = descend_turn [OF _ this]
        have "outcome env (go i st) stop (a_parser st) (case lookup env v ks of Some u \<Rightarrow> Some u | None \<Rightarrow> lookup_elems env es (m - 1) ks)"
          unfolding go_def
          by (rule d [where nxt = "\<lambda>c. st \<lparr> a_parser := c, a_count := Suc (a_count st) \<rparr>"])
            (use step ECons.prems(1) idx c Cons on in \<open>simp_all add: matcher_of_def go_def\<close>)
        with True last show ?thesis by (simp split: option.splits)
      qed
    qed
  qed
  then show ?case unfolding go_def m_def stop_def .
next
  case (MCons w1 name w2 w3 v w4 ms)
  define x' where "x' = w4 @ (if ms = MNil then [] else '','')"
  define rest where "rest = x' @ render_members ms @ ''}''"
  define y where "y = w2 @ CHR '':'' # w3"
  have here: "text_at json i ((x @ w1) @ CHR 0x22 # name @ CHR 0x22 # y @ render v) (rest @ t)"
    using MCons.prems(3) by (intro text_at_left) (simp add: rest_def x'_def y_def comma_before_def split: if_splits)
  define p where "p = i + length (x @ w1) + length name + length y + 2"
  have at: "text_at json p (render v) (rest @ t)"
    using text_at_append [of json i "(x @ w1) @ CHR 0x22 # name @ CHR 0x22 # y" "render v" "rest @ t"] here by (simp add: p_def add.assoc)
  have rest: "text_at json (p + length (render v)) rest t"
    using text_at_append [of json p "render v" rest t] at by (simp add: text_at_def)
  have f: "value_follows (rest @ t)"
    using MCons.prems(1) unfolding rest_def x'_def append_assoc
    by (intro value_follows_ws [of w4]) (auto simp: value_follows_def)
  have gaps: "list_all key_gap (x @ w1)" "list_all key_gap x'" "list_all (\<lambda>c. \<not> starts_value c) y"
    using MCons.prems(1,2) by (simp_all add: ws_gaps x'_def y_def)
  note step = object_step_member [OF here gaps(1) _ gaps(3) _ f, folded p_def, where
      obj = "matchJSONObjectAt env n" and arr = "matchJSONArrayAt env n"]
  define go where "go = turns (object_step env (matchJSONObjectAt env n) (matchJSONArrayAt env n) json (plain_segment k ks))"
  define stop where "stop = i + length x + length (render_members (MCons w1 name w2 w3 v w4 ms)) + 1"
  have "p + length (render v) + length x' + length (render_members ms) + 1 = stop"
    by (simp add: stop_def p_def x'_def y_def comma_before_def)
  then have on: "outcome env (go (p + length (render v)) c) stop c (lookup_members env ms k ks)"
    using MCons.IH(2) [OF _ gaps(2) rest [unfolded rest_def] MCons.prems(4,5)] MCons.prems(1) by (simp add: go_def)
  have "outcome env (go i c) stop c (lookup_members env (MCons w1 name w2 w3 v w4 ms) k ks)"
  proof (cases "unescape name = k \<and> (ks = [] \<or> is_container v)")
    case False
    then have "go i c = go (p + length (render v)) c"
      unfolding go_def using step MCons.prems(1) by (subst turns_Again) auto
    with on False show ?thesis by (cases ks) (auto simp: lookup_scalar)
  next
    case name: True
    show ?thesis
    proof (cases ks)
      case Nil
      then have "go i c = Some (p + length (render v), True, c \<lparr> p_val := put_value env v (p_val c) \<rparr>)"
        unfolding go_def using step MCons.prems(1) name by (subst turns_Finish) simp_all
      with name Nil show ?thesis by (simp add: outcome_def)
    next
      case (Cons k2 ks2)
      have "outcome env (matcher_of env n (json ! p) json (Suc p) (path_of ks) c) (p + length (render v)) c (lookup env v ks)"
        unfolding Cons using MCons.prems(1,4,5) name Cons at by (intro MCons.IH(1)) simp_all
      note d = descend_turn [OF _ this]
      have "outcome env (go i c) stop c (case lookup env v ks of Some u \<Rightarrow> Some u | None \<Rightarrow> lookup_members env ms k ks)"
        unfolding go_def
        by (rule d [where nxt = "\<lambda>c. c"])
          (use step MCons.prems(1) name Cons on in \<open>simp_all add: matcher_of_def go_def\<close>)
      with name show ?thesis by (simp split: option.splits)
    qed
  qed
  then show ?case unfolding go_def stop_def .
qed simp_all

section \<open>Get\<close>

text \<open>The context of a value of a document.\<close>

definition value_of :: "'f fj_env \<Rightarrow> jval \<Rightarrow> 'f Context" where
  "value_of env v = \<lparr>
     kind = (case v of JNum _ \<Rightarrow> KNumber | JStr _ \<Rightarrow> KString | JTrue \<Rightarrow> KTrue | JFalse \<Rightarrow> KFalse | JNull \<Rightarrow> KNull | _ \<Rightarrow> KJSON),
     raw = render v,
     str = (case v of JStr s \<Rightarrow> unescape s | _ \<Rightarrow> []),
     num = (case v of JNum s \<Rightarrow> parse_float env s | _ \<Rightarrow> float_zero env) \<rparr>"

lemma put_value_of: "wf_val v \<Longrightarrow> put_value env v (no_value env) = value_of env v"
  by (cases v) (auto simp: put_value_def value_of_def no_value_def put_number_def put_string_def put_literal_def put_json_def
      unescape_no_escape)

lemma lookup_wf:
  "wf_val v \<Longrightarrow> lookup env v ks = Some u \<Longrightarrow> wf_val u"
  "wf_elems es \<Longrightarrow> lookup_elems env es n ks = Some u \<Longrightarrow> wf_val u"
  "wf_members ms \<Longrightarrow> lookup_members env ms k ks = Some u \<Longrightarrow> wf_val u"
  by (induction v and es and ms arbitrary: ks and n ks and k ks) (auto split: if_splits list.splits option.splits)

lemma Get_within_tree:
  assumes "wf_val v" and "is_container v" and "ks \<noteq> []" and "list_all (plain_key env) ks" and "json_ws w"
    and "2 * length (path_of ks) + 2 \<le> fuel"
  shows "Get_within env fuel (w @ render v @ t) (path_of ks) =
    Some (case lookup env v ks of Some u \<Rightarrow> value_of env u | None \<Rightarrow> no_value env)"
proof -
  define json where "json = w @ render v @ t"
  define path where "path = path_of ks"
  define n where "n = fuel - 1"
  have n: "fuel = Suc n" "2 * length path < n" using assms(6) by (simp_all add: n_def path_def)
  obtain k ks' where ks: "ks = k # ks'" using assms(3) by (cases ks) auto
  have k: "hd ks \<noteq> []" using assms(4) by (simp add: ks plain_key_def)
  note head = not_a_directive [OF assms(3) k, folded path_def]
  have here: "text_at json (length w) (render v) t" by (simp add: json_def text_at_def)
  obtain b s where b: "render v = b # s" "b = CHR ''{'' \<or> b = CHR ''[''" using assms(2) by (cases v) auto
  have i: "skip_while (\<lambda>c. c \<noteq> CHR ''{'' \<and> c \<noteq> CHR ''['') json 0 = length w"
    using skip_while_text [of json 0 w "render v @ t" "\<lambda>c. c \<noteq> CHR ''{'' \<and> c \<noteq> CHR ''[''"] assms(5) b
    by (auto simp: json_def text_at_def json_ws_def list_all_iff is_ws_def)
  have at: "length w < length json" "json ! length w = b" using here by (simp_all add: b(1) text_at_Cons)
  have "outcome env (matcher_of env n b json (Suc (length w)) path (no_parser env)) (length w + length (render v)) (no_parser env)
      (lookup env v ks)"
    unfolding path_def ks at(2) [symmetric]
    by (rule search_tree(1) [OF assms(1,2) here]) (use assms(4) n(2) in \<open>simp_all add: ks path_def\<close>)
  then obtain j hit where m: "matcher_of env n b json (Suc (length w)) path (no_parser env) =
      Some (j, hit, (no_parser env) \<lparr> p_val := (case lookup env v ks of Some u \<Rightarrow> value_of env u | None \<Rightarrow> no_value env) \<rparr>)"
    by (cases "lookup env v ks") (auto simp: outcome_def no_parser_def put_value_of dest: lookup_wf(1) [OF assms(1)])
  have "take 2 path \<noteq> ''..''" using head(3,4) by (cases path) auto
  then have "search env (matchJSONObjectAt env n) (matchJSONArrayAt env n) (Get_within env n) json path =
      Some (case lookup env v ks of Some u \<Rightarrow> value_of env u | None \<Rightarrow> no_value env)"
    using m i at b(2) by (auto simp: search_def Let_def matcher_of_def no_parser_def split: if_splits)
  then show ?thesis
    using head(2) by (simp add: n(1) json_def [symmetric] path_def [symmetric] get_body_def redirect_def)
qed

lemma Get_tree:
  assumes "wf_val v" and "is_container v" and "ks \<noteq> []" and "list_all (plain_key env) ks" and "json_ws w"
  shows "Get env (w @ render v @ t) (path_of ks) =
    Some (case lookup env v ks of Some u \<Rightarrow> value_of env u | None \<Rightarrow> no_value env)"
  unfolding Get_def using assms by (intro Get_within_tree) simp_all

text \<open>C2: In every valid document that is an object or an array, the value found under a nonempty path of plain
  keys is the one that the search of the tree finds, with its kind, its text, its unescaped string or its number; without one the result
  does not exist.  White space in the document, and whatever follows it, makes no difference.\<close>

theorem Get_lookup:
  assumes "wf_val v" and "is_container v" and "ks \<noteq> []" and "list_all (plain_key env) ks" and "json_ws w"
  shows "Get env (w @ render v @ t) (path_of ks) =
    Some (case lookup env v ks of Some u \<Rightarrow> value_of env u | None \<Rightarrow> no_value env)"
  using assms by (rule Get_tree)

text \<open>An environment without floating-point numbers and transformers.\<close>

definition plain_env :: "unit fj_env" where
  "plain_env = \<lparr> parse_float = (\<lambda>_. ()), float_zero = (), float_eq = (\<lambda>_ _. True), float_less = (\<lambda>_ _. False),
     float_of = (\<lambda>_. ()), format_float = (\<lambda>_. []), conv_floats = no_floats, transformers = (\<lambda>_. None),
     DisableTransformers = False \<rparr>"

text \<open>The document \<open>{"a": [7, {"b.c": "x"}] }\<close> and the paths \<open>a.1.b\.c\<close> and \<open>a.2\<close>.\<close>

definition sample :: jval where
  "sample = JObj [] (MCons [] ''a'' [] '' '' (JArr [] (ECons [] (JNum ''7'') [] (ECons '' ''
     (JObj [] (MCons [] ''b.c'' [] '' '' (JStr ''x'') [] MNil)) [] ENil))) '' '' MNil)"

lemma Get_lookup_witness:
  "Get plain_env (''  '' @ render sample @ ''!'') (path_of [''a'', ''1'', ''b.c'']) = Some (value_of plain_env (JStr ''x''))
    \<and> Get plain_env (''  '' @ render sample @ ''!'') (path_of [''a'', ''2'']) = Some (no_value plain_env)"
proof -
  have "json_number ''7''"
    unfolding json_number_def
    by (intro exI [of _ "[]"] exI [of _ "''7''"] conjI)
      (simp_all add: json_int_def json_frac_def json_exp_def digits1_def is_digit_def)
  moreover have "json_chars ''a''" "json_chars ''b.c''" "json_chars ''x''" by (intro json_chars.intros; simp)+
  ultimately have j: "json_number ''7''" "json_chars ''a''" "json_chars ''b.c''" "json_chars ''x''" "json_ws ''  ''" "json_ws '' ''"
    by (simp_all add: json_ws_def is_ws_def)
  have i: "key_index plain_env ''1'' = 1" "key_index plain_env ''2'' = 2" by code_simp+
  have u: "unescape ''a'' = ''a''" "unescape ''b.c'' = ''b.c''" by (simp_all add: unescape_no_escape j)
  have p: "list_all (plain_key plain_env) [''a'', ''1'', ''b.c'']" "list_all (plain_key plain_env) [''a'', ''2'']" by code_simp+
  have c: "is_container sample" by (simp add: sample_def)
  have w: "wf_val sample" by (simp add: sample_def j json_ws_def is_ws_def)
  have l: "lookup plain_env sample [''a'', ''1'', ''b.c''] = Some (JStr ''x'')" "lookup plain_env sample [''a'', ''2''] = None"
    by (simp_all add: sample_def i u)
  show ?thesis
    using Get_lookup [OF w c _ p(1) j(5), of "''!''"] Get_lookup [OF w c _ p(2) j(5), of "''!''"]
    by (simp add: l del: path_of.simps)
qed

end
