(* ===== verification/FjProps.thy ===== *)
theory FjProps
  imports FjLookup
begin

text \<open>
  Reading values and writing strings: \<open>Parse\<close> of a valid document, \<open>appendJSONString\<close> and the way
  back, and the length that the path \<open>#\<close> gives of an array.
\<close>

section \<open>Parse\<close>

lemma extractAndUnescape_found:
  assumes "quoted_at json 1 s t"
  shows "extractAndUnescapeJSONString json = (CHR 0x22 # s @ [CHR 0x22], unescape s)"
proof -
  have d: "drop 1 json = s @ CHR 0x22 # t" "json ! 0 = CHR 0x22" "json_chars s" using assms by (auto simp: quoted_at_def)
  have json: "json = CHR 0x22 # s @ CHR 0x22 # t" using quoted_at_positions(1) [OF assms] by simp
  define u where "u = takeWhile (\<lambda>c. c \<noteq> CHR 0x22 \<and> c \<noteq> CHR 0x5C) s"
  have "takeWhile (\<lambda>c. c \<noteq> CHR 0x22 \<and> c \<noteq> CHR 0x5C) (s @ CHR 0x22 # t) = u"
    unfolding u_def by (induction s) auto
  then have p: "skip_while (\<lambda>c. c \<noteq> CHR 0x22 \<and> c \<noteq> CHR 0x5C) json (Suc 0) = Suc (length u)"
    using d(1) by (simp add: skip_while_takeWhile)
  note f = first_special [OF d(3), folded u_def]
  show ?thesis
  proof (cases "CHR 0x5C \<in> set s")
    case True
    with f have u: "length u < length s" "s ! length u = CHR 0x5C" by simp_all
    have "closing_quote json (Suc 0) (Suc (Suc (length u))) = Suc (length s)"
      using closing_quote_found [OF assms, of 1 "Suc (Suc (length u))"] u(1) by simp
    moreover have "json ! Suc (length u) = CHR 0x5C" "Suc (length u) < length json" using u by (simp_all add: json nth_append)
    ultimately show ?thesis
      by (simp add: extractAndUnescapeJSONString_def Let_def p) (simp add: json slice_def)
  next
    case False
    with f have "u = s" by simp
    with p unescape_no_escape [OF d(3) False] show ?thesis
      by (simp add: extractAndUnescapeJSONString_def Let_def json nth_append slice_def)
  qed
qed

lemma leadingLowercase_text:
  assumes "list_all is_lower s" and "value_follows t"
  shows "leadingLowercase (c # s @ t) = c # s"
proof -
  have "skip_while is_lower (c # s @ t) (Suc 0) = Suc 0 + length s"
    by (rule skip_while_text [of _ _ _ t]) (use assms value_follows_ends [OF assms(2)] in \<open>auto simp: text_at_def\<close>)
  then show ?thesis by (simp add: leadingLowercase_def)
qed

lemma number_char_token:
  "number_char c \<Longrightarrow> \<not> (if c \<le> CHR ''-'' then c \<le> CHR '' '' \<or> c = CHR '','' else c = CHR '']'' \<or> c = CHR ''}'')"
  by (auto simp: number_char_def dest!: is_digit_cases)

lemma value_follows_token:
  "value_follows t \<Longrightarrow> t = [] \<or> (if hd t \<le> CHR ''-'' then hd t \<le> CHR '' '' \<or> hd t = CHR '','' else hd t = CHR '']'' \<or> hd t = CHR ''}'')"
  by (auto simp: value_follows_def is_ws_def)

lemma tokenizeNumber_text:
  assumes "list_all number_char (c # s)" and "value_follows t"
  shows "tokenizeNumber env (c # s @ t) = (c # s, parse_float env (c # s))"
proof -
  define q where "q = (\<lambda>c. \<not> (if c \<le> CHR ''-'' then c \<le> CHR '' '' \<or> c = CHR '','' else c = CHR '']'' \<or> c = CHR ''}''))"
  have "skip_while q (c # s @ t) (Suc 0) = Suc 0 + length s"
    by (rule skip_while_text [of _ _ _ t])
      (use assms(1) number_char_token value_follows_token [OF assms(2)] in \<open>auto simp: text_at_def q_def list_all_iff\<close>)
  then show ?thesis by (simp add: tokenizeNumber_def q_def [symmetric] Let_def)
qed

lemma ws_low: "is_ws c \<Longrightarrow> c \<le> CHR '' ''"
  unfolding is_ws_def by (elim disjE) simp_all

lemma Parse_skips: "json_ws w \<Longrightarrow> s \<noteq> [] \<Longrightarrow> \<not> hd s \<le> CHR '' '' \<Longrightarrow>
    skip_while (\<lambda>c. c \<le> CHR '' '') (w @ s) 0 = length w"
  using skip_while_text [of "w @ s" 0 w s "\<lambda>c. c \<le> CHR '' ''"] ws_low by (simp add: text_at_def json_ws_def list_all_iff)

lemma starts_value_above: "starts_value c \<Longrightarrow> \<not> c \<le> CHR '' ''"
  by (auto simp: starts_value_def starts_number_def)

text \<open>The context that a valid value is read as.\<close>

lemma Parse_tree:
  assumes "wf_val v" and "json_ws w" and "value_follows t"
  shows "Parse env (w @ render v @ t) = (if is_container v then json_value_of env (render v @ t) else value_of env v)"
proof -
  obtain c s where r: "render v = c # s" "starts_value c" using render_head [OF assms(1)] by blast
  have i: "skip_while (\<lambda>c. c \<le> CHR '' '') (w @ c # s @ t) 0 = length w"
    using Parse_skips [OF assms(2), of "c # s @ t"] starts_value_above [OF r(2)] by simp
  show ?thesis
  proof (cases v)
    case (JNum n)
    then have n: "c = CHR ''-'' \<or> is_digit c" using number_head [of n] assms(1) r(1) by auto
    have "tokenizeNumber env (c # s @ t) = (c # s, parse_float env (c # s))"
      by (rule tokenizeNumber_text) (use number_chars [of n] assms(1,3) JNum r(1) in auto)
    with starts_number_head [OF n] i r(1) show ?thesis
      by (simp add: Parse_def Let_def JNum value_of_def no_value_def)
  next
    case (JStr u)
    then have q: "quoted_at (render v @ t) 1 u t" using assms(1) by (simp add: quoted_at_def)
    have c: "c = CHR 0x22" "s = u @ [CHR 0x22]" using JStr r(1) by auto
    show ?thesis
      using extractAndUnescape_found [OF q] i c r(1)
      by (simp add: Parse_def Let_def JStr value_of_def no_value_def starts_number_def starts_nan_def)
  next
    case JTrue
    then have "c # s @ t = CHR ''t'' # ''rue'' @ t" "c = CHR ''t''" using r(1) by simp_all
    with i leadingLowercase_text [OF _ assms(3), of "''rue''" c] show ?thesis
      by (simp add: Parse_def Let_def JTrue value_of_def literal_value_def put_literal_def no_value_def starts_number_def starts_nan_def is_lower_def)
  next
    case JFalse
    then have "c # s @ t = CHR ''f'' # ''alse'' @ t" "c = CHR ''f''" using r(1) by simp_all
    with i leadingLowercase_text [OF _ assms(3), of "''alse''" c] show ?thesis
      by (simp add: Parse_def Let_def JFalse value_of_def literal_value_def put_literal_def no_value_def starts_number_def starts_nan_def is_lower_def)
  next
    case JNull
    then have "c # s @ t = CHR ''n'' # ''ull'' @ t" "c = CHR ''n''" using r(1) by simp_all
    with i leadingLowercase_text [OF _ assms(3), of "''ull''" c] show ?thesis
      by (simp add: Parse_def Let_def JNull value_of_def literal_value_def put_literal_def no_value_def starts_number_def
          starts_nan_def is_lower_def nth_append)
  next
    case (JArr u es)
    with i r(1) show ?thesis by (simp add: Parse_def Let_def)
  next
    case (JObj u ms)
    with i r(1) show ?thesis by (simp add: Parse_def Let_def)
  qed
qed

text \<open>\<open>Parse\<close> of a valid value, after white space and in front of what may follow a value, is its context;
  of an object or array the text is not cut off behind it.\<close>

theorem Parse_value:
  assumes "wf_val v" and "json_ws w" and "value_follows t"
  shows "Parse env (w @ render v @ t) = (if is_container v then json_value_of env (render v @ t) else value_of env v)"
  using assms by (rule Parse_tree)

lemma Parse_value_witness:
  "Parse plain_env ('' '' @ render (JArr [] ENil) @ '','') = json_value_of plain_env ''[],'' \<and>
    Parse plain_env ([] @ render JTrue @ '']'') = value_of plain_env JTrue"
  using Parse_value [of "JArr [] ENil" "'' ''" "'',''" plain_env] Parse_value [of JTrue "[]" "'']''" plain_env]
  by (simp add: json_ws_def is_ws_def value_follows_def)

section \<open>Strings\<close>

text \<open>C4: A string written by \<open>appendJSONString\<close> is a valid JSON document, and \<open>Parse\<close> reads it back: the
  bytes are the same but that those that are not UTF-8 have become the replacement character.\<close>

theorem appendJSONString_roundtrip:
  "appendJSONString target s = target @ appendJSONString [] s
    \<and> IsValidJSON (appendJSONString [] s)
    \<and> kind (Parse env (appendJSONString [] s)) = KString
    \<and> raw (Parse env (appendJSONString [] s)) = appendJSONString [] s
    \<and> str (Parse env (appendJSONString [] s)) = to_valid s"
proof -
  have wf: "wf_val (JStr (escape_body s))" by (simp add: json_chars_escape_body)
  have r: "appendJSONString [] s = render (JStr (escape_body s))" by (simp add: appendJSONString_def)
  have p: "Parse env (appendJSONString [] s) = value_of env (JStr (escape_body s))"
    using Parse_tree [OF wf, of "[]" "[]" env] by (simp add: r json_ws_def value_follows_def)
  have "json_text (render (JStr (escape_body s)))"
    using render_value(1) [OF wf] unfolding json_text_def
    by (intro exI [of _ "[]"] exI [of _ "render (JStr (escape_body s))"] conjI) (simp_all add: json_ws_def)
  then have "IsValidJSON (appendJSONString [] s)"
    unfolding r by (subst validator_grammar) (auto simp: append_eq_Cons_conv Cons_eq_append_conv is_digit_def)
  with p show ?thesis by (simp add: value_of_def r unescape_escaped) (simp add: appendJSONString_def)
qed

section \<open>Lengths of arrays\<close>

primrec elems_length :: "jelems \<Rightarrow> nat" where
  "elems_length ENil = 0"
| "elems_length (ECons w1 v w2 es) = Suc (elems_length es)"

definition counts :: "meta \<Rightarrow> bool" where
  "counts an \<longleftrightarrow> m_arch an \<and> m_part an = ''#'' \<and> \<not> m_logOk an \<and> \<not> q_on an"

lemma count_step:
  assumes "text_at json i (x @ render v) t" and "list_all element_gap x" and "wf_val v" and "value_follows t"
    and "counts (a_meta st)"
  shows "array_step env obj arr get json n i st =
    Some (Again (i + length x + length (render v)) (st \<lparr> a_count := Suc (a_count st) \<rparr>))"
proof -
  obtain a r where r: "render v = a # r" "starts_value a" using render_head [OF assms(3)] by blast
  have v: "skip_while (\<lambda>c. c \<noteq> CHR '']'' \<and> \<not> starts_value c) json i = i + length x"
    by (rule skip_while_text [OF text_at_left [OF assms(1)]])
      (use assms(2) r in \<open>simp_all add: element_gap_def [abs_def]\<close>)
  have tv: "text_at json (i + length x) (render v) t" using text_at_append [OF assms(1)] by simp
  then have b: "i + length x < length json" "json ! (i + length x) = a" by (simp_all add: r text_at_Cons)
  have "a \<noteq> CHR '']''" using r(2) by (auto simp: starts_value_def starts_number_def)
  with scan_value_found [OF assms(3) tv assms(4), of env] v b assms(5) show ?thesis
    by (simp add: array_step_def Let_def counts_def)
qed

definition count_value :: "'f fj_env \<Rightarrow> nat \<Rightarrow> 'f Context \<Rightarrow> 'f Context" where
  "count_value env n ctx = ctx \<lparr> kind := KNumber, num := float_of env (int n), raw := itoa (int n) \<rparr>"

lemma count_end:
  assumes "text_at json i (x @ '']'') t" and "list_all element_gap x" and "counts (a_meta st)"
  shows "array_step env obj arr get json n i st =
    Some (Finish (i + length x + 1) True ((a_parser st) \<lparr> p_val := count_value env (a_count st) (p_val (a_parser st)) \<rparr>))"
proof -
  have v: "skip_while (\<lambda>c. c \<noteq> CHR '']'' \<and> \<not> starts_value c) json i = i + length x"
    by (rule skip_while_text [OF text_at_left [OF assms(1)]]) (use assms(2) in \<open>simp_all add: element_gap_def [abs_def]\<close>)
  have "i + length x < length json" "json ! (i + length x) = CHR '']''"
    using text_at_append [OF assms(1)] by (simp_all add: text_at_Cons)
  with v assms(3) show ?thesis
    by (simp add: array_step_def Let_def close_array_def counts_def count_value_def)
qed

lemma count_elems:
  "wf_elems es \<Longrightarrow> list_all element_gap x \<Longrightarrow> text_at json i (x @ render_elems es @ '']'') t \<Longrightarrow> counts (a_meta st) \<Longrightarrow>
    \<exists>j. turns (array_step env obj arr get json n) i st =
      Some (j, True, (a_parser st) \<lparr> p_val := count_value env (a_count st + elems_length es) (p_val (a_parser st)) \<rparr>)"
proof (induction "elems_length es" arbitrary: es x i st)
  case 0
  then have es: "es = ENil" by (cases es) simp_all
  show ?case
    by (subst turns_Finish, rule count_end [OF _ 0(3,5)]) (use 0(4) in \<open>simp_all add: es\<close>)
next
  case (Suc m)
  then obtain w1 v w2 es' where es: "es = ECons w1 v w2 es'" by (cases es) simp_all
  define x' where "x' = w2 @ (if es' = ENil then [] else '','')"
  define rest where "rest = x' @ render_elems es' @ '']''"
  have here: "text_at json i ((x @ w1) @ render v) (rest @ t)"
    using Suc(5) by (intro text_at_left) (simp add: es rest_def x'_def comma_before_def split: if_splits)
  have rest: "text_at json (i + length (x @ w1) + length (render v)) rest t"
    using text_at_append [of json i "(x @ w1) @ render v" rest t] here by (simp add: text_at_def add.assoc)
  have f: "value_follows (rest @ t)"
    using Suc(3) unfolding rest_def x'_def append_assoc es
    by (intro value_follows_ws [of w2]) (auto simp: value_follows_def)
  have gaps: "list_all element_gap (x @ w1)" "list_all element_gap x'" using Suc(3,4) by (simp_all add: es ws_gaps x'_def)
  have "wf_val v" "wf_elems es'" "m = elems_length es'" using Suc(2,3) by (simp_all add: es)
  moreover from this have "turns (array_step env obj arr get json n) i st =
      turns (array_step env obj arr get json n) (i + length (x @ w1) + length (render v)) (st \<lparr> a_count := Suc (a_count st) \<rparr>)"
    by (intro turns_Again count_step [OF here gaps(1) _ f Suc(6)])
  ultimately show ?case
    using Suc(1) [OF _ _ gaps(2) rest [unfolded rest_def], of "st \<lparr> a_count := Suc (a_count st) \<rparr>"] Suc(6) by (simp add: es)
qed

text \<open>The path \<open>#\<close> gives the number of the elements of an array.\<close>

theorem Get_length:
  assumes "wf_val (JArr u es)" and "json_ws w"
  shows "Get env (w @ render (JArr u es) @ t) ''#'' = Some (count_value env (elems_length es) (no_value env))"
proof -
  define an where "an = no_meta \<lparr> m_arch := True, m_part := ''#'' \<rparr>"
  define json where "json = w @ render (JArr u es) @ t"
  have an: "classifyPathSegment env ''#'' = an"
    unfolding classifyPathSegment_def an_def
    by (subst classify.simps, simp add: Let_def classify_hash_def, subst classify.simps) (simp add: no_meta_def)
  have i: "skip_while (\<lambda>c. c \<noteq> CHR ''{'' \<and> c \<noteq> CHR ''['') json 0 = length w"
    using skip_while_text [of json 0 w "render (JArr u es) @ t" "\<lambda>c. c \<noteq> CHR ''{'' \<and> c \<noteq> CHR ''[''"] assms(2)
    by (auto simp: json_def text_at_def json_ws_def list_all_iff is_ws_def)
  have "text_at json (length w) (CHR ''['' # u @ render_elems es @ '']'') t" by (simp add: json_def text_at_def)
  then have here: "length w < length json" "json ! length w = CHR ''[''" "text_at json (Suc (length w)) (u @ render_elems es @ '']'') t"
    by (simp_all add: text_at_Cons)
  have m: "\<not> m_more an" "\<not> m_piped an" by (simp_all add: an_def no_meta_def)
  have c: "counts an" by (simp add: an_def counts_def no_meta_def)
  define n where "n = (2 :: nat)"
  obtain j where "turns (array_step env (matchJSONObjectAt env n) (matchJSONArrayAt env n) (Get_within env n) json
        (part_index env an)) (Suc (length w)) \<lparr> a_parser = no_parser env, a_meta = an, a_count = 0, a_log = [], a_all = [] \<rparr> =
      Some (j, True, (no_parser env) \<lparr> p_val := count_value env (elems_length es) (no_value env) \<rparr>)"
    using count_elems [OF _ _ here(3), of "\<lparr> a_parser = no_parser env, a_meta = an, a_count = 0, a_log = [], a_all = [] \<rparr>"
        env "matchJSONObjectAt env n" "matchJSONArrayAt env n" "Get_within env n" "part_index env an"] assms(1) c
    by (auto simp: ws_gaps no_parser_def)
  then have "matchJSONArrayAt env (Suc n) json (Suc (length w)) ''#'' (no_parser env) =
      Some (j, True, (no_parser env) \<lparr> p_val := count_value env (elems_length es) (no_value env) \<rparr>)"
    by (simp add: an m Let_def)
  moreover have "Get env json ''#'' = Get_within env (Suc (Suc n)) json ''#''" by (simp add: Get_def n_def eval_nat_numeral)
  ultimately show ?thesis
    using i here(1,2) by (simp add: get_body_def search_def Let_def json_def [symmetric] no_parser_def
        del: matchJSONArrayAt.simps matchJSONObjectAt.simps render.simps)
qed

lemma Get_length_witness: "Get plain_env ('' '' @ ''[true,null]'' @ ''x'') ''#'' = Some (count_value plain_env 2 (no_value plain_env))"
  using Get_length [of "[]" "ECons [] JTrue [] (ECons [] JNull [] ENil)" "'' ''" plain_env "''x''"]
  by (simp add: json_ws_def is_ws_def comma_before_def numeral_2_eq_2)

end
