(* ===== verification/FjForeach.thy ===== *)
theory FjForeach
  imports FjProps
begin

text \<open>
  \<open>Foreach\<close> of \<open>pkg/fj\<close> (\<open>context.go\<close>): the keys and values an iterator is called with, in order;
  an iterator that stops early sees a first part of the list.  The number that an array passes as the
  key, counted up from \<open>-1\<close> in floating point, is the number of the element.
\<close>

section \<open>The entries of a value\<close>

definition IsArray :: "'f Context \<Rightarrow> bool" where
  "IsArray ctx \<longleftrightarrow> kind ctx = KJSON \<and> 0 < length (raw ctx) \<and> raw ctx ! 0 = CHR ''[''"

definition IsObject :: "'f Context \<Rightarrow> bool" where
  "IsObject ctx \<longleftrightarrow> kind ctx = KJSON \<and> 0 < length (raw ctx) \<and> raw ctx ! 0 = CHR ''{''"

type_synonym 'f entry = "'f Context \<times> 'f Context"

definition string_key :: "'f fj_env \<Rightarrow> gostring \<Rightarrow> bool \<Rightarrow> 'f Context" where
  "string_key env text esc = put_string text esc (no_value env)"

definition index_key :: "'f fj_env \<Rightarrow> nat \<Rightarrow> 'f Context" where
  "index_key env n = (no_value env) \<lparr> kind := KNumber, num := float_of env (int n) \<rparr>"

definition between :: "byte \<Rightarrow> bool" where
  "between c \<longleftrightarrow> c \<le> CHR '' '' \<or> c = CHR '','' \<or> c = CHR '':''"

text \<open>At the start of a value \<open>extractJSONValueAt\<close> is the scan of the matchers; it passes over other bytes.\<close>

lemma extractJSONValueAt_scan:
  assumes "i < length json" and "starts_value (json ! i)"
  shows "extractJSONValueAt env json i True =
    (case scan_value env json i of (j, put, ok) \<Rightarrow> (j, if ok then put (no_value env) else no_value env, ok))"
proof -
  have "json ! i = CHR 0x22 \<or> json ! i = CHR ''{'' \<or> json ! i = CHR ''['' \<or> starts_nan json i \<or> starts_number (json ! i)
      \<or> json ! i = CHR ''n'' \<or> json ! i = CHR ''t'' \<or> json ! i = CHR ''f''"
    using assms(2) by (auto simp: starts_value_def)
  then show ?thesis
    using assms starts_value_above [OF assms(2)]
    by (subst extractJSONValueAt.simps)
      (auto simp: Let_def scan_value_def json_value_of_def string_value_def number_value_def literal_value_def
        split: prod.splits)
qed

lemma extractJSONValueAt_skip:
  assumes "i < length json" and "\<not> starts_value (json ! i)"
  shows "extractJSONValueAt env json i True = extractJSONValueAt env json (Suc i) True"
  using assms by (subst extractJSONValueAt.simps) (auto simp: Let_def starts_value_def starts_nan_def starts_number_def)

lemma scan_value_raw:
  assumes "scan_value env json i = (j, put, True)" and "\<not> IsEmpty json"
  shows "length (raw (put c)) \<le> length json - i"
  using assms slice_length_le [of json i]
  by (auto simp: scan_value_def Let_def put_json_def put_string_def put_number_def put_literal_def extractJSONNumber_def
      extractJSONLowerLiteral_def extractJSONValue_def extractJSONString_def split: if_splits prod.splits bool.splits)

lemma extractJSONValueAt_bounds:
  "extractJSONValueAt env json i True = (j, v, ok) \<Longrightarrow> i \<le> j \<and> (ok \<longrightarrow> length (raw v) \<le> length json - i)"
proof (induction "length json - i" arbitrary: i rule: less_induct)
  case (less i)
  consider "length json \<le> i" | "i < length json" "starts_value (json ! i)" | "i < length json" "\<not> starts_value (json ! i)"
    by linarith
  then show ?case
  proof cases
    case 1
    with less.prems show ?thesis by (subst (asm) extractJSONValueAt.simps) simp
  next
    case 2
    obtain k put ok' where s: "scan_value env json i = (k, put, ok')" by (metis prod_cases3)
    have "\<not> IsEmpty json" using IsEmpty_no_visible [OF starts_value_visible [OF 2(2)], of json] 2(1) by simp
    with scan_value_progress [OF s 2] scan_value_raw [of env json i k put] s less.prems show ?thesis
      by (auto simp: extractJSONValueAt_scan [OF 2] split: if_splits)
  next
    case 3
    then have "length json - Suc i < length json - i" by simp
    with less.hyps [of "Suc i"] less.prems show ?thesis by (cases ok) (auto simp: extractJSONValueAt_skip [OF 3])
  qed
qed

text \<open>One turn of the loop for each byte; \<open>obj\<close> tells an object from an array.\<close>

function foreach_from :: "'f fj_env \<Rightarrow> gostring \<Rightarrow> bool \<Rightarrow> nat \<Rightarrow> nat \<Rightarrow> 'f entry list" where
  "foreach_from env json obj i n =
    (if i < length json then
       (if obj \<and> json ! i \<noteq> CHR 0x22 then foreach_from env json obj (Suc i) n
        else
          let (j, key, ok) = (if obj then
                 (case extractJSONString json (i + 1) of (j, text, esc, ok) \<Rightarrow> (j, string_key env text esc, ok))
               else (i, index_key env n, True))
          in if \<not> ok then []
             else
               let (m, v, ok) = extractJSONValueAt env json (skip_while between json j) True
               in if \<not> ok then [] else (key, v) # foreach_from env json obj (Suc m) (Suc n))
     else [])"
  by pat_completeness auto

lemma extractJSONString_ge: "extractJSONString json (Suc i) = (j, text, esc, True) \<Longrightarrow> i < j"
  by (auto simp: extractJSONString_def split: if_splits prod.splits bool.splits dest!: string_end_ge)

termination foreach_from
proof (relation "measure (\<lambda>(env, json, obj, i, n). length json - i)", goal_cases)
  case (3 env json obj i n x j y key ok z m w v ok')
  have "i \<le> j" using 3 extractJSONString_ge by (fastforce split: if_splits prod.splits)
  moreover have "skip_while between json j \<le> m" using 3 extractJSONValueAt_bounds by metis
  ultimately have "i < Suc m" using skip_while_ge [of j between json] by linarith
  with 3 show ?case by simp
qed auto

declare foreach_from.simps [simp del]

definition Foreach :: "'f fj_env \<Rightarrow> 'f Context \<Rightarrow> 'f entry list" where
  "Foreach env ctx =
    (if \<not> Exists ctx then []
     else if kind ctx \<noteq> KJSON then [(no_value env, ctx)]
     else
       let json = raw ctx; i = skip_while (\<lambda>c. c \<le> CHR '' '') json 0
       in if length json \<le> i then []
          else if json ! i = CHR ''{'' then foreach_from env json True (i + 1) 0
          else if json ! i = CHR ''['' then foreach_from env json False (i + 1) 0
          else [])"

text \<open>The values of an object or array are shorter than its text: searches that go down into them end.\<close>

lemma foreach_from_shorter:
  "(key, v) \<in> set (foreach_from env json obj i n) \<Longrightarrow> length (raw v) \<le> length json - i"
proof (induction env json obj i n rule: foreach_from.induct)
  case (1 env json obj i n)
  show ?case
  proof (cases "i < length json \<and> \<not> (obj \<and> json ! i \<noteq> CHR 0x22)")
    case False
    with 1 show ?thesis by (subst (asm) (3) foreach_from.simps) (auto split: if_splits)
  next
    case True
    obtain j k ok where e: "(if obj then (case extractJSONString json (i + 1) of (j, text, esc, ok) \<Rightarrow> (j, string_key env text esc, ok))
        else (i, index_key env n, True)) = (j, k, ok)" by (metis prod_cases3)
    obtain m u ok' where x: "extractJSONValueAt env json (skip_while between json j) True = (m, u, ok')" by (metis prod_cases3)
    have "(key, v) \<in> set (if \<not> ok then [] else if \<not> ok' then [] else (k, u) # foreach_from env json obj (Suc m) (Suc n))"
      using "1.prems" True e x by (subst (asm) foreach_from.simps) (cases ok; simp add: Let_def)
    then have ok: "ok" "ok'" and v: "v = u \<or> (key, v) \<in> set (foreach_from env json obj (Suc m) (Suc n))"
      by (auto split: if_splits)
    have "i \<le> j" using e ok(1) extractJSONString_ge by (fastforce split: if_splits prod.splits)
    then have "i \<le> skip_while between json j" by (metis le_trans skip_while_ge)
    moreover note extractJSONValueAt_bounds [OF x]
    moreover have "length (raw v) \<le> length json - Suc m" if "(key, v) \<in> set (foreach_from env json obj (Suc m) (Suc n))"
      using "1.IH"(2) [of "(j, k, ok)" j "(k, ok)" k ok "(m, u, ok')" m "(u, ok')" u ok'] e x ok that True by auto
    ultimately show ?thesis using v ok(2) by fastforce
  qed
qed

lemma Foreach_shorter: "(key, v) \<in> set (Foreach env ctx) \<Longrightarrow> kind ctx = KJSON \<Longrightarrow> length (raw v) < length (raw ctx)"
  by (auto simp: Foreach_def Let_def split: if_splits dest!: foreach_from_shorter)

section \<open>The entries of a tree\<close>

primrec elems_of :: "jelems \<Rightarrow> jval list" where
  "elems_of ENil = []"
| "elems_of (ECons w1 v w2 es) = v # elems_of es"

primrec members_of :: "jmembers \<Rightarrow> (gostring \<times> jval) list" where
  "members_of MNil = []"
| "members_of (MCons w1 k w2 w3 v w4 ms) = (k, v) # members_of ms"

definition key_value :: "'f fj_env \<Rightarrow> gostring \<Rightarrow> 'f Context" where
  "key_value env k = value_of env (JStr k)"

fun tree_entries :: "'f fj_env \<Rightarrow> jval \<Rightarrow> 'f entry list" where
  "tree_entries env (JArr w es) = map (\<lambda>(n, v). (index_key env n, value_of env v)) (enumerate 0 (elems_of es))"
| "tree_entries env (JObj w ms) = map (\<lambda>(k, v). (key_value env k, value_of env v)) (members_of ms)"
| "tree_entries env v = []"

lemma between_facts: "between c \<Longrightarrow> \<not> starts_value c" "between c \<Longrightarrow> c \<noteq> CHR 0x22" "is_ws c \<Longrightarrow> between c"
  by (auto simp: between_def starts_value_def starts_number_def dest: ws_low)

lemma ws_between: "json_ws w \<Longrightarrow> list_all between w"
  by (auto simp: json_ws_def list_all_iff between_facts)

lemma no_value_at: "list_all (\<lambda>c. \<not> starts_value c) (drop i json) \<Longrightarrow>
    extractJSONValueAt env json i True = (j, v, ok) \<Longrightarrow> \<not> ok"
proof (induction "length json - i" arbitrary: i)
  case 0
  then show ?case by (subst (asm) extractJSONValueAt.simps) simp
next
  case (Suc m)
  then have i: "i < length json" by simp
  then have d: "drop i json = json ! i # drop (Suc i) json" by (rule Cons_nth_drop_Suc [symmetric])
  with Suc.prems have "\<not> starts_value (json ! i)" by simp
  with Suc.prems(2) i have "extractJSONValueAt env json (Suc i) True = (j, v, ok)" by (simp add: extractJSONValueAt_skip)
  with Suc.hyps(1) [of "Suc i"] Suc.hyps(2) Suc.prems(1) d show ?case by simp
qed

lemma foreach_from_tail: "list_all (\<lambda>c. \<not> starts_value c) (drop i json) \<Longrightarrow> foreach_from env json obj i n = []"
proof (induction "length json - i" arbitrary: i)
  case 0
  then show ?case by (subst foreach_from.simps) simp
next
  case (Suc m)
  then have i: "i < length json" by simp
  then have d: "drop i json = json ! i # drop (Suc i) json" by (rule Cons_nth_drop_Suc [symmetric])
  with Suc.prems have q: "\<not> starts_value (json ! i)" by simp
  then have "json ! i \<noteq> CHR 0x22" by (auto simp: starts_value_def)
  moreover have "list_all (\<lambda>c. \<not> starts_value c) (drop (skip_while between json i) json)"
    using Suc.prems skip_while_ge [of i between json] set_drop_subset_set_drop [of i "skip_while between json i" json]
    by (auto simp: list_all_iff)
  moreover obtain k v ok where e: "extractJSONValueAt env json (skip_while between json i) True = (k, v, ok)" by (metis prod_cases3)
  ultimately have "\<not> ok" using no_value_at by blast
  with Suc.hyps(1) [of "Suc i"] Suc.hyps(2) Suc.prems d i \<open>json ! i \<noteq> CHR 0x22\<close> e show ?case
    by (subst foreach_from.simps) (auto simp: Let_def)
qed

text \<open>The loop passes over the byte behind a value, which is a separator, white space or the bracket.\<close>

lemma foreach_from_skips:
  assumes "text_at json i (x @ s) t" and "list_all between x" and "s \<noteq> []"
  shows "foreach_from env json True i n = foreach_from env json True (i + length x) n"
  using assms(1,2)
proof (induction x arbitrary: i)
  case (Cons c x)
  then have "i < length json" "json ! i \<noteq> CHR 0x22" "text_at json (Suc i) (x @ s) t"
    by (auto simp: text_at_Cons between_facts)
  with Cons show ?case by (subst foreach_from.simps) simp
qed simp

text \<open>The entry at the value of a tree.\<close>

lemma value_entry:
  assumes "text_at json i (x @ render v) t" and "list_all between x" and "wf_val v" and "value_follows t"
  shows "extractJSONValueAt env json (skip_while between json i) True = (i + length x + length (render v), value_of env v, True)"
proof -
  obtain a r where r: "render v = a # r" "starts_value a" using render_head [OF assms(3)] by blast
  have k: "skip_while between json i = i + length x"
    by (rule skip_while_text [OF text_at_left [OF assms(1)] assms(2)]) (use r between_facts(1) in auto)
  have tv: "text_at json (i + length x) (render v) t" using text_at_append [OF assms(1)] .
  then have "i + length x < length json" "starts_value (json ! (i + length x))" using r by (simp_all add: text_at_Cons)
  from extractJSONValueAt_scan [OF this, of env] scan_value_found [OF assms(3) tv assms(4), of env] show ?thesis
    by (simp add: k put_value_of [OF assms(3)])
qed

text \<open>What stands behind a value: white space and a comma, or white space and the closing bracket.\<close>

definition gap_text :: "gostring \<Rightarrow> bool \<Rightarrow> gostring" where
  "gap_text w atEnd = w @ (if atEnd then [] else '','')"

lemma gap_text_between: "json_ws w \<Longrightarrow> list_all between (gap_text w e)" "json_ws w \<Longrightarrow> list_all between (tl (gap_text w e))"
  using ws_between [of w] by (cases w; auto simp: gap_text_def between_def)+

lemma foreach_elems:
  assumes "wf_elems es" and "list_all between x" and "text_at json i (x @ render_elems es @ '']'') t"
    and "list_all (\<lambda>c. \<not> starts_value c) t"
  shows "foreach_from env json False i n = map (\<lambda>(n, v). (index_key env n, value_of env v)) (enumerate n (elems_of es))"
  using assms(1-3)
proof (induction "elems_of es" arbitrary: es x i n)
  case Nil
  then have es: "es = ENil" by (cases es) simp_all
  with Nil have "drop i json = x @ '']'' @ t" by (simp add: text_at_def)
  with Nil(3) assms(4) have "list_all (\<lambda>c. \<not> starts_value c) (drop i json)"
    by (auto simp: list_all_iff between_facts) (simp add: starts_value_def starts_number_def)
  then show ?case by (simp add: foreach_from_tail es)
next
  case (Cons u us)
  then obtain w1 v w2 es' where es: "es = ECons w1 v w2 es'" by (cases es) simp_all
  define g where "g = gap_text w2 (es' = ENil)"
  define rest where "rest = g @ render_elems es' @ '']''"
  note wf = Cons(3) [unfolded es wf_elems.simps]
  have all: "text_at json i (((x @ w1) @ render v) @ rest) t"
    using Cons(5) by (simp add: es rest_def g_def gap_text_def comma_before_def split: if_splits)
  define m where "m = i + length (x @ w1) + length (render v)"
  have here: "text_at json i ((x @ w1) @ render v) (rest @ t)" and rest: "text_at json m rest t"
    using text_at_left [OF all] text_at_append [OF all] by (simp_all add: m_def add.assoc)
  have f: "value_follows (rest @ t)"
    using wf unfolding rest_def g_def gap_text_def append_assoc by (intro value_follows_ws [of w2]) (auto simp: value_follows_def)
  have e: "extractJSONValueAt env json (skip_while between json i) True = (m, value_of env v, True)"
    using value_entry [OF here _ _ f] Cons(4) wf by (simp add: m_def ws_between)
  have "i < length json" using here render_head [of v] wf by (cases "x @ w1") (auto simp: text_at_Cons)
  then have "foreach_from env json False i n = (index_key env n, value_of env v) # foreach_from env json False (Suc m) (Suc n)"
    using e by (subst foreach_from.simps) simp
  also have "foreach_from env json False (Suc m) (Suc n) =
      map (\<lambda>(n, v). (index_key env n, value_of env v)) (enumerate (Suc n) (elems_of es'))"
  proof (cases g)
    case Nil
    then have "es' = ENil" by (auto simp: g_def gap_text_def split: if_splits)
    moreover from this Nil rest have "drop (Suc m) json = t" by (simp add: rest_def text_at_Cons) (simp add: text_at_def)
    ultimately show ?thesis using assms(4) by (simp add: foreach_from_tail)
  next
    case (Cons c g')
    then have "text_at json (Suc m) (g' @ render_elems es' @ '']'') t" using rest by (simp add: rest_def text_at_Cons)
    moreover have "list_all between g'" using gap_text_between(2) [of w2 "es' = ENil"] wf Cons by (simp add: g_def)
    ultimately show ?thesis using Cons.hyps(1) [of es' g' "Suc m" "Suc n"] wf \<open>u # us = elems_of es\<close> by (simp add: es)
  qed
  finally show ?case by (simp add: es)
qed

lemma foreach_members:
  assumes "wf_members ms" and "list_all between x" and "text_at json i (x @ render_members ms @ ''}'') t"
    and "list_all (\<lambda>c. \<not> starts_value c) t"
  shows "foreach_from env json True i n = map (\<lambda>(k, v). (key_value env k, value_of env v)) (members_of ms)"
  using assms(1-3)
proof (induction "members_of ms" arbitrary: ms x i n)
  case Nil
  then have ms: "ms = MNil" by (cases ms) simp_all
  with Nil have "drop i json = x @ ''}'' @ t" by (simp add: text_at_def)
  with Nil(3) assms(4) have "list_all (\<lambda>c. \<not> starts_value c) (drop i json)"
    by (auto simp: list_all_iff between_facts) (simp add: starts_value_def starts_number_def)
  then show ?case by (simp add: foreach_from_tail ms)
next
  case (Cons u us)
  then obtain w1 k w2 w3 v w4 ms' where ms: "ms = MCons w1 k w2 w3 v w4 ms'" by (cases ms) simp_all
  define g where "g = gap_text w4 (ms' = MNil)"
  define rest where "rest = g @ render_members ms' @ ''}''"
  define y where "y = w2 @ CHR '':'' # w3"
  note wf = Cons(3) [unfolded ms wf_members.simps]
  have all: "text_at json i ((x @ w1) @ CHR 0x22 # k @ CHR 0x22 # (y @ render v) @ rest) t"
    using Cons(5) by (simp add: ms rest_def g_def y_def gap_text_def comma_before_def split: if_splits)
  define q where "q = i + length (x @ w1)"
  have atq: "text_at json q (CHR 0x22 # k @ CHR 0x22 # (y @ render v) @ rest) t"
    using text_at_append [OF all] by (simp add: q_def)
  define p where "p = Suc (Suc q + length k)"
  have aty: "text_at json p ((y @ render v) @ rest) t"
    using text_at_append [of json "Suc q" "k @ [CHR 0x22]" "(y @ render v) @ rest" t] atq by (simp add: text_at_Cons p_def)
  define m where "m = p + length y + length (render v)"
  have here: "text_at json p (y @ render v) (rest @ t)" and rest: "text_at json m rest t"
    using text_at_left [OF aty] text_at_append [OF aty] by (simp_all add: m_def add.assoc)
  have f: "value_follows (rest @ t)"
    using wf unfolding rest_def g_def gap_text_def append_assoc by (intro value_follows_ws [of w4]) (auto simp: value_follows_def)
  have "list_all between y" using wf by (simp add: y_def ws_between) (simp add: between_def)
  then have e: "extractJSONValueAt env json (skip_while between json p) True = (m, value_of env v, True)"
    using value_entry [OF here _ _ f] wf by (simp add: m_def)
  have s: "extractJSONString json (Suc q) = (p, CHR 0x22 # k @ [CHR 0x22], CHR 0x5C \<in> set k, True)"
    using extractJSONString_found [OF at_quoted [OF atq]] wf by (simp add: p_def)
  have key: "string_key env (CHR 0x22 # k @ [CHR 0x22]) (CHR 0x5C \<in> set k) = key_value env k"
    using wf unescape_no_escape [of k] by (auto simp: string_key_def key_value_def value_of_def put_string_def no_value_def)
  have "foreach_from env json True i n = foreach_from env json True q n"
    unfolding q_def using foreach_from_skips [OF all] Cons(4) wf by (simp add: ws_between)
  also have "\<dots> = (key_value env k, value_of env v) # foreach_from env json True (Suc m) (Suc n)"
    using atq s e by (subst foreach_from.simps) (simp add: text_at_Cons key)
  also have "foreach_from env json True (Suc m) (Suc n) = map (\<lambda>(k, v). (key_value env k, value_of env v)) (members_of ms')"
  proof (cases g)
    case Nil
    then have "ms' = MNil" by (auto simp: g_def gap_text_def split: if_splits)
    moreover from this Nil rest have "drop (Suc m) json = t" by (simp add: rest_def text_at_Cons) (simp add: text_at_def)
    ultimately show ?thesis using assms(4) by (simp add: foreach_from_tail)
  next
    case (Cons c g')
    then have "text_at json (Suc m) (g' @ render_members ms' @ ''}'') t" using rest by (simp add: rest_def text_at_Cons)
    moreover have "list_all between g'" using gap_text_between(2) [of w4 "ms' = MNil"] wf Cons by (simp add: g_def)
    ultimately show ?thesis using Cons.hyps(1) [of ms' g' "Suc m" "Suc n"] wf \<open>u # us = members_of ms\<close> by (simp add: ms)
  qed
  finally show ?case by (simp add: ms)
qed

text \<open>An iterator sees the children of the tree, when nothing that starts a value stands behind it.\<close>

lemma Foreach_tree:
  assumes "wf_val v" and "is_container v" and "list_all (\<lambda>c. \<not> starts_value c) t"
  shows "Foreach env (json_value_of env (render v @ t)) = tree_entries env v"
proof (cases v)
  case (JArr w es)
  then have "text_at (render v @ t) 1 (w @ render_elems es @ '']'') t" by (simp add: text_at_def)
  from foreach_elems [OF _ _ this assms(3), of env 0] assms(1) show ?thesis
    by (simp add: JArr Foreach_def Exists_def json_value_of_def put_json_def skip_while.simps [of _ _ 0] ws_between)
next
  case (JObj w ms)
  then have "text_at (render v @ t) 1 (w @ render_members ms @ ''}'') t" by (simp add: text_at_def)
  from foreach_members [OF _ _ this assms(3), of env 0] assms(1) show ?thesis
    by (simp add: JObj Foreach_def Exists_def json_value_of_def put_json_def skip_while.simps [of _ _ 0] ws_between)
qed (use assms(2) in simp_all)

lemma value_of_container: "is_container v \<Longrightarrow> value_of env v = json_value_of env (render v)"
  by (cases v) (simp_all add: value_of_def json_value_of_def put_json_def no_value_def)

end
