(* ===== verification/FjSearch.thy ===== *)
theory FjSearch
  imports FjForeach
begin

text \<open>
  The searches of \<open>pkg/fj\<close> through all leaves of a document (\<open>search.go\<close> and the scanners of
  \<open>utilities.go\<close>).  The scanners for a text and for a pattern differ in the test of a leaf or key,
  which is an argument here; what they append to is the first argument, as in the code.
\<close>

text \<open>\<open>strings.Contains\<close>.\<close>

fun str_Contains :: "gostring \<Rightarrow> gostring \<Rightarrow> bool" where
  "str_Contains s u = (HasPrefix s u \<or> (case s of [] \<Rightarrow> False | c # s' \<Rightarrow> str_Contains s' u))"

declare str_Contains.simps [simp del]

section \<open>Leaves\<close>

abbreviation IsContainer :: "'f Context \<Rightarrow> bool" where
  "IsContainer ctx \<equiv> IsArray ctx \<or> IsObject ctx"

lemma IsContainer_kind: "IsContainer ctx \<Longrightarrow> kind ctx = KJSON"
  by (auto simp: IsArray_def IsObject_def)

lemma child_shorter: "x \<in> set (Foreach env node) \<Longrightarrow> IsContainer node \<Longrightarrow> length (raw (snd x)) < length (raw node)"
  using Foreach_shorter [of "fst x" "snd x"] IsContainer_kind by (metis prod.collapse)

function scan_leaves :: "'f fj_env \<Rightarrow> ('f Context \<Rightarrow> bool) \<Rightarrow> 'f Context list \<Rightarrow> 'f Context \<Rightarrow> 'f Context list" where
  "scan_leaves env test found node =
    (if IsContainer node then foldl (\<lambda>found entry. scan_leaves env test found (snd entry)) found (Foreach env node)
     else if \<not> Exists node then found
     else if test node then found @ [node]
     else found)"
  by pat_completeness auto
termination
  by (relation "measure (\<lambda>(env, test, found, node). length (raw node))") (auto simp: child_shorter)

declare scan_leaves.simps [simp del]

definition scanLeaves :: "'f fj_env \<Rightarrow> 'f Context list \<Rightarrow> 'f Context \<Rightarrow> gostring \<Rightarrow> 'f Context list" where
  "scanLeaves env found node keyword =
    scan_leaves env (\<lambda>v. IsEmpty keyword \<or> str_Contains (Context_String env v) keyword) found node"

definition scanLeavesMatch :: "'f fj_env \<Rightarrow> 'f Context list \<Rightarrow> 'f Context \<Rightarrow> gostring \<Rightarrow> 'f Context list" where
  "scanLeavesMatch env found node pattern = scan_leaves env (\<lambda>v. Match (Context_String env v) pattern) found node"

definition Search :: "'f fj_env \<Rightarrow> gostring \<Rightarrow> gostring \<Rightarrow> 'f Context list" where
  "Search env json keyword = scanLeaves env [] (Parse env json) keyword"

definition SearchMatch :: "'f fj_env \<Rightarrow> gostring \<Rightarrow> gostring \<Rightarrow> 'f Context list" where
  "SearchMatch env json pattern = scanLeavesMatch env [] (Parse env json) pattern"

section \<open>Keys\<close>

text \<open>The values under the keys that pass the test, at every depth.\<close>

function scan_keys :: "'f fj_env \<Rightarrow> (gostring \<Rightarrow> bool) \<Rightarrow> 'f Context list \<Rightarrow> 'f Context \<Rightarrow> 'f Context list" where
  "scan_keys env test found node =
    (if IsObject node then
       foldl (\<lambda>found entry.
           let found' = (if test (Context_String env (fst entry)) then found @ [snd entry] else found)
           in if IsContainer (snd entry) then scan_keys env test found' (snd entry) else found')
         found (Foreach env node)
     else if IsArray node then foldl (\<lambda>found entry. scan_keys env test found (snd entry)) found (Foreach env node)
     else found)"
  by pat_completeness auto
termination
  by (relation "measure (\<lambda>(env, test, found, node). length (raw node))") (auto simp: child_shorter)

declare scan_keys.simps [simp del]

definition scanByKey :: "'f fj_env \<Rightarrow> 'f Context list \<Rightarrow> 'f Context \<Rightarrow> gostring list \<Rightarrow> 'f Context list" where
  "scanByKey env found node keySet = scan_keys env (\<lambda>k. k \<in> set keySet) found node"

definition scanByKeyPattern :: "'f fj_env \<Rightarrow> 'f Context list \<Rightarrow> 'f Context \<Rightarrow> gostring \<Rightarrow> 'f Context list" where
  "scanByKeyPattern env found node keyPattern = scan_keys env (\<lambda>k. Match k keyPattern) found node"

definition SearchByKey :: "'f fj_env \<Rightarrow> gostring \<Rightarrow> gostring list \<Rightarrow> 'f Context list" where
  "SearchByKey env json keys = (if length keys = 0 then [] else scanByKey env [] (Parse env json) keys)"

definition SearchByKeyPattern :: "'f fj_env \<Rightarrow> gostring \<Rightarrow> gostring \<Rightarrow> 'f Context list" where
  "SearchByKeyPattern env json keyPattern = scanByKeyPattern env [] (Parse env json) keyPattern"

section \<open>Paths of values\<close>

definition joinPath :: "gostring \<Rightarrow> gostring \<Rightarrow> gostring" where
  "joinPath prefix segment = (if IsEmpty prefix then segment else prefix @ ''.'' @ segment)"

text \<open>The segments of the entries: the keys of an object, the indices of an array.\<close>

definition segments :: "'f fj_env \<Rightarrow> 'f Context \<Rightarrow> (gostring \<times> 'f Context) list" where
  "segments env node =
    (if IsObject node then map (\<lambda>(key, child). (Context_String env key, child)) (Foreach env node)
     else map (\<lambda>(idx, (key, child)). (itoa (int idx), child)) (enumerate 0 (Foreach env node)))"

lemma enumerate_mem: "(n, x) \<in> set (enumerate m xs) \<Longrightarrow> x \<in> set xs"
  by (auto simp: enumerate_eq_zip dest: set_zip_rightD)

lemma segment_shorter: "x \<in> set (segments env node) \<Longrightarrow> IsContainer node \<Longrightarrow> length (raw (snd x)) < length (raw node)"
  using child_shorter [of _ env node] by (auto simp: segments_def split: if_splits dest!: enumerate_mem)

text \<open>An iterator that returns \<open>!ok\<close>: the first result with the flag set ends the iteration.\<close>

fun iterate_until :: "('a \<Rightarrow> gostring \<times> bool \<Rightarrow> gostring \<times> bool) \<Rightarrow> 'a list \<Rightarrow> gostring \<times> bool \<Rightarrow> gostring \<times> bool" where
  "iterate_until f [] r = r"
| "iterate_until f (x # xs) r = (let r' = f x r in if snd r' then r' else iterate_until f xs r')"

lemma iterate_until_cong [fundef_cong]:
  "xs = ys \<Longrightarrow> r = r' \<Longrightarrow> (\<And>x r. x \<in> set ys \<Longrightarrow> f x r = g x r) \<Longrightarrow> iterate_until f xs r = iterate_until g ys r'"
proof (induction xs arbitrary: ys r r')
  case (Cons x xs)
  then show ?case by (cases ys) (auto simp: Let_def simp del: split_paired_All)
qed simp

function scan_path :: "'f fj_env \<Rightarrow> (gostring \<Rightarrow> bool) \<Rightarrow> 'f Context \<Rightarrow> gostring \<Rightarrow> gostring \<times> bool" where
  "scan_path env test node prefix =
    (if IsContainer node then
       iterate_until (\<lambda>entry r.
           let p = joinPath prefix (fst entry); child = snd entry
           in if IsContainer child then scan_path env test child p
              else if Exists child \<and> test (Context_String env child) then (p, True)
              else r)
         (segments env node) ([], False)
     else ([], False))"
  by pat_completeness auto
termination
  by (relation "measure (\<lambda>(env, test, node, prefix). length (raw node))") (auto simp: segment_shorter)

declare scan_path.simps [simp del]

function scan_paths :: "'f fj_env \<Rightarrow> (gostring \<Rightarrow> bool) \<Rightarrow> gostring list \<Rightarrow> 'f Context \<Rightarrow> gostring \<Rightarrow> gostring list" where
  "scan_paths env test found node prefix =
    (if IsContainer node then
       foldl (\<lambda>found entry.
           let p = joinPath prefix (fst entry); child = snd entry
           in if IsContainer child then scan_paths env test found child p
              else if Exists child \<and> test (Context_String env child) then found @ [p]
              else found)
         found (segments env node)
     else found)"
  by pat_completeness auto
termination
  by (relation "measure (\<lambda>(env, test, found, node, prefix). length (raw node))") (auto simp: segment_shorter)

declare scan_paths.simps [simp del]

definition scanPath :: "'f fj_env \<Rightarrow> 'f Context \<Rightarrow> gostring \<Rightarrow> gostring \<Rightarrow> gostring \<times> bool" where
  "scanPath env node v prefix = scan_path env (\<lambda>s. s = v) node prefix"

definition scanPathMatch :: "'f fj_env \<Rightarrow> 'f Context \<Rightarrow> gostring \<Rightarrow> gostring \<Rightarrow> gostring \<times> bool" where
  "scanPathMatch env node pattern prefix = scan_path env (\<lambda>s. Match s pattern) node prefix"

definition scanPaths :: "'f fj_env \<Rightarrow> gostring list \<Rightarrow> 'f Context \<Rightarrow> gostring \<Rightarrow> gostring \<Rightarrow> gostring list" where
  "scanPaths env found node v prefix = scan_paths env (\<lambda>s. s = v) found node prefix"

definition scanPathsMatch :: "'f fj_env \<Rightarrow> gostring list \<Rightarrow> 'f Context \<Rightarrow> gostring \<Rightarrow> gostring \<Rightarrow> gostring list" where
  "scanPathsMatch env found node pattern prefix = scan_paths env (\<lambda>s. Match s pattern) found node prefix"

definition FindPath :: "'f fj_env \<Rightarrow> gostring \<Rightarrow> gostring \<Rightarrow> gostring" where
  "FindPath env json v = fst (scanPath env (Parse env json) v [])"

definition FindPathMatch :: "'f fj_env \<Rightarrow> gostring \<Rightarrow> gostring \<Rightarrow> gostring" where
  "FindPathMatch env json pattern = fst (scanPathMatch env (Parse env json) pattern [])"

definition FindPaths :: "'f fj_env \<Rightarrow> gostring \<Rightarrow> gostring \<Rightarrow> gostring list" where
  "FindPaths env json v = scanPaths env [] (Parse env json) v []"

definition FindPathsMatch :: "'f fj_env \<Rightarrow> gostring \<Rightarrow> gostring \<Rightarrow> gostring list" where
  "FindPathsMatch env json pattern = scanPathsMatch env [] (Parse env json) pattern []"

section \<open>Values at a path\<close>

text \<open>\<open>Get\<close> returns on every text and path; the other branch of the definition is never taken.\<close>

definition Get_value :: "'f fj_env \<Rightarrow> gostring \<Rightarrow> gostring \<Rightarrow> 'f Context" where
  "Get_value env json path = (case Get env json path of Some ctx \<Rightarrow> ctx | None \<Rightarrow> no_value env)"

definition fj_Contains :: "'f fj_env \<Rightarrow> gostring \<Rightarrow> gostring \<Rightarrow> gostring \<Rightarrow> bool" where
  "fj_Contains env json path target =
    (let ctx = Get_value env json path in if \<not> Exists ctx then False else str_Contains (Context_String env ctx) target)"

definition ContainsMatch :: "'f fj_env \<Rightarrow> gostring \<Rightarrow> gostring \<Rightarrow> gostring \<Rightarrow> bool" where
  "ContainsMatch env json path pattern =
    (let ctx = Get_value env json path in if \<not> Exists ctx then False else Match (Context_String env ctx) pattern)"

end
