(* ===== verification/FjSearchProps.thy ===== *)
theory FjSearchProps
  imports FjSearch
begin


text \<open>
  What the searches find in a valid document: \<open>Search\<close> and \<open>SearchByKey\<close> yield the leaves and the values
  of the tree that match, in the order of the document, and the paths that \<open>FindPaths\<close> yields lead \<open>Get\<close>
  back to the leaves.
\<close>

section \<open>Nodes\<close>

text \<open>A value of the document; the outermost object or array keeps the text behind it.\<close>

definition node_of :: "'f fj_env \<Rightarrow> jval \<Rightarrow> gostring \<Rightarrow> 'f Context" where
  "node_of env v t = (if is_container v then json_value_of env (render v @ t) else value_of env v)"

lemma node_of_value: "node_of env v [] = value_of env v"
  by (simp add: node_of_def value_of_container)

definition quiet_text :: "gostring \<Rightarrow> bool" where
  "quiet_text t \<longleftrightarrow> list_all (\<lambda>c. \<not> starts_value c) t"

lemma quiet_Nil [simp]: "quiet_text []"
  by (simp add: quiet_text_def)

lemma node_kind [simp]:
  "IsArray (node_of env v t) = (case v of JArr _ _ \<Rightarrow> True | _ \<Rightarrow> False)"
  "IsObject (node_of env v t) = (case v of JObj _ _ \<Rightarrow> True | _ \<Rightarrow> False)"
  by (cases v; simp add: node_of_def IsArray_def IsObject_def value_of_def json_value_of_def put_json_def)+

lemma node_exists: "wf_val v \<Longrightarrow> Exists (node_of env v t)"
  using render_head [of v] by (cases v) (auto simp: node_of_def Exists_def value_of_def json_value_of_def put_json_def)

lemma node_entries: "wf_val v \<Longrightarrow> is_container v \<Longrightarrow> quiet_text t \<Longrightarrow> Foreach env (node_of env v t) = tree_entries env v"
  by (simp add: node_of_def quiet_text_def Foreach_tree)

lemma Parse_node: "wf_val v \<Longrightarrow> json_ws w \<Longrightarrow> value_follows t \<Longrightarrow> Parse env (w @ render v @ t) = node_of env v t"
  by (simp add: Parse_tree node_of_def)

text \<open>Nothing but white space stands behind the value of a document.\<close>

lemma ws_after: "json_ws t \<Longrightarrow> quiet_text t" "json_ws t \<Longrightarrow> value_follows t"
  using ws_gap by (auto simp: quiet_text_def json_ws_def list_all_iff value_follows_def)

section \<open>Children and leaves\<close>

text \<open>The children with the segments that \<open>FindPaths\<close> gives them.\<close>

fun children :: "jval \<Rightarrow> (gostring \<times> jval) list" where
  "children (JArr w es) = map (\<lambda>(n, v). (itoa (int n), v)) (enumerate 0 (elems_of es))"
| "children (JObj w ms) = map (\<lambda>(k, v). (unescape k, v)) (members_of ms)"
| "children v = []"

lemma elems_size: "v \<in> set (elems_of es) \<Longrightarrow> size v < size es"
proof (induction "elems_of es" arbitrary: es)
  case (Cons u us)
  then obtain w1 u' w2 es' where es: "es = ECons w1 u' w2 es'" by (cases es) simp_all
  with Cons.prems Cons.hyps(1) [of es'] Cons.hyps(2) show ?case by auto
qed simp

lemma members_size: "(k, v) \<in> set (members_of ms) \<Longrightarrow> size v < size ms"
proof (induction "members_of ms" arbitrary: ms)
  case (Cons u us)
  then obtain w1 k' w2 w3 u' w4 ms' where ms: "ms = MCons w1 k' w2 w3 u' w4 ms'" by (cases ms) simp_all
  with Cons.prems Cons.hyps(1) [of ms'] Cons.hyps(2) show ?case by auto
qed simp

lemma children_size: "(s, u) \<in> set (children v) \<Longrightarrow> size u < size v"
  by (cases v) (auto dest!: enumerate_mem elems_size members_size)

lemma elems_wf: "wf_elems es \<Longrightarrow> v \<in> set (elems_of es) \<Longrightarrow> wf_val v"
proof (induction "elems_of es" arbitrary: es)
  case (Cons u us)
  then show ?case by (cases es) auto
qed simp

lemma members_wf: "wf_members ms \<Longrightarrow> (k, v) \<in> set (members_of ms) \<Longrightarrow> wf_val v"
proof (induction "members_of ms" arbitrary: ms)
  case (Cons u us)
  then show ?case by (cases ms) auto
qed simp

lemma children_wf: "wf_val v \<Longrightarrow> (s, u) \<in> set (children v) \<Longrightarrow> wf_val u"
  by (cases v) (auto dest!: enumerate_mem intro: elems_wf members_wf)

text \<open>The leaves with their paths, in the order of the document.\<close>

function leaf_paths :: "jval \<Rightarrow> (gostring list \<times> jval) list" where
  "leaf_paths v =
    (if is_container v then concat (map (\<lambda>child. map (apfst (Cons (fst child))) (leaf_paths (snd child))) (children v))
     else [([], v)])"
  by pat_completeness auto
termination
  by (relation "measure size") (auto simp: children_size)

declare leaf_paths.simps [simp del]

definition leaves_of :: "jval \<Rightarrow> jval list" where
  "leaves_of v = map snd (leaf_paths v)"

lemma leaves_of_container: "is_container v \<Longrightarrow> leaves_of v = concat (map (leaves_of \<circ> snd) (children v))"
  by (simp add: leaves_of_def leaf_paths.simps [of v] map_concat comp_def)

lemma leaves_of_leaf: "\<not> is_container v \<Longrightarrow> leaves_of v = [v]"
  by (simp add: leaves_of_def leaf_paths.simps [of v])

lemma map_enumerate': "map f (enumerate n (map g xs)) = map (\<lambda>x. f (fst x, g (snd x))) (enumerate n xs)"
  by (induction xs arbitrary: n) simp_all

lemma enumerate_twice: "enumerate n (enumerate n xs) = map (\<lambda>(i, x). (i, (i, x))) (enumerate n xs)"
  by (induction xs arbitrary: n) simp_all

lemma node_children:
  assumes "wf_val v" and "is_container v" and "quiet_text t"
  shows "map snd (Foreach env (node_of env v t)) = map (value_of env \<circ> snd) (children v)"
    and "segments env (node_of env v t) = map (apsnd (value_of env)) (children v)"
proof -
  have e: "Foreach env (node_of env v t) = tree_entries env v" by (rule node_entries [OF assms])
  show "map snd (Foreach env (node_of env v t)) = map (value_of env \<circ> snd) (children v)"
    unfolding e using assms(2) by (cases v) (auto simp: comp_def split_def)
  show "segments env (node_of env v t) = map (apsnd (value_of env)) (children v)"
    unfolding segments_def e using assms(2)
    by (cases v) (auto simp: split_def map_enumerate' enumerate_twice key_value_def value_of_def Context_String_def)
qed

lemma foldl_appends: "(\<And>found x. x \<in> set xs \<Longrightarrow> f found x = found @ h x) \<Longrightarrow> foldl f found xs = found @ concat (map h xs)"
  by (induction xs arbitrary: found) simp_all

lemma foldl_snd: "foldl (\<lambda>a x. f a (snd x)) a xs = foldl f a (map snd xs)"
  by (induction xs arbitrary: a) simp_all

lemma scan_leaves_tree:
  "wf_val v \<Longrightarrow> quiet_text t \<Longrightarrow>
    scan_leaves env test found (node_of env v t) = found @ filter test (map (value_of env) (leaves_of v))"
proof (induction v arbitrary: found t rule: leaf_paths.induct)
  case (1 v)
  show ?case
  proof (cases "is_container v")
    case True
    have "scan_leaves env test found (node_of env v t) =
        foldl (scan_leaves env test) found (map (value_of env \<circ> snd) (children v))"
      using True 1(2,3) by (subst scan_leaves.simps) (cases v; simp add: foldl_snd node_children)
    also have "\<dots> = found @ concat (map (\<lambda>u. filter test (map (value_of env) (leaves_of (snd u)))) (children v))"
      unfolding foldl_map
      by (rule foldl_appends) (use 1(1) [OF True _ _ quiet_Nil] 1(2) children_wf in \<open>fastforce simp: node_of_value\<close>)
    finally show ?thesis by (simp add: leaves_of_container [OF True] filter_concat map_concat comp_def)
  next
    case False
    then have "\<not> IsContainer (node_of env v t)" by (cases v) simp_all
    moreover have "node_of env v t = value_of env v" using False by (simp add: node_of_def)
    ultimately show ?thesis
      using node_exists [OF 1(2), of env t] by (subst scan_leaves.simps) (simp add: leaves_of_leaf [OF False])
  qed
qed

definition leaf_matches :: "'f fj_env \<Rightarrow> gostring \<Rightarrow> jval \<Rightarrow> bool" where
  "leaf_matches env keyword u \<longleftrightarrow> IsEmpty keyword \<or> str_Contains (Context_String env (value_of env u)) keyword"

text \<open>C11: \<open>Search\<close> yields exactly the leaves of a valid document whose text contains the keyword, and all
  leaves for a blank keyword; \<open>SearchMatch\<close> yields exactly the leaves whose text matches the pattern;
  both in the order of the document, each leaf with its value.\<close>

theorem Search_leaves:
  assumes "wf_val v" and "json_ws w" and "json_ws t"
  shows "Search env (w @ render v @ t) keyword = map (value_of env) (filter (leaf_matches env keyword) (leaves_of v))
    \<and> SearchMatch env (w @ render v @ t) pattern =
        map (value_of env) (filter (\<lambda>u. Match (Context_String env (value_of env u)) pattern) (leaves_of v))"
  using Parse_node [OF assms(1,2), of t env] scan_leaves_tree [OF assms(1) ws_after(1) [OF assms(3)], of env _ "[]"]
    ws_after [OF assms(3)]
  by (simp add: Search_def SearchMatch_def scanLeaves_def scanLeavesMatch_def filter_map comp_def leaf_matches_def [abs_def])

section \<open>Keys\<close>

text \<open>The keys of all objects of the document with their values, in the order of the document.\<close>

definition own_key :: "jval \<Rightarrow> gostring \<times> jval \<Rightarrow> (gostring \<times> jval) list" where
  "own_key v child = (case v of JObj _ _ \<Rightarrow> [child] | _ \<Rightarrow> [])"

function keyed :: "jval \<Rightarrow> (gostring \<times> jval) list" where
  "keyed v =
    (if is_container v then concat (map (\<lambda>child. own_key v child @ keyed (snd child)) (children v)) else [])"
  by pat_completeness auto
termination
proof (relation "measure size")
  fix v child
  assume "child \<in> set (children v)"
  then show "(snd child, v) \<in> measure size" using children_size [of "fst child" "snd child" v] by simp
qed simp

declare keyed.simps [simp del]

lemma keyed_leaf: "\<not> is_container v \<Longrightarrow> keyed v = []"
  by (cases v) (subst keyed.simps, simp)+

lemma foldl_entries: "foldl (\<lambda>a x. f a (Context_String env (fst x)) (snd x)) a xs =
    foldl (\<lambda>a x. f a (fst x) (snd x)) a (map (\<lambda>(key, child). (Context_String env key, child)) xs)"
  by (induction xs arbitrary: a) auto

lemma scan_keys_tree:
  "wf_val v \<Longrightarrow> is_container v \<Longrightarrow> quiet_text t \<Longrightarrow>
    scan_keys env test found (node_of env v t) = found @ map (value_of env \<circ> snd) (filter (test \<circ> fst) (keyed v))"
proof (induction v arbitrary: found t rule: keyed.induct)
  case (1 v)
  define hits where "hits u = map (value_of env \<circ> snd) (filter (test \<circ> fst) (keyed u))" for u
  have child: "(if IsContainer (value_of env u) then scan_keys env test found (value_of env u) else found) = found @ hits u"
    if "(s, u) \<in> set (children v)" for s u found
  proof (cases "is_container u")
    case True
    then have "IsContainer (value_of env u)" by (cases u) (simp_all add: node_of_value [symmetric])
    with 1(1) [OF 1(3), of "(s, u)" "[]" found] that True children_wf [OF 1(2) that] show ?thesis by (simp add: node_of_value hits_def comp_def)
  next
    case False
    then have "\<not> IsContainer (value_of env u)" by (cases u) (simp_all add: node_of_value [symmetric])
    then show ?thesis by (simp add: hits_def keyed_leaf [OF False])
  qed
  have leaf: "scan_keys env test found (value_of env u) = found @ hits u" if "(s, u) \<in> set (children v)" for s u found
  proof (cases "is_container u")
    case True
    then show ?thesis using child [OF that, of found] by (cases u) (simp_all add: node_of_value [symmetric])
  next
    case False
    then have "\<not> IsObject (value_of env u)" "\<not> IsArray (value_of env u)" by (cases u; simp add: node_of_value [symmetric])+
    then show ?thesis by (subst scan_keys.simps) (simp add: hits_def keyed_leaf [OF False])
  qed
  show ?case
  proof (cases v)
    case (JArr w es)
    have "scan_keys env test found (node_of env v t) = foldl (scan_keys env test) found (map (value_of env \<circ> snd) (children v))"
      using node_children(1) [OF 1(2-4), of env] by (subst scan_keys.simps) (simp add: JArr foldl_snd)
    also have "\<dots> = found @ concat (map (hits \<circ> snd) (children v))"
      unfolding foldl_map by (rule foldl_appends) (use leaf in fastforce)
    finally show ?thesis
      unfolding JArr keyed.simps [of "JArr w es"] by (simp add: own_key_def filter_concat map_concat comp_def hits_def)
  next
    case (JObj w ms)
    let ?f = "\<lambda>found k child. let found' = (if test k then found @ [child] else found)
      in if IsContainer child then scan_keys env test found' child else found'"
    have "scan_keys env test found (node_of env v t) =
        foldl (\<lambda>found x. ?f found (fst x) (snd x)) found (map (apsnd (value_of env)) (children v))"
      using node_children(2) [OF 1(2-4), of env]
      by (subst scan_keys.simps) (simp add: JObj foldl_entries [where f = ?f] segments_def)
    also have "\<dots> = found @ concat (map (\<lambda>(s, u). (if test s then [value_of env u] else []) @ hits u) (children v))"
      unfolding foldl_map
    proof (rule foldl_appends)
      fix found x
      assume "x \<in> set (children v)"
      moreover obtain s u where "x = (s, u)" by (cases x)
      ultimately show "?f found (fst (apsnd (value_of env) x)) (snd (apsnd (value_of env) x)) =
          found @ (case x of (s, u) \<Rightarrow> (if test s then [value_of env u] else []) @ hits u)"
        using child [of s u "if test s then found @ [value_of env u] else found"]
        by (cases "test s") (simp_all add: Let_def split del: if_split cong: if_cong)
    qed
    finally show ?thesis
      unfolding JObj keyed.simps [of "JObj w ms"]
      by (auto simp: own_key_def filter_concat map_concat comp_def hits_def split_def intro!: arg_cong [where f = concat] map_cong)
  qed (use 1(3) in simp_all)
qed

text \<open>\<open>SearchByKey\<close> and \<open>SearchByKeyPattern\<close> yield the values under the keys asked for, in every object of
  the document and in its order, those inside of a value that was yielded too.\<close>

theorem SearchByKey_values:
  assumes "wf_val v" and "is_container v" and "json_ws w" and "json_ws t"
  shows "SearchByKey env (w @ render v @ t) keys = map (value_of env \<circ> snd) (filter (\<lambda>(k, u). k \<in> set keys) (keyed v))
    \<and> SearchByKeyPattern env (w @ render v @ t) pattern =
        map (value_of env \<circ> snd) (filter (\<lambda>(k, u). Match k pattern) (keyed v))"
  using Parse_node [OF assms(1,3), of t env] scan_keys_tree [OF assms(1,2) ws_after(1) [OF assms(4)], of env _ "[]"]
    ws_after [OF assms(4)]
  by (auto simp: SearchByKey_def SearchByKeyPattern_def scanByKey_def scanByKeyPattern_def comp_def split_def)

section \<open>Paths\<close>

text \<open>The paths, behind a prefix, of the leaves that pass the test.\<close>

definition hit_paths :: "'f fj_env \<Rightarrow> (gostring \<Rightarrow> bool) \<Rightarrow> gostring \<Rightarrow> jval \<Rightarrow> gostring list" where
  "hit_paths env test prefix v =
    map (\<lambda>(ks, u). foldl joinPath prefix ks) (filter (\<lambda>(ks, u). test (Context_String env (value_of env u))) (leaf_paths v))"

lemma hit_paths_container:
  "is_container v \<Longrightarrow>
    hit_paths env test prefix v = concat (map (\<lambda>child. hit_paths env test (joinPath prefix (fst child)) (snd child)) (children v))"
  unfolding hit_paths_def by (subst leaf_paths.simps) (simp add: filter_concat map_concat filter_map comp_def split_def)

lemma hit_paths_leaf:
  "\<not> is_container v \<Longrightarrow> hit_paths env test prefix v = (if test (Context_String env (value_of env v)) then [prefix] else [])"
  unfolding hit_paths_def by (subst leaf_paths.simps) simp

lemma leaf_node:
  assumes "wf_val u" and "\<not> is_container u"
  shows "\<not> IsContainer (value_of env u)" "Exists (value_of env u)"
  using assms node_exists [of u env "[]"] by (cases u; simp add: node_of_value [symmetric])+

lemma container_node: "is_container u \<Longrightarrow> IsContainer (value_of env u)"
  by (cases u) (simp_all add: node_of_value [symmetric])

lemma scan_paths_tree:
  "wf_val v \<Longrightarrow> is_container v \<Longrightarrow> quiet_text t \<Longrightarrow>
    scan_paths env test found (node_of env v t) prefix = found @ hit_paths env test prefix v"
proof (induction v arbitrary: found prefix t rule: keyed.induct)
  case (1 v)
  have n: "IsContainer (node_of env v t)" using 1(3) by (cases v) simp_all
  have "scan_paths env test found (node_of env v t) prefix =
      foldl (\<lambda>found x. let p = joinPath prefix (fst x); child = snd x
        in if IsContainer child then scan_paths env test found child p
           else if Exists child \<and> test (Context_String env child) then found @ [p] else found)
        found (map (apsnd (value_of env)) (children v))"
    by (subst scan_paths.simps) (simp only: n node_children(2) [OF 1(2-4)] if_True)
  also have "\<dots> = found @ concat (map (\<lambda>child. hit_paths env test (joinPath prefix (fst child)) (snd child)) (children v))"
    unfolding foldl_map
  proof (rule foldl_appends)
    fix found x
    assume x: "x \<in> set (children v)"
    then have wf: "wf_val (snd x)" using children_wf [OF 1(2), of "fst x" "snd x"] by simp
    show "(let p = joinPath prefix (fst (apsnd (value_of env) x)); child = snd (apsnd (value_of env) x)
        in if IsContainer child then scan_paths env test found child p
           else if Exists child \<and> test (Context_String env child) then found @ [p] else found) =
        found @ hit_paths env test (joinPath prefix (fst x)) (snd x)"
    proof (cases "is_container (snd x)")
      case True
      then show ?thesis
        using 1(1) [OF 1(3) x wf _ quiet_Nil] container_node [OF True, of env] by (simp add: node_of_value Let_def)
    next
      case False
      then show ?thesis
        using leaf_node [OF wf, of env] by (simp add: hit_paths_leaf Let_def)
    qed
  qed
  finally show ?case by (simp add: hit_paths_container [OF 1(3)])
qed

definition first_of :: "gostring list \<Rightarrow> gostring \<times> bool" where
  "first_of ps = (case ps of [] \<Rightarrow> ([], False) | p # _ \<Rightarrow> (p, True))"

lemma iterate_until_first:
  "(\<And>x. x \<in> set xs \<Longrightarrow> f x ([], False) = first_of (g x)) \<Longrightarrow> iterate_until f xs ([], False) = first_of (concat (map g xs))"
proof (induction xs)
  case (Cons x xs)
  then show ?case by (cases "g x") (simp_all add: first_of_def)
qed (simp add: first_of_def)

lemma iterate_until_map: "iterate_until f (map g xs) r = iterate_until (\<lambda>x. f (g x)) xs r"
  by (induction xs arbitrary: r) (simp_all add: Let_def)

lemma scan_path_tree:
  "wf_val v \<Longrightarrow> is_container v \<Longrightarrow> quiet_text t \<Longrightarrow>
    scan_path env test (node_of env v t) prefix = first_of (hit_paths env test prefix v)"
proof (induction v arbitrary: prefix t rule: keyed.induct)
  case (1 v)
  have n: "IsContainer (node_of env v t)" using 1(3) by (cases v) simp_all
  have "scan_path env test (node_of env v t) prefix =
      iterate_until (\<lambda>x r. let p = joinPath prefix (fst x); child = snd x
        in if IsContainer child then scan_path env test child p
           else if Exists child \<and> test (Context_String env child) then (p, True) else r)
        (map (apsnd (value_of env)) (children v)) ([], False)"
    by (subst scan_path.simps) (simp only: n node_children(2) [OF 1(2-4)] if_True)
  also have "\<dots> = first_of (concat (map (\<lambda>child. hit_paths env test (joinPath prefix (fst child)) (snd child)) (children v)))"
    unfolding iterate_until_map
  proof (rule iterate_until_first)
    fix x
    assume x: "x \<in> set (children v)"
    then have wf: "wf_val (snd x)" using children_wf [OF 1(2), of "fst x" "snd x"] by simp
    show "(let p = joinPath prefix (fst (apsnd (value_of env) x)); child = snd (apsnd (value_of env) x)
        in if IsContainer child then scan_path env test child p
           else if Exists child \<and> test (Context_String env child) then (p, True) else ([], False)) =
        first_of (hit_paths env test (joinPath prefix (fst x)) (snd x))"
    proof (cases "is_container (snd x)")
      case True
      then show ?thesis
        using 1(1) [OF 1(3) x wf _ quiet_Nil] container_node [OF True, of env] by (simp add: node_of_value Let_def)
    next
      case False
      then show ?thesis
        using leaf_node [OF wf, of env] by (simp add: hit_paths_leaf Let_def first_of_def)
    qed
  qed
  finally show ?case by (simp add: hit_paths_container [OF 1(3)])
qed

section \<open>The way back\<close>

text \<open>The keys of an object differ, no key is blank or has a byte that paths escape, and an array has no
  more elements than a slice can have.\<close>

definition safe_key :: "gostring \<Rightarrow> bool" where
  "safe_key k \<longleftrightarrow> list_all isSafePathKeyByte k \<and> \<not> IsEmpty k"

function plain_tree :: "jval \<Rightarrow> bool" where
  "plain_tree v \<longleftrightarrow>
    (if is_container v then
       distinct (map fst (children v)) \<and> int (length (children v)) < 2 ^ 63 \<and>
       list_all (\<lambda>child. safe_key (fst child) \<and> plain_tree (snd child)) (children v)
     else True)"
  by pat_completeness auto
termination
proof (relation "measure size")
  fix v child
  assume "child \<in> set (children v)"
  then show "(snd child, v) \<in> measure size" using children_size [of "fst child" "snd child" v] by simp
qed simp

declare plain_tree.simps [simp del]

lemma safe_key_escape: "safe_key k \<Longrightarrow> escapeUnsafeChars k = k"
proof -
  have "list_all isSafePathKeyByte s \<Longrightarrow> escapeUnsafeChars s = s" for s by (induction s) auto
  then show "safe_key k \<Longrightarrow> escapeUnsafeChars k = k" by (simp add: safe_key_def)
qed

lemma safe_key_plain: "safe_key k \<Longrightarrow> plain_key env k"
  using safe_not_special by (fastforce simp: safe_key_def plain_key_def list_all_iff)

lemma joinPath_path:
  "\<not> IsEmpty p \<Longrightarrow> list_all safe_key ks \<Longrightarrow> foldl joinPath p ks = p @ (if ks = [] then [] else CHR ''.'' # path_of ks)"
proof (induction ks arbitrary: p)
  case (Cons k ks)
  have "\<not> IsEmpty (p @ CHR ''.'' # k)" by (rule IsEmpty_no_visible [of "CHR ''.''"]) (simp_all add: visible_def)
  with Cons show ?case by (simp add: joinPath_def path_of_Cons safe_key_escape)
qed simp

lemma foldl_joinPath: "ks \<noteq> [] \<Longrightarrow> list_all safe_key ks \<Longrightarrow> foldl joinPath [] ks = path_of ks"
  using joinPath_path [of "hd ks" "tl ks"]
  by (cases ks) (simp_all add: joinPath_def path_of_Cons safe_key_escape safe_key_def)

lemma digit_safe: "is_dec c \<Longrightarrow> c \<noteq> CHR ''.'' \<and> c \<noteq> CHR ''#''"
  by (auto simp: is_dec_def)

lemma key_index_itoa:
  assumes "n < 2 ^ 63" and "safe_key (itoa (int n))"
  shows "key_index env (itoa (int n)) = int n"
proof -
  have v: "list_all visible (digits n)" "digits n \<noteq> []" using digits_visible digits_facts by blast+
  have "list_all is_dec (digits n)" using digits_facts by blast
  then have s: "CHR ''.'' \<notin> set (digits n)" "CHR ''#'' \<notin> set (digits n)" using digit_safe by (auto simp: list_all_iff)
  have "ParseUint (digits n) = Some (int n)" using assms(1) by (intro ParseUint_digits) simp
  then have "parseUint64 env (digits n) = Some (int n)"
    using v by (simp add: parseUint64_def stringToUint64_def Let_def IsEmpty_visible trimmed_def TrimSpace_visible NewConverter_def)
  moreover have "escapeUnsafeChars (digits n) = digits n" using safe_key_escape [OF assms(2)] by (simp add: itoa_def)
  ultimately show ?thesis using s assms(1) by (simp add: key_index_def part_number_def itoa_def)
qed

lemma lookup_elems_nth: "n < length (elems_of es) \<Longrightarrow> lookup_elems env es (int n) ks = lookup env (elems_of es ! n) ks"
proof (induction "elems_of es" arbitrary: es n)
  case (Cons u us)
  then obtain w1 w2 es' where es: "es = ECons w1 u w2 es'" by (cases es) simp_all
  with Cons.hyps(1) [of es' "n - 1"] Cons.hyps(2) Cons.prems show ?case by (cases n) simp_all
qed simp

lemma lookup_members_absent: "k \<notin> unescape ` fst ` set (members_of ms) \<Longrightarrow> lookup_members env ms k ks = None"
proof (induction "members_of ms" arbitrary: ms)
  case Nil
  then show ?case by (cases ms) simp_all
next
  case (Cons u us)
  then obtain w1 k' w2 w3 v w4 ms' where ms: "ms = MCons w1 k' w2 w3 v w4 ms'" by (cases ms) simp_all
  with Cons.hyps(1) [of ms'] Cons.hyps(2) Cons.prems show ?case by auto
qed

lemma lookup_members_child:
  "distinct (map (unescape \<circ> fst) (members_of ms)) \<Longrightarrow> (k, u) \<in> set (members_of ms) \<Longrightarrow>
    lookup_members env ms (unescape k) ks = lookup env u ks"
proof (induction "members_of ms" arbitrary: ms)
  case (Cons m us)
  then obtain w1 k' w2 w3 v w4 ms' where ms: "ms = MCons w1 k' w2 w3 v w4 ms'" by (cases ms) simp_all
  show ?case
  proof (cases "(k, u) = (k', v)")
    case True
    then have "unescape k \<notin> unescape ` fst ` set (members_of ms')" using Cons.prems(1) by (auto simp: ms)
    with True lookup_members_absent [of "unescape k'" ms' env ks] show ?thesis by (simp add: ms split: option.splits)
  next
    case False
    then have "(k, u) \<in> set (members_of ms')" using Cons.prems(2) by (auto simp: ms)
    moreover from this have "unescape k' \<noteq> unescape k" using Cons.prems(1) by (auto simp: ms) (metis fst_conv image_eqI)
    ultimately show ?thesis using Cons.hyps(1) [of ms'] Cons.hyps(2) Cons.prems(1) by (simp add: ms)
  qed
qed simp

lemma lookup_child:
  assumes "plain_tree v" and "(s, u) \<in> set (children v)"
  shows "lookup env v (s # ks) = lookup env u ks"
proof (cases v)
  case (JArr w es)
  then obtain n where n: "n < length (elems_of es)" "s = itoa (int n)" "u = elems_of es ! n"
    using assms(2) by (auto simp: in_set_enumerate_eq)
  have "int (length (elems_of es)) < 2 ^ 63" and "safe_key s"
    using assms by (auto simp: plain_tree.simps [of "JArr w es"] list_all_iff JArr)
  with n lookup_elems_nth [OF n(1)] key_index_itoa [of n env] show ?thesis by (simp add: JArr)
next
  case (JObj w ms)
  then obtain k where k: "(k, u) \<in> set (members_of ms)" "s = unescape k" using assms(2) by auto
  have "distinct (map (unescape \<circ> fst) (members_of ms))"
    using assms(1) by (simp add: plain_tree.simps [of "JObj w ms"] JObj comp_def split_def)
  from lookup_members_child [OF this k(1)] show ?thesis by (simp add: JObj k(2))
qed (use assms(2) in simp_all)

lemma leaf_paths_lookup:
  "plain_tree v \<Longrightarrow> (ks, u) \<in> set (leaf_paths v) \<Longrightarrow> lookup env v ks = Some u \<and> list_all safe_key ks \<and> \<not> is_container u
    \<and> (is_container v \<longrightarrow> ks \<noteq> [])"
proof (induction v arbitrary: ks rule: keyed.induct)
  case (1 v)
  show ?case
  proof (cases "is_container v")
    case True
    then obtain child ks' where c: "child \<in> set (children v)" "ks = fst child # ks'" "(ks', u) \<in> set (leaf_paths (snd child))"
      using 1(3) by (subst (asm) leaf_paths.simps) auto
    have "plain_tree (snd child)" "safe_key (fst child)" using 1(2) True c(1) by (auto simp: plain_tree.simps [of v] list_all_iff)
    with 1(1) [OF True c(1) _ c(3)] lookup_child [OF 1(2), of "fst child" "snd child" env ks'] c show ?thesis by simp
  next
    case False
    then show ?thesis using 1(3) by (subst (asm) leaf_paths.simps) simp
  qed
qed

text \<open>What the four functions yield, in terms of the tests that they make, and where the paths lead.\<close>

lemma Find_hits:
  assumes "wf_val v" and "is_container v" and "json_ws w" and "json_ws t"
  defines "doc \<equiv> w @ render v @ t"
  shows "FindPaths env doc word = hit_paths env (\<lambda>s. s = word) [] v"
    and "FindPathsMatch env doc pattern = hit_paths env (\<lambda>s. Match s pattern) [] v"
    and "FindPath env doc word = fst (first_of (hit_paths env (\<lambda>s. s = word) [] v))"
    and "FindPathMatch env doc pattern = fst (first_of (hit_paths env (\<lambda>s. Match s pattern) [] v))"
  using Parse_node [OF assms(1,3), of t env] scan_paths_tree [OF assms(1,2) ws_after(1) [OF assms(4)], of env _ "[]"]
    scan_path_tree [OF assms(1,2) ws_after(1) [OF assms(4)], of env] ws_after [OF assms(4)]
  by (simp_all add: FindPaths_def scanPaths_def FindPathsMatch_def scanPathsMatch_def FindPath_def scanPath_def
      FindPathMatch_def scanPathMatch_def doc_def)

lemma hit_paths_plain:
  assumes "is_container v" and "plain_tree v"
  shows "hit_paths env test [] v =
      map (path_of \<circ> fst) (filter (\<lambda>(ks, u). test (Context_String env (value_of env u))) (leaf_paths v))"
proof -
  have "foldl joinPath [] (fst x) = path_of (fst x)" if "x \<in> set (leaf_paths v)" for x
    using leaf_paths_lookup [OF assms(2), of "fst x" "snd x" env] that assms(1) by (simp add: foldl_joinPath)
  then show ?thesis by (auto simp: hit_paths_def)
qed

lemma hit_paths_lead_back:
  assumes "wf_val v" and "is_container v" and "plain_tree v" and "json_ws w" and "p \<in> set (hit_paths env test [] v)"
  shows "\<exists>u \<in> set (leaves_of v). Get env (w @ render v @ t) p = Some (value_of env u) \<and> test (Context_String env (value_of env u))"
proof -
  obtain ks u where l: "(ks, u) \<in> set (leaf_paths v)" "p = path_of ks" "test (Context_String env (value_of env u))"
    using assms(5) unfolding hit_paths_plain [OF assms(2,3)] by auto
  note found = leaf_paths_lookup [OF assms(3) l(1), of env]
  have "list_all (plain_key env) ks" using found safe_key_plain by (auto simp: list_all_iff)
  from Get_tree [OF assms(1,2) _ this assms(4), of t] found assms(2)
  have "Get env (w @ render v @ t) p = Some (value_of env u)" by (simp add: l(2))
  moreover have "u \<in> set (leaves_of v)" using l(1) by (force simp: leaves_of_def)
  ultimately show ?thesis using l(3) by blast
qed

text \<open>C10: In a valid object or array whose keys differ within each object, are not blank and have no byte that
  paths escape, \<open>FindPaths\<close> and \<open>FindPathsMatch\<close> yield the paths of exactly the leaves with the text or with a
  text that matches, in the order of the document, \<open>FindPath\<close> and \<open>FindPathMatch\<close> the first of them or the
  empty path, and \<open>Get\<close> finds such a leaf at each of them.\<close>

theorem FindPaths_lead_back:
  assumes "wf_val v" and "is_container v" and "plain_tree v" and "json_ws w" and "json_ws t"
  defines "doc \<equiv> w @ render v @ t"
  shows "FindPaths env doc word =
      map (path_of \<circ> fst) (filter (\<lambda>(ks, u). Context_String env (value_of env u) = word) (leaf_paths v))
    \<and> FindPathsMatch env doc pattern =
      map (path_of \<circ> fst) (filter (\<lambda>(ks, u). Match (Context_String env (value_of env u)) pattern) (leaf_paths v))
    \<and> FindPath env doc word = (case FindPaths env doc word of [] \<Rightarrow> [] | p # ps \<Rightarrow> p)
    \<and> FindPathMatch env doc pattern = (case FindPathsMatch env doc pattern of [] \<Rightarrow> [] | p # ps \<Rightarrow> p)
    \<and> (\<forall>p \<in> set (FindPaths env doc word). \<exists>u \<in> set (leaves_of v).
          Get env doc p = Some (value_of env u) \<and> Context_String env (value_of env u) = word)
    \<and> (\<forall>p \<in> set (FindPathsMatch env doc pattern). \<exists>u \<in> set (leaves_of v).
          Get env doc p = Some (value_of env u) \<and> Match (Context_String env (value_of env u)) pattern)"
proof -
  note found = Find_hits [OF assms(1,2,4,5), of env, folded doc_def]
  have leads: "\<forall>p \<in> set (hit_paths env test [] v). \<exists>u \<in> set (leaves_of v).
      Get env doc p = Some (value_of env u) \<and> test (Context_String env (value_of env u))" for test
    using hit_paths_lead_back [OF assms(1-4)] by (auto simp: doc_def)
  show ?thesis
    unfolding found
    by (intro conjI hit_paths_plain [OF assms(2,3)] leads) (simp_all add: first_of_def split: list.splits)
qed

text \<open>The document \<open>{"a": [true, {"b": "x"}], "c": "x"}\<close>.\<close>

definition sample_search :: jval where
  "sample_search = JObj [] (MCons [] ''a'' [] '' '' (JArr [] (ECons [] JTrue [] (ECons '' ''
     (JObj [] (MCons [] ''b'' [] '' '' (JStr ''x'') [] MNil)) [] ENil))) []
     (MCons '' '' ''c'' [] '' '' (JStr ''x'') [] MNil))"

lemma sample_search_facts:
  "wf_val sample_search" "is_container sample_search" "plain_tree sample_search"
  "leaf_paths sample_search = [([''a'', ''0''], JTrue), ([''a'', ''1'', ''b''], JStr ''x''), ([''c''], JStr ''x'')]"
  "keyed sample_search = [(''a'', JArr [] (ECons [] JTrue [] (ECons '' '' (JObj [] (MCons [] ''b'' [] '' '' (JStr ''x'') [] MNil)) [] ENil))),
     (''b'', JStr ''x''), (''c'', JStr ''x'')]"
proof -
  have "json_chars ''a''" "json_chars ''b''" "json_chars ''c''" "json_chars ''x''" by (intro json_chars.intros; simp)+
  then show "wf_val sample_search" by (simp add: sample_search_def json_ws_def is_ws_def)
  show "is_container sample_search" by (simp add: sample_search_def)
  show "plain_tree sample_search" by code_simp
  show "leaf_paths sample_search = [([''a'', ''0''], JTrue), ([''a'', ''1'', ''b''], JStr ''x''), ([''c''], JStr ''x'')]" by code_simp
  show "keyed sample_search = [(''a'', JArr [] (ECons [] JTrue [] (ECons '' '' (JObj [] (MCons [] ''b'' [] '' '' (JStr ''x'') [] MNil)) [] ENil))),
     (''b'', JStr ''x''), (''c'', JStr ''x'')]" by code_simp
qed

lemma FindPaths_lead_back_witness:
  "FindPaths plain_env (''  '' @ render sample_search @ []) ''x'' = [''a.1.b'', ''c'']
    \<and> FindPath plain_env (''  '' @ render sample_search @ []) ''x'' = ''a.1.b''
    \<and> FindPath plain_env (''  '' @ render sample_search @ []) ''y'' = []
    \<and> FindPathsMatch plain_env (''  '' @ render sample_search @ []) ''t*'' = [''a.0'']"
proof -
  have p: "path_of [''a'', ''1'', ''b''] = ''a.1.b''" "path_of [''a'', ''0''] = ''a.0''" "path_of [''c''] = ''c''" by code_simp+
  have m: "Match ''true'' ''t*''" "\<not> Match ''x'' ''t*''" by code_simp+
  have x: "Context_String plain_env (value_of plain_env (JStr ''x'')) = ''x''" by code_simp
  have y: "Context_String plain_env (value_of plain_env JTrue) = ''true''" by code_simp
  have w: "json_ws ''  ''" "json_ws []" by (simp_all add: json_ws_def is_ws_def)
  show ?thesis
    using FindPaths_lead_back [OF sample_search_facts(1-3) w, of plain_env "''x''"]
      FindPaths_lead_back [OF sample_search_facts(1-3) w, of plain_env "''y''" "''t*''"]
    by (simp add: sample_search_facts(4) x y p m del: path_of.simps)
qed

lemma Search_leaves_witness: "Search plain_env (''  '' @ render sample_search @ []) ''ru'' = [value_of plain_env JTrue]"
proof -
  have w: "json_ws ''  ''" "json_ws []" by (simp_all add: json_ws_def is_ws_def)
  have m: "leaf_matches plain_env ''ru'' JTrue" "\<not> leaf_matches plain_env ''ru'' (JStr ''x'')" by code_simp+
  show ?thesis
    using Search_leaves [OF sample_search_facts(1) w, of plain_env "''ru''"]
    by (simp add: leaves_of_def sample_search_facts(4) m)
qed

lemma SearchByKey_values_witness:
  "SearchByKey plain_env (''  '' @ render sample_search @ []) [''b'', ''d''] = [value_of plain_env (JStr ''x'')]"
proof -
  have w: "json_ws ''  ''" "json_ws []" by (simp_all add: json_ws_def is_ws_def)
  show ?thesis
    using SearchByKey_values [OF sample_search_facts(1,2) w, of plain_env "[''b'', ''d'']"]
    by (simp add: sample_search_facts(5))
qed

end
