(* ===== verification/FjElements.thy ===== *)
theory FjElements
  imports FjSearchProps
begin

text \<open>
  The elements of an array and the members of an object as collections: \<open>Array\<close>, \<open>Map\<close> and \<open>Less\<close> of
  \<open>context.go\<close>, with \<open>parseJSONElements\<close>, and the queries of \<open>search.go\<close> over the elements.  They read a
  document in another way than \<open>Get\<close> and \<open>Foreach\<close> do; on valid documents all of them agree.
\<close>

section \<open>Parsing\<close>

text \<open>The value that starts at a byte; no result for a byte that is passed over.\<close>

definition element_at :: "'f fj_env \<Rightarrow> gostring \<Rightarrow> 'f Context option" where
  "element_at env json =
    (let c = json ! 0; v = no_value env in
     if c = CHR ''{'' \<or> c = CHR ''['' then Some (v \<lparr> kind := KJSON, raw := compactJSON json \<rparr>)
     else if c = CHR ''n'' then Some (v \<lparr> kind := KNull, raw := leadingLowercase json \<rparr>)
     else if c = CHR ''t'' then Some (v \<lparr> kind := KTrue, raw := leadingLowercase json \<rparr>)
     else if c = CHR ''f'' then Some (v \<lparr> kind := KFalse, raw := leadingLowercase json \<rparr>)
     else if c = CHR 0x22 then
       (case extractAndUnescapeJSONString json of (r, s) \<Rightarrow> Some (v \<lparr> kind := KString, raw := r, str := s \<rparr>))
     else if is_digit c \<or> c = CHR ''-'' then
       (case tokenizeNumber env json of (r, x) \<Rightarrow> Some (v \<lparr> kind := KNumber, raw := r, num := x \<rparr>))
     else None)"

lemma extractAndUnescape_nonempty: "json \<noteq> [] \<Longrightarrow> extractAndUnescapeJSONString json = (r, s) \<Longrightarrow> r \<noteq> []"
proof -
  assume j: "json \<noteq> []" and e: "extractAndUnescapeJSONString json = (r, s)"
  define p where "p = skip_while (\<lambda>c. c \<noteq> CHR 0x22 \<and> c \<noteq> CHR 0x5C) json 1"
  have "closing_quote json 1 (p + 1) \<noteq> 0" using closing_quote_ge [of "p + 1" json 1] by linarith
  with j e show "r \<noteq> []"
    by (auto simp: extractAndUnescapeJSONString_def Let_def p_def [symmetric] split: if_splits)
qed

lemma element_at_nonempty: "json \<noteq> [] \<Longrightarrow> element_at env json = Some v \<Longrightarrow> 0 < length (raw v)"
  using compactJSON_length(2) [of json] extractAndUnescape_nonempty [of json] skip_while_ge [of 1 is_lower json]
  by (auto simp: element_at_def Let_def leadingLowercase_def tokenizeNumber_def skip_while_takeWhile split: if_splits prod.splits)

text \<open>The loop: up to a closing bracket, whichever it is.\<close>

function elements_from :: "'f fj_env \<Rightarrow> gostring \<Rightarrow> nat \<Rightarrow> 'f Context list" where
  "elements_from env json i =
    (if i < length json then
       (if json ! i \<le> CHR '' '' then elements_from env json (i + 1)
        else if json ! i = CHR '']'' \<or> json ! i = CHR ''}'' then []
        else case element_at env (drop i json) of
               None \<Rightarrow> elements_from env json (i + 1)
             | Some v \<Rightarrow> v # elements_from env json (i + length (raw v)))
     else [])"
  by pat_completeness auto
termination
proof (relation "measure (\<lambda>(env, json, i). length json - i)", goal_cases)
  case (4 env json i v)
  then have "0 < length (raw v)" by (intro element_at_nonempty [of "drop i json" env v]) auto
  with 4 show ?case by (simp del: length_greater_0_conv)
qed auto

declare elements_from.simps [simp del]

text \<open>\<open>parseJSONElements\<close> for a bracket: no result when something else comes first.\<close>

definition parseJSONElements :: "'f fj_env \<Rightarrow> 'f Context \<Rightarrow> byte \<Rightarrow> 'f Context list option" where
  "parseJSONElements env ctx vc =
    (let json = raw ctx; i = skip_while (\<lambda>c. c \<le> CHR '' '') json 0
     in if length json \<le> i then Some []
        else if json ! i = vc then Some (elements_from env json (i + 1))
        else None)"

fun pair_up :: "'f Context list \<Rightarrow> (gostring \<times> 'f Context) list" where
  "pair_up (key # v # vs) = (str key, v) # pair_up vs"
| "pair_up _ = []"

definition Array :: "'f fj_env \<Rightarrow> 'f Context \<Rightarrow> 'f Context list" where
  "Array env ctx =
    (if kind ctx = KNull then []
     else if \<not> IsArray ctx then [ctx]
     else case parseJSONElements env ctx (CHR ''['') of Some arr \<Rightarrow> arr | None \<Rightarrow> [])"

text \<open>A map of the program, with the first of the values of a key; a nil map has no keys.\<close>

definition Map_members :: "'f fj_env \<Rightarrow> 'f Context \<Rightarrow> gostring \<rightharpoonup> 'f Context" where
  "Map_members env ctx =
    (if kind ctx \<noteq> KJSON then Map.empty
     else case parseJSONElements env ctx (CHR ''{'') of Some es \<Rightarrow> map_of (pair_up es) | None \<Rightarrow> Map.empty)"

section \<open>Queries\<close>

definition Count :: "'f fj_env \<Rightarrow> gostring \<Rightarrow> gostring \<Rightarrow> nat" where
  "Count env json path =
    (let ctx = Get_value env json path
     in if \<not> Exists ctx then 0 else if IsArray ctx then length (Array env ctx) else 1)"

definition fj_Filter :: "'f fj_env \<Rightarrow> gostring \<Rightarrow> gostring \<Rightarrow> ('f Context \<Rightarrow> bool) \<Rightarrow> 'f Context list" where
  "fj_Filter env json path fn =
    (let ctx = Get_value env json path in if \<not> Exists ctx then [] else filter fn (Array env ctx))"

definition fj_First :: "'f fj_env \<Rightarrow> gostring \<Rightarrow> gostring \<Rightarrow> ('f Context \<Rightarrow> bool) \<Rightarrow> 'f Context" where
  "fj_First env json path fn =
    (let ctx = Get_value env json path
     in if \<not> Exists ctx then no_value env
        else case List.find fn (Array env ctx) of Some item \<Rightarrow> item | None \<Rightarrow> no_value env)"

text \<open>The first item of each text; \<open>seen\<close> holds the texts so far.\<close>

fun distinct_items :: "('f Context \<Rightarrow> gostring) \<Rightarrow> gostring list \<Rightarrow> 'f Context list \<Rightarrow> 'f Context list" where
  "distinct_items key seen [] = []"
| "distinct_items key seen (item # items) =
    (if key item \<in> set seen then distinct_items key seen items
     else item # distinct_items key (key item # seen) items)"

definition Distinct :: "'f fj_env \<Rightarrow> gostring \<Rightarrow> gostring \<Rightarrow> 'f Context list" where
  "Distinct env json path =
    (let ctx = Get_value env json path
     in if \<not> Exists ctx then [] else distinct_items (Context_String env) [] (Array env ctx))"

text \<open>The fields of an item that exist, written as an object.\<close>

fun pluck_fields :: "'f fj_env \<Rightarrow> 'f Context \<Rightarrow> gostring list \<Rightarrow> nat \<Rightarrow> gostring \<Rightarrow> gostring" where
  "pluck_fields env item [] wrote b = b"
| "pluck_fields env item (f # fs) wrote b =
    (let v = Get_value env (raw item) f
     in if \<not> Exists v then pluck_fields env item fs wrote b
        else pluck_fields env item fs (wrote + 1)
          (b @ (if 0 < wrote then '','' else []) @ CHR 0x22 # f @ CHR 0x22 # '':'' @
             (if raw v = [] then Context_String env v else raw v)))"

definition Pluck :: "'f fj_env \<Rightarrow> gostring \<Rightarrow> gostring \<Rightarrow> gostring list \<Rightarrow> 'f Context list" where
  "Pluck env json path names =
    (let ctx = Get_value env json path
     in if names = [] \<or> \<not> Exists ctx then []
        else map (\<lambda>item. Parse env (pluck_fields env item names 0 ''{'' @ ''}'')) (filter IsObject (Array env ctx)))"

lemma distinct_items_texts: "distinct (map key (distinct_items key seen items)) \<and>
    key ` set (distinct_items key seen items) = key ` set items - set seen"
  by (induction items arbitrary: seen) auto

section \<open>Valid documents\<close>

lemma compactJSON_found:
  assumes "wf_val v" and "is_container v"
  shows "compactJSON (render v @ t) = render v"
proof -
  have t: "text_at (render v @ t) 0 (render v) t" by (simp add: text_at_def)
  obtain b s e where b: "render v = b # s @ [e]" "b \<in> set ''{[''" "e \<in> set '']}''" "skipped s"
    using assms by (cases v) (auto intro: skipped_append skipped_ws skipped_value)
  have "extractJSONValue (render v @ t) 0 = (length (render v), render v)"
    using container_at [OF t [unfolded b(1)] b(2-4), folded b(1)] by (simp add: b(1))
  moreover have "\<not> IsEmpty (render v @ t)" using b(1,2) by (intro IsEmpty_no_visible [of b]) (auto simp: visible_def)
  ultimately have "value_end (render v @ t) 1 1 = (length (render v), True)
      \<or> (\<exists>j. value_end (render v @ t) 1 1 = (j, False) \<and> t = [])"
    by (auto simp: extractJSONValue_def split: prod.splits bool.splits)
  with b(1,2) show ?thesis by (auto simp: compactJSON_def)
qed

lemma element_string: "json_chars k \<Longrightarrow> element_at env (render (JStr k) @ t) = Some (value_of env (JStr k))"
  using extractAndUnescape_found [of "render (JStr k) @ t" k t]
  by (simp add: quoted_at_def element_at_def Let_def value_of_def no_value_def)

lemma element_found:
  assumes "wf_val v" and "value_follows t"
  shows "element_at env (render v @ t) = Some (value_of env v)"
proof (cases v)
  case (JNum n)
  then obtain c s where n: "n = c # s" "c = CHR ''-'' \<or> is_digit c" using number_head [of n] assms(1) by auto
  have "tokenizeNumber env (c # s @ t) = (c # s, parse_float env (c # s))"
    by (rule tokenizeNumber_text) (use number_chars [of n] assms(1,2) JNum n in auto)
  moreover have "c \<notin> set ''{[ntf'' \<and> c \<noteq> CHR 0x22" using n(2) by (auto dest!: is_digit_cases)
  ultimately show ?thesis using n(2) by (auto simp: JNum n(1) element_at_def Let_def value_of_def no_value_def)
next
  case (JStr u)
  with assms(1) element_string [of u env t] show ?thesis by (simp del: render.simps)
next
  case JTrue
  with leadingLowercase_text [OF _ assms(2), of "''rue''" "CHR ''t''"] show ?thesis
    by (simp add: element_at_def value_of_def no_value_def is_lower_def)
next
  case JFalse
  with leadingLowercase_text [OF _ assms(2), of "''alse''" "CHR ''f''"] show ?thesis
    by (simp add: element_at_def value_of_def no_value_def is_lower_def)
next
  case JNull
  with leadingLowercase_text [OF _ assms(2), of "''ull''" "CHR ''n''"] show ?thesis
    by (simp add: element_at_def value_of_def no_value_def is_lower_def)
next
  case (JArr w es)
  with compactJSON_found [OF assms(1), of t] show ?thesis by (simp add: element_at_def value_of_def no_value_def)
next
  case (JObj w ms)
  with compactJSON_found [OF assms(1), of t] show ?thesis by (simp add: element_at_def value_of_def no_value_def)
qed

text \<open>White space, commas and colons are passed over.\<close>

lemma between_element: "between c \<Longrightarrow> \<not> c \<le> CHR '' '' \<Longrightarrow> c \<noteq> CHR '']'' \<and> c \<noteq> CHR ''}'' \<and> element_at env (c # s) = None"
  by (auto simp: between_def element_at_def is_digit_def)

lemma elements_skip:
  "text_at json i (x @ s) t \<Longrightarrow> list_all between x \<Longrightarrow> elements_from env json i = elements_from env json (i + length x)"
proof (induction x arbitrary: i)
  case (Cons c x)
  then have i: "i < length json" "json ! i = c" and rest: "text_at json (Suc i) (x @ s) t" by (simp_all add: text_at_Cons)
  have "drop i json = c # drop (Suc i) json" using i by (metis Cons_nth_drop_Suc)
  with i between_element [of c env "drop (Suc i) json"] Cons.prems(2)
  have "elements_from env json i = elements_from env json (Suc i)" by (subst elements_from.simps) auto
  with Cons.IH [OF rest] Cons.prems(2) show ?case by simp
qed simp

lemma elements_value:
  assumes "text_at json i (render v) t" and "wf_val v" and "element_at env (render v @ t) = Some (value_of env v)"
  shows "elements_from env json i = value_of env v # elements_from env json (i + length (render v))"
proof -
  obtain a r where r: "render v = a # r" "starts_value a" using render_head [OF assms(2)] by blast
  then have i: "i < length json" "json ! i = a" using assms(1) by (simp_all add: text_at_Cons)
  have "\<not> a \<le> CHR '' ''" using starts_value_above [OF r(2)] .
  moreover have "a \<noteq> CHR '']''" "a \<noteq> CHR ''}''" using r(2) by (auto simp: starts_value_def starts_number_def)
  moreover have "element_at env (drop i json) = Some (value_of env v)" using assms(1,3) by (simp add: text_at_def)
  moreover have "raw (value_of env v) = render v" by (simp add: value_of_def)
  ultimately show ?thesis using i by (subst elements_from.simps) simp
qed

lemma elements_end: "text_at json i [c] t \<Longrightarrow> c \<in> set '']}'' \<Longrightarrow> elements_from env json i = []"
  by (subst elements_from.simps) (auto simp: text_at_Cons)

lemma elements_array:
  assumes "wf_elems es" and "list_all between x" and "text_at json i (x @ render_elems es @ '']'') t"
  shows "elements_from env json i = map (value_of env) (elems_of es)"
  using assms
proof (induction "elems_of es" arbitrary: es x i)
  case Nil
  then have es: "es = ENil" by (cases es) simp_all
  with Nil have "text_at json i (x @ '']'') t" by simp
  with elements_skip [OF this Nil(3), of env] elements_end [OF text_at_append [OF this], of env] show ?case by (simp add: es)
next
  case (Cons u us)
  then obtain w1 v w2 es' where es: "es = ECons w1 v w2 es'" by (cases es) simp_all
  define g where "g = gap_text w2 (es' = ENil)"
  define rest where "rest = g @ render_elems es' @ '']''"
  note wf = Cons(3) [unfolded es wf_elems.simps]
  have all: "text_at json i ((x @ w1) @ render v @ rest) t"
    using Cons(5) by (simp add: es rest_def g_def gap_text_def comma_before_def split: if_splits)
  note val = text_at_append [OF all]
  have f: "value_follows (rest @ t)"
    using wf unfolding rest_def g_def gap_text_def append_assoc by (intro value_follows_ws [of w2]) (auto simp: value_follows_def)
  have "elements_from env json i = elements_from env json (i + length (x @ w1))"
    by (rule elements_skip [OF all]) (use Cons(4) wf ws_between in simp)
  also have "\<dots> = value_of env v # elements_from env json (i + length (x @ w1) + length (render v))"
    using elements_value [OF text_at_left [OF val] _ element_found [OF _ f]] wf by simp
  also have "elements_from env json (i + length (x @ w1) + length (render v)) = map (value_of env) (elems_of es')"
    using Cons.hyps(1) [of es' g] text_at_append [OF val] Cons.hyps(2) wf gap_text_between(1) [of w2]
    by (simp add: es rest_def g_def)
  finally show ?case by (simp add: es)
qed

lemma elements_object:
  assumes "wf_members ms" and "list_all between x" and "text_at json i (x @ render_members ms @ ''}'') t"
  shows "elements_from env json i = concat (map (\<lambda>(k, v). [key_value env k, value_of env v]) (members_of ms))"
  using assms
proof (induction "members_of ms" arbitrary: ms x i)
  case Nil
  then have ms: "ms = MNil" by (cases ms) simp_all
  with Nil have "text_at json i (x @ ''}'') t" by simp
  with elements_skip [OF this Nil(3), of env] elements_end [OF text_at_append [OF this], of env] show ?case by (simp add: ms)
next
  case (Cons u us)
  then obtain w1 k w2 w3 v w4 ms' where ms: "ms = MCons w1 k w2 w3 v w4 ms'" by (cases ms) simp_all
  define g where "g = gap_text w4 (ms' = MNil)"
  define rest where "rest = g @ render_members ms' @ ''}''"
  define y where "y = w2 @ CHR '':'' # w3"
  note wf = Cons(3) [unfolded ms wf_members.simps]
  have y: "list_all between y" using wf by (simp add: y_def ws_between) (simp add: between_def)
  have all: "text_at json i ((x @ w1) @ render (JStr k) @ y @ render v @ rest) t"
    using Cons(5) by (simp add: ms rest_def g_def y_def gap_text_def comma_before_def split: if_splits)
  note key = text_at_append [OF all]
  note sep = text_at_append [OF key]
  note val = text_at_append [OF sep]
  have f: "value_follows (rest @ t)"
    using wf unfolding rest_def g_def gap_text_def append_assoc by (intro value_follows_ws [of w4]) (auto simp: value_follows_def)
  have "elements_from env json i = elements_from env json (i + length (x @ w1))"
    by (rule elements_skip [OF all]) (use Cons(4) wf ws_between in simp)
  also have "\<dots> = key_value env k # elements_from env json (i + length (x @ w1) + length (render (JStr k)))"
    unfolding key_value_def
    by (rule elements_value [OF text_at_left [OF key]]) (use wf element_string in auto)
  also have "elements_from env json (i + length (x @ w1) + length (render (JStr k))) =
      elements_from env json (i + length (x @ w1) + length (render (JStr k)) + length y)"
    by (rule elements_skip [OF sep y])
  also have "\<dots> = value_of env v # elements_from env json (i + length (x @ w1) + length (render (JStr k)) + length y + length (render v))"
    using elements_value [OF text_at_left [OF val] _ element_found [OF _ f]] wf by simp
  also have "elements_from env json (i + length (x @ w1) + length (render (JStr k)) + length y + length (render v)) =
      concat (map (\<lambda>(k, v). [key_value env k, value_of env v]) (members_of ms'))"
    using Cons.hyps(1) [of ms' g] text_at_append [OF val] Cons.hyps(2) wf gap_text_between(1) [of w4]
    by (simp add: ms rest_def g_def)
  finally show ?case by (simp add: ms)
qed

lemma pair_up_members: "pair_up (concat (map (\<lambda>(k, v). [key_value env k, value_of env v]) kvs)) =
    map (\<lambda>(k, v). (unescape k, value_of env v)) kvs"
  by (induction kvs) (auto simp: key_value_def value_of_def)

lemma Array_tree: "wf_val (JArr w es) \<Longrightarrow> Array env (node_of env (JArr w es) t) = map (value_of env) (elems_of es)"
  using elements_array [of es w "render (JArr w es) @ t" 1 t env] skip_while.simps [of "\<lambda>c. c \<le> CHR '' ''" "render (JArr w es) @ t" 0]
  by (simp add: Array_def parseJSONElements_def node_of_def json_value_of_def put_json_def IsArray_def text_at_def ws_between)

lemma Map_tree:
  "wf_val (JObj w ms) \<Longrightarrow>
    Map_members env (node_of env (JObj w ms) t) = map_of (map (\<lambda>(k, v). (unescape k, value_of env v)) (members_of ms))"
  using elements_object [of ms w "render (JObj w ms) @ t" 1 t env] skip_while.simps [of "\<lambda>c. c \<le> CHR '' ''" "render (JObj w ms) @ t" 0]
  by (simp add: Map_members_def parseJSONElements_def node_of_def json_value_of_def put_json_def text_at_def ws_between pair_up_members)

lemma lookup_elems_beyond: "length (elems_of es) \<le> n \<Longrightarrow> lookup_elems env es (int n) ks = None"
proof (induction "elems_of es" arbitrary: es n)
  case Nil
  then show ?case by (cases es) simp_all
next
  case (Cons u us)
  then obtain w1 w2 es' where es: "es = ECons w1 u w2 es'" by (cases es) simp_all
  with Cons.hyps(1) [of es' "n - 1"] Cons.hyps(2) Cons.prems show ?case by (cases n) simp_all
qed

lemma lookup_members_first:
  "lookup_members env ms k [] = map_of (map (\<lambda>(k, v). (unescape k, v)) (members_of ms)) k"
proof (induction "members_of ms" arbitrary: ms)
  case Nil
  then show ?case by (cases ms) simp_all
next
  case (Cons u us)
  then obtain w1 k' w2 w3 v w4 ms' where ms: "ms = MCons w1 k' w2 w3 v w4 ms'" by (cases ms) simp_all
  with Cons.hyps(1) [of ms'] Cons.hyps(2) show ?case by simp
qed

lemma map_of_values: "map_of (map (\<lambda>(k, v). (f k, g v)) kvs) k = map_option g (map_of (map (\<lambda>(k, v). (f k, v)) kvs) k)"
  by (induction kvs) auto

lemma enumerate_snd: "map (\<lambda>x. f (snd x)) (enumerate n xs) = map f xs"
  by (induction xs arbitrary: n) simp_all

lemma index_safe: "safe_key (itoa (int n))"
proof -
  have "isSafePathKeyByte c" if "is_dec c" for c
    using that by (simp add: is_dec_def isSafePathKeyByte_def less_eq_char_def less_char_def)
  then show ?thesis
    using digits_facts [of n] digits_visible [of n] by (auto simp: safe_key_def itoa_def IsEmpty_visible list_all_iff)
qed

text \<open>C12: The four ways to read the children of a valid object or array agree: \<open>Map\<close> has under every key what
  \<open>Get\<close> finds under it, and \<open>Array\<close> at every index what \<open>Get\<close> finds at it, and both hold the values that
  \<open>Foreach\<close> passes to an iterator, the first one of each key.\<close>

theorem Map_Array_agree:
  assumes "wf_val v" and "json_ws w" and "json_ws t"
  defines "doc \<equiv> w @ render v @ t"
  shows "(\<forall>u ms k. v = JObj u ms \<and> plain_key env k \<longrightarrow>
      Get env doc (path_of [k]) = Some (case Map_members env (Parse env doc) k of Some c \<Rightarrow> c | None \<Rightarrow> no_value env)
      \<and> Map_members env (Parse env doc) k = map_of (map (\<lambda>(key, c). (str key, c)) (Foreach env (Parse env doc))) k)
    \<and> (\<forall>u es n. v = JArr u es \<and> n < 2 ^ 63 \<longrightarrow>
      Get env doc (itoa (int n)) =
        Some (if n < length (Array env (Parse env doc)) then Array env (Parse env doc) ! n else no_value env)
      \<and> Array env (Parse env doc) = map snd (Foreach env (Parse env doc)))"
proof (intro conjI allI impI)
  have p: "Parse env doc = node_of env v t" using Parse_node [OF assms(1,2)] ws_after [OF assms(3)] by (simp add: doc_def)
  have q: "quiet_text t" by (rule ws_after [OF assms(3)])
  fix u ms k
  assume v: "v = JObj u ms \<and> plain_key env k"
  have m: "Map_members env (Parse env doc) k = map_option (value_of env) (lookup env v [k])"
    using Map_tree [of u ms env t] assms(1) v
    by (simp add: p lookup_members_first map_of_values [where g = "value_of env"])
  show "Get env doc (path_of [k]) = Some (case Map_members env (Parse env doc) k of Some c \<Rightarrow> c | None \<Rightarrow> no_value env)"
    using Get_tree [OF assms(1) _ _ _ assms(2), of "[k]" env t] v unfolding m by (simp add: doc_def split: option.splits)
  show "Map_members env (Parse env doc) k = map_of (map (\<lambda>(key, c). (str key, c)) (Foreach env (Parse env doc))) k"
    using node_entries [OF assms(1) _ q, of env] Map_tree [of u ms env t] assms(1) v
    by (simp add: p comp_def split_def key_value_def value_of_def)
next
  have p: "Parse env doc = node_of env v t" using Parse_node [OF assms(1,2)] ws_after [OF assms(3)] by (simp add: doc_def)
  have q: "quiet_text t" by (rule ws_after [OF assms(3)])
  fix u es n
  assume v: "v = JArr u es \<and> n < (2 ^ 63 :: nat)"
  have a: "Array env (Parse env doc) = map (value_of env) (elems_of es)"
    using Array_tree [of u es env t] assms(1) v by (simp add: p)
  have s: "safe_key (itoa (int n))" by (rule index_safe)
  have path: "path_of [itoa (int n)] = itoa (int n)" using safe_key_escape [OF s] by simp
  have "lookup env v [itoa (int n)] = (if n < length (elems_of es) then Some (elems_of es ! n) else None)"
    using v lookup_elems_nth [of n es env "[]"] lookup_elems_beyond [of es n env "[]"] key_index_itoa [OF _ s, of env]
    by simp
  then show "Get env doc (itoa (int n)) =
        Some (if n < length (Array env (Parse env doc)) then Array env (Parse env doc) ! n else no_value env)"
    using Get_tree [OF assms(1) _ _ _ assms(2), of "[itoa (int n)]" env t] v safe_key_plain [OF s, of env]
    unfolding a path by (simp add: doc_def)
  show "Array env (Parse env doc) = map snd (Foreach env (Parse env doc))"
    using node_entries [OF assms(1) _ q, of env] v by (simp add: a) (simp add: p comp_def split_def enumerate_snd)
qed

lemma Map_Array_agree_witness:
  "Get plain_env ('' '' @ render sample_search @ []) ''c'' =
    Some (case Map_members plain_env (Parse plain_env ('' '' @ render sample_search @ [])) ''c'' of
      Some c \<Rightarrow> c | None \<Rightarrow> no_value plain_env)
   \<and> Array plain_env (Parse plain_env ([] @ render (JArr [] (ECons [] JTrue [] (ECons '' '' JNull [] ENil))) @ [])) =
      [value_of plain_env JTrue, value_of plain_env JNull]"
proof -
  have w: "json_ws '' ''" "json_ws []" by (simp_all add: json_ws_def is_ws_def)
  have k: "plain_key plain_env ''c''" "path_of [''c''] = ''c''" by code_simp+
  define es where "es = ECons [] JTrue [] (ECons '' '' JNull [] ENil)"
  have a: "wf_val (JArr [] es)" using w by (simp add: es_def)
  have n: "node_of plain_env (JArr [] es) [] = Parse plain_env ([] @ render (JArr [] es) @ [])"
    using Parse_node [OF a w(2), of "[]" plain_env] by (simp add: value_follows_def)
  have "Foreach plain_env (Parse plain_env ([] @ render (JArr [] es) @ [])) =
      [(index_key plain_env 0, value_of plain_env JTrue), (index_key plain_env 1, value_of plain_env JNull)]"
    unfolding n [symmetric] using node_entries [OF a, of "[]" plain_env] by (simp add: es_def)
  with Map_Array_agree [OF a w(2) w(2), of plain_env]
  have "Array plain_env (Parse plain_env ([] @ render (JArr [] es) @ [])) = [value_of plain_env JTrue, value_of plain_env JNull]"
    by (metis (no_types, lifting) list.map(1) list.map(2) snd_conv zero_less_numeral zero_less_power)
  moreover obtain u ms where o: "sample_search = JObj u ms" by (simp add: sample_search_def)
  moreover note Map_Array_agree [OF sample_search_facts(1) w, of plain_env, THEN conjunct1, rule_format, of u ms "''c''"]
  ultimately show ?thesis using k unfolding es_def by (simp del: render.simps)
qed

end
