(* ===== verification/FjNumbers.thy ===== *)
theory FjNumbers
  imports FjElements
begin

text \<open>
  Numbers of a document as Go integers: the typed getters of \<open>context.go\<close> and, over the numbers found at a
  path, the sums, minima and maxima of \<open>search.go\<close> with the scanners of \<open>utilities.go\<close>.  The code has one
  copy of each function for every integer type; here the type is an argument, and every copy an
  instance.
\<close>

section \<open>Integer types\<close>

datatype num_type =
    TInt | TInt8 | TInt16 | TInt32 | TInt64
  | TUint | TUint8 | TUint16 | TUint32 | TUint64

fun type_range :: "num_type \<Rightarrow> int \<times> int" where
  "type_range TInt = (- (2 ^ 63), 2 ^ 63 - 1)"
| "type_range TInt8 = (- 128, 127)"
| "type_range TInt16 = (- 32768, 32767)"
| "type_range TInt32 = (- 2147483648, 2147483647)"
| "type_range TInt64 = (- (2 ^ 63), 2 ^ 63 - 1)"
| "type_range TUint = (0, 2 ^ 64 - 1)"
| "type_range TUint8 = (0, 255)"
| "type_range TUint16 = (0, 65535)"
| "type_range TUint32 = (0, 4294967295)"
| "type_range TUint64 = (0, 2 ^ 64 - 1)"

definition type_min :: "num_type \<Rightarrow> int" where
  "type_min ty = fst (type_range ty)"

definition type_max :: "num_type \<Rightarrow> int" where
  "type_max ty = snd (type_range ty)"

text \<open>The value that an addition leaves in a variable of the type.\<close>

definition wrap_to :: "num_type \<Rightarrow> int \<Rightarrow> int" where
  "wrap_to ty x = type_min ty + (x - type_min ty) mod (type_max ty - type_min ty + 1)"

definition in_type :: "num_type \<Rightarrow> int \<Rightarrow> bool" where
  "in_type ty x \<longleftrightarrow> type_min ty \<le> x \<and> x \<le> type_max ty"

section \<open>Typed getters\<close>

fun convert_to :: "'f float_ops \<Rightarrow> num_type \<Rightarrow> 'f any \<Rightarrow> int conv" where
  "convert_to fl TInt v = conv_Int fl NewConverter v"
| "convert_to fl TInt8 v = Int8 fl NewConverter v"
| "convert_to fl TInt16 v = Int16 fl NewConverter v"
| "convert_to fl TInt32 v = Int32 fl NewConverter v"
| "convert_to fl TInt64 v = Int64 fl NewConverter v"
| "convert_to fl TUint v = conv_Uint fl NewConverter v"
| "convert_to fl TUint8 v = Uint8 fl NewConverter v"
| "convert_to fl TUint16 v = Uint16 fl NewConverter v"
| "convert_to fl TUint32 v = Uint32 fl NewConverter v"
| "convert_to fl TUint64 v = Uint64 fl NewConverter v"

text \<open>Outside of the limits a number is read as 0.  The limits of \<open>Int\<close> are those of \<open>int32\<close>.\<close>

fun getter_limits :: "num_type \<Rightarrow> int \<times> int" where
  "getter_limits TInt = (- 2147483648, 2147483647)"
| "getter_limits ty = type_range ty"

definition or_zero :: "int conv \<Rightarrow> int" where
  "or_zero r = (case r of Inr n \<Rightarrow> n | Inl _ \<Rightarrow> 0)"

definition int_value :: "'f fj_env \<Rightarrow> num_type \<Rightarrow> 'f Context \<Rightarrow> int" where
  "int_value env ty ctx = (case kind ctx of
      KTrue \<Rightarrow> 1
    | KString \<Rightarrow> or_zero (convert_to (conv_floats env) ty (AString (str ctx)))
    | KNumber \<Rightarrow>
       if float_less env (num ctx) (float_of env (fst (getter_limits ty)))
          \<or> float_less env (float_of env (snd (getter_limits ty))) (num ctx) then 0
       else (case convert_to (conv_floats env) ty (AString (raw ctx)) of
           Inr n \<Rightarrow> n
         | Inl _ \<Rightarrow> or_zero (convert_to (conv_floats env) ty (AFloat (num ctx))))
    | _ \<Rightarrow> 0)"

definition Context_Int :: "'f fj_env \<Rightarrow> 'f Context \<Rightarrow> int" where
  "Context_Int env = int_value env TInt"
definition Context_Int8 :: "'f fj_env \<Rightarrow> 'f Context \<Rightarrow> int" where
  "Context_Int8 env = int_value env TInt8"
definition Context_Int16 :: "'f fj_env \<Rightarrow> 'f Context \<Rightarrow> int" where
  "Context_Int16 env = int_value env TInt16"
definition Context_Int32 :: "'f fj_env \<Rightarrow> 'f Context \<Rightarrow> int" where
  "Context_Int32 env = int_value env TInt32"
definition Context_Int64 :: "'f fj_env \<Rightarrow> 'f Context \<Rightarrow> int" where
  "Context_Int64 env = int_value env TInt64"
definition Context_Uint :: "'f fj_env \<Rightarrow> 'f Context \<Rightarrow> int" where
  "Context_Uint env = int_value env TUint"
definition Context_Uint8 :: "'f fj_env \<Rightarrow> 'f Context \<Rightarrow> int" where
  "Context_Uint8 env = int_value env TUint8"
definition Context_Uint16 :: "'f fj_env \<Rightarrow> 'f Context \<Rightarrow> int" where
  "Context_Uint16 env = int_value env TUint16"
definition Context_Uint32 :: "'f fj_env \<Rightarrow> 'f Context \<Rightarrow> int" where
  "Context_Uint32 env = int_value env TUint32"
definition Context_Uint64 :: "'f fj_env \<Rightarrow> 'f Context \<Rightarrow> int" where
  "Context_Uint64 env = int_value env TUint64"

definition Context_Bool :: "'f fj_env \<Rightarrow> 'f Context \<Rightarrow> bool" where
  "Context_Bool env ctx = (case kind ctx of
      KTrue \<Rightarrow> True
    | KString \<Rightarrow> bool_of_text env (str ctx)
    | KNumber \<Rightarrow> \<not> float_eq env (num ctx) (float_zero env)
    | _ \<Rightarrow> False)"

section \<open>The numbers at a path\<close>

definition numbers_at :: "'f fj_env \<Rightarrow> gostring \<Rightarrow> gostring \<Rightarrow> 'f Context list" where
  "numbers_at env json path =
    (let ctx = Get_value env json path
     in if \<not> Exists ctx then []
        else if IsArray ctx then filter (\<lambda>item. kind item = KNumber) (map snd (Foreach env ctx))
        else if kind ctx = KNumber then [ctx]
        else [])"

definition scan_ints :: "'f fj_env \<Rightarrow> num_type \<Rightarrow> gostring \<Rightarrow> gostring \<Rightarrow> int list" where
  "scan_ints env ty json path = map (int_value env ty) (numbers_at env json path)"

definition sum_ints :: "num_type \<Rightarrow> int list \<Rightarrow> int" where
  "sum_ints ty ns = foldl (\<lambda>total n. wrap_to ty (total + n)) 0 ns"

text \<open>A minimum starts at the largest value of the type, a maximum at the negative of the largest, or
  at 0.\<close>

definition min_ints :: "num_type \<Rightarrow> int list \<Rightarrow> int \<times> bool" where
  "min_ints ty ns = (if ns = [] then (0, False) else (foldl (\<lambda>m n. if n < m then n else m) (type_max ty) ns, True))"

definition max_start :: "num_type \<Rightarrow> int" where
  "max_start ty = (if type_min ty = 0 then 0 else - type_max ty)"

definition max_ints :: "num_type \<Rightarrow> int list \<Rightarrow> int \<times> bool" where
  "max_ints ty ns = (if ns = [] then (0, False) else (foldl (\<lambda>m n. if m < n then n else m) (max_start ty) ns, True))"

definition Sum_as :: "'f fj_env \<Rightarrow> num_type \<Rightarrow> gostring \<Rightarrow> gostring \<Rightarrow> int" where
  "Sum_as env ty json path = sum_ints ty (scan_ints env ty json path)"

definition Min_as :: "'f fj_env \<Rightarrow> num_type \<Rightarrow> gostring \<Rightarrow> gostring \<Rightarrow> int \<times> bool" where
  "Min_as env ty json path = min_ints ty (scan_ints env ty json path)"

definition Max_as :: "'f fj_env \<Rightarrow> num_type \<Rightarrow> gostring \<Rightarrow> gostring \<Rightarrow> int \<times> bool" where
  "Max_as env ty json path = max_ints ty (scan_ints env ty json path)"

definition scanInt :: "'f fj_env \<Rightarrow> gostring \<Rightarrow> gostring \<Rightarrow> int list" where
  "scanInt env = scan_ints env TInt"
definition scanInt8 :: "'f fj_env \<Rightarrow> gostring \<Rightarrow> gostring \<Rightarrow> int list" where
  "scanInt8 env = scan_ints env TInt8"
definition scanInt16 :: "'f fj_env \<Rightarrow> gostring \<Rightarrow> gostring \<Rightarrow> int list" where
  "scanInt16 env = scan_ints env TInt16"
definition scanInt32 :: "'f fj_env \<Rightarrow> gostring \<Rightarrow> gostring \<Rightarrow> int list" where
  "scanInt32 env = scan_ints env TInt32"
definition scanInt64 :: "'f fj_env \<Rightarrow> gostring \<Rightarrow> gostring \<Rightarrow> int list" where
  "scanInt64 env = scan_ints env TInt64"
definition scanUint :: "'f fj_env \<Rightarrow> gostring \<Rightarrow> gostring \<Rightarrow> int list" where
  "scanUint env = scan_ints env TUint"
definition scanUint8 :: "'f fj_env \<Rightarrow> gostring \<Rightarrow> gostring \<Rightarrow> int list" where
  "scanUint8 env = scan_ints env TUint8"
definition scanUint16 :: "'f fj_env \<Rightarrow> gostring \<Rightarrow> gostring \<Rightarrow> int list" where
  "scanUint16 env = scan_ints env TUint16"
definition scanUint32 :: "'f fj_env \<Rightarrow> gostring \<Rightarrow> gostring \<Rightarrow> int list" where
  "scanUint32 env = scan_ints env TUint32"
definition scanUint64 :: "'f fj_env \<Rightarrow> gostring \<Rightarrow> gostring \<Rightarrow> int list" where
  "scanUint64 env = scan_ints env TUint64"

definition SumInt :: "'f fj_env \<Rightarrow> gostring \<Rightarrow> gostring \<Rightarrow> int" where
  "SumInt env = Sum_as env TInt"
definition SumInt8 :: "'f fj_env \<Rightarrow> gostring \<Rightarrow> gostring \<Rightarrow> int" where
  "SumInt8 env = Sum_as env TInt8"
definition SumInt16 :: "'f fj_env \<Rightarrow> gostring \<Rightarrow> gostring \<Rightarrow> int" where
  "SumInt16 env = Sum_as env TInt16"
definition SumInt32 :: "'f fj_env \<Rightarrow> gostring \<Rightarrow> gostring \<Rightarrow> int" where
  "SumInt32 env = Sum_as env TInt32"
definition SumInt64 :: "'f fj_env \<Rightarrow> gostring \<Rightarrow> gostring \<Rightarrow> int" where
  "SumInt64 env = Sum_as env TInt64"
definition SumUint :: "'f fj_env \<Rightarrow> gostring \<Rightarrow> gostring \<Rightarrow> int" where
  "SumUint env = Sum_as env TUint"
definition SumUint8 :: "'f fj_env \<Rightarrow> gostring \<Rightarrow> gostring \<Rightarrow> int" where
  "SumUint8 env = Sum_as env TUint8"
definition SumUint16 :: "'f fj_env \<Rightarrow> gostring \<Rightarrow> gostring \<Rightarrow> int" where
  "SumUint16 env = Sum_as env TUint16"
definition SumUint32 :: "'f fj_env \<Rightarrow> gostring \<Rightarrow> gostring \<Rightarrow> int" where
  "SumUint32 env = Sum_as env TUint32"
definition SumUint64 :: "'f fj_env \<Rightarrow> gostring \<Rightarrow> gostring \<Rightarrow> int" where
  "SumUint64 env = Sum_as env TUint64"

definition MinInt :: "'f fj_env \<Rightarrow> gostring \<Rightarrow> gostring \<Rightarrow> int \<times> bool" where
  "MinInt env = Min_as env TInt"
definition MinInt8 :: "'f fj_env \<Rightarrow> gostring \<Rightarrow> gostring \<Rightarrow> int \<times> bool" where
  "MinInt8 env = Min_as env TInt8"
definition MinInt16 :: "'f fj_env \<Rightarrow> gostring \<Rightarrow> gostring \<Rightarrow> int \<times> bool" where
  "MinInt16 env = Min_as env TInt16"
definition MinInt32 :: "'f fj_env \<Rightarrow> gostring \<Rightarrow> gostring \<Rightarrow> int \<times> bool" where
  "MinInt32 env = Min_as env TInt32"
definition MinInt64 :: "'f fj_env \<Rightarrow> gostring \<Rightarrow> gostring \<Rightarrow> int \<times> bool" where
  "MinInt64 env = Min_as env TInt64"
definition MinUint :: "'f fj_env \<Rightarrow> gostring \<Rightarrow> gostring \<Rightarrow> int \<times> bool" where
  "MinUint env = Min_as env TUint"
definition MinUint8 :: "'f fj_env \<Rightarrow> gostring \<Rightarrow> gostring \<Rightarrow> int \<times> bool" where
  "MinUint8 env = Min_as env TUint8"
definition MinUint16 :: "'f fj_env \<Rightarrow> gostring \<Rightarrow> gostring \<Rightarrow> int \<times> bool" where
  "MinUint16 env = Min_as env TUint16"
definition MinUint32 :: "'f fj_env \<Rightarrow> gostring \<Rightarrow> gostring \<Rightarrow> int \<times> bool" where
  "MinUint32 env = Min_as env TUint32"
definition MinUint64 :: "'f fj_env \<Rightarrow> gostring \<Rightarrow> gostring \<Rightarrow> int \<times> bool" where
  "MinUint64 env = Min_as env TUint64"

definition MaxInt :: "'f fj_env \<Rightarrow> gostring \<Rightarrow> gostring \<Rightarrow> int \<times> bool" where
  "MaxInt env = Max_as env TInt"
definition MaxInt8 :: "'f fj_env \<Rightarrow> gostring \<Rightarrow> gostring \<Rightarrow> int \<times> bool" where
  "MaxInt8 env = Max_as env TInt8"
definition MaxInt16 :: "'f fj_env \<Rightarrow> gostring \<Rightarrow> gostring \<Rightarrow> int \<times> bool" where
  "MaxInt16 env = Max_as env TInt16"
definition MaxInt32 :: "'f fj_env \<Rightarrow> gostring \<Rightarrow> gostring \<Rightarrow> int \<times> bool" where
  "MaxInt32 env = Max_as env TInt32"
definition fj_MaxInt64 :: "'f fj_env \<Rightarrow> gostring \<Rightarrow> gostring \<Rightarrow> int \<times> bool" where
  "fj_MaxInt64 env = Max_as env TInt64"
definition MaxUint :: "'f fj_env \<Rightarrow> gostring \<Rightarrow> gostring \<Rightarrow> int \<times> bool" where
  "MaxUint env = Max_as env TUint"
definition MaxUint8 :: "'f fj_env \<Rightarrow> gostring \<Rightarrow> gostring \<Rightarrow> int \<times> bool" where
  "MaxUint8 env = Max_as env TUint8"

section \<open>Bounds\<close>

lemma type_bounds: "type_min ty \<le> 0" "1 \<le> type_max ty" "type_min ty = 0 \<or> type_min ty = - type_max ty - 1"
  by (cases ty; simp add: type_min_def type_max_def)+

lemma wrap_to_in_type: "in_type ty (wrap_to ty x)"
  using type_bounds(1,2) [of ty] pos_mod_bound [of "type_max ty - type_min ty + 1" "x - type_min ty"]
  by (simp add: wrap_to_def in_type_def)

lemma wrap_to_id: "in_type ty x \<Longrightarrow> wrap_to ty x = x"
  by (simp add: wrap_to_def in_type_def)

lemma wrap_to_add: "wrap_to ty (wrap_to ty a + b) = wrap_to ty (a + b)"
proof -
  define m where "m = type_max ty - type_min ty + 1"
  have "(type_min ty + (a - type_min ty) mod m + b - type_min ty) mod m = ((a - type_min ty) mod m + b) mod m"
    by (simp add: algebra_simps)
  also have "\<dots> = (a + b - type_min ty) mod m" by (simp add: mod_simps algebra_simps)
  finally show ?thesis by (simp add: wrap_to_def m_def)
qed

lemma sum_ints_sum: "sum_ints ty ns = wrap_to ty (sum_list ns)"
proof -
  have "foldl (\<lambda>total n. wrap_to ty (total + n)) (wrap_to ty a) ns = wrap_to ty (a + sum_list ns)" for a
    by (induction ns arbitrary: a) (simp_all add: wrap_to_add add.assoc)
  from this [of 0] show ?thesis
    using wrap_to_id [of ty 0] type_bounds [of ty] by (simp add: sum_ints_def in_type_def)
qed

lemma foldl_min: "foldl (\<lambda>m n. if n < m then n else m) a ns = Min (set (a # ns))" for a :: int
proof -
  have "(\<lambda>m n :: int. if n < m then n else m) = (\<lambda>m n. min n m)" by (auto simp: fun_eq_iff min_def)
  then show ?thesis by (simp only: Min.set_eq_fold foldl_conv_fold)
qed

lemma foldl_max: "foldl (\<lambda>m n. if m < n then n else m) a ns = Max (set (a # ns))" for a :: int
proof -
  have "(\<lambda>m n :: int. if m < n then n else m) = (\<lambda>m n. max n m)" by (auto simp: fun_eq_iff max_def)
  then show ?thesis by (simp only: Max.set_eq_fold foldl_conv_fold)
qed

text \<open>A conversion yields values of its type.\<close>

lemma dec_val_nonneg: "list_all is_dec s \<Longrightarrow> 0 \<le> dec_val s"
proof (induction s rule: rev_induct)
  case (snoc c s)
  then have "48 \<le> byte_val c" by (simp add: is_dec_def)
  then have "48 \<le> (of_char c :: int)" by (metis of_nat_le_iff of_nat_numeral of_nat_of_char)
  with snoc show ?case by (simp add: dec_val_snoc)
qed (simp add: dec_val_def)

lemma Uint64_bounds:
  assumes "wt_floats fl" and "Uint64 fl c v = Inr n" and "v = AString s \<or> v = AFloat x"
  shows "0 \<le> n \<and> n \<le> MaxUint64"
  using assms dec_val_nonneg
  by (auto simp: stringToUint64_def float_to_uint64_def wt_floats_def Let_def ParseUint_def MaxUint64_def
      split: if_splits option.splits sum.splits)

lemma convert_to_narrow:
  assumes "ty \<noteq> TInt64" and "ty \<noteq> TUint64" and "v = AString s \<or> v = AFloat x"
  shows "\<exists>r. convert_to fl ty v = narrow NewConverter (type_min ty) (type_max ty) r"
  using assms
  by (cases ty) (auto simp: type_min_def type_max_def conv_Int_def Int8_def Int16_def Int32_def conv_Uint_def
      Uint8_def Uint16_def Uint32_def MaxInt64_def MaxUint64_def)

lemma convert_to_in_type:
  assumes "wt_floats fl" and "convert_to fl ty v = Inr n" and "v = AString s \<or> v = AFloat x"
  shows "in_type ty n"
proof -
  have w: "wt_any v" using assms(3) by auto
  consider "ty = TInt64" | "ty = TUint64" | "ty \<noteq> TInt64" "ty \<noteq> TUint64" by blast
  then show ?thesis
  proof cases
    case 1
    with Int64_range [OF assms(1) w, of NewConverter n] assms(2) have "in_int64 n" by simp
    with 1 show ?thesis by (auto simp: in_type_def type_min_def type_max_def in_int64_def)
  next
    case 2
    with Uint64_bounds [OF assms(1) _ assms(3)] assms(2) show ?thesis
      by (auto simp: in_type_def type_min_def type_max_def MaxUint64_def)
  next
    case 3
    then obtain r where "narrow NewConverter (type_min ty) (type_max ty) r = Inr n"
      using convert_to_narrow [OF 3 assms(3), of fl] assms(2) by auto
    moreover have "type_min ty \<le> type_max ty" using type_bounds [of ty] by linarith
    ultimately show ?thesis
      using clamp_to_result(1) [of "type_min ty" "type_max ty" NewConverter r n] by (simp add: in_type_def)
  qed
qed

lemma int_value_in_type: "wt_floats (conv_floats env) \<Longrightarrow> in_type ty (int_value env ty ctx)"
proof -
  assume w: "wt_floats (conv_floats env)"
  have z: "in_type ty 0" "in_type ty 1" using type_bounds [of ty] by (simp_all add: in_type_def)
  have "in_type ty (or_zero (convert_to (conv_floats env) ty v))" if "v = AString s \<or> v = AFloat x" for v s x
    using convert_to_in_type [OF w _ that] z by (auto simp: or_zero_def split: sum.splits)
  then show ?thesis
    using z convert_to_in_type [OF w] by (auto simp: int_value_def split: Type.splits sum.splits)
qed

section \<open>The numbers of a document\<close>

fun is_number :: "jval \<Rightarrow> bool" where
  "is_number (JNum s) = True"
| "is_number v = False"

lemma number_kind: "(kind (value_of env v) = KNumber) = is_number v"
  by (cases v) (simp_all add: value_of_def)

lemma numbers_at_array:
  assumes "wf_val v" and "is_container v" and "ks \<noteq> []" and "list_all (plain_key env) ks" and "json_ws w"
    and "lookup env v ks = Some (JArr u es)"
  shows "numbers_at env (w @ render v @ t) (path_of ks) = map (value_of env) (filter is_number (elems_of es))"
proof -
  have a: "wf_val (JArr u es)" by (rule lookup_wf(1) [OF assms(1,6)])
  have g: "Get_value env (w @ render v @ t) (path_of ks) = node_of env (JArr u es) []"
    using Get_tree [OF assms(1-5), of t] assms(6) by (simp add: Get_value_def node_of_value)
  have "map snd (Foreach env (node_of env (JArr u es) [])) = map (value_of env) (elems_of es)"
    using node_entries [OF a _ quiet_Nil, of env] by (simp add: comp_def split_def enumerate_snd)
  with node_exists [OF a, of env "[]"] show ?thesis
    by (simp add: numbers_at_def Let_def g filter_map comp_def number_kind)
qed

text \<open>C13: For every integer type the sum, the minimum and the maximum over an array that a plain path finds in
  a valid object or array are those of the numbers in it, each read by the getter of the type, which always
  yields a value of the type (0 for a number beyond the limits of the getter): the sum wraps around in the
  type, and the minimum and maximum are exact but for a signed array that holds nothing but the least value of the
  type, whose maximum comes out one too high.  Without numbers they report that there are none.  All three
  are values of the type.\<close>

theorem Sum_Min_Max_document:
  fixes t :: gostring and ty :: num_type
  assumes "wf_val v" and "is_container v" and "ks \<noteq> []" and "list_all (plain_key env) ks" and "json_ws w"
    and "lookup env v ks = Some (JArr u es)" and "wt_floats (conv_floats env)"
  defines "doc \<equiv> w @ render v @ t"
    and "ns \<equiv> map (\<lambda>x. int_value env ty (value_of env x)) (filter is_number (elems_of es))"
  shows "Sum_as env ty doc (path_of ks) = wrap_to ty (sum_list ns)
    \<and> Min_as env ty doc (path_of ks) = (if ns = [] then (0, False) else (Min (set ns), True))
    \<and> Max_as env ty doc (path_of ks) = (if ns = [] then (0, False)
        else (if set ns = {type_min ty} then max_start ty else Max (set ns), True))
    \<and> list_all (in_type ty) ns \<and> in_type ty (Sum_as env ty doc (path_of ks))
    \<and> in_type ty (fst (Min_as env ty doc (path_of ks))) \<and> in_type ty (fst (Max_as env ty doc (path_of ks)))"
proof -
  have ns: "scan_ints env ty doc (path_of ks) = ns"
    by (simp add: scan_ints_def doc_def ns_def numbers_at_array [OF assms(1-6)])
  have t: "\<forall>n \<in> set ns. type_min ty \<le> n \<and> n \<le> type_max ty"
    using int_value_in_type [OF assms(7), of ty] by (auto simp: ns_def in_type_def)
  have mx: "Max (insert (max_start ty) (set ns)) = (if set ns = {type_min ty} then max_start ty else Max (set ns))" if nonempty: "ns \<noteq> []"
  proof (cases "set ns = {type_min ty}")
    case True
    with type_bounds [of ty] show ?thesis by (auto simp: max_start_def max_def)
  next
    case False
    then obtain n where n: "n \<in> set ns" "n \<noteq> type_min ty" using nonempty by (cases ns) auto
    with t type_bounds [of ty] have "max_start ty \<le> n" by (force simp: max_start_def)
    also have "n \<le> Max (set ns)" using n(1) by simp
    finally show ?thesis using False nonempty by (simp add: max_def)
  qed
  have mn: "Min (insert (type_max ty) (set ns)) = Min (set ns)" if "ns \<noteq> []"
  proof -
    have "Min (set ns) \<le> type_max ty" using t that Min_in [of "set ns"] by auto
    then show ?thesis using that by (simp add: min.absorb2)
  qed
  have results: "Sum_as env ty doc (path_of ks) = wrap_to ty (sum_list ns)"
    "Min_as env ty doc (path_of ks) = (if ns = [] then (0, False) else (Min (set ns), True))"
    "Max_as env ty doc (path_of ks) = (if ns = [] then (0, False)
        else (if set ns = {type_min ty} then max_start ty else Max (set ns), True))"
    by (simp_all add: Sum_as_def Min_as_def Max_as_def ns sum_ints_sum min_ints_def max_ints_def foldl_min foldl_max mn mx del: Min_insert Max_insert)
  have "in_type ty 0" "in_type ty (max_start ty)" using type_bounds [of ty] by (auto simp: in_type_def max_start_def)
  moreover have "in_type ty (Min (set ns))" "in_type ty (Max (set ns))" if "ns \<noteq> []"
    using that t Min_in [of "set ns"] Max_in [of "set ns"] by (auto simp: in_type_def)
  ultimately show ?thesis
    unfolding results using t wrap_to_in_type by (auto simp: list_all_iff in_type_def)
qed

text \<open>The document \<open>{"a": [100,null,100]}\<close>.\<close>

definition sample_numbers :: jval where
  "sample_numbers = JObj [] (MCons [] ''a'' [] '' '' (JArr [] (ECons [] (JNum ''100'') [] (ECons [] JNull [] (ECons [] (JNum ''100'') [] ENil)))) [] MNil)"

lemma Sum_Min_Max_document_witness:
  "SumInt8 plain_env ('' '' @ render sample_numbers @ []) ''a'' = - 56
    \<and> MinInt8 plain_env ('' '' @ render sample_numbers @ []) ''a'' = (100, True)
    \<and> MaxInt8 plain_env ('' '' @ render sample_numbers @ []) ''a'' = (100, True)"
proof -
  have j: "json_number ''100''"
    unfolding json_number_def
    by (intro exI [of _ "[]"] exI [of _ "''100''"] conjI)
      (simp_all add: json_int_def json_frac_def json_exp_def digits1_def is_digit_def)
  have c: "json_chars ''a''" by (intro json_chars.intros; simp)
  have w: "wf_val sample_numbers" "is_container sample_numbers" "json_ws '' ''"
    by (simp_all add: sample_numbers_def j c json_ws_def is_ws_def)
  have u: "unescape ''a'' = ''a''" by (simp add: unescape_no_escape c)
  have k: "list_all (plain_key plain_env) [''a'']" "path_of [''a''] = ''a''" by code_simp+
  have f: "wt_floats (conv_floats plain_env)"
    by (simp add: wt_floats_def plain_env_def no_floats_def in_int64_def MaxUint64_def)
  have n: "int_value plain_env TInt8 (value_of plain_env (JNum ''100'')) = 100" by code_simp
  have t: "wrap_to TInt8 200 = - 56" "type_min TInt8 = - 128" by (simp_all add: wrap_to_def type_min_def type_max_def)
  have l: "lookup plain_env sample_numbers [''a''] =
      Some (JArr [] (ECons [] (JNum ''100'') [] (ECons [] JNull [] (ECons [] (JNum ''100'') [] ENil))))"
    by (simp add: sample_numbers_def u)
  show ?thesis
    using Sum_Min_Max_document [OF w(1,2) _ k(1) w(3) l f, of TInt8 "[]"]
    by (simp add: n t k(2) SumInt8_def MinInt8_def MaxInt8_def del: path_of.simps)
qed

end
