(* ===== verification/FjTransform.thy ===== *)
theory FjTransform
  imports FjNumbers
begin

text \<open>
  The transformers of \<open>pkg/fj\<close> (\<open>transformer.go\<close>) and their registry: functions from a text and an
  argument to a text, which a path calls as \<open>@name\<close> or \<open>@name:argument\<close>.  The loops that write a comma
  in front of all items but the first one join the items; the mapping to upper and lower case is an
  argument.  A transformer that reads its options runs an iterator over its argument, in which the
  last value of a name counts.
\<close>

type_synonym transformer = "gostring \<Rightarrow> gostring \<Rightarrow> gostring"

section \<open>Items and options\<close>

definition array_text :: "gostring list \<Rightarrow> gostring" where
  "array_text items = CHR ''['' # Join items '','' @ '']''"

definition object_text :: "gostring list \<Rightarrow> gostring" where
  "object_text items = CHR ''{'' # Join items '','' @ ''}''"

definition member_text :: "gostring \<Rightarrow> gostring \<Rightarrow> gostring" where
  "member_text key v = key @ '':'' @ v"

definition arg_option :: "'f fj_env \<Rightarrow> gostring \<Rightarrow> gostring \<Rightarrow> 'f Context option" where
  "arg_option env arg name =
    foldl (\<lambda>found entry. if Context_String env (fst entry) = name then Some (snd entry) else found) None
      (Foreach env (Parse env arg))"

definition flag_option :: "'f fj_env \<Rightarrow> gostring \<Rightarrow> gostring \<Rightarrow> bool" where
  "flag_option env arg name =
    (\<not> IsEmpty arg \<and> (case arg_option env arg name of Some v \<Rightarrow> Context_Bool env v | None \<Rightarrow> False))"

definition text_option :: "'f fj_env \<Rightarrow> gostring \<Rightarrow> gostring \<Rightarrow> gostring" where
  "text_option env arg name = (case arg_option env arg name of Some v \<Rightarrow> Context_String env v | None \<Rightarrow> [])"

section \<open>Rearranging\<close>

definition applyIdentity :: transformer where
  "applyIdentity json arg = json"

definition applyReverse :: "'f fj_env \<Rightarrow> transformer" where
  "applyReverse env json arg =
    (let ctx = Parse env json in
     if IsArray ctx then array_text (map (\<lambda>(_, v). raw v) (rev (Foreach env ctx)))
     else if IsObject ctx then object_text (map (\<lambda>(key, v). member_text (raw key) (raw v)) (rev (Foreach env ctx)))
     else json)"

lemma Parse_raw_length: "IsArray (Parse env json) \<Longrightarrow> length (raw (Parse env json)) \<le> length json"
proof -
  define s where "s = drop (skip_while (\<lambda>c. c \<le> CHR '' '') json 0) json"
  have "length s \<le> length json" by (simp add: s_def)
  then show "IsArray (Parse env json) \<Longrightarrow> length (raw (Parse env json)) \<le> length json"
    by (cases s) (auto simp: Parse_def Let_def s_def [symmetric] IsArray_def no_value_def json_value_of_def literal_value_def
        put_json_def put_literal_def split: if_splits prod.splits)
qed

lemma array_child_shorter: "(key, v) \<in> set (Foreach env (Parse env json)) \<Longrightarrow> IsArray (Parse env json) \<Longrightarrow>
    length (raw v) < length json"
  using Foreach_shorter [of key v env "Parse env json"] Parse_raw_length [of env json] by (auto simp: IsArray_def)

function applyFlatten :: "'f fj_env \<Rightarrow> transformer" where
  "applyFlatten env json arg =
    (let ctx = Parse env json in
     if \<not> IsArray ctx then json
     else array_text (filter (\<lambda>s. s \<noteq> []) (map (\<lambda>(_, v). TrimSpace
         (if IsArray v then
            trimOuterBrackets (if flag_option env arg ''deep'' then applyFlatten env (raw v) arg else raw v)
          else raw v)) (Foreach env ctx))))"
  by pat_completeness auto
termination
  by (relation "measure (\<lambda>(env, json, arg). length json)") (auto dest: array_child_shorter)

declare applyFlatten.simps [simp del]

text \<open>The keys in the order in which they first appear, and the last value of each.\<close>

fun merge_member ::
    "'f fj_env \<Rightarrow> 'f Context list \<times> (gostring \<rightharpoonup> 'f Context) \<Rightarrow> 'f entry \<Rightarrow> 'f Context list \<times> (gostring \<rightharpoonup> 'f Context)" where
  "merge_member env (keys, keyVal) (key, v) =
    (let k = Context_String env key
     in (if keyVal k = None then keys @ [key] else keys, keyVal(k \<mapsto> v)))"

definition applyMerge :: "'f fj_env \<Rightarrow> transformer" where
  "applyMerge env json arg =
    (let ctx = Parse env json in
     if \<not> IsArray ctx then json
     else
       let objects = filter IsObject (map snd (Foreach env ctx)) in
       if flag_option env arg ''preserve'' then object_text (map (\<lambda>v. trimOuterBrackets (raw v)) objects)
       else
         case foldl (merge_member env) ([], Map.empty) (concat (map (Foreach env) objects)) of
           (keys, keyVal) \<Rightarrow>
             object_text (map (\<lambda>key. member_text (raw key)
               (case keyVal (Context_String env key) of Some v \<Rightarrow> raw v | None \<Rightarrow> [])) keys))"

definition applyKeys :: "'f fj_env \<Rightarrow> transformer" where
  "applyKeys env json arg =
    (let ctx = Parse env json in
     if \<not> Exists ctx then ''[]''
     else array_text (map (\<lambda>(key, _). if IsObject ctx then raw key else ''null'') (Foreach env ctx)))"

definition applyValues :: "'f fj_env \<Rightarrow> transformer" where
  "applyValues env json arg =
    (let ctx = Parse env json in
     if \<not> Exists ctx then ''[]''
     else if IsArray ctx then json
     else array_text (map (\<lambda>(_, v). raw v) (Foreach env ctx)))"

text \<open>The pieces of the objects that \<open>group\<close> builds, with a comma in front of each.\<close>

definition add_piece :: "gostring list \<Rightarrow> nat \<times> gostring \<Rightarrow> gostring list" where
  "add_piece columns piece =
    (case piece of (idx, s) \<Rightarrow>
       let columns' = (if idx = length columns then columns @ [[]] else columns) in columns'[idx := columns' ! idx @ s])"

definition applyGroup :: "'f fj_env \<Rightarrow> transformer" where
  "applyGroup env json arg =
    (let ctx = Parse env json in
     if \<not> IsObject ctx then []
     else
       let columns = foldl (\<lambda>columns (key, v).
             if \<not> IsArray v then columns
             else foldl add_piece columns
               (enumerate 0 (map (\<lambda>(_, item). '','' @ member_text (raw key) (raw item)) (Foreach env v))))
           [] (Foreach env ctx)
       in array_text (map (\<lambda>el. CHR ''{'' # tl el @ ''}'') columns))"

definition applyCount :: "'f fj_env \<Rightarrow> transformer" where
  "applyCount env json arg =
    (let ctx = Parse env json in
     if \<not> IsArray ctx \<and> \<not> IsObject ctx then ''0'' else itoa (int (length (Foreach env ctx))))"

definition applyFirst :: "'f fj_env \<Rightarrow> transformer" where
  "applyFirst env json arg =
    (let ctx = Parse env json in
     if \<not> IsArray ctx then ''null''
     else
       let first = (case Foreach env ctx of [] \<Rightarrow> [] | (_, v) # _ \<Rightarrow> raw v)
       in if IsEmpty first then ''null'' else first)"

definition applyLast :: "'f fj_env \<Rightarrow> transformer" where
  "applyLast env json arg =
    (let ctx = Parse env json in
     if \<not> IsArray ctx then ''null''
     else
       let last = foldl (\<lambda>_ (_, v). raw v) [] (Foreach env ctx)
       in if IsEmpty last then ''null'' else last)"

section \<open>Selecting\<close>

function recurseCollectMatches :: "'f fj_env \<Rightarrow> 'f Context list \<Rightarrow> 'f Context \<Rightarrow> gostring \<Rightarrow> 'f Context list" where
  "recurseCollectMatches env found parent path =
    (let matched = Get_value env (raw parent) path;
         found' = (if Exists matched then found @ [matched] else found)
     in if IsContainer parent
        then foldl (\<lambda>found entry. recurseCollectMatches env found (snd entry) path) found' (Foreach env parent)
        else found')"
  by pat_completeness auto
termination
  by (relation "measure (\<lambda>(env, found, parent, path). length (raw parent))") (auto simp: child_shorter)

declare recurseCollectMatches.simps [simp del]

definition applySearch :: "'f fj_env \<Rightarrow> transformer" where
  "applySearch env json arg = array_text (map raw (recurseCollectMatches env [] (Parse env json) arg))"

text \<open>The number of a value: \<open>Float64\<close> of \<open>context.go\<close>, with the conversion of a text.\<close>

definition float_of_text :: "'f fj_env \<Rightarrow> gostring \<Rightarrow> 'f" where
  "float_of_text env s =
    (if IsEmpty s then float_zero env
     else
       let v = TrimSpace s in
       case ParseFloat (conv_floats env) v of
         Some f \<Rightarrow> f
       | None \<Rightarrow> (case stringToBool NewConverter v of Inr True \<Rightarrow> float_of env 1 | _ \<Rightarrow> float_zero env))"

definition Context_Float64 :: "'f fj_env \<Rightarrow> 'f Context \<Rightarrow> 'f" where
  "Context_Float64 env ctx = (case kind ctx of
      KTrue \<Rightarrow> float_of env 1
    | KString \<Rightarrow> float_of_text env (str ctx)
    | KNumber \<Rightarrow> num ctx
    | _ \<Rightarrow> float_zero env)"

definition matchesCondition :: "'f fj_env \<Rightarrow> 'f Context \<Rightarrow> 'f Context \<Rightarrow> gostring \<Rightarrow> bool" where
  "matchesCondition env actual expected op =
    (let a = Context_Float64 env actual; e = Context_Float64 env expected in
     if op = ''contains'' then str_Contains (Context_String env actual) (Context_String env expected)
     else if op = ''ne'' then raw actual \<noteq> raw expected
     else if op = ''gt'' then float_less env e a
     else if op = ''gte'' then float_less env e a \<or> float_eq env e a
     else if op = ''lt'' then float_less env a e
     else if op = ''lte'' then float_less env a e \<or> float_eq env a e
     else raw actual = raw expected)"

definition applyFilter :: "'f fj_env \<Rightarrow> transformer" where
  "applyFilter env json arg =
    (let ctx = Parse env json in
     if \<not> IsArray ctx then json
     else
       let key = text_option env arg ''key'';
           op = (case arg_option env arg ''op'' of Some v \<Rightarrow> Context_String env v | None \<Rightarrow> ''eq'');
           rawVal = (case arg_option env arg ''value'' of Some v \<Rightarrow> raw v | None \<Rightarrow> [])
       in if IsEmpty key then json
          else
            let cmpVal = Parse env rawVal
            in array_text (map (\<lambda>(_, elem). raw elem)
                 (filter (\<lambda>(_, elem). let fieldVal = Get_value env (raw elem) key
                    in Exists fieldVal \<and> matchesCondition env fieldVal cmpVal op) (Foreach env ctx))))"

definition applyPluck :: "'f fj_env \<Rightarrow> transformer" where
  "applyPluck env json arg =
    (let ctx = Parse env json; fieldPath = TrimSpace arg in
     if \<not> IsArray ctx \<or> IsEmpty fieldPath then ''[]''
     else array_text (map (\<lambda>val. if raw val = [] then ''null'' else raw val)
       (filter Exists (map (\<lambda>(_, elem). Get_value env (raw elem) fieldPath) (Foreach env ctx)))))"

text \<open>The names to pick and the new names, from an argument.\<close>

fun project_option ::
    "'f fj_env \<Rightarrow> gostring list \<times> (gostring \<rightharpoonup> gostring) \<Rightarrow> 'f entry \<Rightarrow> gostring list \<times> (gostring \<rightharpoonup> gostring)" where
  "project_option env (pick, renames) (key, v) =
    (if Context_String env key = ''pick'' then (pick @ map (\<lambda>(_, u). Context_String env u) (Foreach env v), renames)
     else if Context_String env key = ''rename''
     then (pick, foldl (\<lambda>m (k, u). m(Context_String env k \<mapsto> Context_String env u)) renames (Foreach env v))
     else (pick, renames))"

definition project_options :: "'f fj_env \<Rightarrow> gostring \<Rightarrow> gostring list \<times> (gostring \<rightharpoonup> gostring)" where
  "project_options env arg =
    (if IsEmpty arg then ([], Map.empty) else foldl (project_option env) ([], Map.empty) (Foreach env (Parse env arg)))"

definition applyProject :: "'f fj_env \<Rightarrow> transformer" where
  "applyProject env json arg =
    (let ctx = Parse env json in
     if \<not> IsObject ctx then json
     else
       case project_options env arg of
         (pick, renames) \<Rightarrow>
           object_text (map (\<lambda>(key, v).
               let fieldName = Context_String env key;
                   outputName = (case renames fieldName of Some newName \<Rightarrow> newName | None \<Rightarrow> fieldName)
               in member_text (appendJSONString [] outputName) (raw v))
             (filter (\<lambda>(key, _). pick = [] \<or> Context_String env key \<in> set pick) (Foreach env ctx))))"

definition applyDefault :: "'f fj_env \<Rightarrow> transformer" where
  "applyDefault env json arg =
    (let ctx = Parse env json; defaults = Parse env arg in
     if \<not> IsObject ctx \<or> IsEmpty arg \<or> \<not> IsObject defaults then json
     else
       let present = map (\<lambda>(key, _). Context_String env key) (Foreach env ctx);
           kept = map (\<lambda>(key, v). member_text (raw key)
             (if kind v = KNull then
                (let dv = Get_value env (raw defaults) (Context_String env key) in if Exists dv then raw dv else raw v)
              else raw v)) (Foreach env ctx);
           added = map (\<lambda>(key, v). member_text (raw key) (raw v))
             (filter (\<lambda>(key, _). Context_String env key \<notin> set present) (Foreach env defaults))
       in object_text (kept @ added))"

section \<open>Checks and texts\<close>

definition applyValidityCheck :: transformer where
  "applyValidityCheck json arg = (if \<not> IsValidJSONString json then ''false'' else ''true'')"

definition applyToJSON :: "'f fj_env \<Rightarrow> transformer" where
  "applyToJSON env json arg = (if \<not> IsValidJSONString json then [] else Context_String env (Parse env json))"

definition applyToString :: transformer where
  "applyToString s arg = appendJSONString [] s"

definition applyUppercase :: "(gostring \<Rightarrow> gostring) \<Rightarrow> transformer" where
  "applyUppercase upper json arg = (if IsEmpty json then json else upper json)"

definition applyLowercase :: "(gostring \<Rightarrow> gostring) \<Rightarrow> transformer" where
  "applyLowercase lower json arg = (if IsEmpty json then json else lower json)"

text \<open>\<open>[]rune(s)\<close>: the runes of a string, with the replacement character for a byte that is none.\<close>

lemma rune_shorter: "s \<noteq> [] \<Longrightarrow> (r, n) = decode_rune s \<Longrightarrow> length (drop n s) < length s"
  using decode_rune_size [of s r n] by simp

function runes :: "gostring \<Rightarrow> nat list" where
  "runes s = (if s = [] then [] else case decode_rune s of (r, n) \<Rightarrow> r # runes (drop n s))"
  by pat_completeness auto
termination
  by (relation "measure length") (auto simp del: length_drop intro: rune_shorter)

declare runes.simps [simp del]

definition applyFlip :: transformer where
  "applyFlip json arg = (if IsEmpty json then json else concat (map encode_rune (rev (runes json))))"

text \<open>The regular expression of \<open>RegexpDupSpaces\<close> matches runs of these bytes.\<close>

definition regexp_space :: "byte \<Rightarrow> bool" where
  "regexp_space c \<longleftrightarrow> byte_is [9, 10, 12, 13, 32] c"

function dup_spaces :: "gostring \<Rightarrow> gostring" where
  "dup_spaces [] = []"
| "dup_spaces (c # s) =
    (if regexp_space c then CHR '' '' # dup_spaces (dropWhile regexp_space s) else c # dup_spaces s)"
  by pat_completeness auto
termination
  by (relation "measure length") (auto intro: le_imp_less_Suc length_dropWhile_le)

definition TrimWhitespace :: "gostring \<Rightarrow> gostring" where
  "TrimWhitespace s = (if IsEmpty s then [] else dup_spaces s)"

definition applyTrim :: transformer where
  "applyTrim json arg = TrimWhitespace (str_Trim json)"

definition applySnakeCase :: "(gostring \<Rightarrow> gostring) \<Rightarrow> transformer" where
  "applySnakeCase lower json arg =
    (if IsEmpty json then json else lower (map (\<lambda>c. if c = CHR '' '' then CHR ''_'' else c) json))"

definition applyKebabCase :: "(gostring \<Rightarrow> gostring) \<Rightarrow> transformer" where
  "applyKebabCase lower json arg =
    (if IsEmpty json then json else lower (map (\<lambda>c. if c = CHR '' '' then CHR ''-'' else c) json))"

text \<open>\<open>words[i][:1]\<close> is the first byte of a word, not its first rune.\<close>

definition applyCamelCase :: "(gostring \<Rightarrow> gostring) \<Rightarrow> transformer" where
  "applyCamelCase upper json arg =
    (if IsEmpty json then json
     else case Fields json of
       [] \<Rightarrow> []
     | word # ws \<Rightarrow> concat (word # map (\<lambda>u. upper (take 1 u) @ drop 1 u) ws))"

text \<open>\<open>strings.Replace(s, old, new, 1)\<close> and \<open>strings.ReplaceAll\<close>, which puts \<open>new\<close> around every rune when
  \<open>old\<close> is empty.\<close>

fun replace_first :: "gostring \<Rightarrow> gostring \<Rightarrow> gostring \<Rightarrow> gostring" where
  "replace_first s old fresh =
    (if HasPrefix s old then fresh @ drop (length old) s
     else case s of [] \<Rightarrow> [] | c # s' \<Rightarrow> c # replace_first s' old fresh)"

declare replace_first.simps [simp del]

function rune_texts :: "gostring \<Rightarrow> gostring list" where
  "rune_texts s = (if s = [] then [] else case decode_rune s of (r, n) \<Rightarrow> take n s # rune_texts (drop n s))"
  by pat_completeness auto
termination
  by (relation "measure length") (auto simp del: length_drop intro: rune_shorter)

declare rune_texts.simps [simp del]

function replace_all :: "gostring \<Rightarrow> gostring \<Rightarrow> gostring \<Rightarrow> gostring" where
  "replace_all s old fresh =
    (if old = [] then fresh @ concat (map (\<lambda>r. r @ fresh) (rune_texts s))
     else if HasPrefix s old then fresh @ replace_all (drop (length old) s) old fresh
     else case s of [] \<Rightarrow> [] | c # s' \<Rightarrow> c # replace_all s' old fresh)"
  by pat_completeness auto
termination
  by (relation "measure (\<lambda>(s, old, fresh). length s)") (auto simp: HasPrefix_def intro!: diff_less)

declare replace_all.simps [simp del]

definition applyReplace :: "'f fj_env \<Rightarrow> transformer" where
  "applyReplace env json arg =
    (if IsEmpty json then json
     else replace_first json (text_option env arg ''target'') (text_option env arg ''replacement''))"

definition applyReplaceAll :: "'f fj_env \<Rightarrow> transformer" where
  "applyReplaceAll env json arg =
    (if IsEmpty json then json
     else replace_all json (text_option env arg ''target'') (text_option env arg ''replacement''))"

definition applyInsertAt :: "'f fj_env \<Rightarrow> transformer" where
  "applyInsertAt env json arg =
    (if IsEmpty json then json
     else
       let index = (case arg_option env arg ''index'' of Some v \<Rightarrow> to_int64 (conv_floats env) (num v) | None \<Rightarrow> 0);
           insert = text_option env arg ''insert''
       in if index < 0 \<or> int (length json) < index then json
          else take (nat index) json @ insert @ drop (nat index) json)"

text \<open>A text that is not empty here has a character that is no white space, so the further blank tests of
  the code have the same outcome.\<close>

definition applyCountWords :: "'f fj_env \<Rightarrow> transformer" where
  "applyCountWords env json arg =
    (let s = TrimWhitespace (Context_String env (Parse env json))
     in if IsEmpty s then s else itoa (int (length (Fields s))))"

section \<open>The registry\<close>

type_synonym registry = "gostring \<rightharpoonup> transformer"

definition Register_transformer :: "registry \<Rightarrow> gostring \<Rightarrow> transformer \<Rightarrow> registry" where
  "Register_transformer r name t = r(name \<mapsto> t)"

definition Get_transformer :: "registry \<Rightarrow> gostring \<Rightarrow> transformer option" where
  "Get_transformer r name = r name"

definition IsRegistered :: "registry \<Rightarrow> gostring \<Rightarrow> bool" where
  "IsRegistered r name \<longleftrightarrow> r name \<noteq> None"

definition resolveTransformer :: "registry \<Rightarrow> gostring \<Rightarrow> transformer option" where
  "resolveTransformer r name = (case Get_transformer r name of None \<Rightarrow> None | Some t \<Rightarrow> Some t)"

text \<open>What \<open>init\<close> registers, but for the formatters, the encodings, the paddings and the operations on
  floating-point numbers, which may be in the registry already.\<close>

definition init_transformers ::
    "'f fj_env \<Rightarrow> (gostring \<Rightarrow> gostring) \<Rightarrow> (gostring \<Rightarrow> gostring) \<Rightarrow> (gostring \<times> transformer) list" where
  "init_transformers env upper lower =
    [(''reverse'', applyReverse env), (''flatten'', applyFlatten env), (''join'', applyMerge env),
     (''valid'', applyValidityCheck), (''keys'', applyKeys env), (''values'', applyValues env),
     (''json'', applyToJSON env), (''string'', applyToString), (''group'', applyGroup env),
     (''search'', applySearch env), (''this'', applyIdentity),
     (''uppercase'', applyUppercase upper), (''upper'', applyUppercase upper),
     (''lowercase'', applyLowercase lower), (''lower'', applyLowercase lower),
     (''flip'', applyFlip), (''trim'', applyTrim),
     (''snakecase'', applySnakeCase lower), (''snakeCase'', applySnakeCase lower), (''snake'', applySnakeCase lower),
     (''camelcase'', applyCamelCase upper), (''camelCase'', applyCamelCase upper), (''camel'', applyCamelCase upper),
     (''kebabcase'', applyKebabCase lower), (''kebabCase'', applyKebabCase lower), (''kebab'', applyKebabCase lower),
     (''replace'', applyReplace env), (''replaceAll'', applyReplaceAll env), (''insertAt'', applyInsertAt env),
     (''wc'', applyCountWords env), (''wordCount'', applyCountWords env), (''project'', applyProject env),
     (''filter'', applyFilter env), (''count'', applyCount env), (''first'', applyFirst env),
     (''last'', applyLast env), (''pluck'', applyPluck env), (''default'', applyDefault env)]"

definition init_registry ::
    "'f fj_env \<Rightarrow> (gostring \<Rightarrow> gostring) \<Rightarrow> (gostring \<Rightarrow> gostring) \<Rightarrow> registry \<Rightarrow> registry" where
  "init_registry env upper lower r =
    foldl (\<lambda>r (name, t). Register_transformer r name t) r (init_transformers env upper lower)"

end
