(* ===== verification/FjRewrite.thy ===== *)
theory FjRewrite
  imports FjTransform
begin

text \<open>
  What the transformers of \<open>FjTransform\<close> do to documents as trees.  The interface \<open>json_rewrite\<close> relates a
  transformer to a function on trees; its facts follow a transformed document through \<open>Parse\<close> and \<open>Get\<close>.
\<close>

section \<open>Written arrays and objects\<close>

primrec array_of :: "jval list \<Rightarrow> jelems" where
  "array_of [] = ENil"
| "array_of (v # vs) = ECons [] v [] (array_of vs)"

primrec object_of :: "(gostring \<times> jval) list \<Rightarrow> jmembers" where
  "object_of [] = MNil"
| "object_of (m # ms) = MCons [] (fst m) [] [] (snd m) [] (object_of ms)"

abbreviation new_array :: "jval list \<Rightarrow> jval" where
  "new_array vs \<equiv> JArr [] (array_of vs)"

abbreviation new_object :: "(gostring \<times> jval) list \<Rightarrow> jval" where
  "new_object ms \<equiv> JObj [] (object_of ms)"

lemma ws_Nil [simp]: "json_ws []"
  by (simp add: json_ws_def)

lemma array_of_simps [simp]:
  "elems_of (array_of vs) = vs" "wf_elems (array_of vs) = list_all wf_val vs" "(array_of vs = ENil) = (vs = [])"
  by (induction vs) (auto simp: array_of.simps)

lemma object_of_simps [simp]:
  "members_of (object_of ms) = ms" "wf_members (object_of ms) = list_all (\<lambda>(k, v). json_chars k \<and> wf_val v) ms"
  "(object_of ms = MNil) = (ms = [])"
  by (induction ms) (auto simp: object_of.simps)

declare array_of.simps [simp del] object_of.simps [simp del]

definition quoted :: "gostring \<Rightarrow> gostring" where
  "quoted k = CHR 0x22 # k @ [CHR 0x22]"

lemma render_array: "render (new_array vs) = array_text (map render vs)"
proof -
  have "render_elems (array_of vs) = Join (map render vs) '',''"
    by (induction vs rule: induct_list012) (simp_all add: comma_before_def array_of.simps)
  then show ?thesis by (simp add: array_text_def)
qed

lemma render_object: "render (new_object ms) = object_text (map (\<lambda>(k, v). member_text (quoted k) (render v)) ms)"
proof -
  have "render_members (object_of ms) = Join (map (\<lambda>(k, v). member_text (quoted k) (render v)) ms) '',''"
    by (induction ms rule: induct_list012) (auto simp: comma_before_def member_text_def quoted_def object_of.simps)
  then show ?thesis by (simp add: object_text_def)
qed

lemma raw_simps [simp]: "raw (value_of env v) = render v" "raw (key_value env k) = quoted k"
    "Context_String env (key_value env k) = unescape k"
  by (simp_all add: value_of_def key_value_def quoted_def Context_String_def)

section \<open>Entries of a document\<close>

lemma entries_array: "wf_val (JArr u es) \<Longrightarrow> quiet_text t \<Longrightarrow>
    Foreach env (node_of env (JArr u es) t) = map (\<lambda>(n, v). (index_key env n, value_of env v)) (enumerate 0 (elems_of es))"
  using node_entries [of "JArr u es" t env] by simp

lemma entries_object: "wf_val (JObj u ms) \<Longrightarrow> quiet_text t \<Longrightarrow>
    Foreach env (node_of env (JObj u ms) t) = map (\<lambda>(k, v). (key_value env k, value_of env v)) (members_of ms)"
  using node_entries [of "JObj u ms" t env] by simp

lemma entries_leaf: "wf_val v \<Longrightarrow> \<not> is_container v \<Longrightarrow> Foreach env (node_of env v t) = [(no_value env, value_of env v)]"
  using node_exists [of v env t] by (cases v) (auto simp: Foreach_def node_of_def value_of_def)

lemma entries_values: "wf_val (JArr u es) \<Longrightarrow> quiet_text t \<Longrightarrow>
    map (\<lambda>(key, v). f v) (Foreach env (node_of env (JArr u es) t)) = map (\<lambda>v. f (value_of env v)) (elems_of es)"
  by (simp add: entries_array case_prod_beta comp_def enumerate_snd [where f = "\<lambda>v. f (value_of env v)"])

section \<open>Trees\<close>

fun tree_reverse :: "jval \<Rightarrow> jval" where
  "tree_reverse (JArr w es) = new_array (rev (elems_of es))"
| "tree_reverse (JObj w ms) = new_object (rev (members_of ms))"
| "tree_reverse v = v"

fun tree_keys :: "jval \<Rightarrow> jval" where
  "tree_keys (JArr w es) = new_array (map (\<lambda>_. JNull) (elems_of es))"
| "tree_keys (JObj w ms) = new_array (map (\<lambda>(k, _). JStr k) (members_of ms))"
| "tree_keys v = new_array [JNull]"

fun tree_values :: "jval \<Rightarrow> jval" where
  "tree_values (JArr w es) = JArr w es"
| "tree_values (JObj w ms) = new_array (map snd (members_of ms))"
| "tree_values v = new_array [v]"

fun tree_count :: "jval \<Rightarrow> jval" where
  "tree_count (JArr w es) = JNum (itoa (int (length (elems_of es))))"
| "tree_count (JObj w ms) = JNum (itoa (int (length (members_of ms))))"
| "tree_count v = JNum ''0''"

fun tree_first :: "jval \<Rightarrow> jval" where
  "tree_first (JArr w es) = (case elems_of es of [] \<Rightarrow> JNull | v # _ \<Rightarrow> v)"
| "tree_first v = JNull"

fun tree_last :: "jval \<Rightarrow> jval" where
  "tree_last (JArr w es) = (if elems_of es = [] then JNull else last (elems_of es))"
| "tree_last v = JNull"

text \<open>The members of all objects of an array; the merged object has the first spelling of every key, with its
  last value.\<close>

fun objects_members :: "jval list \<Rightarrow> (gostring \<times> jval) list" where
  "objects_members [] = []"
| "objects_members (v # vs) = (case v of JObj w ms \<Rightarrow> members_of ms | _ \<Rightarrow> []) @ objects_members vs"

fun first_keys :: "gostring list \<Rightarrow> (gostring \<times> jval) list \<Rightarrow> gostring list" where
  "first_keys seen [] = []"
| "first_keys seen ((k, v) # ms) =
    (if unescape k \<in> set seen then first_keys seen ms else k # first_keys (unescape k # seen) ms)"

definition last_values :: "(gostring \<times> jval) list \<Rightarrow> gostring \<rightharpoonup> jval" where
  "last_values ms = map_of (rev (map (apfst unescape) ms))"

definition merged_members :: "(gostring \<times> jval) list \<Rightarrow> (gostring \<times> jval) list" where
  "merged_members ms = map (\<lambda>k. (k, the (last_values ms (unescape k)))) (first_keys [] ms)"

fun tree_merge :: "jval \<Rightarrow> jval" where
  "tree_merge (JArr w es) = new_object (merged_members (objects_members (elems_of es)))"
| "tree_merge v = v"

section \<open>The interface\<close>

text \<open>A function on texts that does on every document, up to white space around it, what a function on
  trees does.\<close>

locale json_rewrite =
  fixes t :: "gostring \<Rightarrow> gostring" and f :: "jval \<Rightarrow> jval"
  assumes keeps_wf: "wf_val v \<Longrightarrow> wf_val (f v)"
    and on_document: "wf_val v \<Longrightarrow> json_ws w \<Longrightarrow> json_ws s \<Longrightarrow>
      \<exists>w' s'. json_ws w' \<and> json_ws s' \<and> t (w @ render v @ s) = w' @ render (f v) @ s'"
begin

lemma result_valid: "json_text doc \<Longrightarrow> json_text (t doc)"
proof -
  assume "json_text doc"
  then obtain w x s where d: "doc = w @ x @ s" "json_ws w" "json_value x" "json_ws s" by (auto simp: json_text_def)
  then obtain v where v: "wf_val v" "render v = x" using value_tree(1) by blast
  then obtain w' s' where "json_ws w'" "json_ws s'" "t doc = w' @ render (f v) @ s'" using on_document d by blast
  with render_value(1) [OF keeps_wf [OF v(1)]] show ?thesis by (auto simp: json_text_def)
qed

lemma result_parsed: "wf_val v \<Longrightarrow> json_ws w \<Longrightarrow> json_ws s \<Longrightarrow>
    \<exists>s'. json_ws s' \<and> Parse env (t (w @ render v @ s)) = node_of env (f v) s'"
  using on_document [of v w s] keeps_wf [of v] Parse_node [of "f v" _ _ env] ws_after(2) by metis

lemma result_get:
  assumes "wf_val v" and "json_ws w" and "json_ws s" and "is_container (f v)" and "ks \<noteq> []" and "list_all (plain_key env) ks"
  shows "Get env (t (w @ render v @ s)) (path_of ks) =
    Some (case lookup env (f v) ks of Some u \<Rightarrow> value_of env u | None \<Rightarrow> no_value env)"
  using on_document [OF assms(1-3)] Get_tree [OF keeps_wf [OF assms(1)] assms(4-6)] by auto

end

lemma json_rewriteI:
  "(\<And>v. wf_val v \<Longrightarrow> wf_val (f v)) \<Longrightarrow>
    (\<And>v w s. wf_val v \<Longrightarrow> json_ws w \<Longrightarrow> json_ws s \<Longrightarrow> t (w @ render v @ s) = render (f v)) \<Longrightarrow> json_rewrite t f"
  by unfold_locales (auto intro: exI [of _ "[]"])

lemma json_rewrite_comp:
  assumes "json_rewrite t f" and "json_rewrite t' f'"
  shows "json_rewrite (\<lambda>json. t' (t json)) (\<lambda>v. f' (f v))"
proof unfold_locales
  fix v assume v: "wf_val v"
  show "wf_val (f' (f v))" using v json_rewrite.keeps_wf [OF assms(1)] json_rewrite.keeps_wf [OF assms(2)] by blast
  fix w s assume "json_ws w" "json_ws s"
  with v json_rewrite.on_document [OF assms(1)] obtain w' s' where
    "json_ws w'" "json_ws s'" "t (w @ render v @ s) = w' @ render (f v) @ s'" by blast
  with v json_rewrite.keeps_wf [OF assms(1)] json_rewrite.on_document [OF assms(2), of "f v" w' s']
  show "\<exists>w' s'. json_ws w' \<and> json_ws s' \<and> t' (t (w @ render v @ s)) = w' @ render (f' (f v)) @ s'" by simp
qed

section \<open>The transformers\<close>

lemma doc_node: "wf_val v \<Longrightarrow> json_ws w \<Longrightarrow> json_ws s \<Longrightarrow> Parse env (w @ render v @ s) = node_of env v s"
  using Parse_node ws_after(2) by blast

lemma elems_all: "wf_elems es \<Longrightarrow> list_all wf_val (elems_of es)"
  using elems_wf by (auto simp: list_all_iff)

lemma members_all: "wf_members ms \<Longrightarrow> list_all (\<lambda>(k, v). json_chars k \<and> wf_val v) (members_of ms)"
proof (induction "members_of ms" arbitrary: ms)
  case (Cons m us)
  then show ?case by (cases ms) auto
qed simp

text \<open>What the code reads of a document; the cases of the trees give the entries.\<close>

lemmas read_document = doc_node node_kind node_exists
lemmas read_entries = entries_array entries_object entries_leaf

lemma wf_parts: "wf_val (JArr u es) \<Longrightarrow> list_all wf_val (elems_of es)"
    "wf_val (JObj u ms) \<Longrightarrow> list_all (\<lambda>(k, v). json_chars k \<and> wf_val v) (members_of ms)"
  using elems_all members_all by auto

lemma Reverse_tree:
  assumes "wf_val v" and "json_ws w" and "json_ws s"
  shows "applyReverse env (w @ render v @ s) a = (if is_container v then render (tree_reverse v) else w @ render v @ s)"
  unfolding applyReverse_def Let_def doc_node [OF assms]
  using entries_values [of _ _ s raw env] entries_object [of _ _ s env] assms(1) ws_after(1) [OF assms(3)]
  by (cases v) (auto simp: render_array render_object rev_map [symmetric] comp_def split_def simp del: render.simps)

lemma Keys_tree:
  assumes "wf_val v" and "json_ws w" and "json_ws s"
  shows "applyKeys env (w @ render v @ s) a = render (tree_keys v)"
  unfolding applyKeys_def Let_def doc_node [OF assms] if_not_P [OF iffD2 [OF not_not node_exists [OF assms(1)]]]
  using entries_values [of _ _ s "\<lambda>_. ''null''" env] entries_object [of _ _ s env] entries_leaf [OF assms(1), of env s]
    assms(1) ws_after(1) [OF assms(3)]
  by (cases v) (auto simp: render_array comp_def split_def quoted_def simp del: render.simps(6-) cong: map_cong)

lemma Values_tree:
  assumes "wf_val v" and "json_ws w" and "json_ws s"
  shows "applyValues env (w @ render v @ s) a = (case v of JArr _ _ \<Rightarrow> w @ render v @ s | _ \<Rightarrow> render (tree_values v))"
  unfolding applyValues_def Let_def doc_node [OF assms] if_not_P [OF iffD2 [OF not_not node_exists [OF assms(1)]]]
  using entries_object [of _ _ s env] entries_leaf [OF assms(1), of env s] assms(1) ws_after(1) [OF assms(3)]
  by (cases v) (auto simp: render_array comp_def split_def simp del: render.simps(6-))

lemma Count_tree:
  assumes "wf_val v" and "json_ws w" and "json_ws s"
  shows "applyCount env (w @ render v @ s) a = render (tree_count v)"
  unfolding applyCount_def Let_def doc_node [OF assms]
  using entries_array [of _ _ s env] entries_object [of _ _ s env] assms(1) ws_after(1) [OF assms(3)]
  by (cases v) auto

lemma render_not_empty: "wf_val v \<Longrightarrow> \<not> IsEmpty (render v)"
  using render_head [of v] starts_value_visible IsEmpty_no_visible by (metis list.set_intros(1))

lemma First_tree:
  assumes "wf_val v" and "json_ws w" and "json_ws s"
  shows "applyFirst env (w @ render v @ s) a = render (tree_first v)"
proof (cases v)
  case (JArr u es)
  then have "wf_val (hd (elems_of es))" if "elems_of es \<noteq> []" using wf_parts(1) [of u es] assms(1) that by (cases "elems_of es") auto
  with JArr show ?thesis
    unfolding applyFirst_def Let_def doc_node [OF assms]
    using entries_array [of u es s env] assms(1) ws_after(1) [OF assms(3)]
    by (cases "elems_of es") (auto simp: IsEmpty_Nil render_not_empty simp del: render.simps(6-))
qed (unfold applyFirst_def Let_def doc_node [OF assms], simp_all)

lemma Last_tree:
  assumes "wf_val v" and "json_ws w" and "json_ws s"
  shows "applyLast env (w @ render v @ s) a = render (tree_last v)"
proof (cases v)
  case (JArr u es)
  have last: "foldl (\<lambda>_ (_, v). raw v) r xs = (if xs = [] then r else raw (snd (last xs)))"
    for r and xs :: "('a Context \<times> 'b Context) list"
    by (induction xs arbitrary: r) auto
  have "wf_val (last (elems_of es))" if "elems_of es \<noteq> []"
    using wf_parts(1) [of u es] assms(1) JArr that by (auto simp: list_all_iff)
  with JArr show ?thesis
    unfolding applyLast_def Let_def doc_node [OF assms] last
    using entries_array [of u es s env] assms(1) ws_after(1) [OF assms(3)]
    by (auto simp: IsEmpty_Nil render_not_empty last_map enumerate_eq_zip last_zip simp del: render.simps(6-))
qed (unfold applyLast_def Let_def doc_node [OF assms], simp_all)

text \<open>The merge collects the first spellings and the last values.\<close>

lemma objects_entries: "list_all wf_val vs \<Longrightarrow>
    concat (map (Foreach env) (filter IsObject (map (value_of env) vs))) =
      map (\<lambda>(k, v). (key_value env k, value_of env v)) (objects_members vs)"
proof (induction vs)
  case (Cons v vs)
  then show ?case
    using entries_object [of _ _ "[]" env] node_kind(2) [of env v "[]"] by (cases v) (auto simp: node_of_value)
qed simp

lemma last_values_Cons: "last_values ((k, v) # ms) = [unescape k \<mapsto> v] ++ last_values ms"
  by (simp add: last_values_def)

lemma merge_fold:
  assumes "\<And>k. keyVal k \<noteq> None \<longleftrightarrow> k \<in> set seen"
  shows "foldl (merge_member env) (keys, keyVal) (map (\<lambda>(k, v). (key_value env k, value_of env v)) ms) =
    (keys @ map (key_value env) (first_keys seen ms), keyVal ++ (map_option (value_of env) \<circ> last_values ms))"
  using assms
proof (induction ms arbitrary: keys keyVal seen)
  case Nil
  then show ?case by (auto simp: last_values_def fun_eq_iff map_add_def)
next
  case (Cons m ms)
  obtain k v where m: "m = (k, v)" by (cases m)
  have upd: "keyVal ++ (map_option (value_of env) \<circ> last_values (m # ms)) =
      keyVal(unescape k \<mapsto> value_of env v) ++ (map_option (value_of env) \<circ> last_values ms)"
    by (auto simp: m last_values_Cons fun_eq_iff map_add_def split: option.splits)
  define seen' where "seen' = (if unescape k \<in> set seen then seen else unescape k # seen)"
  have "(keyVal(unescape k \<mapsto> value_of env v)) x \<noteq> None \<longleftrightarrow> x \<in> set seen'" for x
    using Cons.prems [of x] by (auto simp: seen'_def)
  note step = Cons.IH [OF this]
  have new: "keyVal (unescape k) = None \<longleftrightarrow> unescape k \<notin> set seen" using Cons.prems by blast
  show ?case
    unfolding upd by (simp add: m Let_def new step) (auto simp: seen'_def fun_upd_def comp_def)
qed

lemma first_keys_image: "unescape ` set (first_keys seen ms) = unescape ` fst ` set ms - set seen"
  by (induction seen ms rule: first_keys.induct) auto

lemma last_values_dom: "dom (last_values ms) = unescape ` fst ` set ms"
  by (simp add: last_values_def dom_map_of_conv_image_fst image_image)

lemma first_keys_valued: "k \<in> set (first_keys seen ms) \<Longrightarrow> last_values ms (unescape k) \<noteq> None"
  using first_keys_image [of seen ms] last_values_dom [of ms] by blast

lemma Merge_tree:
  assumes "wf_val (JArr u es)" and "json_ws w" and "json_ws s" and "\<not> flag_option env a ''preserve''"
  shows "applyMerge env (w @ render (JArr u es) @ s) a = render (tree_merge (JArr u es))"
proof -
  define ms where "ms = objects_members (elems_of es)"
  have "map snd (Foreach env (node_of env (JArr u es) s)) = map (value_of env) (elems_of es)"
    using entries_values [of u es s "\<lambda>v. v" env] assms(1) ws_after(1) [OF assms(3)] by (simp add: case_prod_unfold)
  then have "concat (map (Foreach env) (filter IsObject (map snd (Foreach env (node_of env (JArr u es) s))))) =
      map (\<lambda>(k, v). (key_value env k, value_of env v)) ms"
    using objects_entries wf_parts(1) [OF assms(1)] unfolding ms_def by metis
  moreover have "foldl (merge_member env) ([], Map.empty) (map (\<lambda>(k, v). (key_value env k, value_of env v)) ms) =
      (map (key_value env) (first_keys [] ms), map_option (value_of env) \<circ> last_values ms)"
    using merge_fold [of Map.empty "[]" env "[]" ms] by simp
  moreover have "(case (map_option (value_of env) \<circ> last_values ms) (unescape k) of Some v \<Rightarrow> raw v | None \<Rightarrow> []) =
      render (the (last_values ms (unescape k)))" if "k \<in> set (first_keys [] ms)" for k
    using first_keys_valued [OF that] by auto
  ultimately show ?thesis
    unfolding applyMerge_def Let_def doc_node [OF assms(1-3)] using assms(4)
    by (simp add: render_object merged_members_def ms_def [symmetric] case_prod_unfold del: render.simps cong: map_cong)
qed

lemma objects_wf: "list_all wf_val vs \<Longrightarrow> list_all (\<lambda>(k, v). json_chars k \<and> wf_val v) (objects_members vs)"
proof (induction vs)
  case (Cons v vs)
  then show ?case using wf_parts(2) by (cases v) auto
qed simp

lemma first_keys_set: "set (first_keys seen ms) \<subseteq> fst ` set ms"
  by (induction seen ms rule: first_keys.induct) auto

lemma last_values_mem: "last_values ms x = Some v \<Longrightarrow> v \<in> snd ` set ms"
  by (force simp: last_values_def dest: map_of_SomeD)

lemma merged_wf:
  assumes "list_all (\<lambda>(k, v). json_chars k \<and> wf_val v) ms"
  shows "list_all (\<lambda>(k, v). json_chars k \<and> wf_val v) (merged_members ms)"
proof -
  have "json_chars k \<and> wf_val (the (last_values ms (unescape k)))" if k: "k \<in> set (first_keys [] ms)" for k
  proof
    show "json_chars k" using k first_keys_set [of "[]" ms] assms by (force simp: list_all_iff)
    obtain v where v: "last_values ms (unescape k) = Some v" using first_keys_valued [OF k] by blast
    with last_values_mem [OF v] assms show "wf_val (the (last_values ms (unescape k)))" by (force simp: list_all_iff)
  qed
  then show ?thesis by (auto simp: merged_members_def list_all_iff)
qed

lemma merged_lookup: "map_of (map (\<lambda>(k, v). (unescape k, v)) (merged_members ms)) x = last_values ms x"
proof -
  define g where "g = (\<lambda>x. the (last_values ms x))"
  have "map_of (map (\<lambda>k. (unescape k, g (unescape k))) ks) x = (if x \<in> unescape ` set ks then Some (g x) else None)" for ks
    by (induction ks) auto
  moreover have "last_values ms x = None \<longleftrightarrow> x \<notin> unescape ` set (first_keys [] ms)"
    using last_values_dom [of ms] first_keys_image [of "[]" ms] by (auto simp: domIff)
  ultimately show ?thesis by (auto simp: merged_members_def comp_def g_def)
qed

lemma first_keys_distinct: "distinct (map unescape (first_keys seen ms))"
  using first_keys_image by (induction seen ms rule: first_keys.induct) auto

end
