(* ===== verification/FjPipeline.thy ===== *)
theory FjPipeline
  imports FjRewrite
begin

text \<open>
  The flattening of arrays, the registered transformers as rewritings of trees, and the paths that
  call one after the other.
\<close>

section \<open>Flattening\<close>

text \<open>The elements of an inner array keep the white space between them, not the white space around them.\<close>

fun strip_end :: "jelems \<Rightarrow> jelems" where
  "strip_end ENil = ENil"
| "strip_end (ECons w1 v w2 es) = (if es = ENil then ECons w1 v [] ENil else ECons w1 v w2 (strip_end es))"

fun strip :: "jelems \<Rightarrow> jelems" where
  "strip ENil = ENil"
| "strip (ECons w1 v w2 es) = strip_end (ECons [] v w2 es)"

fun append_elems :: "jelems \<Rightarrow> jelems \<Rightarrow> jelems" where
  "append_elems ENil es = es"
| "append_elems (ECons w1 v w2 es') es = ECons w1 v w2 (append_elems es' es)"

fun flat :: "bool \<Rightarrow> jval \<Rightarrow> jelems"
  and flats :: "bool \<Rightarrow> jelems \<Rightarrow> jelems" where
  "flat deep (JArr w es) = (if deep then flats deep es else strip es)"
| "flat deep v = array_of [v]"
| "flats deep ENil = ENil"
| "flats deep (ECons w1 v w2 es) = append_elems (flat deep v) (flats deep es)"

fun tree_flatten :: "bool \<Rightarrow> jval \<Rightarrow> jval" where
  "tree_flatten deep (JArr w es) = JArr [] (flats deep es)"
| "tree_flatten deep v = v"

text \<open>The elements: those of the inner arrays in their place, at the first or at every level.\<close>

fun spread :: "jval \<Rightarrow> jval list"
  and spreads :: "jelems \<Rightarrow> jval list" where
  "spread (JArr w es) = spreads es"
| "spread v = [v]"
| "spreads ENil = []"
| "spreads (ECons w1 v w2 es) = spread v @ spreads es"

definition open_array :: "jval \<Rightarrow> jval list" where
  "open_array v = (case v of JArr w es \<Rightarrow> elems_of es | _ \<Rightarrow> [v])"

lemma strip_end_facts [simp]: "elems_of (strip_end es) = elems_of es" "strip_end es = ENil \<longleftrightarrow> es = ENil"
    "wf_elems es \<Longrightarrow> wf_elems (strip_end es)"
  by (induction es rule: strip_end.induct) auto

lemma strip_facts [simp]: "elems_of (strip es) = elems_of es" "strip es = ENil \<longleftrightarrow> es = ENil"
    "wf_elems es \<Longrightarrow> wf_elems (strip es)"
  by (cases es; simp)+

lemma append_elems_facts [simp]: "elems_of (append_elems a b) = elems_of a @ elems_of b"
    "append_elems a b = ENil \<longleftrightarrow> a = ENil \<and> b = ENil" "wf_elems (append_elems a b) \<longleftrightarrow> wf_elems a \<and> wf_elems b"
    "append_elems a ENil = a"
  by (induction a b rule: append_elems.induct) auto

lemma render_append: "render_elems (append_elems a b) =
    (if a = ENil then render_elems b else if b = ENil then render_elems a else render_elems a @ CHR '','' # render_elems b)"
  by (induction a b rule: append_elems.induct) (auto simp: comma_before_def)

lemma flat_wf: "wf_val v \<Longrightarrow> wf_elems (flat deep v)" "wf_elems es \<Longrightarrow> wf_elems (flats deep es)"
  by (induction deep v and deep es rule: flat_flats.induct) auto

lemma flat_elems: "elems_of (flat True v) = spread v" "elems_of (flats True es) = spreads es"
  by (induction v and es rule: spread_spreads.induct) auto

lemma flats_open: "elems_of (flats False es) = concat (map open_array (elems_of es))"
proof (induction "elems_of es" arbitrary: es)
  case Nil
  then show ?case by (cases es) simp_all
next
  case (Cons u us)
  then obtain w1 w2 es' where es: "es = ECons w1 u w2 es'" by (cases es) simp_all
  with Cons.hyps(1) [of es'] Cons.hyps(2) show ?case by (cases u) (simp_all add: open_array_def)
qed

text \<open>The text between the brackets of an array without the white space at its ends.\<close>

lemma drop_space_end_stop: "visible c \<Longrightarrow> drop_space_end (c # s) = None"
  by (cases s; cases "tl s") (auto simp: visible_def byte_is_def split: if_splits)

lemma is_ws_drop: "is_ws c \<Longrightarrow> drop_space (c # s) = Some s" "is_ws c \<Longrightarrow> drop_space_end (c # s) = Some s"
  by (auto simp: is_ws_def byte_is_def)

lemma TrimLeftSpace_ws: "json_ws w \<Longrightarrow> TrimLeftSpace (w @ s) = TrimLeftSpace s"
proof (induction w)
  case (Cons c w)
  then show ?case using is_ws_drop(1) [of c "w @ s"] by (subst TrimLeftSpace.simps) (simp add: json_ws_def del: drop_space.simps)
qed simp

lemma trim_end_ws: "list_all is_ws w \<Longrightarrow> trim_end (w @ s) = trim_end s"
proof (induction w)
  case (Cons c w)
  then show ?case using is_ws_drop(2) [of c "w @ s"] by (subst trim_end.simps) (simp del: drop_space_end.simps)
qed simp

lemma TrimSpace_core:
  assumes "json_ws w" and "json_ws w'" and "visible a" and "core = a # s" and "visible b" and "core = t @ [b]"
  shows "TrimSpace (w @ core @ w') = core"
proof -
  have "TrimLeftSpace (w @ core @ w') = core @ w'"
    using drop_space_visible [OF assms(3)] by (simp add: TrimLeftSpace_ws [OF assms(1)] TrimLeftSpace_id assms(4) del: drop_space.simps)
  moreover have "trim_end (rev w' @ rev core) = trim_end (rev core)" using assms(2) by (intro trim_end_ws) (simp add: json_ws_def)
  moreover have "trim_end (rev core) = rev core"
    using drop_space_end_stop [OF assms(5)] by (subst trim_end.simps) (simp add: assms(6) del: drop_space_end.simps)
  ultimately show ?thesis by (simp add: TrimSpace_def)
qed

lemma TrimSpace_ws: "json_ws w \<Longrightarrow> TrimSpace w = []"
  using TrimLeftSpace_ws [of w "[]"] by (simp add: TrimSpace_def TrimLeftSpace_id trim_end.simps [of "[]"])

lemma number_last: "json_number n \<Longrightarrow> visible (last n) \<and> n \<noteq> []"
proof -
  assume n: "json_number n"
  then have "n \<noteq> []" using number_head by blast
  moreover from this have "number_char (last n)" using number_chars [OF n] by (simp add: list_all_iff)
  ultimately show ?thesis by (auto simp: number_char_def visible_def is_digit_def less_eq_char_def)
qed

lemma render_ends:
  assumes "wf_val v"
  shows "\<exists>a s. visible a \<and> render v = a # s" and "\<exists>b t. visible b \<and> render v = t @ [b]"
proof -
  show "\<exists>a s. visible a \<and> render v = a # s" using render_head [OF assms] starts_value_visible by blast
  show "\<exists>b t. visible b \<and> render v = t @ [b]"
  proof (cases v)
    case (JNum n)
    then show ?thesis using number_last [of n] assms by (metis append_butlast_last_id render.simps(1) wf_val.simps(1))
  qed (auto simp: visible_def append_eq_Cons_conv intro!: exI [of _ "butlast (render v)"])
qed

definition trim_ends :: "gostring \<Rightarrow> bool" where
  "trim_ends x \<longleftrightarrow> (\<exists>a s b t. visible a \<and> x = a # s \<and> visible b \<and> x = t @ [b])"

definition tidy :: "jelems \<Rightarrow> bool" where
  "tidy es \<longleftrightarrow> es = ENil \<or> trim_ends (render_elems es)"

lemma trim_ends_render: "wf_val v \<Longrightarrow> trim_ends (render v)"
  using render_ends [of v] unfolding trim_ends_def by metis

lemma trim_ends_append: "trim_ends x \<Longrightarrow> trim_ends y \<Longrightarrow> trim_ends (x @ m @ y)"
proof -
  assume "trim_ends x" "trim_ends y"
  then obtain a s b t where "visible a" "x = a # s" "visible b" "y = t @ [b]" unfolding trim_ends_def by blast
  then have "visible a \<and> x @ m @ y = a # (s @ m @ y) \<and> visible b \<and> x @ m @ y = (x @ m @ t) @ [b]" by simp
  then show ?thesis unfolding trim_ends_def by blast
qed

lemma trim_ends_TrimSpace: "json_ws w \<Longrightarrow> json_ws w' \<Longrightarrow> trim_ends x \<Longrightarrow> TrimSpace (w @ x @ w') = x"
  unfolding trim_ends_def using TrimSpace_core by blast

lemma tidy_append: "tidy a \<Longrightarrow> tidy b \<Longrightarrow> tidy (append_elems a b)"
  using trim_ends_append [of "render_elems a" "render_elems b" "'',''"] by (auto simp: tidy_def render_append)

lemma tidy_TrimSpace: "tidy es \<Longrightarrow> TrimSpace (render_elems es) = render_elems es"
  using trim_ends_TrimSpace [of "[]" "[]" "render_elems es"] TrimSpace_ws [of "[]"] by (auto simp: tidy_def)

lemma tidy_text: "tidy es \<Longrightarrow> render_elems es = [] \<longleftrightarrow> es = ENil"
  by (auto simp: tidy_def trim_ends_def)

lemma tidy_single: "wf_val v \<Longrightarrow> tidy (array_of [v])"
  using trim_ends_render [of v] by (simp add: tidy_def array_of.simps comma_before_def)

lemma strip_end_text: "wf_elems es \<Longrightarrow> es \<noteq> ENil \<Longrightarrow>
    \<exists>w. json_ws w \<and> render_elems es = render_elems (strip_end es) @ w \<and> (\<exists>b t. visible b \<and> render_elems (strip_end es) = t @ [b])"
proof (induction es rule: strip_end.induct)
  case (2 w1 v w2 es)
  show ?case
  proof (cases "es = ENil")
    case True
    with 2(2) render_ends(2) [of v] show ?thesis by (auto simp: comma_before_def)
  next
    case False
    with 2 obtain w b t where "json_ws w" "render_elems es = render_elems (strip_end es) @ w" "visible b"
      "render_elems (strip_end es) = t @ [b]" by auto
    with False show ?thesis by (auto simp: comma_before_def)
  qed
qed simp

lemma strip_text:
  assumes "wf_elems es" and "es \<noteq> ENil"
  shows "\<exists>w w'. json_ws w \<and> json_ws w' \<and> render_elems es = w @ render_elems (strip es) @ w' \<and> trim_ends (render_elems (strip es))"
proof -
  obtain w1 v w2 es' where es: "es = ECons w1 v w2 es'" using assms(2) by (cases es) auto
  with assms(1) strip_end_text [of "ECons [] v w2 es'"] obtain w b t where
    e: "json_ws w" "render_elems (ECons [] v w2 es') = render_elems (strip es) @ w" "visible b" "render_elems (strip es) = t @ [b]"
    by auto
  obtain a s where a: "visible a" "render v = a # s" using render_ends(1) [of v] assms(1) es by auto
  then have "\<exists>s. render_elems (strip es) = a # s" unfolding es by (cases "es' = ENil") simp_all
  with a(1) e(3,4) have "trim_ends (render_elems (strip es))" unfolding trim_ends_def by metis
  moreover have "render_elems es = w1 @ render_elems (strip es) @ w" using e(2) by (simp add: es)
  ultimately show ?thesis using e(1) assms(1) es by auto
qed

lemma inner_text:
  assumes "wf_val (JArr w es)"
  shows "TrimSpace (w @ render_elems es) = render_elems (strip es)" and "tidy (strip es)"
proof -
  show "tidy (strip es)" using strip_text [of es] assms by (cases "es = ENil") (auto simp: tidy_def)
  show "TrimSpace (w @ render_elems es) = render_elems (strip es)"
  proof (cases "es = ENil")
    case True
    with assms show ?thesis by (simp add: TrimSpace_ws)
  next
    case False
    then obtain w1 w2 where "json_ws w1" "json_ws w2" "render_elems es = w1 @ render_elems (strip es) @ w2"
      "trim_ends (render_elems (strip es))" using strip_text [of es] assms by auto
    with False assms trim_ends_TrimSpace show ?thesis by simp
  qed
qed

lemma flat_tidy: "wf_val v \<Longrightarrow> tidy (flat deep v)" "wf_elems es \<Longrightarrow> tidy (flats deep es)"
proof (induction deep v and deep es rule: flat_flats.induct)
  case (1 deep w es)
  then show ?case using inner_text(2) by auto
qed (auto simp: tidy_single tidy_append, simp add: tidy_def)

lemma flats_text: "wf_elems es \<Longrightarrow>
    render_elems (flats deep es) = Join (filter (\<lambda>s. s \<noteq> []) (map (render_elems \<circ> flat deep) (elems_of es))) '',''"
proof (induction "elems_of es" arbitrary: es)
  case Nil
  then show ?case by (cases es) simp_all
next
  case (Cons u us)
  then obtain w1 w2 es' where es: "es = ECons w1 u w2 es'" by (cases es) simp_all
  define rest where "rest = filter (\<lambda>s. s \<noteq> []) (map (render_elems \<circ> flat deep) (elems_of es'))"
  have wf: "wf_val u" "wf_elems es'" using Cons.prems es by simp_all
  have IH: "render_elems (flats deep es') = Join rest '',''" using Cons.hyps es wf(2) by (simp add: rest_def)
  have "rest = [] \<longleftrightarrow> flats deep es' = ENil"
  proof
    assume "rest = []"
    then show "flats deep es' = ENil" using IH tidy_text [OF flat_tidy(2) [OF wf(2)]] by simp
  next
    assume "flats deep es' = ENil"
    then have "Join rest '','' = []" using IH by simp
    moreover have "list_all (\<lambda>x. x \<noteq> []) rest" by (auto simp: rest_def list_all_iff)
    moreover have "x \<noteq> [] \<Longrightarrow> Join (x # xs) '','' \<noteq> []" for x xs by (cases xs) simp_all
    ultimately show "rest = []" by (cases rest) auto
  qed
  with IH show ?case
    using tidy_text [OF flat_tidy(1) [OF wf(1)], of deep]
    by (cases "rest = []") (simp_all add: es render_append rest_def [symmetric] Join_Cons)
qed

lemma trimOuterBrackets_array: "trimOuterBrackets (CHR ''['' # s @ '']'') = s"
proof -
  have "\<not> IsEmpty (CHR ''['' # s @ '']'')" by (rule IsEmpty_no_visible [of "CHR ''[''"]) (simp_all add: visible_def)
  then show ?thesis by (simp add: trimOuterBrackets_def str_Trim_def butlast_append)
qed

lemma Flatten_tree:
  fixes env :: "'f fj_env"
  shows "wf_val (JArr u es) \<Longrightarrow> json_ws w \<Longrightarrow> json_ws s \<Longrightarrow>
    applyFlatten env (w @ render (JArr u es) @ s) a = render (tree_flatten (flag_option env a ''deep'') (JArr u es))"
proof (induction "size es" arbitrary: u es w s rule: less_induct)
  case less
  define deep where "deep = flag_option env a ''deep''"
  have piece: "TrimSpace (if IsArray (value_of env v) then
        trimOuterBrackets (if deep then applyFlatten env (render v) a else render v) else render v) = render_elems (flat deep v)"
    if v: "v \<in> set (elems_of es)" for v
  proof (cases v)
    case (JArr u' es')
    have wf: "wf_val v" using less.prems(1) v elems_wf by auto
    have "size es' < size es" using elems_size [OF v] by (simp add: JArr)
    from less.hyps [OF this, of u' "[]" "[]"] wf
    have "deep \<Longrightarrow> applyFlatten env (render v) a = CHR ''['' # render_elems (flats deep es') @ '']''"
      by (simp add: JArr deep_def)
    with wf inner_text(1) [of u' es'] trimOuterBrackets_array [of "u' @ render_elems es'"]
      trimOuterBrackets_array [of "render_elems (flats True es')"] tidy_TrimSpace [OF flat_tidy(2), of es' True]
    show ?thesis using node_kind(1) [of env v "[]"] by (cases deep) (simp_all add: JArr node_of_value)
  next
  qed (use v less.prems(1) elems_wf tidy_TrimSpace [OF tidy_single] node_kind(1) [of env v "[]"] in
        \<open>fastforce simp: node_of_value array_of.simps comma_before_def\<close>)+
  define f where "f = (\<lambda>v :: 'f Context. TrimSpace (if IsArray v then
      trimOuterBrackets (if deep then applyFlatten env (raw v) a else raw v) else raw v))"
  have f: "f (value_of env v) = (render_elems \<circ> flat deep) v" if "v \<in> set (elems_of es)" for v
    using piece [OF that] by (simp only: f_def raw_simps comp_apply)
  have "map (\<lambda>(key, v). f v) (Foreach env (node_of env (JArr u es) s)) = map (render_elems \<circ> flat deep) (elems_of es)"
    using entries_values [of u es s f env] less.prems(1) ws_after(1) [OF less.prems(3)] f by simp
  then show ?case
    unfolding applyFlatten.simps [of env "w @ render (JArr u es) @ s"] Let_def doc_node [OF less.prems] deep_def [symmetric]
    using flats_text [of es deep] less.prems(1) by (simp add: array_text_def f_def)
qed

section \<open>Transformers as rewritings\<close>

lemma digits_no_zero: "0 < n \<Longrightarrow> hd (digits n) \<noteq> CHR ''0''"
proof (induction n rule: digits.induct)
  case (1 n)
  show ?case
  proof (cases "n < 10")
    case True
    then have "byte_val (char_of (48 + n) :: byte) = 48 + n" by simp
    with True 1(2) show ?thesis by (subst digits.simps) (auto simp del: of_char_of)
  next
    case False
    then have "hd (digits (n div 10)) \<noteq> CHR ''0''" using 1(1) by simp
    with False show ?thesis using digits_facts [of "n div 10"] by (subst digits.simps) (simp add: hd_append)
  qed
qed

lemma json_number_itoa: "json_number (itoa (int n))"
proof -
  have d: "digits n \<noteq> []" "list_all is_dec (digits n)" using digits_facts by blast+
  then have "digits1 (digits n)" by (auto simp: digits1_def list_all_iff is_dec_def is_digit_def less_eq_char_def)
  moreover have "length (digits n) = 1" if "hd (digits n) = CHR ''0''"
    using that digits_no_zero [of n] by (cases "n = 0") (simp_all add: digits.simps [of 0])
  ultimately have "json_int (digits n)" by (simp add: json_int_def)
  then show ?thesis
    unfolding json_number_def
    by (intro exI [of _ "[]"] exI [of _ "digits n"]) (simp add: itoa_def json_frac_def json_exp_def)
qed

lemma wf_member: "wf_members ms \<Longrightarrow> (k, v) \<in> set (members_of ms) \<Longrightarrow> json_chars k" "wf_members ms \<Longrightarrow> (k, v) \<in> set (members_of ms) \<Longrightarrow> wf_val v"
  using members_all by (auto simp: list_all_iff)

lemma json_number_zero: "json_number ''0''"
proof -
  have "itoa (int 0) = ''0''" by code_simp
  with json_number_itoa [of 0] show ?thesis by simp
qed

lemma not_an_array:
  assumes "wf_val v" and "json_ws w" and "json_ws s" and "\<And>u es. v \<noteq> JArr u es"
  shows "applyFlatten env (w @ render v @ s) a = w @ render v @ s" and "applyMerge env (w @ render v @ s) a = w @ render v @ s"
  unfolding applyFlatten.simps [of env "w @ render v @ s"] applyMerge_def Let_def doc_node [OF assms(1-3)]
  using assms(4) by (cases v; simp)+

interpretation reverse_rewrite: json_rewrite "\<lambda>json. applyReverse env json a" tree_reverse
proof unfold_locales
  fix v w s
  assume v: "wf_val v"
  show "wf_val (tree_reverse v)" using v wf_parts by (cases v) (auto simp: list_all_iff)
  assume "json_ws w" "json_ws s"
  with v Reverse_tree [OF v this, of env a]
  show "\<exists>w' s'. json_ws w' \<and> json_ws s' \<and> applyReverse env (w @ render v @ s) a = w' @ render (tree_reverse v) @ s'"
    by (cases "is_container v") (auto intro: exI [of _ "[]"], cases v, auto)
qed

interpretation keys_rewrite: json_rewrite "\<lambda>json. applyKeys env json a" tree_keys
proof (rule json_rewriteI)
  show "wf_val (tree_keys v)" if "wf_val v" for v using that wf_member by (cases v) (auto simp: list_all_iff)
qed (rule Keys_tree)

interpretation count_rewrite: json_rewrite "\<lambda>json. applyCount env json a" tree_count
proof (rule json_rewriteI)
  show "wf_val (tree_count v)" if "wf_val v" for v using that json_number_itoa json_number_zero by (cases v) simp_all
qed (rule Count_tree)

interpretation first_rewrite: json_rewrite "\<lambda>json. applyFirst env json a" tree_first
proof (rule json_rewriteI)
  show "wf_val (tree_first v)" if "wf_val v" for v using that wf_parts(1) by (cases v) (auto simp: list_all_iff split: list.splits)
qed (rule First_tree)

interpretation last_rewrite: json_rewrite "\<lambda>json. applyLast env json a" tree_last
proof (rule json_rewriteI)
  show "wf_val (tree_last v)" if "wf_val v" for v using that wf_parts(1) by (cases v) (auto simp: list_all_iff)
qed (rule Last_tree)

interpretation values_rewrite: json_rewrite "\<lambda>json. applyValues env json a" tree_values
proof unfold_locales
  fix v w s
  assume v: "wf_val v"
  show "wf_val (tree_values v)" using v wf_member by (cases v) (auto simp: list_all_iff)
  assume "json_ws w" "json_ws s"
  with Values_tree [OF v this, of env a]
  show "\<exists>w' s'. json_ws w' \<and> json_ws s' \<and> applyValues env (w @ render v @ s) a = w' @ render (tree_values v) @ s'"
    by (cases v) (auto intro: exI [of _ "[]"] simp del: render.simps)
qed

interpretation flatten_rewrite: json_rewrite "\<lambda>json. applyFlatten env json a" "tree_flatten (flag_option env a ''deep'')"
proof unfold_locales
  fix v w s
  assume v: "wf_val v"
  show "wf_val (tree_flatten (flag_option env a ''deep'') v)" using v flat_wf(2) by (cases v) auto
  assume ws: "json_ws w" "json_ws s"
  show "\<exists>w' s'. json_ws w' \<and> json_ws s' \<and>
      applyFlatten env (w @ render v @ s) a = w' @ render (tree_flatten (flag_option env a ''deep'') v) @ s'"
  proof (cases v)
    case (JArr u es)
    with Flatten_tree [of u es w s env a] v ws show ?thesis by (auto intro: exI [of _ "[]"] simp del: render.simps)
  qed (use not_an_array(1) [OF v ws, of env a] ws in auto)
qed

interpretation merge_rewrite: json_rewrite "\<lambda>json. applyMerge env json []" tree_merge
proof unfold_locales
  fix v w s
  assume v: "wf_val v"
  show "wf_val (tree_merge v)"
  proof (cases v)
    case (JArr u es)
    with v wf_parts(1) [of u es] objects_wf merged_wf show ?thesis by auto
  qed (use v in auto)
  assume ws: "json_ws w" "json_ws s"
  show "\<exists>w' s'. json_ws w' \<and> json_ws s' \<and> applyMerge env (w @ render v @ s) [] = w' @ render (tree_merge v) @ s'"
  proof (cases v)
    case (JArr u es)
    with Merge_tree [of u es w s env "[]"] v ws show ?thesis
      by (auto intro: exI [of _ "[]"] simp: flag_option_def IsEmpty_Nil simp del: render.simps)
  qed (use not_an_array(2) [OF v ws, of env "[]"] ws in auto)
qed

interpretation this_rewrite: json_rewrite "\<lambda>json. applyIdentity json a" "\<lambda>v. v"
  by unfold_locales (auto simp: applyIdentity_def)

section \<open>Paths of transformers\<close>

text \<open>\<open>@name.@name.key.key\<close>: the document goes through the transformers one after the other, and the keys
  lead into the result.\<close>

fun pipeline_path :: "gostring list \<Rightarrow> gostring list \<Rightarrow> gostring" where
  "pipeline_path [] ks = path_of ks"
| "pipeline_path (n # ns) ks = CHR ''@'' # n @ (if ns = [] \<and> ks = [] then [] else CHR ''.'' # pipeline_path ns ks)"

definition call_name :: "gostring \<Rightarrow> bool" where
  "call_name n \<longleftrightarrow> n \<noteq> [] \<and> list_all (\<lambda>c. c \<notin> set '':|.'') n"

lemma applyTransformerAt_name:
  assumes "call_name n" and "transformers env n = Some t" and "rest = [] \<or> (\<exists>r. rest = CHR ''.'' # r)"
  shows "applyTransformerAt env json (CHR ''@'' # n @ rest) = Some (rest, t json [])"
proof -
  define path where "path = CHR ''@'' # n @ rest"
  have "text_at path 1 n rest" by (simp add: path_def text_at_def)
  then have i: "skip_while (\<lambda>c. c \<notin> set '':|.'') path 1 = 1 + length n"
    by (rule skip_while_text) (use assms(1,3) in \<open>auto simp: call_name_def\<close>)
  have "slice path 1 (1 + length n) = n" "drop (1 + length n) path = rest"
    by (simp_all add: path_def slice_def)
  moreover have "\<not> (1 + length n < length path \<and> path ! (1 + length n) = CHR '':'')"
    using assms(3) by (auto simp: path_def nth_append)
  ultimately show ?thesis
    unfolding path_def [symmetric] applyTransformerAt_def i Let_def using assms(2) by auto
qed

lemma Get_within_call:
  assumes "call_name n" and "transformers env n = Some t" and "\<not> DisableTransformers env"
  shows "Get_within env (Suc fuel) json (CHR ''@'' # n) = Some (Parse env (t json []))"
    and "Get_within env (Suc fuel) json (CHR ''@'' # n @ CHR ''.'' # path) = Get_within env fuel (t json []) path"
proof -
  have "n \<noteq> []" using assms(1) by (simp add: call_name_def)
  then show "Get_within env (Suc fuel) json (CHR ''@'' # n) = Some (Parse env (t json []))"
    using applyTransformerAt_name [OF assms(1,2), of "[]" json] assms(3) by (simp add: get_body_def redirect_def)
  show "Get_within env (Suc fuel) json (CHR ''@'' # n @ CHR ''.'' # path) = Get_within env fuel (t json []) path"
    using applyTransformerAt_name [OF assms(1,2), of "CHR ''.'' # path" json] assms(3) \<open>n \<noteq> []\<close>
    by (simp add: get_body_def redirect_def)
qed

text \<open>A stage: a registered name with the function on trees that its transformer is.\<close>

definition stage :: "'f fj_env \<Rightarrow> (gostring \<Rightarrow> jval \<Rightarrow> jval) \<Rightarrow> gostring \<Rightarrow> bool" where
  "stage env f n \<longleftrightarrow> call_name n \<and> (\<exists>t. transformers env n = Some t \<and> json_rewrite (\<lambda>json. t json []) (f n))"

lemma pipeline_keys:
  assumes "\<not> DisableTransformers env" and "ks \<noteq> []" and "list_all (plain_key env) ks"
  shows "list_all (stage env f) ns \<Longrightarrow> wf_val v \<Longrightarrow> json_ws w \<Longrightarrow> json_ws s \<Longrightarrow> is_container (foldl (\<lambda>v n. f n v) v ns) \<Longrightarrow>
    2 * length (pipeline_path ns ks) + 2 \<le> fuel \<Longrightarrow>
    Get_within env fuel (w @ render v @ s) (pipeline_path ns ks) =
      Some (case lookup env (foldl (\<lambda>v n. f n v) v ns) ks of Some u \<Rightarrow> value_of env u | None \<Rightarrow> no_value env)"
proof (induction ns arbitrary: v w s fuel)
  case Nil
  with assms Get_within_tree [of v ks env w fuel s] show ?case by simp
next
  case (Cons n ns)
  then obtain t where t: "call_name n" "transformers env n = Some t" "json_rewrite (\<lambda>json. t json []) (f n)"
    by (auto simp: stage_def)
  obtain w' s' where r: "json_ws w'" "json_ws s'" "t (w @ render v @ s) [] = w' @ render (f n v) @ s'"
    using json_rewrite.on_document [OF t(3) Cons.prems(2-4)] by blast
  obtain m where m: "fuel = Suc m" using Cons.prems(6) by (cases fuel) auto
  have "wf_val (f n v)" by (rule json_rewrite.keeps_wf [OF t(3) Cons.prems(2)])
  with Cons.IH [of "f n v" w' s' m] Cons.prems r(1,2) Get_within_call(2) [OF t(1,2) assms(1)] assms(2) show ?case
    by (simp add: r(3) m)
qed

lemma pipeline_value:
  assumes "\<not> DisableTransformers env"
  shows "ns \<noteq> [] \<Longrightarrow> list_all (stage env f) ns \<Longrightarrow> wf_val v \<Longrightarrow> json_ws w \<Longrightarrow> json_ws s \<Longrightarrow>
    length (pipeline_path ns []) < fuel \<Longrightarrow>
    \<exists>s'. json_ws s' \<and> Get_within env fuel (w @ render v @ s) (pipeline_path ns []) =
      Some (node_of env (foldl (\<lambda>v n. f n v) v ns) s')"
proof (induction ns arbitrary: v w s fuel)
  case (Cons n ns)
  then obtain t where t: "call_name n" "transformers env n = Some t" "json_rewrite (\<lambda>json. t json []) (f n)"
    by (auto simp: stage_def)
  obtain w' s' where r: "json_ws w'" "json_ws s'" "t (w @ render v @ s) [] = w' @ render (f n v) @ s'"
    using json_rewrite.on_document [OF t(3) Cons.prems(3-5)] by blast
  obtain m where m: "fuel = Suc m" using Cons.prems(6) by (cases fuel) auto
  have wf: "wf_val (f n v)" by (rule json_rewrite.keeps_wf [OF t(3) Cons.prems(3)])
  show ?case
  proof (cases "ns = []")
    case True
    with Get_within_call(1) [OF t(1,2) assms, of m] doc_node [OF wf r(1,2), of env] r(2) show ?thesis
      by (auto simp: r(3) m)
  next
    case False
    with Cons.IH [of "f n v" w' s' m] Cons.prems r(1,2) wf Get_within_call(2) [OF t(1,2) assms] show ?thesis
      by (simp add: r(3) m)
  qed
qed simp

text \<open>The registered transformers that rewrite every document.\<close>

definition tree_rewrites :: "(gostring \<times> (jval \<Rightarrow> jval)) list" where
  "tree_rewrites =
    [(''this'', \<lambda>v. v), (''reverse'', tree_reverse), (''keys'', tree_keys), (''values'', tree_values),
     (''count'', tree_count), (''first'', tree_first), (''last'', tree_last), (''join'', tree_merge),
     (''flatten'', tree_flatten False)]"

definition on_tree :: "gostring \<Rightarrow> jval \<Rightarrow> jval" where
  "on_tree n = (case map_of tree_rewrites n of Some f \<Rightarrow> f | None \<Rightarrow> (\<lambda>v. v))"

lemma no_flags: "flag_option env [] name = False"
  by (simp add: flag_option_def IsEmpty_Nil)

lemma registered_stages:
  assumes "n \<in> fst ` set tree_rewrites"
  shows "stage (env\<lparr> transformers := init_registry inner upper lower r \<rparr>) on_tree n"
proof -
  have "n = ''this'' \<or> n = ''reverse'' \<or> n = ''keys'' \<or> n = ''values'' \<or> n = ''count'' \<or> n = ''first'' \<or> n = ''last''
      \<or> n = ''join'' \<or> n = ''flatten''" using assms by (simp add: tree_rewrites_def)
  then show ?thesis
    by (elim disjE) (simp_all add: stage_def call_name_def init_registry_def init_transformers_def Register_transformer_def on_tree_def tree_rewrites_def
      this_rewrite.json_rewrite_axioms reverse_rewrite.json_rewrite_axioms keys_rewrite.json_rewrite_axioms
      values_rewrite.json_rewrite_axioms count_rewrite.json_rewrite_axioms first_rewrite.json_rewrite_axioms
      last_rewrite.json_rewrite_axioms merge_rewrite.json_rewrite_axioms
      flatten_rewrite.json_rewrite_axioms [of _ "[]", unfolded no_flags])
qed



end
