(* ===== verification/FjTransformProps.thy ===== *)
theory FjTransformProps
  imports FjPipeline
begin

text \<open>
  The transformers that select and combine: what \<open>filter\<close>, \<open>project\<close>, \<open>default\<close> and \<open>group\<close> do to the tree of
  a document, where the values of a merged, completed or flattened document come from, and that
  valid documents stay valid.
\<close>

section \<open>Filter\<close>

definition filter_test :: "'f fj_env \<Rightarrow> gostring \<Rightarrow> jval \<Rightarrow> bool" where
  "filter_test env a v =
    (let fieldVal = Get_value env (render v) (text_option env a ''key'');
         cmpVal = Parse env (case arg_option env a ''value'' of Some x \<Rightarrow> raw x | None \<Rightarrow> [])
     in Exists fieldVal \<and> matchesCondition env fieldVal cmpVal
          (case arg_option env a ''op'' of Some x \<Rightarrow> Context_String env x | None \<Rightarrow> ''eq''))"

fun tree_filter :: "'f fj_env \<Rightarrow> gostring \<Rightarrow> jval \<Rightarrow> jval" where
  "tree_filter env a (JArr w es) =
    (if IsEmpty (text_option env a ''key'') then JArr w es else new_array (filter (filter_test env a) (elems_of es)))"
| "tree_filter env a v = v"

lemma select_values: "map (\<lambda>(_, v). g v) (filter (\<lambda>(_, v). P v) xs) = map g (filter P (map snd xs))"
  by (induction xs) auto

lemma element_values: "wf_val (JArr u es) \<Longrightarrow> quiet_text t \<Longrightarrow>
    map snd (Foreach env (node_of env (JArr u es) t)) = map (value_of env) (elems_of es)"
  using entries_values [of u es t "\<lambda>v. v" env] by (simp add: case_prod_unfold)

lemma Filter_tree:
  assumes "wf_val v" and "json_ws w" and "json_ws s"
  shows "applyFilter env (w @ render v @ s) a =
    (case v of JArr _ _ \<Rightarrow> if IsEmpty (text_option env a ''key'') then w @ render v @ s else render (tree_filter env a v)
     | _ \<Rightarrow> w @ render v @ s)"
proof (cases v)
  case (JArr u es)
  with assms element_values [of u es s env] ws_after(1) [OF assms(3)] show ?thesis
    unfolding applyFilter_def Let_def doc_node [OF assms] select_values
    by (simp add: render_array filter_map comp_def filter_test_def [abs_def] Let_def del: render.simps)
qed (unfold applyFilter_def Let_def doc_node [OF assms], simp_all)

interpretation filter_rewrite: json_rewrite "\<lambda>json. applyFilter env json a" "tree_filter env a"
proof unfold_locales
  fix v w s
  assume v: "wf_val v"
  show "wf_val (tree_filter env a v)"
  proof (cases v)
    case (JArr u es)
    with v wf_parts(1) [of u es] show ?thesis by (auto simp: list_all_iff)
  qed (use v in auto)
  assume ws: "json_ws w" "json_ws s"
  show "\<exists>w' s'. json_ws w' \<and> json_ws s' \<and> applyFilter env (w @ render v @ s) a = w' @ render (tree_filter env a v) @ s'"
    using Filter_tree [OF v ws, of env a] ws
    by (cases v) (auto intro: exI [of _ "[]"] simp del: render.simps split: if_splits)
qed

section \<open>Project\<close>

text \<open>The picked members under their new names, which are written anew.\<close>

definition projected :: "gostring list \<times> (gostring \<rightharpoonup> gostring) \<Rightarrow> (gostring \<times> jval) list \<Rightarrow> (gostring \<times> jval) list" where
  "projected opts ms = (case opts of (pick, renames) \<Rightarrow>
    map (\<lambda>(k, v). (escape_body (case renames (unescape k) of Some new \<Rightarrow> new | None \<Rightarrow> unescape k), v))
      (filter (\<lambda>(k, _). pick = [] \<or> unescape k \<in> set pick) ms))"

fun tree_project :: "gostring list \<times> (gostring \<rightharpoonup> gostring) \<Rightarrow> jval \<Rightarrow> jval" where
  "tree_project opts (JObj w ms) = new_object (projected opts (members_of ms))"
| "tree_project opts v = v"

lemma Project_tree:
  assumes "wf_val v" and "json_ws w" and "json_ws s"
  shows "applyProject env (w @ render v @ s) a =
    (case v of JObj _ _ \<Rightarrow> render (tree_project (project_options env a) v) | _ \<Rightarrow> w @ render v @ s)"
proof (cases v)
  case (JObj u ms)
  obtain pick renames where o: "project_options env a = (pick, renames)" by (cases "project_options env a")
  from JObj assms entries_object [of u ms s env] ws_after(1) [OF assms(3)] show ?thesis
    unfolding applyProject_def Let_def doc_node [OF assms]
    by (simp add: o render_object projected_def filter_map comp_def case_prod_unfold quoted_def appendJSONString_def del: render.simps cong: option.case_cong)
qed (unfold applyProject_def Let_def doc_node [OF assms], simp_all)

interpretation project_rewrite: json_rewrite "\<lambda>json. applyProject env json a" "tree_project (project_options env a)"
proof unfold_locales
  fix v w s
  assume v: "wf_val v"
  show "wf_val (tree_project (project_options env a) v)"
  proof (cases v)
    case (JObj u ms)
    with v wf_member show ?thesis
      by (cases "project_options env a") (auto simp: projected_def list_all_iff json_chars_escape_body)
  qed (use v in auto)
  assume ws: "json_ws w" "json_ws s"
  show "\<exists>w' s'. json_ws w' \<and> json_ws s' \<and>
      applyProject env (w @ render v @ s) a = w' @ render (tree_project (project_options env a) v) @ s'"
    using Project_tree [OF v ws, of env a] ws
    by (cases v) (auto intro: exI [of _ "[]"] simp del: render.simps split: if_splits)
qed

section \<open>Default\<close>

text \<open>A member that is null gets the default of its name; the defaults of the missing names follow.\<close>

definition completed :: "(gostring \<times> jval) list \<Rightarrow> (gostring \<times> jval) list \<Rightarrow> (gostring \<times> jval) list" where
  "completed ds ms =
    map (\<lambda>(k, v). (k, if v = JNull then (case map_of (map (apfst unescape) ds) (unescape k) of Some d \<Rightarrow> d | None \<Rightarrow> JNull) else v)) ms
    @ filter (\<lambda>(k, _). unescape k \<notin> unescape ` fst ` set ms) ds"

lemma kind_null: "kind (value_of env v) = KNull \<longleftrightarrow> v = JNull"
  by (cases v) (simp_all add: value_of_def)

lemma value_exists: "wf_val v \<Longrightarrow> Exists (value_of env v)"
  using node_exists [of v env "[]"] by (simp add: node_of_value)

text \<open>The names of the null members are used as paths, so they must not have a character that means
  something there.\<close>

lemma Default_tree:
  fixes env :: "'f fj_env"
  assumes "wf_val (JObj u ms)" and "json_ws w" and "json_ws s"
    and "wf_val (JObj x ds)" and "json_ws w'" and "json_ws s'"
    and names: "\<And>k. (k, JNull) \<in> set (members_of ms) \<Longrightarrow> safe_key (unescape k)"
  shows "applyDefault env (w @ render (JObj u ms) @ s) (w' @ render (JObj x ds) @ s') =
    render (new_object (completed (members_of ds) (members_of ms)))"
proof -
  define d where "d = JObj x ds"
  have d: "is_container d" "wf_val d" using assms(4) by (simp_all add: d_def)
  have e: "\<not> IsEmpty (w' @ render d @ s')"
    using render_head [OF d(2)] starts_value_visible IsEmpty_no_visible
    by (metis Un_iff list.set_intros(1) set_append)
  have o: "IsObject (node_of env d s')" by (simp add: d_def)
  have raw: "raw (node_of env d s') = render d @ s'" by (simp add: d_def node_of_def json_value_of_def put_json_def)
  have look: "Get_value env (raw (node_of env d s')) (unescape k) =
      (case map_of (map (apfst unescape) (members_of ds)) (unescape k) of Some y \<Rightarrow> value_of env y | None \<Rightarrow> no_value env)"
    if "(k, JNull) \<in> set (members_of ms)" for k
  proof -
    have "lookup env d [unescape k] = map_of (map (apfst unescape) (members_of ds)) (unescape k)"
      by (simp add: d_def lookup_members_first apfst_def map_prod_def)
    with Get_tree [OF d(2,1), of "[unescape k]" env "[]" s'] safe_key_plain [OF names [OF that], of env]
      safe_key_escape [OF names [OF that]] show ?thesis
      unfolding raw Get_value_def by simp
  qed
  have kept: "(if kind (value_of env v) = KNull
      then (let dv = Get_value env (raw (node_of env d s')) (unescape k) in if Exists dv then raw dv else render v) else render v) =
      render (if v = JNull then (case map_of (map (apfst unescape) (members_of ds)) (unescape k) of Some y \<Rightarrow> y | None \<Rightarrow> JNull) else v)"
    if "(k, v) \<in> set (members_of ms)" for k v
  proof (cases "v = JNull")
    case True
    have "Exists (value_of env y)" if "map_of (map (apfst unescape) (members_of ds)) (unescape k) = Some y" for y
    proof -
      have "\<exists>k'. (k', y) \<in> set (members_of ds)" using map_of_SomeD [OF that] by force
      then have "wf_val y" using assms(4) wf_member(2) [of ds] by auto
      then show ?thesis by (rule value_exists)
    qed
    with True look [of k] that show ?thesis
      by (auto simp: kind_null no_value_def Exists_def split: option.splits)
  qed (simp add: kind_null)
  define F :: "'f Context \<times> 'f Context \<Rightarrow> gostring" where "F = (\<lambda>(key, v). member_text (raw key)
      (if kind v = KNull then
         (let dv = Get_value env (raw (node_of env d s')) (Context_String env key) in if Exists dv then raw dv else raw v)
       else raw v))"
  define G where "G = (\<lambda>(k, v). member_text (quoted k) (render v))"
  define fill where "fill = (\<lambda>(k, v). (k, if v = JNull
      then (case map_of (map (apfst unescape) (members_of ds)) (unescape k) of Some y \<Rightarrow> y | None \<Rightarrow> JNull) else v))"
  have "F (key_value env k, value_of env v) = G (fill (k, v))" if "(k, v) \<in> set (members_of ms)" for k v
    unfolding F_def G_def fill_def prod.case raw_simps by (simp only: kept [OF that])
  then have "map F (Foreach env (node_of env (JObj u ms) s)) = map (G \<circ> fill) (members_of ms)"
    using entries_object [OF assms(1) ws_after(1) [OF assms(3)], of env] by (auto simp: F_def)
  moreover have "map (\<lambda>(key, v). member_text (raw key) (raw v)) (filter (\<lambda>(key, _). Context_String env key \<notin>
        set (map (\<lambda>(key, _). Context_String env key) (Foreach env (node_of env (JObj u ms) s)))) (Foreach env (node_of env d s'))) =
      map G (filter (\<lambda>(k, _). unescape k \<notin> unescape ` fst ` set (members_of ms)) (members_of ds))"
    using entries_object [OF assms(1) ws_after(1) [OF assms(3)], of env] entries_object [OF assms(4) ws_after(1) [OF assms(6)], of env]
    by (simp add: d_def filter_map comp_def case_prod_unfold image_image G_def)
  ultimately show ?thesis
    unfolding applyDefault_def doc_node [OF assms(1-3)] doc_node [OF assms(4-6)] render_object completed_def
      G_def [symmetric] fill_def [symmetric] d_def [symmetric]
    using e o by (simp add: F_def Let_def doc_node [OF assms(4-6), folded d_def] del: render.simps)
qed

section \<open>Group\<close>

text \<open>The \<open>i\<close>-th object has the \<open>i\<close>-th elements of all arrays that are long enough, under their keys.\<close>

definition items :: "jval \<Rightarrow> jval list" where
  "items v = (case v of JArr w es \<Rightarrow> elems_of es | _ \<Rightarrow> [])"

definition column :: "nat \<Rightarrow> (gostring \<times> jval) list \<Rightarrow> (gostring \<times> jval) list" where
  "column i ms = map (\<lambda>(k, v). (k, items v ! i)) (filter (\<lambda>(k, v). i < length (items v)) ms)"

definition width :: "(gostring \<times> jval) list \<Rightarrow> nat" where
  "width ms = foldl (\<lambda>n (k, v). max n (length (items v))) 0 ms"

fun tree_group :: "jval \<Rightarrow> jval" where
  "tree_group (JObj w ms) = new_array (map (\<lambda>i. new_object (column i (members_of ms))) [0..<width (members_of ms)])"
| "tree_group v = v"

lemma add_pieces: "n \<le> length cs \<Longrightarrow> foldl add_piece cs (enumerate n ss) =
    map (\<lambda>i. (if i < length cs then cs ! i else []) @ (if n \<le> i \<and> i < n + length ss then ss ! (i - n) else []))
      [0..<max (length cs) (n + length ss)]"
proof (induction ss arbitrary: n cs)
  case Nil
  then show ?case by (intro nth_equalityI) auto
next
  case (Cons x ss)
  define cs' where "cs' = add_piece cs (n, x)"
  have l: "length cs' = max (length cs) (Suc n)" and
    e: "\<And>i. i < length cs' \<Longrightarrow> cs' ! i = (if i < length cs then cs ! i else []) @ (if i = n then x else [])"
    using Cons.prems by (auto simp: cs'_def add_piece_def Let_def nth_append)
  have "foldl add_piece cs (enumerate n (x # ss)) = foldl add_piece cs' (enumerate (Suc n) ss)" by (simp add: cs'_def)
  also have "\<dots> = map (\<lambda>i. (if i < length cs' then cs' ! i else []) @ (if Suc n \<le> i \<and> i < Suc n + length ss then ss ! (i - Suc n) else []))
      [0..<max (length cs') (Suc n + length ss)]" by (rule Cons.IH) (simp add: l)
  also have "\<dots> = map (\<lambda>i. (if i < length cs then cs ! i else []) @ (if n \<le> i \<and> i < n + length (x # ss) then (x # ss) ! (i - n) else []))
      [0..<max (length cs) (n + length (x # ss))]"
  proof (rule map_cong)
    show "[0..<max (length cs') (Suc n + length ss)] = [0..<max (length cs) (n + length (x # ss))]"
      using Cons.prems by (simp add: l max_def)
    fix i
    assume "i \<in> set [0..<max (length cs) (n + length (x # ss))]"
    consider "i = n" | "i < n" | "n < i" by linarith
    then show "(if i < length cs' then cs' ! i else []) @ (if Suc n \<le> i \<and> i < Suc n + length ss then ss ! (i - Suc n) else []) =
        (if i < length cs then cs ! i else []) @ (if n \<le> i \<and> i < n + length (x # ss) then (x # ss) ! (i - n) else [])"
      by cases (use Cons.prems in \<open>auto simp: l e nth_Cons' less_max_iff_disj\<close>)
  qed
  finally show ?case .
qed

definition piece :: "gostring \<times> jval \<Rightarrow> gostring" where
  "piece m = CHR '','' # member_text (quoted (fst m)) (render (snd m))"

lemma piece_columns:
  fixes env :: "'f fj_env"
  assumes "list_all (\<lambda>(k, v). json_chars k \<and> wf_val v) ms"
  shows "foldl (\<lambda>columns (key, v).
      if \<not> IsArray v then columns
      else foldl add_piece columns
        (enumerate 0 (map (\<lambda>(_, item). '','' @ member_text (raw key) (raw item)) (Foreach env v))))
      [] (map (\<lambda>(k, v). (key_value env k, value_of env v)) ms) =
    map (\<lambda>i. concat (map piece (column i ms))) [0..<width ms]"
  using assms
proof (induction ms rule: rev_induct)
  case Nil
  show ?case by (simp add: width_def)
next
  case (snoc m ms)
  obtain k v where m: "m = (k, v)" by (cases m)
  have c: "column i (ms @ [m]) = column i ms @ (if i < length (items v) then [(k, items v ! i)] else [])" for i
    by (simp add: m column_def)
  have w: "width (ms @ [m]) = max (width ms) (length (items v))" by (simp add: m width_def)
  have short: "width ms \<le> i \<Longrightarrow> column i ms = []" for i
  proof -
    have "list_all (\<lambda>(k, v). length (items v) \<le> foldl (\<lambda>n (k, v). max n (length (items v))) n xs) xs
        \<and> n \<le> foldl (\<lambda>n (k, v). max n (length (items v))) n xs" for n and xs :: "(gostring \<times> jval) list"
      by (induction xs rule: rev_induct) (auto simp: list_all_iff)
    then have "list_all (\<lambda>(k, v). length (items v) \<le> width ms) ms" by (auto simp: width_def)
    then show "width ms \<le> i \<Longrightarrow> column i ms = []" by (fastforce simp: column_def filter_empty_conv list_all_iff)
  qed
  show ?case
  proof (cases v)
    case (JArr u es)
    have "map (\<lambda>(_, item). '','' @ member_text (raw (key_value env k)) (raw item)) (Foreach env (value_of env v)) =
        map (\<lambda>x. piece (k, x)) (items v)"
      using entries_values [of u es "[]" "\<lambda>item. '','' @ member_text (raw (key_value env k)) (raw item)" env] snoc.prems
      by (simp add: m JArr node_of_value items_def piece_def)
    moreover have "IsArray (value_of env v)" using node_kind(1) [of env v "[]"] by (simp add: JArr node_of_value)
    ultimately show ?thesis
      using snoc by (simp add: m add_pieces w [unfolded m] c [unfolded m]) (auto simp: short not_less intro!: nth_equalityI)
  next
  qed (use snoc node_kind(1) [of env v "[]"] c w in \<open>simp_all add: m node_of_value items_def\<close>)
qed

lemma Group_tree:
  assumes "wf_val (JObj u ms)" and "json_ws w" and "json_ws s"
  shows "applyGroup env (w @ render (JObj u ms) @ s) a = render (tree_group (JObj u ms))" and "wf_val (tree_group (JObj u ms))"
proof -
  define kvs where "kvs = members_of ms"
  have wf: "list_all (\<lambda>(k, v). json_chars k \<and> wf_val v) kvs" using wf_parts(2) [OF assms(1)] by (simp add: kvs_def)
  have "tl (concat (map piece c)) = Join (map (\<lambda>(k, v). member_text (quoted k) (render v)) c) '',''" for c
  proof -
    have "concat (map piece (m # c)) = CHR '','' # Join (map (\<lambda>(k, v). member_text (quoted k) (render v)) (m # c)) '',''" for m c
      by (induction c arbitrary: m) (auto simp: piece_def Join_Cons case_prod_unfold)
    then show ?thesis by (cases c) simp_all
  qed
  then have "CHR ''{'' # tl (concat (map piece (column i kvs))) @ ''}'' = render (new_object (column i kvs))" for i
    by (simp add: render_object object_text_def del: render.simps)
  then show "applyGroup env (w @ render (JObj u ms) @ s) a = render (tree_group (JObj u ms))"
    unfolding applyGroup_def Let_def doc_node [OF assms]
    using piece_columns [OF wf, of env] entries_object [OF assms(1) ws_after(1) [OF assms(3)], of env]
    by (simp add: render_array comp_def kvs_def del: render.simps)
  have "wf_val (items v ! i)" if "wf_val v" "i < length (items v)" for v i
  proof (cases v)
    case (JArr w es)
    with that elems_wf [of es] show ?thesis by (simp add: items_def)
  qed (use that in \<open>simp_all add: items_def\<close>)
  with wf have "list_all (\<lambda>(k, v). json_chars k \<and> wf_val v) (column i kvs)" for i
    by (auto simp: column_def list_all_iff)
  then show "wf_val (tree_group (JObj u ms))" by (simp add: list_all_iff kvs_def)
qed

section \<open>Where the values come from\<close>


text \<open>C7: Flattening an array yields the elements with those of the inner arrays in their place, and with the
  option for it those of the arrays at every depth.\<close>

theorem Flatten_elements:
  assumes "wf_val (JArr u es)" and "json_ws w" and "json_ws s"
  shows "Array env (Parse env (applyFlatten env (w @ render (JArr u es) @ s) a)) =
    map (value_of env) (if flag_option env a ''deep'' then spreads es else concat (map open_array (elems_of es)))"
proof -
  define v where "v = tree_flatten (flag_option env a ''deep'') (JArr u es)"
  have doc: "applyFlatten env (w @ render (JArr u es) @ s) a = [] @ render v @ []" using Flatten_tree [OF assms] by (simp add: v_def)
  have v: "wf_val v" unfolding v_def by (rule flatten_rewrite.keeps_wf [OF assms(1)])
  show ?thesis
    unfolding doc doc_node [OF v ws_Nil ws_Nil]
    using v Array_tree [of "[]" "flats (flag_option env a ''deep'') es" env "[]"] by (simp add: v_def flat_elems flats_open)
qed

text \<open>C8: In an object completed by the defaults of another object, a plain name has the value that it had,
  unless that was null or missing: then it has the value that the defaults have for the name, if any.
  The names of the null members must be safe in a path.\<close>

theorem Default_fills:
  assumes "wf_val (JObj u ms)" and "json_ws w" and "json_ws s"
    and "wf_val (JObj x ds)" and "json_ws w'" and "json_ws s'"
    and "list_all (\<lambda>(k, v). v = JNull \<longrightarrow> safe_key (unescape k)) (members_of ms)" and "plain_key env k"
  defines "own \<equiv> lookup env (JObj u ms) [k]" and "given \<equiv> lookup env (JObj x ds) [k]"
  shows "Get env (applyDefault env (w @ render (JObj u ms) @ s) (w' @ render (JObj x ds) @ s')) (path_of [k]) =
    Some (case (if own = None \<or> own = Some JNull \<and> given \<noteq> None then given else own) of
        Some y \<Rightarrow> value_of env y | None \<Rightarrow> no_value env)"
proof -
  define key :: "gostring \<times> jval \<Rightarrow> gostring \<times> jval" where "key = (\<lambda>(k, v). (unescape k, v))"
  define ms' where "ms' = members_of ms"
  define ds' where "ds' = members_of ds"
  define v where "v = new_object (completed ds' ms')"
  have own: "own = map_of (map key ms') k" and given: "given = map_of (map key ds') k"
    by (simp_all add: own_def given_def lookup_members_first key_def ms'_def ds'_def)
  have key: "apfst unescape = key" by (simp add: key_def fun_eq_iff)
  have fill: "map_of (map (\<lambda>p. (unescape (fst p), g (unescape (fst p)) (snd p))) xs) k = map_option (g k) (map_of (map key xs) k)" for g xs
    by (induction xs) (auto simp: key_def)
  have rest: "map_of (map key (filter (\<lambda>(k, _). unescape k \<notin> S) xs)) k = map_of (map key xs) k" if "k \<notin> S" for S xs
    using that by (induction xs) (auto simp: key_def)
  have none: "own = None \<longleftrightarrow> k \<notin> unescape ` fst ` set ms'"
    by (simp add: own map_of_eq_None_iff key_def image_image case_prod_unfold)
  define F where "F = (\<lambda>n v. if v = JNull then (case map_of (map key ds') n of Some d \<Rightarrow> d | None \<Rightarrow> JNull) else v)"
  have "map key (completed ds' ms') = map (\<lambda>p. (unescape (fst p), F (unescape (fst p)) (snd p))) ms' @
      map key (filter (\<lambda>(k, _). unescape k \<notin> unescape ` fst ` set ms') ds')"
    unfolding completed_def key F_def by (simp add: key_def comp_def case_prod_unfold)
  then have "map_of (map key (completed ds' ms')) k =
      (case map_option (F k) own of None \<Rightarrow> map_of (map key (filter (\<lambda>(k, _). unescape k \<notin> unescape ` fst ` set ms') ds')) k
       | Some y \<Rightarrow> Some y)"
    by (simp add: map_of_append map_add_def fill own [symmetric])
  then have "map_of (map key (completed ds' ms')) k = (case own of None \<Rightarrow> given | Some y \<Rightarrow> Some (F k y))"
    using rest [of "unescape ` fst ` set ms'" ds'] none by (auto simp: given split: option.splits)
  moreover have "lookup env v [k] = map_of (map key (completed ds' ms')) k" by (simp add: v_def lookup_members_first key_def)
  ultimately have look: "lookup env v [k] = (if own = None \<or> own = Some JNull \<and> given \<noteq> None then given else own)"
    by (auto simp: F_def given split: option.splits)
  have "wf_val v"
    using wf_parts(2) [OF assms(1)] wf_parts(2) [OF assms(4)]
    by (fastforce simp: v_def completed_def ms'_def ds'_def list_all_iff dest: map_of_SomeD split: option.splits)
  moreover have "applyDefault env (w @ render (JObj u ms) @ s) (w' @ render (JObj x ds) @ s') = [] @ render v @ []"
    using Default_tree [OF assms(1-6)] assms(7) by (fastforce simp: v_def ms'_def ds'_def list_all_iff)
  ultimately show ?thesis
    using Get_tree [of v "[k]" env "[]" "[]"] assms(8) look by (simp add: v_def)
qed

lemma merge_without_preserve: "\<not> flag_option env a ''preserve'' \<Longrightarrow> applyMerge env json a = applyMerge env json []"
  by (simp add: applyMerge_def no_flags Let_def)

lemma Group_valid:
  assumes "json_text doc" and "IsObject (Parse env doc)"
  shows "json_text (applyGroup env doc a)"
proof -
  obtain w x s where d: "doc = w @ x @ s" "json_ws w" "json_value x" "json_ws s" using assms(1) by (auto simp: json_text_def)
  then obtain v where v: "wf_val v" "render v = x" using value_tree(1) by blast
  have "IsObject (node_of env v s)" using assms(2) doc_node [OF v(1) d(2,4), of env] by (simp add: d(1) v(2))
  then obtain u ms where o: "v = JObj u ms" by (cases v) simp_all
  have "applyGroup env (w @ render v @ s) a = render (tree_group v)" and wf: "wf_val (tree_group v)"
    unfolding o by (rule Group_tree; use v(1) d(2,4) o in simp)+
  with render_value(1) [OF wf] show ?thesis
    unfolding json_text_def d(1) v(2) by (metis append.left_neutral append_Nil2 ws_Nil)
qed

text \<open>C9: On a valid document \<open>this\<close>, \<open>reverse\<close>, \<open>keys\<close>, \<open>values\<close>, \<open>count\<close>, \<open>first\<close>, \<open>last\<close>, \<open>flatten\<close>, \<open>filter\<close> and
  \<open>project\<close> yield a valid document whatever their argument, \<open>join\<close> does without the option \<open>preserve\<close>, \<open>group\<close>
  on an object, and \<open>string\<close> on every text.\<close>

theorem Transformers_valid:
  assumes "json_text doc"
  shows "json_text (applyIdentity doc a) \<and> json_text (applyReverse env doc a) \<and> json_text (applyKeys env doc a)
    \<and> json_text (applyValues env doc a) \<and> json_text (applyCount env doc a) \<and> json_text (applyFirst env doc a)
    \<and> json_text (applyLast env doc a) \<and> json_text (applyFlatten env doc a)
    \<and> (\<not> flag_option env a ''preserve'' \<longrightarrow> json_text (applyMerge env doc a))
    \<and> (IsObject (Parse env doc) \<longrightarrow> json_text (applyGroup env doc a))
    \<and> json_text (applyFilter env doc a) \<and> json_text (applyProject env doc a) \<and> json_text (applyToString x a)"
proof -
  have "wf_val (JStr (escape_body x))" by (simp add: json_chars_escape_body)
  from render_value(1) [OF this] have "json_text (applyToString x a)"
    unfolding json_text_def applyToString_def appendJSONString_def
    by (intro exI [of _ "[]"] exI [of _ "render (JStr (escape_body x))"]) simp
  moreover have "\<not> flag_option env a ''preserve'' \<longrightarrow> json_text (applyMerge env doc a)"
    using merge_rewrite.result_valid [OF assms] merge_without_preserve by metis
  moreover have "IsObject (Parse env doc) \<longrightarrow> json_text (applyGroup env doc a)" using Group_valid [OF assms] by blast
  ultimately show ?thesis
    using assms
    by (intro conjI this_rewrite.result_valid reverse_rewrite.result_valid keys_rewrite.result_valid values_rewrite.result_valid
      count_rewrite.result_valid first_rewrite.result_valid last_rewrite.result_valid flatten_rewrite.result_valid
      filter_rewrite.result_valid project_rewrite.result_valid) simp_all
qed

section \<open>Examples\<close>

text \<open>\<open>[{"a":"x"},{"a":true,"c":null}]\<close>, \<open>[[true,[null]],null]\<close>, \<open>{"a":null,"b":true}\<close> and \<open>{"a":"x","c":true}\<close>.\<close>

definition sample_objects :: "jval list" where
  "sample_objects = [new_object [(''a'', JStr ''x'')], new_object [(''a'', JTrue), (''c'', JNull)]]"

definition sample_nested :: "jval list" where
  "sample_nested = [new_array [JTrue, new_array [JNull]], JNull]"

lemma sample_chars: "json_chars ''a''" "json_chars ''b''" "json_chars ''c''" "json_chars ''x''" "json_ws '' ''"
  by ((intro json_chars.intros; simp)+, simp add: json_ws_def is_ws_def)

lemma sample_names: "unescape ''a'' = ''a''" "unescape ''b'' = ''b''" "unescape ''c'' = ''c''"
    "safe_key ''a''" "safe_key ''b''" "safe_key ''c''" "path_of [''a''] = ''a''"
  by code_simp+


lemma Flatten_elements_witness:
  "Array plain_env (Parse plain_env (applyFlatten plain_env ('' '' @ render (new_array sample_nested) @ []) [])) =
    map (value_of plain_env) [JTrue, new_array [JNull], JNull]"
proof -
  have "wf_val (new_array sample_nested)" by (simp add: sample_nested_def)
  moreover have "concat (map open_array (elems_of (array_of sample_nested))) = [JTrue, new_array [JNull], JNull]"
    by (simp add: sample_nested_def open_array_def)
  ultimately show ?thesis
    using Flatten_elements [OF _ sample_chars(5) ws_Nil, of "[]" "array_of sample_nested" plain_env "[]"]
    by (simp only: no_flags if_False)
qed

lemma Default_fills_witness:
  "Get plain_env (applyDefault plain_env ('' '' @ render (new_object [(''a'', JNull), (''b'', JTrue)]) @ [])
      ([] @ render (new_object [(''a'', JStr ''x''), (''c'', JTrue)]) @ [])) ''a'' = Some (value_of plain_env (JStr ''x''))"
proof -
  have "wf_val (new_object [(''a'', JNull), (''b'', JTrue)])" "wf_val (new_object [(''a'', JStr ''x''), (''c'', JTrue)])"
    using sample_chars by simp_all
  moreover have "lookup plain_env (new_object [(''a'', JNull), (''b'', JTrue)]) [''a''] = Some JNull"
    "lookup plain_env (new_object [(''a'', JStr ''x''), (''c'', JTrue)]) [''a''] = Some (JStr ''x'')"
    by (simp_all add: object_of.simps sample_names)
  moreover note Default_fills [OF _ sample_chars(5) ws_Nil _ ws_Nil ws_Nil, of "[]" "object_of [(''a'', JNull), (''b'', JTrue)]" "[]"
      "object_of [(''a'', JStr ''x''), (''c'', JTrue)]" plain_env "''a''"]
  ultimately show ?thesis using safe_key_plain [OF sample_names(4), of plain_env] sample_names(1,4,7) by (simp del: lookup.simps render.simps)
qed

lemma Transformers_valid_witness:
  "json_text (applyReverse plain_env (render (new_array sample_nested)) [])
    \<and> json_text (applyFlatten plain_env (render (new_array sample_nested)) ''{deep:true}'')"
proof -
  have "json_value (render (new_array sample_nested))" by (rule render_value(1)) (simp add: sample_nested_def)
  then have "json_text (render (new_array sample_nested))"
    unfolding json_text_def by (intro exI [of _ "[]"] exI [of _ "render (new_array sample_nested)"]) simp
  then show ?thesis using Transformers_valid by blast
qed

end
